(* ===== verification/Kernel_Prelude.thy ===== *)
theory Kernel_Prelude
  imports Main "HOL-Library.Word" "HOL-Library.Tree" "HOL-Library.Monad_Syntax"
begin

unbundle bit_operations_syntax

text \<open>
  The prelude of the development: the machine types of the kernel (\<open>kernel/util/integer_types.h\<close>:
  every address, size and token is a 64-bit word), the packing of a balance factor into the low
  bits of an aligned pointer (\<open>kernel/util/avl_tree.h\<close>), the store of intrusive objects shared by
  all the intrusive containers, and the generic lemmas about them.

  The store follows the split-heap discipline: an object of the class \<open>T\<close> that an intrusive
  container links together has the fields \<open>prev\<close>, \<open>next\<close> (from \<open>chained_allocatable\<close>),
  \<open>tree_parent\<close> (from \<open>treeable\<close> or the class itself) and everything else, \<open>val\<close>; each
  field is a function from addresses. Reading or writing a field through a null pointer or through
  the address of no object is a fault, and a fault is the value \<^term>\<open>None\<close>; so is a loop that
  never ends. A theorem that an operation returns \<open>Some\<close> therefore states memory safety and
  termination together.
\<close>

section \<open>Machine types\<close>

type_synonym u64 = "64 word"
type_synonym addr = "64 word"

abbreviation (input) nullptr :: addr where
  "nullptr \<equiv> 0"

named_theorems store_simps
  \<open>symbolic execution of field reads and writes\<close>

section \<open>A balance factor in the low bits of a pointer\<close>

text \<open>
  \<^verbatim>\<open>_tree_element::get_tree_parent\<close>, \<^verbatim>\<open>get_balance_factor\<close> and \<^verbatim>\<open>set_balance_factor\<close> of
  \<^verbatim>\<open>kernel/util/avl_tree.h\<close>, on the stored word itself. \<^verbatim>\<open>0b111\<close> is the mask of the low three bits;
  the factor read back is sign-extended from its bit 2 and converted to \<^verbatim>\<open>std::int_least8_t\<close>.
\<close>

definition unpack_parent :: "u64 \<Rightarrow> addr" where
  "unpack_parent w = w AND NOT 7"

definition unpack_factor :: "u64 \<Rightarrow> int" where
  "unpack_factor w =
     (let ret = w AND 7
      in sint (ucast (if ret AND 4 \<noteq> 0 then ret OR NOT 7 else ret) :: 8 word))"

definition pack_factor :: "u64 \<Rightarrow> int \<Rightarrow> u64" where
  "pack_factor w factor = unpack_parent w OR (word_of_int factor AND 7)"

text \<open>Objects are at least 8-aligned, which is what leaves the three bits free.\<close>

definition aligned8 :: "addr \<Rightarrow> bool" where
  "aligned8 p \<longleftrightarrow> p AND 7 = 0"

definition factor_range :: "int \<Rightarrow> bool" where
  "factor_range b \<longleftrightarrow> -4 \<le> b \<and> b \<le> 3"

lemma aligned8_0 [simp]: "aligned8 0"
  by (simp add: aligned8_def)

lemma word_and_not7: "(w :: u64) AND 7 = 0 \<Longrightarrow> w AND - 8 = w"
proof -
  assume z: "w AND 7 = 0"
  have "w = (w AND 7) OR (w AND NOT 7)"
    by (simp only: bit.conj_disj_distrib [symmetric] bit.disj_cancel_right bit.conj_one_right)
  with z show ?thesis by simp
qed

lemma unpack_parent_aligned [simp]: "aligned8 p \<Longrightarrow> unpack_parent p = p"
  by (simp add: aligned8_def unpack_parent_def word_and_not7)

lemma unpack_parent_pack [simp]:
  "aligned8 p \<Longrightarrow> unpack_parent (pack_factor p b) = p"
proof -
  assume "aligned8 p"
  then have p: "p AND - 8 = p"
    by (simp add: aligned8_def word_and_not7)
  have "((p AND NOT 7) OR (word_of_int b AND 7)) AND NOT 7 = p AND NOT 7"
    by (rule bit_word_eqI) (simp only: bit_or_iff bit_and_iff bit_not_iff, blast)
  with p show ?thesis
    by (simp add: unpack_parent_def pack_factor_def)
qed

lemma pack_low_bits: "((p AND NOT 7) OR (c AND 7)) AND 7 = (c :: u64) AND 7"
  by (rule bit_word_eqI) (simp only: bit_or_iff bit_and_iff bit_not_iff, blast)

lemma unpack_factor_pack [simp]:
  "factor_range b \<Longrightarrow> unpack_factor (pack_factor p b) = b"
proof -
  assume "factor_range b"
  then have "b = -4 \<or> b = -3 \<or> b = -2 \<or> b = -1 \<or> b = 0 \<or> b = 1 \<or> b = 2 \<or> b = 3"
    by (auto simp: factor_range_def)
  moreover have "unpack_factor (pack_factor p b) =
    (let ret = word_of_int b AND (7 :: u64)
     in sint (ucast (if ret AND 4 \<noteq> 0 then ret OR NOT 7 else ret) :: 8 word))"
    by (simp only: unpack_factor_def pack_factor_def unpack_parent_def pack_low_bits)
  moreover have "(ucast (- 1 :: u64) :: 8 word) = -1"
    by (rule bit_word_eqI) (simp add: bit_simps)
  ultimately show ?thesis
    by (elim disjE) simp_all
qed

lemma pack_factor_again [simp]:
  "aligned8 p \<Longrightarrow> pack_factor (pack_factor p b) c = pack_factor p c"
  by (simp add: pack_factor_def [of "pack_factor p b"] pack_factor_def [of p c])

lemma unpack_factor_0 [simp]: "unpack_factor 0 = 0"
  by (simp add: unpack_factor_def)

lemma pack_factor_0 [simp]: "aligned8 p \<Longrightarrow> pack_factor p 0 = p"
  by (simp add: pack_factor_def)

lemma factor_range_consts [simp]:
  "factor_range 0" "factor_range 1" "factor_range (- 1)" "factor_range 2" "factor_range (- 2)"
  by (simp_all add: factor_range_def)

section \<open>Offsets that do not wrap around\<close>

lemma unat_of_nat_64: "n < 2 ^ 64 \<Longrightarrow> unat (of_nat n :: u64) = n"
  by (simp add: unat_of_nat take_bit_nat_eq_self)

lemma unat_plus_less: "unat (p :: u64) + n < 2 ^ 64 \<Longrightarrow> unat (p + of_nat n) = unat p + n"
proof -
  assume "unat p + n < 2 ^ 64"
  moreover have "p + of_nat n = of_nat (unat p + n)" by simp
  ultimately show ?thesis by (simp only: unat_of_nat_64)
qed

lemma unat_add_one: "unat (i :: u64) + 1 < 2 ^ 64 \<Longrightarrow> unat (i + 1) = unat i + 1"
  using unat_plus_less [of i 1] by simp

end
