(* ===== verification/Intrusive_Store.thy ===== *)
theory Intrusive_Store
  imports Kernel_Prelude
begin

text \<open>
  The store of intrusive objects. \<open>kernel/util/chained_allocator.h\<close> gives every object the links
  \<open>prev\<close> and \<open>next\<close>, \<open>kernel/util/helpers.h\<close> (\<open>treeable\<close>) the link \<open>tree_parent\<close>; the
  containers \<open>avl_tree\<close>, \<open>tree_heap\<close> and \<open>fifo\<close> are written over these three fields.
  Containers extend the record with their own members.
\<close>

section \<open>Objects and their fields\<close>

record 'a store =
  valid :: "addr \<Rightarrow> bool"          \<comment> \<open>the address of an object within its lifetime\<close>
  prev :: "addr \<Rightarrow> addr"
  nxt :: "addr \<Rightarrow> addr"
  tree_parent :: "addr \<Rightarrow> u64"
  val :: "addr \<Rightarrow> 'a"              \<comment> \<open>the members the containers do not touch\<close>

definition accessible :: "('a, 'z) store_scheme \<Rightarrow> addr \<Rightarrow> bool" where
  "accessible s p \<longleftrightarrow> p \<noteq> nullptr \<and> valid s p"

definition read_prev :: "('a, 'z) store_scheme \<Rightarrow> addr \<Rightarrow> addr option" where
  "read_prev s p = (if accessible s p then Some (prev s p) else None)"

definition read_nxt :: "('a, 'z) store_scheme \<Rightarrow> addr \<Rightarrow> addr option" where
  "read_nxt s p = (if accessible s p then Some (nxt s p) else None)"

definition read_tree_parent :: "('a, 'z) store_scheme \<Rightarrow> addr \<Rightarrow> u64 option" where
  "read_tree_parent s p = (if accessible s p then Some (tree_parent s p) else None)"

definition read_val :: "('a, 'z) store_scheme \<Rightarrow> addr \<Rightarrow> 'a option" where
  "read_val s p = (if accessible s p then Some (val s p) else None)"

definition write_prev :: "('a, 'z) store_scheme \<Rightarrow> addr \<Rightarrow> addr \<Rightarrow> ('a, 'z) store_scheme option" where
  "write_prev s p x = (if accessible s p then Some (s\<lparr>prev := (prev s)(p := x)\<rparr>) else None)"

definition write_nxt :: "('a, 'z) store_scheme \<Rightarrow> addr \<Rightarrow> addr \<Rightarrow> ('a, 'z) store_scheme option" where
  "write_nxt s p x = (if accessible s p then Some (s\<lparr>nxt := (nxt s)(p := x)\<rparr>) else None)"

definition write_tree_parent ::
    "('a, 'z) store_scheme \<Rightarrow> addr \<Rightarrow> u64 \<Rightarrow> ('a, 'z) store_scheme option" where
  "write_tree_parent s p x =
     (if accessible s p then Some (s\<lparr>tree_parent := (tree_parent s)(p := x)\<rparr>) else None)"

section \<open>Reads and writes through a live pointer\<close>

lemma accessible_null [simp]: "\<not> accessible s 0"
  by (simp add: accessible_def)

lemma accessible_updates [simp]:
  "accessible (s\<lparr>prev := P\<rparr>) p = accessible s p"
  "accessible (s\<lparr>nxt := N\<rparr>) p = accessible s p"
  "accessible (s\<lparr>tree_parent := T\<rparr>) p = accessible s p"
  by (simp_all add: accessible_def)

lemma reads_accessible [store_simps]:
  "accessible s p \<Longrightarrow> read_prev s p = Some (prev s p)"
  "accessible s p \<Longrightarrow> read_nxt s p = Some (nxt s p)"
  "accessible s p \<Longrightarrow> read_tree_parent s p = Some (tree_parent s p)"
  "accessible s p \<Longrightarrow> read_val s p = Some (val s p)"
  by (simp_all add: read_prev_def read_nxt_def read_tree_parent_def read_val_def)

lemma writes_accessible [store_simps]:
  "accessible s p \<Longrightarrow> write_prev s p x = Some (s\<lparr>prev := (prev s)(p := x)\<rparr>)"
  "accessible s p \<Longrightarrow> write_nxt s p x = Some (s\<lparr>nxt := (nxt s)(p := x)\<rparr>)"
  "accessible s p \<Longrightarrow> write_tree_parent s p w = Some (s\<lparr>tree_parent := (tree_parent s)(p := w)\<rparr>)"
  by (simp_all add: write_prev_def write_nxt_def write_tree_parent_def)

lemma reads_null [simp]:
  "read_prev s 0 = None" "read_nxt s 0 = None" "read_tree_parent s 0 = None" "read_val s 0 = None"
  by (simp_all add: read_prev_def read_nxt_def read_tree_parent_def read_val_def)

end
