(* ===== verification/Avl_Tree.thy ===== *)
theory Avl_Tree
  imports Intrusive_Store
begin

text \<open>
  The intrusive AVL tree of \<open>kernel/util/avl_tree.h\<close>, operation by operation, over the store of
  intrusive objects. The tree object itself has the members \<open>_root\<close> and \<open>_size\<close>; an iterator is
  the address of an element, \<open>end()\<close> the null address. The comparator \<open>_comp\<close> is a parameter:
  \<open>cmp\<close> on two elements, \<open>kcomp\<close> and \<open>compk\<close> for the heterogeneous lookups of a \<open>Key\<close>
  (\<open>_comp(value, element)\<close> and \<open>_comp(element, value)\<close>).

  \<open>Traits::create(element_ptr)\<close> hands the detached element to a temporary owner; the operations
  return that address, so that the caller's smart pointer decides what happens to the object.
\<close>

section \<open>The tree object and the element accessors\<close>

record 'a avl_tree = "'a store" +
  root :: addr
  size :: u64

definition get_tree_parent :: "('a, 'z) store_scheme \<Rightarrow> addr \<Rightarrow> addr option" where
  "get_tree_parent s p = do { w \<leftarrow> read_tree_parent s p; Some (unpack_parent w) }"

definition get_balance_factor :: "('a, 'z) store_scheme \<Rightarrow> addr \<Rightarrow> int option" where
  "get_balance_factor s p = do { w \<leftarrow> read_tree_parent s p; Some (unpack_factor w) }"

definition set_balance_factor ::
    "('a, 'z) store_scheme \<Rightarrow> addr \<Rightarrow> int \<Rightarrow> ('a, 'z) store_scheme option" where
  "set_balance_factor s p factor =
     do { w \<leftarrow> read_tree_parent s p; write_tree_parent s p (pack_factor w factor) }"

definition set_tree_parent ::
    "('a, 'z) store_scheme \<Rightarrow> addr \<Rightarrow> addr \<Rightarrow> ('a, 'z) store_scheme option" where
  "set_tree_parent s p ptr =
     do {
       factor \<leftarrow> get_balance_factor s p;
       s \<leftarrow> write_tree_parent s p ptr;
       set_balance_factor s p factor
     }"

definition get_left :: "('a, 'z) store_scheme \<Rightarrow> addr \<Rightarrow> addr option" where
  "get_left s p = read_prev s p"

definition set_left ::
    "('a, 'z) store_scheme \<Rightarrow> addr \<Rightarrow> addr \<Rightarrow> ('a, 'z) store_scheme option" where
  "set_left s p ptr = write_prev s p ptr"

definition get_right :: "('a, 'z) store_scheme \<Rightarrow> addr \<Rightarrow> addr option" where
  "get_right s p = read_nxt s p"

definition set_right ::
    "('a, 'z) store_scheme \<Rightarrow> addr \<Rightarrow> addr \<Rightarrow> ('a, 'z) store_scheme option" where
  "set_right s p ptr = write_nxt s p ptr"

section \<open>Iterators\<close>

partial_function (option) leftmost :: "'a avl_tree \<Rightarrow> addr \<Rightarrow> addr option" where
  "leftmost s element =
     do {
       l \<leftarrow> get_left s element;
       if l \<noteq> nullptr then leftmost s l else Some element
     }"

partial_function (option) rightmost :: "'a avl_tree \<Rightarrow> addr \<Rightarrow> addr option" where
  "rightmost s element =
     do {
       r \<leftarrow> get_right s element;
       if r \<noteq> nullptr then rightmost s r else Some element
     }"

text \<open>The upward loop of \<open>operator++\<close>: stop above the first node that is a left child.\<close>

partial_function (option) climb_next :: "'a avl_tree \<Rightarrow> addr \<Rightarrow> addr option" where
  "climb_next s element =
     (if element = nullptr then Some nullptr
      else do {
        parent \<leftarrow> get_tree_parent s element;
        left_child \<leftarrow> (if parent \<noteq> nullptr then do { l \<leftarrow> get_left s parent; Some (l = element) }
                       else Some False);
        if left_child then get_tree_parent s element
        else do { p \<leftarrow> get_tree_parent s element; climb_next s p }
      })"

definition iterator_incr :: "'a avl_tree \<Rightarrow> addr \<Rightarrow> addr option" where
  "iterator_incr s element =
     do {
       r \<leftarrow> get_right s element;
       if r \<noteq> nullptr then leftmost s r else climb_next s element
     }"

text \<open>The upward loop of \<open>operator--\<close>.\<close>

partial_function (option) climb_prev :: "'a avl_tree \<Rightarrow> addr \<Rightarrow> addr option" where
  "climb_prev s element =
     (if element = nullptr then Some nullptr
      else do {
        parent \<leftarrow> get_tree_parent s element;
        again \<leftarrow> (if parent = nullptr then Some True
                  else do { l \<leftarrow> get_left s parent; Some (l = element) });
        if again then do { p \<leftarrow> get_tree_parent s element; climb_prev s p }
        else Some element
      })"

definition iterator_decr :: "'a avl_tree \<Rightarrow> addr \<Rightarrow> addr option" where
  "iterator_decr s element =
     do {
       l \<leftarrow> get_left s element;
       if l \<noteq> nullptr then rightmost s l else climb_prev s element
     }"

definition avl_begin :: "'a avl_tree \<Rightarrow> addr option" where
  "avl_begin s = (if root s = nullptr then Some nullptr else leftmost s (root s))"

definition avl_end :: "'a avl_tree \<Rightarrow> addr" where
  "avl_end s = nullptr"

section \<open>Rotations\<close>

definition rotate_left :: "'a avl_tree \<Rightarrow> addr \<Rightarrow> ('a avl_tree \<times> addr) option" where
  "rotate_left s node =
     do {
       parent \<leftarrow> get_tree_parent s node;
       right \<leftarrow> get_right s node;
       right_left \<leftarrow> get_left s right;
       s \<leftarrow> set_right s node right_left;
       s \<leftarrow> (if right_left \<noteq> nullptr then set_tree_parent s right_left node else Some s);
       s \<leftarrow> set_tree_parent s node right;
       s \<leftarrow> set_left s right node;
       s \<leftarrow> set_tree_parent s right parent;
       if parent \<noteq> nullptr then do {
         l \<leftarrow> get_left s parent;
         s \<leftarrow> (if l = node then set_left s parent right else set_right s parent right);
         Some (s, right)
       } else Some (s\<lparr>root := right\<rparr>, right)
     }"

definition rotate_right :: "'a avl_tree \<Rightarrow> addr \<Rightarrow> ('a avl_tree \<times> addr) option" where
  "rotate_right s node =
     do {
       parent \<leftarrow> get_tree_parent s node;
       left \<leftarrow> get_left s node;
       left_right \<leftarrow> get_right s left;
       s \<leftarrow> set_left s node left_right;
       s \<leftarrow> (if left_right \<noteq> nullptr then set_tree_parent s left_right node else Some s);
       s \<leftarrow> set_tree_parent s node left;
       s \<leftarrow> set_right s left node;
       s \<leftarrow> set_tree_parent s left parent;
       if parent \<noteq> nullptr then do {
         l \<leftarrow> get_left s parent;
         s \<leftarrow> (if l = node then set_left s parent left else set_right s parent left);
         Some (s, left)
       } else Some (s\<lparr>root := left\<rparr>, left)
     }"

definition rebalance_left :: "'a avl_tree \<Rightarrow> addr \<Rightarrow> ('a avl_tree \<times> addr) option" where
  "rebalance_left s node =
     do {
       right \<leftarrow> get_right s node;
       b \<leftarrow> get_balance_factor s right;
       s \<leftarrow> (if b = 0 then do {
               s \<leftarrow> set_balance_factor s node 1;
               right \<leftarrow> get_right s node;
               set_balance_factor s right (- 1)
             } else do {
               s \<leftarrow> set_balance_factor s node 0;
               right \<leftarrow> get_right s node;
               set_balance_factor s right 0
             });
       rotate_left s node
     }"

definition rebalance_right :: "'a avl_tree \<Rightarrow> addr \<Rightarrow> ('a avl_tree \<times> addr) option" where
  "rebalance_right s node =
     do {
       left \<leftarrow> get_left s node;
       b \<leftarrow> get_balance_factor s left;
       s \<leftarrow> (if b = 0 then do {
               s \<leftarrow> set_balance_factor s node (- 1);
               left \<leftarrow> get_left s node;
               set_balance_factor s left 1
             } else do {
               s \<leftarrow> set_balance_factor s node 0;
               left \<leftarrow> get_left s node;
               set_balance_factor s left 0
             });
       rotate_right s node
     }"

definition rebalance_left_right :: "'a avl_tree \<Rightarrow> addr \<Rightarrow> ('a avl_tree \<times> addr) option" where
  "rebalance_left_right s node =
     do {
       left \<leftarrow> get_left s node;
       left_right \<leftarrow> get_right s left;
       bf \<leftarrow> get_balance_factor s left_right;
       s \<leftarrow> (if bf = 0 then do {
               s \<leftarrow> set_balance_factor s node 0;
               left \<leftarrow> get_left s node;
               set_balance_factor s left 0
             } else if bf < 0 then do {
               s \<leftarrow> set_balance_factor s node 1;
               left \<leftarrow> get_left s node;
               set_balance_factor s left 0
             } else do {
               s \<leftarrow> set_balance_factor s node 0;
               left \<leftarrow> get_left s node;
               set_balance_factor s left (- 1)
             });
       left \<leftarrow> get_left s node;
       (s, _) \<leftarrow> rotate_left s left;
       (s, ret) \<leftarrow> rotate_right s node;
       s \<leftarrow> set_balance_factor s ret 0;
       Some (s, ret)
     }"

definition rebalance_right_left :: "'a avl_tree \<Rightarrow> addr \<Rightarrow> ('a avl_tree \<times> addr) option" where
  "rebalance_right_left s node =
     do {
       right \<leftarrow> get_right s node;
       right_left \<leftarrow> get_left s right;
       bf \<leftarrow> get_balance_factor s right_left;
       s \<leftarrow> (if bf = 0 then do {
               s \<leftarrow> set_balance_factor s node 0;
               right \<leftarrow> get_right s node;
               set_balance_factor s right 0
             } else if bf > 0 then do {
               s \<leftarrow> set_balance_factor s node (- 1);
               right \<leftarrow> get_right s node;
               set_balance_factor s right 0
             } else do {
               s \<leftarrow> set_balance_factor s node 0;
               right \<leftarrow> get_right s node;
               set_balance_factor s right 1
             });
       right \<leftarrow> get_right s node;
       (s, _) \<leftarrow> rotate_right s right;
       (s, ret) \<leftarrow> rotate_left s node;
       s \<leftarrow> set_balance_factor s ret 0;
       Some (s, ret)
     }"

section \<open>Insertion\<close>

text \<open>The loop of \<open>_insert_rebalance\<close>; \<open>current\<close> is the root of the subtree that grew.\<close>

partial_function (option) insert_rebalance :: "'a avl_tree \<Rightarrow> addr \<Rightarrow> 'a avl_tree option" where
  "insert_rebalance s current =
     do {
       parent \<leftarrow> get_tree_parent s current;
       if parent = nullptr then Some s
       else do {
         r \<leftarrow> get_right s parent;
         b \<leftarrow> get_balance_factor s parent;
         if r = current then
           (if b > 0 then do {
              cb \<leftarrow> get_balance_factor s current;
              (s, _) \<leftarrow> (if cb < 0 then rebalance_right_left s parent else rebalance_left s parent);
              Some s
            } else if b < 0 then set_balance_factor s parent 0
            else do { s \<leftarrow> set_balance_factor s parent 1; insert_rebalance s parent })
         else
           (if b < 0 then do {
              cb \<leftarrow> get_balance_factor s current;
              (s, _) \<leftarrow> (if cb > 0 then rebalance_left_right s parent else rebalance_right s parent);
              Some s
            } else if b > 0 then set_balance_factor s parent 0
            else do { s \<leftarrow> set_balance_factor s parent (- 1); insert_rebalance s parent })
       }
     }"

text \<open>The search of \<open>insert\<close>, up to the point where the element is linked, or an equivalent one found.\<close>

partial_function (option) insert_search ::
    "('a \<Rightarrow> 'a \<Rightarrow> bool) \<Rightarrow> 'a avl_tree \<Rightarrow> addr \<Rightarrow> addr \<Rightarrow> ('a avl_tree \<times> addr \<times> bool) option" where
  "insert_search cmp s element current =
     do {
       e \<leftarrow> read_val s element;
       v \<leftarrow> read_val s current;
       if cmp e v then do {
         l \<leftarrow> get_left s current;
         if l \<noteq> nullptr then insert_search cmp s element l
         else do {
           s \<leftarrow> set_left s current element;
           l \<leftarrow> get_left s current;
           s \<leftarrow> set_tree_parent s l current;
           l \<leftarrow> get_left s current;
           Some (s, l, True)
         }
       } else if cmp v e then do {
         r \<leftarrow> get_right s current;
         if r \<noteq> nullptr then insert_search cmp s element r
         else do {
           s \<leftarrow> set_right s current element;
           r \<leftarrow> get_right s current;
           s \<leftarrow> set_tree_parent s r current;
           r \<leftarrow> get_right s current;
           Some (s, r, True)
         }
       } else Some (s, current, False)
     }"

definition avl_insert ::
    "('a \<Rightarrow> 'a \<Rightarrow> bool) \<Rightarrow> 'a avl_tree \<Rightarrow> addr \<Rightarrow> ('a avl_tree \<times> addr \<times> bool) option" where
  "avl_insert cmp s element_ptr =
     (if root s = nullptr then
        let s = s\<lparr>root := element_ptr\<rparr>; s = s\<lparr>size := size s + 1\<rparr> in Some (s, root s, True)
      else do {
        (s, current, linked) \<leftarrow> insert_search cmp s element_ptr (root s);
        if linked then do {
          s \<leftarrow> insert_rebalance s current;
          Some (s\<lparr>size := size s + 1\<rparr>, current, True)
        } else Some (s, current, False)
      })"

definition avl_insert_hint ::
    "('a \<Rightarrow> 'a \<Rightarrow> bool) \<Rightarrow> 'a avl_tree \<Rightarrow> addr \<Rightarrow> addr \<Rightarrow> ('a avl_tree \<times> addr) option" where
  "avl_insert_hint cmp s hint element_ptr =
     do { (s, it, _) \<leftarrow> avl_insert cmp s element_ptr; Some (s, it) }"

section \<open>Removal\<close>

text \<open>
  One round of the loop of \<open>_erase_rebalance\<close> on the side of \<open>parent\<close> that got shorter: the new
  state, the new \<open>current\<close>, and whether the loop goes on.
\<close>

definition erase_rebalance_step ::
    "'a avl_tree \<Rightarrow> addr \<Rightarrow> bool \<Rightarrow> ('a avl_tree \<times> addr \<times> bool) option" where
  "erase_rebalance_step s parent shortened_left =
     do {
       pb \<leftarrow> get_balance_factor s parent;
       if shortened_left then
         (if pb > 0 then do {
            right \<leftarrow> get_right s parent;
            b \<leftarrow> get_balance_factor s right;
            (s, current) \<leftarrow> (if b < 0 then rebalance_right_left s parent else rebalance_left s parent);
            Some (s, current, b \<noteq> 0)
          } else if pb = 0 then do { s \<leftarrow> set_balance_factor s parent 1; Some (s, parent, False) }
          else do { s \<leftarrow> set_balance_factor s parent 0; Some (s, parent, True) })
       else
         (if pb < 0 then do {
            left \<leftarrow> get_left s parent;
            b \<leftarrow> get_balance_factor s left;
            (s, current) \<leftarrow> (if b > 0 then rebalance_left_right s parent else rebalance_right s parent);
            Some (s, current, b \<noteq> 0)
          } else if pb = 0 then do { s \<leftarrow> set_balance_factor s parent (- 1); Some (s, parent, False) }
          else do { s \<leftarrow> set_balance_factor s parent 0; Some (s, parent, True) })
     }"

partial_function (option) erase_rebalance :: "'a avl_tree \<Rightarrow> addr \<Rightarrow> bool \<Rightarrow> 'a avl_tree option" where
  "erase_rebalance s parent shortened_left =
     (if parent = nullptr then Some s
      else do {
        (s, current, again) \<leftarrow> erase_rebalance_step s parent shortened_left;
        if again then do {
          parent \<leftarrow> get_tree_parent s current;
          shortened_left \<leftarrow> (if parent \<noteq> nullptr then do { l \<leftarrow> get_left s parent; Some (current = l) }
                            else Some False);
          erase_rebalance s parent shortened_left
        } else Some s
      })"

text \<open>
  The three ways \<open>erase\<close> takes a node out of the links; each returns \<open>shortened_base\<close> and
  \<open>shortened_left\<close> (\<^const>\<open>False\<close> where the source leaves it uninitialised, with a null base).
\<close>

definition erase_one_child :: "'a avl_tree \<Rightarrow> addr \<Rightarrow> ('a avl_tree \<times> addr \<times> bool) option" where
  "erase_one_child s wrapped =
     do {
       l \<leftarrow> get_left s wrapped;
       replacement \<leftarrow> (if l \<noteq> nullptr then get_left s wrapped else get_right s wrapped);
       if wrapped = root s then do {
         s \<leftarrow> Some (s\<lparr>root := replacement\<rparr>);
         s \<leftarrow> (if replacement \<noteq> nullptr then set_tree_parent s replacement nullptr else Some s);
         Some (s, nullptr, False)
       } else do {
         parent \<leftarrow> get_tree_parent s wrapped;
         pl \<leftarrow> get_left s parent;
         (s, shortened_left) \<leftarrow>
           (if wrapped = pl then do { s \<leftarrow> set_left s parent replacement; Some (s, True) }
            else do { s \<leftarrow> set_right s parent replacement; Some (s, False) });
         shortened_base \<leftarrow> get_tree_parent s wrapped;
         s \<leftarrow> (if replacement \<noteq> nullptr then do {
                 p \<leftarrow> get_tree_parent s wrapped; set_tree_parent s replacement p
               } else Some s);
         Some (s, shortened_base, shortened_left)
       }
     }"

text \<open>The link from the parent of the removed node to its successor, in both two-children cases.\<close>

definition relink_parent :: "'a avl_tree \<Rightarrow> addr \<Rightarrow> addr \<Rightarrow> 'a avl_tree option" where
  "relink_parent s wrapped next_element =
     do {
       parent \<leftarrow> get_tree_parent s wrapped;
       if parent \<noteq> nullptr then do {
         l \<leftarrow> get_left s parent;
         if wrapped = l then set_left s parent next_element else set_right s parent next_element
       } else Some s
     }"

definition erase_right_child :: "'a avl_tree \<Rightarrow> addr \<Rightarrow> ('a avl_tree \<times> addr \<times> bool) option" where
  "erase_right_child s wrapped =
     do {
       next_element \<leftarrow> get_right s wrapped;
       s \<leftarrow> relink_parent s wrapped next_element;
       b \<leftarrow> get_balance_factor s wrapped;
       s \<leftarrow> set_balance_factor s next_element b;
       l \<leftarrow> get_left s wrapped;
       s \<leftarrow> set_left s next_element l;
       l \<leftarrow> get_left s next_element;
       s \<leftarrow> (if l \<noteq> nullptr then set_tree_parent s l next_element else Some s);
       p \<leftarrow> get_tree_parent s wrapped;
       s \<leftarrow> set_tree_parent s next_element p;
       p \<leftarrow> get_tree_parent s next_element;
       if p = nullptr then do {
         b \<leftarrow> get_balance_factor s wrapped;
         s \<leftarrow> set_balance_factor s next_element (b - 1);
         s \<leftarrow> Some (s\<lparr>root := next_element\<rparr>);
         b \<leftarrow> get_balance_factor s wrapped;
         s \<leftarrow> (if b < 0 then do { (s, _) \<leftarrow> rebalance_right s next_element; Some s } else Some s);
         Some (s, nullptr, False)
       } else Some (s, next_element, False)
     }"

definition erase_leftmost :: "'a avl_tree \<Rightarrow> addr \<Rightarrow> ('a avl_tree \<times> addr \<times> bool) option" where
  "erase_leftmost s wrapped =
     do {
       r \<leftarrow> get_right s wrapped;
       rl \<leftarrow> get_left s r;
       next_element \<leftarrow> leftmost s rl;
       s \<leftarrow> relink_parent s wrapped next_element;
       b \<leftarrow> get_balance_factor s wrapped;
       s \<leftarrow> set_balance_factor s next_element b;
       shortened_base \<leftarrow> get_tree_parent s next_element;
       nr \<leftarrow> get_right s next_element;
       s \<leftarrow> set_left s shortened_base nr;
       nr \<leftarrow> get_right s next_element;
       s \<leftarrow> (if nr \<noteq> nullptr then do {
               p \<leftarrow> get_tree_parent s next_element; set_tree_parent s nr p
             } else Some s);
       l \<leftarrow> get_left s wrapped;
       s \<leftarrow> set_left s next_element l;
       l \<leftarrow> get_left s next_element;
       s \<leftarrow> set_tree_parent s l next_element;
       r \<leftarrow> get_right s wrapped;
       s \<leftarrow> set_right s next_element r;
       r \<leftarrow> get_right s next_element;
       s \<leftarrow> set_tree_parent s r next_element;
       p \<leftarrow> get_tree_parent s wrapped;
       s \<leftarrow> set_tree_parent s next_element p;
       p \<leftarrow> get_tree_parent s next_element;
       Some (if p = nullptr then s\<lparr>root := next_element\<rparr> else s, shortened_base, True)
     }"

text \<open>The body of \<open>erase\<close> between the iterator it returns and the bookkeeping at its end.\<close>

definition erase_links :: "'a avl_tree \<Rightarrow> addr \<Rightarrow> 'a avl_tree option" where
  "erase_links s wrapped =
     do {
       has_left \<leftarrow> get_left s wrapped;
       has_right \<leftarrow> get_right s wrapped;
       (s, shortened_base, shortened_left) \<leftarrow>
         (if \<not> (has_left \<noteq> nullptr \<and> has_right \<noteq> nullptr) then erase_one_child s wrapped
          else do {
            rl \<leftarrow> get_left s has_right;
            if rl = nullptr then erase_right_child s wrapped else erase_leftmost s wrapped
          });
       if shortened_base \<noteq> nullptr then erase_rebalance s shortened_base shortened_left else Some s
     }"

definition avl_erase :: "'a avl_tree \<Rightarrow> addr \<Rightarrow> ('a avl_tree \<times> addr) option" where
  "avl_erase s wrapped =
     do {
       ret \<leftarrow> iterator_incr s wrapped;
       s \<leftarrow> erase_links s wrapped;
       Some (s\<lparr>size := size s - 1\<rparr>, ret)
     }"

section \<open>Lookup\<close>

partial_function (option) find_loop ::
    "('a \<Rightarrow> bool) \<Rightarrow> ('a \<Rightarrow> bool) \<Rightarrow> 'a avl_tree \<Rightarrow> addr \<Rightarrow> addr option" where
  "find_loop lt gt s current =
     do {
       v \<leftarrow> read_val s current;
       if \<not> lt v \<and> \<not> gt v then Some current
       else if lt v then do {
         l \<leftarrow> get_left s current;
         if l = nullptr then Some (avl_end s) else find_loop lt gt s l
       } else do {
         r \<leftarrow> get_right s current;
         if r = nullptr then Some (avl_end s) else find_loop lt gt s r
       }
     }"

definition avl_find ::
    "('k \<Rightarrow> 'a \<Rightarrow> bool) \<Rightarrow> ('a \<Rightarrow> 'k \<Rightarrow> bool) \<Rightarrow> 'a avl_tree \<Rightarrow> 'k \<Rightarrow> addr option" where
  "avl_find kcomp compk s key =
     (if root s = nullptr then Some (avl_end s)
      else find_loop (kcomp key) (\<lambda>v. compk v key) s (root s))"

partial_function (option) lower_bound_loop ::
    "('a \<Rightarrow> bool) \<Rightarrow> ('a \<Rightarrow> bool) \<Rightarrow> 'a avl_tree \<Rightarrow> addr \<Rightarrow> addr option" where
  "lower_bound_loop lt gt s current =
     do {
       v \<leftarrow> read_val s current;
       if \<not> lt v \<and> \<not> gt v then Some current
       else if lt v then do {
         l \<leftarrow> get_left s current;
         if l = nullptr then Some current else lower_bound_loop lt gt s l
       } else do {
         r \<leftarrow> get_right s current;
         if r = nullptr then do {
           p \<leftarrow> get_tree_parent s current;
           if p = nullptr then Some (avl_end s)
           else do {
             pr \<leftarrow> get_right s p;
             if pr = current then Some (avl_end s) else get_tree_parent s current
           }
         } else lower_bound_loop lt gt s r
       }
     }"

definition avl_lower_bound ::
    "('k \<Rightarrow> 'a \<Rightarrow> bool) \<Rightarrow> ('a \<Rightarrow> 'k \<Rightarrow> bool) \<Rightarrow> 'a avl_tree \<Rightarrow> 'k \<Rightarrow> addr option" where
  "avl_lower_bound kcomp compk s key =
     (if root s = nullptr then Some (avl_end s)
      else lower_bound_loop (kcomp key) (\<lambda>v. compk v key) s (root s))"

definition avl_upper_bound ::
    "('k \<Rightarrow> 'a \<Rightarrow> bool) \<Rightarrow> ('a \<Rightarrow> 'k \<Rightarrow> bool) \<Rightarrow> 'a avl_tree \<Rightarrow> 'k \<Rightarrow> addr option" where
  "avl_upper_bound kcomp compk s key =
     do {
       it \<leftarrow> avl_lower_bound kcomp compk s key;
       if it = avl_end s then Some (avl_end s)
       else do {
         v \<leftarrow> read_val s it;
         if \<not> kcomp key v \<and> \<not> compk v key then iterator_incr s it else Some it
       }
     }"

definition avl_erase_key ::
    "('k \<Rightarrow> 'a \<Rightarrow> bool) \<Rightarrow> ('a \<Rightarrow> 'k \<Rightarrow> bool) \<Rightarrow> 'a avl_tree \<Rightarrow> 'k \<Rightarrow> ('a avl_tree \<times> addr) option"
  where
  "avl_erase_key kcomp compk s key = do { it \<leftarrow> avl_find kcomp compk s key; avl_erase s it }"

section \<open>The invariant check\<close>

record invariant_check_result =
  correct :: bool
  reason :: string
  offending_node :: addr

text \<open>\<open>_left_depth\<close> and \<open>_right_depth\<close>, mutually recursive in the source: the side is an argument.\<close>

partial_function (option) side_depth :: "'a avl_tree \<Rightarrow> bool \<Rightarrow> addr \<Rightarrow> int option" where
  "side_depth s left_side node =
     do {
       child \<leftarrow> (if left_side then get_left s node else get_right s node);
       if child = nullptr then Some 0
       else do {
         left_depth \<leftarrow> side_depth s True child;
         right_depth \<leftarrow> side_depth s False child;
         Some ((if left_depth > right_depth then left_depth else right_depth) + 1)
       }
     }"

definition parent_link_ok :: "'a avl_tree \<Rightarrow> addr \<Rightarrow> addr \<Rightarrow> bool option" where
  "parent_link_ok s node child =
     (if child = nullptr then Some True else do { p \<leftarrow> get_tree_parent s child; Some (p = node) })"

partial_function (option) check_node ::
    "('a \<Rightarrow> 'a \<Rightarrow> bool) \<Rightarrow> 'a avl_tree \<Rightarrow> addr \<Rightarrow> invariant_check_result option" where
  "check_node cmp s node =
     (if node = nullptr then Some \<lparr>correct = True, reason = '''', offending_node = nullptr\<rparr>
      else do {
        left \<leftarrow> get_left s node;
        lp \<leftarrow> parent_link_ok s node left;
        if \<not> lp then Some \<lparr>correct = False,
          reason = ''left child does not have a correct parent link'', offending_node = node\<rparr>
        else do {
          right \<leftarrow> get_right s node;
          rp \<leftarrow> parent_link_ok s node right;
          if \<not> rp then Some \<lparr>correct = False,
            reason = ''right child does not have a correct parent link'', offending_node = node\<rparr>
          else do {
            bf \<leftarrow> get_balance_factor s node;
            left_depth \<leftarrow> side_depth s True node;
            right_depth \<leftarrow> side_depth s False node;
            if bf \<noteq> right_depth - left_depth then Some \<lparr>correct = False,
              reason = ''node's balance factor wasn't equal to actual depth difference'',
              offending_node = node\<rparr>
            else if bf < - 1 \<or> bf > 1 then Some \<lparr>correct = False,
              reason = ''node's balance factor was outside of allowed values'', offending_node = node\<rparr>
            else do {
              lret \<leftarrow> (if left = nullptr then check_node cmp s nullptr
                else do {
                  lv \<leftarrow> read_val s left;
                  v \<leftarrow> read_val s node;
                  if \<not> cmp lv v then Some \<lparr>correct = False,
                    reason = ''left child was not lesser than a node'', offending_node = node\<rparr>
                  else check_node cmp s left
                });
              if \<not> correct lret then Some lret
              else if right = nullptr then check_node cmp s nullptr
              else do {
                v \<leftarrow> read_val s node;
                rv \<leftarrow> read_val s right;
                if \<not> cmp v rv then Some \<lparr>correct = False,
                  reason = ''left child was not lesser than a node'', offending_node = node\<rparr>
                else check_node cmp s right
              }
            }
          }
        }
      })"

definition check_invariants ::
    "('a \<Rightarrow> 'a \<Rightarrow> bool) \<Rightarrow> 'a avl_tree \<Rightarrow> invariant_check_result option" where
  "check_invariants cmp s = check_node cmp s (root s)"

section \<open>Destruction\<close>

text \<open>The inner loop of the destructor: rotate right until the root has no left child.\<close>

partial_function (option) rotate_root :: "'a avl_tree \<Rightarrow> 'a avl_tree option" where
  "rotate_root s =
     do {
       l \<leftarrow> get_left s (root s);
       if l \<noteq> nullptr then do { (s, _) \<leftarrow> rotate_right s (root s); rotate_root s } else Some s
     }"

text \<open>
  The destructor with the list of the elements handed back to \<open>Traits::create\<close>, and so released,
  in order.
\<close>

partial_function (option) destroy :: "'a avl_tree \<Rightarrow> addr list \<Rightarrow> ('a avl_tree \<times> addr list) option" where
  "destroy s released =
     (if root s = nullptr then Some (s, released)
      else do {
        s \<leftarrow> rotate_root s;
        let old_root = root s;
        r \<leftarrow> get_right s old_root;
        let s = s\<lparr>root := r\<rparr>;
        if root s = nullptr then Some (s, released)
        else do {
          s \<leftarrow> set_tree_parent s (root s) nullptr;
          destroy s (released @ [old_root])
        }
      })"

end
