(* ===== verification/Avl_Shape.thy ===== *)
theory Avl_Shape
  imports Avl_Tree
begin

text \<open>
  What a well-formed tree in the store is. The pointer structure is abstracted to a binary tree
  whose nodes carry the address of the element and the balance factor stored in it; a position in
  the tree is a zipper, a path of frames from the position up to the root. The section ends with the
  refinement lemmas of the rotations: on a store that holds a tree, the pointer operation returns,
  and the store then holds the rotated tree.
\<close>

section \<open>Shapes and zippers\<close>

type_synonym shape = "(addr \<times> int) tree"

datatype frame =
    LeftOf "addr \<times> int" shape      \<comment> \<open>the hole is the left child; the right subtree\<close>
  | RightOf shape "addr \<times> int"     \<comment> \<open>the left subtree; the hole is the right child\<close>

type_synonym zipper = "frame list"

fun plug :: "zipper \<Rightarrow> shape \<Rightarrow> shape" where
  "plug [] t = t"
| "plug (LeftOf x r # c) t = plug c (Node t x r)"
| "plug (RightOf l x # c) t = plug c (Node l x t)"

fun root_addr :: "shape \<Rightarrow> addr" where
  "root_addr Leaf = nullptr"
| "root_addr (Node l x r) = fst x"

fun addrs :: "shape \<Rightarrow> addr list" where
  "addrs Leaf = []"
| "addrs (Node l x r) = addrs l @ fst x # addrs r"

fun frame_addr :: "frame \<Rightarrow> addr" where
  "frame_addr (LeftOf x r) = fst x"
| "frame_addr (RightOf l x) = fst x"

fun parent_addr :: "zipper \<Rightarrow> addr" where
  "parent_addr [] = nullptr"
| "parent_addr (f # c) = frame_addr f"

fun zipper_addrs :: "zipper \<Rightarrow> addr list" where
  "zipper_addrs [] = []"
| "zipper_addrs (LeftOf x r # c) = fst x # addrs r @ zipper_addrs c"
| "zipper_addrs (RightOf l x # c) = fst x # addrs l @ zipper_addrs c"

section \<open>A shape in the store\<close>

text \<open>
  The predicates take the fields of the store one by one, so that an update of one field at an
  address outside the shape is rewritten away.
\<close>

definition good_addr :: "(addr \<Rightarrow> bool) \<Rightarrow> addr \<Rightarrow> bool" where
  "good_addr V a \<longleftrightarrow> a \<noteq> nullptr \<and> V a \<and> aligned8 a"

fun tree_at ::
    "(addr \<Rightarrow> bool) \<Rightarrow> (addr \<Rightarrow> addr) \<Rightarrow> (addr \<Rightarrow> addr) \<Rightarrow> (addr \<Rightarrow> u64) \<Rightarrow> addr \<Rightarrow> shape \<Rightarrow> bool" where
  "tree_at V P N T q Leaf = True"
| "tree_at V P N T q (Node l x r) =
     (good_addr V (fst x) \<and> factor_range (snd x) \<and>
      P (fst x) = root_addr l \<and> N (fst x) = root_addr r \<and> T (fst x) = pack_factor q (snd x) \<and>
      tree_at V P N T (fst x) l \<and> tree_at V P N T (fst x) r)"

fun zipper_at ::
    "(addr \<Rightarrow> bool) \<Rightarrow> (addr \<Rightarrow> addr) \<Rightarrow> (addr \<Rightarrow> addr) \<Rightarrow> (addr \<Rightarrow> u64) \<Rightarrow> addr \<Rightarrow> addr \<Rightarrow> zipper \<Rightarrow> bool"
  where
  "zipper_at V P N T rt h [] = (rt = h)"
| "zipper_at V P N T rt h (LeftOf x r # c) =
     (good_addr V (fst x) \<and> factor_range (snd x) \<and>
      P (fst x) = h \<and> N (fst x) = root_addr r \<and> T (fst x) = pack_factor (parent_addr c) (snd x) \<and>
      tree_at V P N T (fst x) r \<and> zipper_at V P N T rt (fst x) c)"
| "zipper_at V P N T rt h (RightOf l x # c) =
     (good_addr V (fst x) \<and> factor_range (snd x) \<and>
      P (fst x) = root_addr l \<and> N (fst x) = h \<and> T (fst x) = pack_factor (parent_addr c) (snd x) \<and>
      tree_at V P N T (fst x) l \<and> zipper_at V P N T rt (fst x) c)"

text \<open>The store holds the shape \<open>t\<close> at the position \<open>c\<close> of the tree.\<close>

definition holds :: "'a avl_tree \<Rightarrow> zipper \<Rightarrow> shape \<Rightarrow> bool" where
  "holds s c t \<longleftrightarrow>
     tree_at (valid s) (prev s) (nxt s) (tree_parent s) (parent_addr c) t \<and>
     zipper_at (valid s) (prev s) (nxt s) (tree_parent s) (root s) (root_addr t) c \<and>
     distinct (addrs t @ zipper_addrs c)"

text \<open>What an operation on the links leaves alone.\<close>

definition only_links :: "addr set \<Rightarrow> 'a avl_tree \<Rightarrow> 'a avl_tree \<Rightarrow> bool" where
  "only_links A s s' \<longleftrightarrow>
     valid s' = valid s \<and> val s' = val s \<and> size s' = size s \<and>
     (\<forall>a. a \<notin> A \<longrightarrow> prev s' a = prev s a \<and> nxt s' a = nxt s a \<and> tree_parent s' a = tree_parent s a)"

section \<open>Framing\<close>

lemma set_addrs_plug: "set (addrs (plug c t)) = set (addrs t) \<union> set (zipper_addrs c)"
  by (induction c t rule: plug.induct) auto

lemma distinct_addrs_plug: "distinct (addrs (plug c t)) \<longleftrightarrow> distinct (addrs t @ zipper_addrs c)"
  by (induction c t rule: plug.induct) auto

lemma tree_at_upd [simp]:
  assumes "a \<notin> set (addrs t)"
  shows "tree_at V (P(a := y)) N T q t = tree_at V P N T q t"
    and "tree_at V P (N(a := y)) T q t = tree_at V P N T q t"
    and "tree_at V P N (T(a := w)) q t = tree_at V P N T q t"
  using assms by (induction t arbitrary: q) auto

lemma zipper_at_upd [simp]:
  assumes "a \<notin> set (zipper_addrs c)"
  shows "zipper_at V (P(a := y)) N T rt h c = zipper_at V P N T rt h c"
    and "zipper_at V P (N(a := y)) T rt h c = zipper_at V P N T rt h c"
    and "zipper_at V P N (T(a := w)) rt h c = zipper_at V P N T rt h c"
  using assms by (induction c arbitrary: h rule: zipper_addrs.induct) auto

lemma root_addr_in: "root_addr t \<noteq> 0 \<Longrightarrow> root_addr t \<in> set (addrs t)"
  by (cases t) auto

lemma parent_addr_in: "parent_addr c \<noteq> 0 \<Longrightarrow> parent_addr c \<in> set (zipper_addrs c)"
  by (cases c rule: zipper_addrs.cases) auto

lemma tree_at_good: "tree_at V P N T q t \<Longrightarrow> a \<in> set (addrs t) \<Longrightarrow> good_addr V a"
  by (induction t arbitrary: q) auto

lemma zipper_at_good: "zipper_at V P N T rt h c \<Longrightarrow> a \<in> set (zipper_addrs c) \<Longrightarrow> good_addr V a"
  by (induction c arbitrary: h rule: zipper_addrs.induct) (auto dest: tree_at_good)

lemma tree_at_root_addr_0 [simp]: "tree_at V P N T q t \<Longrightarrow> root_addr t = 0 \<longleftrightarrow> t = Leaf"
  by (cases t) (auto simp: good_addr_def)

lemma zipper_at_parent_addr_0 [simp]:
  "zipper_at V P N T rt h c \<Longrightarrow> parent_addr c = 0 \<longleftrightarrow> c = []"
  by (cases c rule: zipper_addrs.cases) (auto simp: good_addr_def)

lemma zipper_at_aligned [simp]: "zipper_at V P N T rt h c \<Longrightarrow> aligned8 (parent_addr c)"
  by (cases c rule: zipper_addrs.cases) (auto simp: good_addr_def)

lemma zipper_at_root:
  "zipper_at V P N T rt h c \<Longrightarrow> rt = (if c = [] then h else frame_addr (last c))"
  by (induction V P N T rt h c rule: zipper_at.induct) auto

lemma frame_addr_last_in: "c \<noteq> [] \<Longrightarrow> frame_addr (last c) \<in> set (zipper_addrs c)"
  by (induction c rule: zipper_addrs.induct) auto

lemma good_accessible: "good_addr (valid s) a \<Longrightarrow> accessible s a"
  by (simp add: good_addr_def accessible_def)

section \<open>Executing the element accessors\<close>

lemma accessors [store_simps]:
  "accessible s p \<Longrightarrow> get_left s p = Some (prev s p)"
  "accessible s p \<Longrightarrow> get_right s p = Some (nxt s p)"
  "accessible s p \<Longrightarrow> get_tree_parent s p = Some (unpack_parent (tree_parent s p))"
  "accessible s p \<Longrightarrow> get_balance_factor s p = Some (unpack_factor (tree_parent s p))"
  "accessible s p \<Longrightarrow> set_left s p x = Some (s\<lparr>prev := (prev s)(p := x)\<rparr>)"
  "accessible s p \<Longrightarrow> set_right s p x = Some (s\<lparr>nxt := (nxt s)(p := x)\<rparr>)"
  "accessible s p \<Longrightarrow> set_balance_factor s p b =
     Some (s\<lparr>tree_parent := (tree_parent s)(p := pack_factor (tree_parent s p) b)\<rparr>)"
  "accessible s p \<Longrightarrow> set_tree_parent s p q =
     Some (s\<lparr>tree_parent := (tree_parent s)(p := pack_factor q (unpack_factor (tree_parent s p)))\<rparr>)"
  by (simp_all add: get_left_def get_right_def get_tree_parent_def get_balance_factor_def
      set_left_def set_right_def set_balance_factor_def set_tree_parent_def
      reads_accessible writes_accessible)

lemma accessors_null [simp]:
  "get_left s 0 = None" "get_right s 0 = None" "get_tree_parent s 0 = None"
  by (simp_all add: get_left_def get_right_def get_tree_parent_def)

lemma accessible_root_size [simp]:
  "accessible (s\<lparr>root := a\<rparr>) p = accessible s p"
  "accessible (s\<lparr>size := n\<rparr>) p = accessible s p"
  by (simp_all add: accessible_def)

section \<open>Hanging a subtree somewhere else\<close>

text \<open>The parent link of the root of a subtree, and the link from the position to its child.\<close>

fun reparent :: "shape \<Rightarrow> (addr \<Rightarrow> u64) \<Rightarrow> addr \<Rightarrow> (addr \<Rightarrow> u64)" where
  "reparent Leaf T q = T"
| "reparent (Node l x r) T q = T(fst x := pack_factor q (snd x))"

fun hang_prev :: "zipper \<Rightarrow> (addr \<Rightarrow> addr) \<Rightarrow> addr \<Rightarrow> (addr \<Rightarrow> addr)" where
  "hang_prev (LeftOf x r # c) P h = P(fst x := h)"
| "hang_prev c P h = P"

fun hang_nxt :: "zipper \<Rightarrow> (addr \<Rightarrow> addr) \<Rightarrow> addr \<Rightarrow> (addr \<Rightarrow> addr)" where
  "hang_nxt (RightOf l x # c) N h = N(fst x := h)"
| "hang_nxt c N h = N"

fun hang_root :: "zipper \<Rightarrow> addr \<Rightarrow> addr \<Rightarrow> addr" where
  "hang_root [] rt h = h"
| "hang_root (f # c) rt h = rt"

lemma tree_at_reparent [simp]:
  "tree_at V P N T q t \<Longrightarrow> distinct (addrs t) \<Longrightarrow> tree_at V P N (reparent t T q') q' t"
  by (cases t) auto

lemma tree_at_reparent_other [simp]:
  "set (addrs t) \<inter> set (addrs u) = {} \<Longrightarrow>
     tree_at V P N (reparent t T q) q' u = tree_at V P N T q' u"
  by (cases t) auto

lemma zipper_at_reparent_other [simp]:
  "set (addrs t) \<inter> set (zipper_addrs c) = {} \<Longrightarrow>
     zipper_at V P N (reparent t T q) rt h c = zipper_at V P N T rt h c"
  by (cases t) auto

lemma reparent_apply [simp]: "a \<notin> set (addrs t) \<Longrightarrow> reparent t T q a = T a"
  by (cases t) auto

lemma tree_at_hang [simp]:
  assumes "set (zipper_addrs c) \<inter> set (addrs t) = {}"
  shows "tree_at V (hang_prev c P h) N T q t = tree_at V P N T q t"
    and "tree_at V P (hang_nxt c N h) T q t = tree_at V P N T q t"
  using assms by (cases c rule: zipper_addrs.cases; simp)+

lemma hang_apply [simp]:
  assumes "a \<notin> set (zipper_addrs c)"
  shows "hang_prev c P h a = P a" and "hang_nxt c N h a = N a"
  using assms by (cases c rule: zipper_addrs.cases; simp)+

lemma zipper_at_hang [simp]:
  "zipper_at V P N T rt h c \<Longrightarrow> distinct (zipper_addrs c) \<Longrightarrow>
     zipper_at V (hang_prev c P h') (hang_nxt c N h') T (hang_root c rt h') h' c"
  by (cases c rule: zipper_addrs.cases) auto

lemma reparent_exec:
  assumes "tree_at (valid s) P N T q' t" and "tree_parent s (root_addr t) = T (root_addr t)"
  shows "(if root_addr t \<noteq> 0 then set_tree_parent s (root_addr t) q else Some s) =
           Some (s\<lparr>tree_parent := reparent t (tree_parent s) q\<rparr>)"
  using assms by (cases t) (auto simp: accessors good_accessible good_addr_def)

lemma hang_exec:
  assumes "zipper_at (valid s) (prev s) (nxt s) (tree_parent s) (root s) old c"
    and "old \<noteq> 0" and "old \<notin> set (zipper_addrs c)"
  shows "(if parent_addr c \<noteq> 0 then do {
            l \<leftarrow> get_left s (parent_addr c);
            s \<leftarrow> (if l = old then set_left s (parent_addr c) h else set_right s (parent_addr c) h);
            Some (s, h)
          } else Some (s\<lparr>root := h\<rparr>, h)) =
         Some (s\<lparr>prev := hang_prev c (prev s) h, nxt := hang_nxt c (nxt s) h,
                 root := hang_root c (root s) h\<rparr>, h)"
proof (cases c rule: zipper_addrs.cases)
  case 1
  then show ?thesis by simp
next
  case (2 x r c')
  with assms show ?thesis
    by (auto simp: accessors good_accessible good_addr_def)
next
  case (3 l x c')
  with assms have "root_addr l \<noteq> old"
    using root_addr_in [of l] by auto
  with 3 assms show ?thesis
    by (auto simp: accessors good_accessible good_addr_def)
qed

section \<open>Moving the position, composing operations\<close>

lemma holds_left: "holds s (LeftOf x r # c) l \<longleftrightarrow> holds s c (Node l x r)"
  by (auto simp: holds_def)

lemma holds_right: "holds s (RightOf l x # c) r \<longleftrightarrow> holds s c (Node l x r)"
  by (auto simp: holds_def)

lemmas into_left = holds_left [THEN iffD2] and into_right = holds_right [THEN iffD2]
  and out_left = holds_left [THEN iffD1] and out_right = holds_right [THEN iffD1]

lemma holds_plug: "holds s [] (plug c t) \<longleftrightarrow> holds s c t"
  by (induction c t rule: plug.induct) (auto simp: holds_left holds_right)

lemma holds_accessible: "holds s c (Node l x r) \<Longrightarrow> accessible s (fst x)"
  by (simp add: holds_def good_accessible)

lemma only_links_refl [simp]: "only_links A s s"
  by (simp add: only_links_def)

lemma only_links_trans [trans]:
  "only_links A s s' \<Longrightarrow> only_links A s' s'' \<Longrightarrow> only_links A s s''"
  by (simp add: only_links_def)

lemma only_links_mono: "only_links A s s' \<Longrightarrow> A \<subseteq> B \<Longrightarrow> only_links B s s'"
  by (auto simp: only_links_def)

lemma only_links_fields:
  "only_links A s s' \<Longrightarrow> valid s' = valid s"
  "only_links A s s' \<Longrightarrow> val s' = val s"
  "only_links A s s' \<Longrightarrow> size s' = size s"
  by (simp_all add: only_links_def)

lemma set_factor_refines:
  assumes h: "holds s c (Node l (a, b) r)" and b': "factor_range b'"
  obtains s' where "set_balance_factor s a b' = Some s'"
    and "holds s' c (Node l (a, b') r)"
    and "only_links (set (addrs (plug c (Node l (a, b) r)))) s s'"
proof
  let ?s' = "s\<lparr>tree_parent := (tree_parent s)(a := pack_factor (parent_addr c) b')\<rparr>"
  from h have "tree_parent s a = pack_factor (parent_addr c) b" "aligned8 (parent_addr c)"
    by (auto simp: holds_def)
  then show "set_balance_factor s a b' = Some ?s'"
    using holds_accessible [OF h] by (simp add: accessors)
  show "holds ?s' c (Node l (a, b') r)"
    using h b' by (simp add: holds_def)
  show "only_links (set (addrs (plug c (Node l (a, b) r)))) s ?s'"
    by (simp add: only_links_def set_addrs_plug)
qed

section \<open>The rotations refine the rotations of shapes\<close>

lemma rotate_left_refines:
  assumes h: "holds s c (Node A (n, bn) (Node B (r, br) C))"
  obtains s' where "rotate_left s n = Some (s', r)"
    and "holds s' c (Node (Node A (n, bn) B) (r, br) C)"
    and "only_links (set (addrs (plug c (Node A (n, bn) (Node B (r, br) C))))) s s'"
proof -
  let ?V = "valid s" and ?P = "prev s" and ?N = "nxt s" and ?T = "tree_parent s"
  from h have [simp]: "accessible s n" "accessible s r" "n \<noteq> r" "r \<noteq> n" "n \<noteq> 0" "r \<noteq> 0"
      "aligned8 n" "aligned8 r" "factor_range bn" "factor_range br" "aligned8 (parent_addr c)"
      "?N n = r" "?P r = root_addr B" "?T n = pack_factor (parent_addr c) bn" "?T r = pack_factor n br"
      "n \<notin> set (addrs B)" "r \<notin> set (addrs B)" "n \<notin> set (zipper_addrs c)" "r \<notin> set (zipper_addrs c)"
      "set (addrs B) \<inter> set (zipper_addrs c) = {}"
    and B: "tree_at ?V ?P ?N ?T r B" and c: "zipper_at ?V ?P ?N ?T (root s) n c"
    by (auto simp: holds_def good_addr_def accessible_def)
  let ?s' = "s\<lparr>root := hang_root c (root s) r,
     nxt := hang_nxt c (?N(n := root_addr B)) r, prev := hang_prev c (?P(r := n)) r,
     tree_parent := (reparent B ?T n)(n := pack_factor r bn, r := pack_factor (parent_addr c) br)\<rparr>"
  have R: "(if root_addr B \<noteq> 0 then set_tree_parent s' (root_addr B) q else Some s') =
      Some (s'\<lparr>tree_parent := reparent B (tree_parent s') q\<rparr>)"
    if "valid s' = ?V" "tree_parent s' (root_addr B) = ?T (root_addr B)" for s' :: "'a avl_tree" and q
    using that reparent_exec [of s' ?P ?N ?T r B] B by simp
  have "rotate_left s n = Some (?s', r)"
    by (simp add: rotate_left_def accessors R hang_exec c split del: if_split)
  moreover have "holds ?s' c (Node (Node A (n, bn) B) (r, br) C)"
    using h zipper_at_hang [of ?V "?P(r := n)" "?N(n := root_addr B)" ?T "root s" n c r]
      tree_at_reparent [OF B, of n]
    by (simp add: holds_def Int_Un_distrib Int_commute)
  moreover have "only_links (set (addrs (plug c (Node A (n, bn) (Node B (r, br) C))))) s ?s'"
    by (simp add: only_links_def set_addrs_plug)
  ultimately show thesis by (rule that)
qed

lemma rotate_right_refines:
  assumes h: "holds s c (Node (Node A (l, bl) B) (n, bn) C)"
  obtains s' where "rotate_right s n = Some (s', l)"
    and "holds s' c (Node A (l, bl) (Node B (n, bn) C))"
    and "only_links (set (addrs (plug c (Node (Node A (l, bl) B) (n, bn) C)))) s s'"
proof -
  let ?V = "valid s" and ?P = "prev s" and ?N = "nxt s" and ?T = "tree_parent s"
  from h have [simp]: "accessible s n" "accessible s l" "n \<noteq> l" "l \<noteq> n" "n \<noteq> 0" "l \<noteq> 0"
      "aligned8 n" "aligned8 l" "factor_range bn" "factor_range bl" "aligned8 (parent_addr c)"
      "?P n = l" "?N l = root_addr B" "?T n = pack_factor (parent_addr c) bn" "?T l = pack_factor n bl"
      "n \<notin> set (addrs B)" "l \<notin> set (addrs B)" "n \<notin> set (zipper_addrs c)" "l \<notin> set (zipper_addrs c)"
      "set (addrs B) \<inter> set (zipper_addrs c) = {}"
    and B: "tree_at ?V ?P ?N ?T l B" and c: "zipper_at ?V ?P ?N ?T (root s) n c"
    by (auto simp: holds_def good_addr_def accessible_def)
  let ?s' = "s\<lparr>root := hang_root c (root s) l,
     nxt := hang_nxt c (?N(l := n)) l, prev := hang_prev c (?P(n := root_addr B)) l,
     tree_parent := (reparent B ?T n)(n := pack_factor l bn, l := pack_factor (parent_addr c) bl)\<rparr>"
  have R: "(if root_addr B \<noteq> 0 then set_tree_parent s' (root_addr B) q else Some s') =
      Some (s'\<lparr>tree_parent := reparent B (tree_parent s') q\<rparr>)"
    if "valid s' = ?V" "tree_parent s' (root_addr B) = ?T (root_addr B)" for s' :: "'a avl_tree" and q
    using that reparent_exec [of s' ?P ?N ?T l B] B by simp
  have "rotate_right s n = Some (?s', l)"
    by (simp add: rotate_right_def accessors R hang_exec c split del: if_split)
  moreover have "holds ?s' c (Node A (l, bl) (Node B (n, bn) C))"
    using h zipper_at_hang [of ?V "?P(n := root_addr B)" "?N(l := n)" ?T "root s" n c l]
      tree_at_reparent [OF B, of n]
    by (simp add: holds_def Int_Un_distrib Int_commute)
  moreover have "only_links (set (addrs (plug c (Node (Node A (l, bl) B) (n, bn) C)))) s ?s'"
    by (simp add: only_links_def set_addrs_plug)
  ultimately show thesis by (rule that)
qed

end
