(* ===== verification/Avl_Rebalance.thy ===== *)
theory Avl_Rebalance
  imports Avl_Shape
begin

text \<open>
  The rebalancing steps of \<open>kernel/util/avl_tree.h\<close> at the level of shapes, and that the pointer
  operations refine them. The shape-level functions are the reference definitions: no addresses are
  followed, no links are written.
\<close>

section \<open>Reference definitions\<close>

fun factor :: "shape \<Rightarrow> int" where
  "factor Leaf = 0"
| "factor (Node l x r) = snd x"

fun reb_left :: "shape \<Rightarrow> shape" where
  "reb_left (Node A (n, bn) (Node B (r, br) C)) =
     (if br = 0 then Node (Node A (n, 1) B) (r, - 1) C
      else Node (Node A (n, 0) B) (r, 0) C)"
| "reb_left t = t"

fun reb_right :: "shape \<Rightarrow> shape" where
  "reb_right (Node (Node A (l, bl) B) (n, bn) C) =
     (if bl = 0 then Node A (l, 1) (Node B (n, - 1) C)
      else Node A (l, 0) (Node B (n, 0) C))"
| "reb_right t = t"

fun reb_left_right :: "shape \<Rightarrow> shape" where
  "reb_left_right (Node (Node A (l, bl) (Node B (g, bg) C)) (n, bn) D) =
     Node (Node A (l, if bg > 0 then - 1 else 0) B) (g, 0) (Node C (n, if bg < 0 then 1 else 0) D)"
| "reb_left_right t = t"

fun reb_right_left :: "shape \<Rightarrow> shape" where
  "reb_right_left (Node A (n, bn) (Node (Node B (g, bg) C) (r, br) D)) =
     Node (Node A (n, if bg > 0 then - 1 else 0) B) (g, 0) (Node C (r, if bg < 0 then 1 else 0) D)"
| "reb_right_left t = t"

section \<open>Refinement of the single and double rotations with their factors\<close>

lemma only_links_compose:
  "only_links A s s' \<Longrightarrow> only_links B s' s'' \<Longrightarrow> A \<subseteq> S \<Longrightarrow> B \<subseteq> S \<Longrightarrow> only_links S s s''"
  by (blast intro: only_links_trans only_links_mono)

lemma holds_links:
  assumes "holds s c (Node l (a, b) r)"
  shows "get_left s a = Some (root_addr l)" and "get_right s a = Some (root_addr r)"
    and "get_balance_factor s a = Some b" and "get_tree_parent s a = Some (parent_addr c)"
    and "a \<noteq> 0"
  using assms holds_accessible [OF assms]
  by (auto simp: holds_def accessors good_addr_def)

lemma rebalance_left_refines:
  assumes h: "holds s c (Node A (n, bn) (Node B (r, br) C))"
  obtains s' where "rebalance_left s n = Some (s', r)"
    and "holds s' c (reb_left (Node A (n, bn) (Node B (r, br) C)))"
    and "only_links (set (addrs (plug c (Node A (n, bn) (Node B (r, br) C))))) s s'"
proof -
  let ?x = "if br = 0 then 1 else 0" and ?y = "if br = 0 then - 1 else 0"
  obtain s1 where s1: "set_balance_factor s n ?x = Some s1"
    and h1: "holds s1 c (Node A (n, ?x) (Node B (r, br) C))"
    and o1: "only_links (set (addrs (plug c (Node A (n, bn) (Node B (r, br) C))))) s s1"
    by (rule set_factor_refines [OF h, of ?x]) auto
  obtain s2 where s2: "set_balance_factor s1 r ?y = Some s2"
    and h2: "holds s2 (RightOf A (n, ?x) # c) (Node B (r, ?y) C)"
    and o2: "only_links (set (addrs (plug (RightOf A (n, ?x) # c) (Node B (r, br) C)))) s1 s2"
    by (rule set_factor_refines [OF into_right [OF h1], of ?y]) auto
  obtain s3 where s3: "rotate_left s2 n = Some (s3, r)"
    and h3: "holds s3 c (Node (Node A (n, ?x) B) (r, ?y) C)"
    and o3: "only_links (set (addrs (plug c (Node A (n, ?x) (Node B (r, ?y) C))))) s2 s3"
    by (rule rotate_left_refines [OF out_right [OF h2]])
  have "get_balance_factor s r = Some br"
    by (rule holds_links [OF into_right [OF h]])
  with holds_links [OF h] holds_links [OF h1] s1 s2 s3 have "rebalance_left s n = Some (s3, r)"
    by (auto simp: rebalance_left_def split: if_splits)
  moreover have "holds s3 c (reb_left (Node A (n, bn) (Node B (r, br) C)))"
    using h3 by (auto split: if_splits)
  moreover have "only_links (set (addrs (plug c (Node A (n, bn) (Node B (r, br) C))))) s s3"
    using o1 o2 o3 by (simp add: only_links_def set_addrs_plug)
  ultimately show thesis by (rule that)
qed

lemma rebalance_right_refines:
  assumes h: "holds s c (Node (Node A (l, bl) B) (n, bn) C)"
  obtains s' where "rebalance_right s n = Some (s', l)"
    and "holds s' c (reb_right (Node (Node A (l, bl) B) (n, bn) C))"
    and "only_links (set (addrs (plug c (Node (Node A (l, bl) B) (n, bn) C)))) s s'"
proof -
  let ?x = "if bl = 0 then - 1 else 0" and ?y = "if bl = 0 then 1 else 0"
  obtain s1 where s1: "set_balance_factor s n ?x = Some s1"
    and h1: "holds s1 c (Node (Node A (l, bl) B) (n, ?x) C)"
    and o1: "only_links (set (addrs (plug c (Node (Node A (l, bl) B) (n, bn) C)))) s s1"
    by (rule set_factor_refines [OF h, of ?x]) auto
  obtain s2 where s2: "set_balance_factor s1 l ?y = Some s2"
    and h2: "holds s2 (LeftOf (n, ?x) C # c) (Node A (l, ?y) B)"
    and o2: "only_links (set (addrs (plug (LeftOf (n, ?x) C # c) (Node A (l, bl) B)))) s1 s2"
    by (rule set_factor_refines [OF into_left [OF h1], of ?y]) auto
  obtain s3 where s3: "rotate_right s2 n = Some (s3, l)"
    and h3: "holds s3 c (Node A (l, ?y) (Node B (n, ?x) C))"
    and o3: "only_links (set (addrs (plug c (Node (Node A (l, ?y) B) (n, ?x) C)))) s2 s3"
    by (rule rotate_right_refines [OF out_left [OF h2]])
  have "get_balance_factor s l = Some bl"
    by (rule holds_links [OF into_left [OF h]])
  with holds_links [OF h] holds_links [OF h1] s1 s2 s3 have "rebalance_right s n = Some (s3, l)"
    by (auto simp: rebalance_right_def split: if_splits)
  moreover have "holds s3 c (reb_right (Node (Node A (l, bl) B) (n, bn) C))"
    using h3 by (auto split: if_splits)
  moreover have "only_links (set (addrs (plug c (Node (Node A (l, bl) B) (n, bn) C)))) s s3"
    using o1 o2 o3 by (simp add: only_links_def set_addrs_plug)
  ultimately show thesis by (rule that)
qed

lemma rebalance_left_right_refines:
  assumes h: "holds s c (Node (Node A (l, bl) (Node B (g, bg) C)) (n, bn) D)"
  obtains s' where "rebalance_left_right s n = Some (s', g)"
    and "holds s' c (reb_left_right (Node (Node A (l, bl) (Node B (g, bg) C)) (n, bn) D))"
    and "only_links (set (addrs (plug c (Node (Node A (l, bl) (Node B (g, bg) C)) (n, bn) D)))) s s'"
proof -
  let ?x = "if bg < 0 then 1 else 0" and ?y = "if bg > 0 then - 1 else 0"
  obtain s1 where s1: "set_balance_factor s n ?x = Some s1"
    and h1: "holds s1 c (Node (Node A (l, bl) (Node B (g, bg) C)) (n, ?x) D)"
    and o1: "only_links (set (addrs (plug c (Node (Node A (l, bl) (Node B (g, bg) C)) (n, bn) D)))) s s1"
    by (rule set_factor_refines [OF h, of ?x]) auto
  obtain s2 where s2: "set_balance_factor s1 l ?y = Some s2"
    and h2: "holds s2 (LeftOf (n, ?x) D # c) (Node A (l, ?y) (Node B (g, bg) C))"
    and o2: "only_links (set (addrs (plug (LeftOf (n, ?x) D # c) (Node A (l, bl) (Node B (g, bg) C))))) s1 s2"
    by (rule set_factor_refines [OF into_left [OF h1], of ?y]) auto
  obtain s3 where s3: "rotate_left s2 l = Some (s3, g)"
    and h3: "holds s3 (LeftOf (n, ?x) D # c) (Node (Node A (l, ?y) B) (g, bg) C)"
    and o3: "only_links (set (addrs (plug (LeftOf (n, ?x) D # c) (Node A (l, ?y) (Node B (g, bg) C))))) s2 s3"
    by (rule rotate_left_refines [OF h2])
  obtain s4 where s4: "rotate_right s3 n = Some (s4, g)"
    and h4: "holds s4 c (Node (Node A (l, ?y) B) (g, bg) (Node C (n, ?x) D))"
    and o4: "only_links (set (addrs (plug c (Node (Node (Node A (l, ?y) B) (g, bg) C) (n, ?x) D)))) s3 s4"
    by (rule rotate_right_refines [OF out_left [OF h3]])
  obtain s5 where s5: "set_balance_factor s4 g 0 = Some s5"
    and h5: "holds s5 c (Node (Node A (l, ?y) B) (g, 0) (Node C (n, ?x) D))"
    and o5: "only_links (set (addrs (plug c (Node (Node A (l, ?y) B) (g, bg) (Node C (n, ?x) D))))) s4 s5"
    by (rule set_factor_refines [OF h4, of 0]) auto
  have "get_right s l = Some g" "get_balance_factor s g = Some bg"
    using holds_links [OF into_left [OF h]] holds_links [OF into_right [OF into_left [OF h]]]
    by simp_all
  with holds_links [OF h] holds_links [OF h1] holds_links [OF out_left [OF h2]] s1 s2 s3 s4 s5
  have "rebalance_left_right s n = Some (s5, g)"
    by (auto simp: rebalance_left_right_def split: if_splits)
  moreover have "holds s5 c (reb_left_right (Node (Node A (l, bl) (Node B (g, bg) C)) (n, bn) D))"
    using h5 by (auto split: if_splits)
  moreover have "only_links (set (addrs (plug c (Node (Node A (l, bl) (Node B (g, bg) C)) (n, bn) D)))) s s5"
    using o1 o2 o3 o4 o5 by (simp add: only_links_def set_addrs_plug)
  ultimately show thesis by (rule that)
qed

lemma rebalance_right_left_refines:
  assumes h: "holds s c (Node A (n, bn) (Node (Node B (g, bg) C) (r, br) D))"
  obtains s' where "rebalance_right_left s n = Some (s', g)"
    and "holds s' c (reb_right_left (Node A (n, bn) (Node (Node B (g, bg) C) (r, br) D)))"
    and "only_links (set (addrs (plug c (Node A (n, bn) (Node (Node B (g, bg) C) (r, br) D))))) s s'"
proof -
  let ?x = "if bg > 0 then - 1 else 0" and ?y = "if bg < 0 then 1 else 0"
  obtain s1 where s1: "set_balance_factor s n ?x = Some s1"
    and h1: "holds s1 c (Node A (n, ?x) (Node (Node B (g, bg) C) (r, br) D))"
    and o1: "only_links (set (addrs (plug c (Node A (n, bn) (Node (Node B (g, bg) C) (r, br) D))))) s s1"
    by (rule set_factor_refines [OF h, of ?x]) auto
  obtain s2 where s2: "set_balance_factor s1 r ?y = Some s2"
    and h2: "holds s2 (RightOf A (n, ?x) # c) (Node (Node B (g, bg) C) (r, ?y) D)"
    and o2: "only_links (set (addrs (plug (RightOf A (n, ?x) # c) (Node (Node B (g, bg) C) (r, br) D)))) s1 s2"
    by (rule set_factor_refines [OF into_right [OF h1], of ?y]) auto
  obtain s3 where s3: "rotate_right s2 r = Some (s3, g)"
    and h3: "holds s3 (RightOf A (n, ?x) # c) (Node B (g, bg) (Node C (r, ?y) D))"
    and o3: "only_links (set (addrs (plug (RightOf A (n, ?x) # c) (Node (Node B (g, bg) C) (r, ?y) D)))) s2 s3"
    by (rule rotate_right_refines [OF h2])
  obtain s4 where s4: "rotate_left s3 n = Some (s4, g)"
    and h4: "holds s4 c (Node (Node A (n, ?x) B) (g, bg) (Node C (r, ?y) D))"
    and o4: "only_links (set (addrs (plug c (Node A (n, ?x) (Node B (g, bg) (Node C (r, ?y) D)))))) s3 s4"
    by (rule rotate_left_refines [OF out_right [OF h3]])
  obtain s5 where s5: "set_balance_factor s4 g 0 = Some s5"
    and h5: "holds s5 c (Node (Node A (n, ?x) B) (g, 0) (Node C (r, ?y) D))"
    and o5: "only_links (set (addrs (plug c (Node (Node A (n, ?x) B) (g, bg) (Node C (r, ?y) D))))) s4 s5"
    by (rule set_factor_refines [OF h4, of 0]) auto
  have "get_left s r = Some g" "get_balance_factor s g = Some bg"
    using holds_links [OF into_right [OF h]] holds_links [OF into_left [OF into_right [OF h]]]
    by simp_all
  with holds_links [OF h] holds_links [OF h1] holds_links [OF out_right [OF h2]] s1 s2 s3 s4 s5
  have "rebalance_right_left s n = Some (s5, g)"
    by (auto simp: rebalance_right_left_def split: if_splits)
  moreover have "holds s5 c (reb_right_left (Node A (n, bn) (Node (Node B (g, bg) C) (r, br) D)))"
    using h5 by (auto split: if_splits)
  moreover have "only_links (set (addrs (plug c (Node A (n, bn) (Node (Node B (g, bg) C) (r, br) D))))) s s5"
    using o1 o2 o3 o4 o5 by (simp add: only_links_def set_addrs_plug)
  ultimately show thesis by (rule that)
qed

end
