(* ===== verification/Avl_Insert.thy ===== *)
theory Avl_Insert
  imports Avl_Rebalance
begin

text \<open>
  Insertion into the AVL tree: the pointer loops of \<open>insert\<close> and \<open>_insert_rebalance\<close> refine
  functions on shapes and zippers, and those keep the tree balanced and add exactly one element.
\<close>

section \<open>Balance\<close>

text \<open>The factor \<open>b\<close> of a node whose subtrees have the heights \<open>h\<close> and \<open>k\<close>: \<open>k - h\<close>, at most one.\<close>

definition tilt :: "int \<Rightarrow> nat \<Rightarrow> nat \<Rightarrow> bool" where
  "tilt b h k \<longleftrightarrow> b = int k - int h \<and> \<bar>b\<bar> \<le> 1"

lemma tilt_simps [simp]:
  "tilt 0 h k \<longleftrightarrow> h = k" "tilt 1 h k \<longleftrightarrow> k = Suc h" "tilt (- 1) h k \<longleftrightarrow> h = Suc k"
  by (auto simp: tilt_def)

lemma tiltE:
  assumes "tilt b h k"
  obtains "b = 0" "h = k" | "b = 1" "k = Suc h" | "b = - 1" "h = Suc k"
  using assms unfolding tilt_def by linarith

lemma tilt_range: "tilt b h k \<Longrightarrow> factor_range b"
  by (auto simp: tilt_def factor_range_def)

text \<open>The factor stored in every node is the difference of the heights.\<close>

fun bal :: "shape \<Rightarrow> bool" where
  "bal Leaf = True"
| "bal (Node l x r) = (tilt (snd x) (height l) (height r) \<and> bal l \<and> bal r)"

text \<open>The nodes above a position are balanced if the subtree at the position has height \<open>h\<close>.\<close>

fun zbal :: "zipper \<Rightarrow> nat \<Rightarrow> bool" where
  "zbal [] h = True"
| "zbal (LeftOf x r # c) h =
     (tilt (snd x) h (height r) \<and> bal r \<and> zbal c (Suc (max h (height r))))"
| "zbal (RightOf l x # c) h =
     (tilt (snd x) (height l) h \<and> bal l \<and> zbal c (Suc (max (height l) h)))"

lemma bal_plug: "bal (plug c t) \<longleftrightarrow> bal t \<and> zbal c (height t)"
  by (induction c t rule: plug.induct) auto

section \<open>Rebalancing after an insertion\<close>

fun ins_reb :: "zipper \<Rightarrow> shape \<Rightarrow> shape" where
  "ins_reb [] t = t"
| "ins_reb (RightOf l x # c) t =
     (if snd x > 0 then
        plug c (if factor t < 0 then reb_right_left (Node l x t) else reb_left (Node l x t))
      else if snd x < 0 then plug c (Node l (fst x, 0) t)
      else ins_reb c (Node l (fst x, 1) t))"
| "ins_reb (LeftOf x r # c) t =
     (if snd x < 0 then
        plug c (if factor t > 0 then reb_left_right (Node t x r) else reb_right (Node t x r))
      else if snd x > 0 then plug c (Node t (fst x, 0) r)
      else ins_reb c (Node t (fst x, - 1) r))"

text \<open>The addresses before and after a position, in order.\<close>

fun zleft :: "zipper \<Rightarrow> addr list" where
  "zleft [] = []"
| "zleft (LeftOf x r # c) = zleft c"
| "zleft (RightOf l x # c) = zleft c @ addrs l @ [fst x]"

fun zright :: "zipper \<Rightarrow> addr list" where
  "zright [] = []"
| "zright (LeftOf x r # c) = fst x # addrs r @ zright c"
| "zright (RightOf l x # c) = zright c"

lemma addrs_plug: "addrs (plug c t) = zleft c @ addrs t @ zright c"
  by (induction c t rule: plug.induct) auto

lemma addrs_reb_left [simp]: "addrs (reb_left t) = addrs t"
  by (induction t rule: reb_left.induct) simp_all

lemma addrs_reb_right [simp]: "addrs (reb_right t) = addrs t"
  by (induction t rule: reb_right.induct) simp_all

lemma addrs_reb_left_right [simp]: "addrs (reb_left_right t) = addrs t"
  by (induction t rule: reb_left_right.induct) simp_all

lemma addrs_reb_right_left [simp]: "addrs (reb_right_left t) = addrs t"
  by (induction t rule: reb_right_left.induct) simp_all

lemma addrs_ins_reb: "addrs (ins_reb c t) = zleft c @ addrs t @ zright c"
  by (induction c t rule: ins_reb.induct) (auto simp: addrs_plug)

lemma bal_left_tall:
  assumes "bal t" "factor t < 0"
  obtains B g bg C a D where "t = Node (Node B (g, bg) C) (a, - 1) D" "height t = height D + 2"
    "tilt bg (height B) (height C)" "max (height B) (height C) = height D" "bal B" "bal C" "bal D"
proof (cases t)
  case (Node l x D)
  with assms have "snd x = - 1" "height l = Suc (height D)" "bal l" "bal D"
    by (auto elim: tiltE)
  with Node that show thesis by (cases l; cases x) auto
qed (use assms in simp)

lemma bal_right_tall:
  assumes "bal t" "factor t > 0"
  obtains A a B g bg C where "t = Node A (a, 1) (Node B (g, bg) C)" "height t = height A + 2"
    "tilt bg (height B) (height C)" "max (height B) (height C) = height A" "bal A" "bal B" "bal C"
proof (cases t)
  case (Node A x r)
  with assms have "snd x = 1" "height r = Suc (height A)" "bal r" "bal A"
    by (auto elim: tiltE)
  with Node that show thesis by (cases r; cases x) auto
qed (use assms in simp)

lemma reb_left_bal:
  assumes "bal l" "bal r" "height r = height l + 2" "factor r \<ge> 0"
  shows "bal (reb_left (Node l x r)) \<and>
    height (reb_left (Node l x r)) = (if factor r = 0 then height l + 3 else height l + 2)"
proof (cases r)
  case (Node B y C)
  with assms have "tilt (snd y) (height B) (height C)" by simp
  then show ?thesis
    using Node assms by (cases x; cases y; cases rule: tiltE; simp)
qed (use assms in simp)

lemma reb_right_bal:
  assumes "bal l" "bal r" "height l = height r + 2" "factor l \<le> 0"
  shows "bal (reb_right (Node l x r)) \<and>
    height (reb_right (Node l x r)) = (if factor l = 0 then height r + 3 else height r + 2)"
proof (cases l)
  case (Node A y B)
  with assms have "tilt (snd y) (height A) (height B)" by simp
  then show ?thesis
    using Node assms by (cases x; cases y; cases rule: tiltE; simp)
qed (use assms in simp)

lemma reb_right_left_bal:
  assumes "bal l" "bal r" "height r = height l + 2" "factor r < 0"
  shows "bal (reb_right_left (Node l x r)) \<and> height (reb_right_left (Node l x r)) = height l + 2"
proof -
  from bal_left_tall [OF assms(2,4)] obtain B g bg C a D
    where "r = Node (Node B (g, bg) C) (a, - 1) D" "height r = height D + 2"
      "tilt bg (height B) (height C)" "max (height B) (height C) = height D" "bal B" "bal C" "bal D" .
  with assms show ?thesis by (cases x) (auto elim!: tiltE)
qed

lemma reb_left_right_bal:
  assumes "bal l" "bal r" "height l = height r + 2" "factor l > 0"
  shows "bal (reb_left_right (Node l x r)) \<and> height (reb_left_right (Node l x r)) = height r + 2"
proof -
  from bal_right_tall [OF assms(1,4)] obtain A a B g bg C
    where "l = Node A (a, 1) (Node B (g, bg) C)" "height l = height A + 2"
      "tilt bg (height B) (height C)" "max (height B) (height C) = height A" "bal A" "bal B" "bal C" .
  with assms show ?thesis by (cases x) (auto elim!: tiltE)
qed

text \<open>What the loop keeps: the subtree grew by one and is balanced, the rest of the tree is as before.\<close>

definition grown :: "zipper \<Rightarrow> shape \<Rightarrow> bool" where
  "grown c t \<longleftrightarrow> t \<noteq> Leaf \<and> bal t \<and> zbal c (height t - 1) \<and> (factor t = 0 \<longrightarrow> height t = 1)"

lemma grown_RightOf:
  assumes "grown (RightOf l (p, b) # c) t"
  shows "b = 1 \<and> height t = height l + 2 \<and> factor t \<noteq> 0 \<and> zbal c (Suc (height t - 1)) \<or>
    b = 0 \<and> grown c (Node l (p, 1) t) \<or>
    b = - 1 \<and> bal (Node l (p, 0) t) \<and> zbal c (height (Node l (p, 0) t))"
proof -
  from assms have "tilt b (height l) (height t - 1)" by (simp add: grown_def)
  then show ?thesis
    using assms by (cases t; cases rule: tiltE; simp add: grown_def max_def)
qed

lemma grown_LeftOf:
  assumes "grown (LeftOf (p, b) r # c) t"
  shows "b = - 1 \<and> height t = height r + 2 \<and> factor t \<noteq> 0 \<and> zbal c (Suc (height t - 1)) \<or>
    b = 0 \<and> grown c (Node t (p, - 1) r) \<or>
    b = 1 \<and> bal (Node t (p, 0) r) \<and> zbal c (height (Node t (p, 0) r))"
proof -
  from assms have "tilt b (height t - 1) (height r)" by (simp add: grown_def)
  then show ?thesis
    using assms by (cases t; cases rule: tiltE; simp add: grown_def max_def)
qed

lemma ins_reb_bal: "grown c t \<Longrightarrow> bal (ins_reb c t)"
proof (induction c t rule: ins_reb.induct)
  case (1 t)
  then show ?case by (simp add: grown_def)
next
  case (2 l x c t)
  obtain p b where x: "x = (p, b)" by (cases x)
  from 2(2) have "bal l" "bal t" by (simp_all add: grown_def)
  with grown_RightOf [OF 2(2) [unfolded x]] 2(1) x show ?case
    by (auto simp: bal_plug reb_left_bal reb_right_left_bal)
next
  case (3 x r c t)
  obtain p b where x: "x = (p, b)" by (cases x)
  from 3(2) have "bal r" "bal t" by (simp_all add: grown_def)
  with grown_LeftOf [OF 3(2) [unfolded x]] 3(1) x show ?case
    by (auto simp: bal_plug reb_right_bal reb_left_right_bal)
qed

text \<open>The link from a parent tells on which side the current node is.\<close>

lemma holds_parent_links:
  assumes "holds s (f # c) (Node l (a, b) r)"
  shows "get_tree_parent s a = Some (frame_addr f)" and "frame_addr f \<noteq> 0"
    and "f = RightOf l' x \<Longrightarrow> get_left s (fst x) = Some (root_addr l') \<and> root_addr l' \<noteq> a \<and>
           get_right s (fst x) = Some a \<and> get_balance_factor s (fst x) = Some (snd x)"
    and "f = LeftOf x r' \<Longrightarrow> get_right s (fst x) = Some (root_addr r') \<and> root_addr r' \<noteq> a \<and>
           get_left s (fst x) = Some a \<and> get_balance_factor s (fst x) = Some (snd x)"
proof -
  from assms show "get_tree_parent s a = Some (frame_addr f)"
    by (simp add: holds_links(4))
  from assms show "frame_addr f \<noteq> 0"
    by (cases f) (auto simp: holds_def good_addr_def)
next
  assume "f = RightOf l' x"
  with assms have h: "holds s c (Node l' (fst x, snd x) (Node l (a, b) r))"
    by (simp add: holds_right)
  then have "root_addr l' \<noteq> a"
    using root_addr_in [of l'] holds_links(5) [OF into_right, OF h] by (auto simp: holds_def)
  with holds_links [OF h]
  show "get_left s (fst x) = Some (root_addr l') \<and> root_addr l' \<noteq> a \<and>
      get_right s (fst x) = Some a \<and> get_balance_factor s (fst x) = Some (snd x)"
    by simp
next
  assume "f = LeftOf x r'"
  with assms have h: "holds s c (Node (Node l (a, b) r) (fst x, snd x) r')"
    by (simp add: holds_left)
  then have "root_addr r' \<noteq> a"
    using root_addr_in [of r'] holds_links(5) [OF into_left, OF h] by (auto simp: holds_def)
  with holds_links [OF h]
  show "get_right s (fst x) = Some (root_addr r') \<and> root_addr r' \<noteq> a \<and>
      get_left s (fst x) = Some a \<and> get_balance_factor s (fst x) = Some (snd x)"
    by simp
qed

text \<open>One round of the loop that rotates, and the round that only sets a factor.\<close>

lemma rotate_RightOf_refines:
  assumes h: "holds s (RightOf l (p, b) # c) t" and t: "bal t" "t \<noteq> Leaf"
  obtains s' n where "(if factor t < 0 then rebalance_right_left s p else rebalance_left s p) = Some (s', n)"
    and "n = root_addr (if factor t < 0 then reb_right_left (Node l (p, b) t) else reb_left (Node l (p, b) t))"
    and "holds s' c (if factor t < 0 then reb_right_left (Node l (p, b) t) else reb_left (Node l (p, b) t))"
    and "only_links (set (addrs (plug c (Node l (p, b) t)))) s s'"
proof (cases "factor t < 0")
  case True
  with bal_left_tall [OF t(1)] obtain B g bg C a D where T: "t = Node (Node B (g, bg) C) (a, - 1) D"
    by metis
  from rebalance_right_left_refines [OF out_right [OF h [unfolded T]]] True T that show thesis
    by (auto simp del: holds_plug)
next
  case False
  from t obtain tl a ba tr where T: "t = Node tl (a, ba) tr" by (cases t) auto
  from rebalance_left_refines [OF out_right [OF h [unfolded T]]] obtain s' where
    "rebalance_left s p = Some (s', a)" "holds s' c (reb_left (Node l (p, b) t))"
    "only_links (set (addrs (plug c (Node l (p, b) t)))) s s'"
    unfolding T by blast
  with False T that show thesis by simp
qed

lemma rotate_LeftOf_refines:
  assumes h: "holds s (LeftOf (p, b) r # c) t" and t: "bal t" "t \<noteq> Leaf"
  obtains s' n where "(if factor t > 0 then rebalance_left_right s p else rebalance_right s p) = Some (s', n)"
    and "n = root_addr (if factor t > 0 then reb_left_right (Node t (p, b) r) else reb_right (Node t (p, b) r))"
    and "holds s' c (if factor t > 0 then reb_left_right (Node t (p, b) r) else reb_right (Node t (p, b) r))"
    and "only_links (set (addrs (plug c (Node t (p, b) r)))) s s'"
proof (cases "factor t > 0")
  case True
  with bal_right_tall [OF t(1)] obtain A a B g bg C where T: "t = Node A (a, 1) (Node B (g, bg) C)"
    by metis
  from rebalance_left_right_refines [OF out_left [OF h [unfolded T]]] True T that show thesis
    by (auto simp del: holds_plug)
next
  case False
  from t obtain tl a ba tr where T: "t = Node tl (a, ba) tr" by (cases t) auto
  from rebalance_right_refines [OF out_left [OF h [unfolded T]]] obtain s' where
    "rebalance_right s p = Some (s', a)" "holds s' c (reb_right (Node t (p, b) r))"
    "only_links (set (addrs (plug c (Node t (p, b) r)))) s s'"
    unfolding T by blast
  with False T that show thesis by simp
qed

lemma insert_rebalance_RightOf:
  fixes s :: "'a avl_tree"
  assumes h: "holds s (RightOf l (p, b) # c) t" and g: "grown (RightOf l (p, b) # c) t"
    and IH: "\<And>s :: 'a avl_tree. b = 0 \<Longrightarrow> holds s c (Node l (p, 1) t) \<Longrightarrow> grown c (Node l (p, 1) t) \<Longrightarrow>
      \<exists>s'. insert_rebalance s p = Some s' \<and> holds s' [] (ins_reb c (Node l (p, 1) t)) \<and>
        only_links (set (addrs (plug c (Node l (p, 1) t)))) s s'"
  shows "\<exists>s'. insert_rebalance s (root_addr t) = Some s' \<and> holds s' [] (ins_reb (RightOf l (p, b) # c) t) \<and>
    only_links (set (addrs (plug c (Node l (p, b) t)))) s s'"
proof -
  from g obtain tl a ba tr where T: "t = Node tl (a, ba) tr" by (cases t) (auto simp: grown_def)
  note links = holds_parent_links [OF h [unfolded T]] holds_links(3) [OF h [unfolded T]]
  note setb = set_factor_refines [OF out_right [OF h]]
  from g have bt: "bal t" "t \<noteq> Leaf" by (simp_all add: grown_def)
  from grown_RightOf [OF g]
  consider "b = 1" | "b = 0" "grown c (Node l (p, 1) t)" | "b = - 1" by blast
  then show ?thesis
  proof cases
    case 1
    from rotate_RightOf_refines [OF h bt] obtain s' n where
      "(if factor t < 0 then rebalance_right_left s p else rebalance_left s p) = Some (s', n)"
      "holds s' c (if factor t < 0 then reb_right_left (Node l (p, b) t) else reb_left (Node l (p, b) t))"
      "only_links (set (addrs (plug c (Node l (p, b) t)))) s s'" .
    with 1 T links show ?thesis
      by (subst insert_rebalance.simps) (auto simp: holds_plug split del: if_split)
  next
    case 2
    from setb [of 1] obtain s1 where s1: "set_balance_factor s p 1 = Some s1"
      "holds s1 c (Node l (p, 1) t)" "only_links (set (addrs (plug c (Node l (p, b) t)))) s s1" by auto
    with IH [OF 2(1) _ 2(2)] obtain s2 where "insert_rebalance s1 p = Some s2"
      "holds s2 [] (ins_reb c (Node l (p, 1) t))" "only_links (set (addrs (plug c (Node l (p, 1) t)))) s1 s2"
      by blast
    with s1 2(1) T links show ?thesis
      by (subst insert_rebalance.simps) (auto simp: set_addrs_plug intro: only_links_trans)
  next
    case 3
    from setb [of 0] obtain s1 where "set_balance_factor s p 0 = Some s1"
      "holds s1 c (Node l (p, 0) t)" "only_links (set (addrs (plug c (Node l (p, b) t)))) s s1" by auto
    with 3 T links show ?thesis
      by (subst insert_rebalance.simps) (auto simp: holds_plug)
  qed
qed

lemma insert_rebalance_LeftOf:
  fixes s :: "'a avl_tree"
  assumes h: "holds s (LeftOf (p, b) r # c) t" and g: "grown (LeftOf (p, b) r # c) t"
    and IH: "\<And>s :: 'a avl_tree. b = 0 \<Longrightarrow> holds s c (Node t (p, - 1) r) \<Longrightarrow> grown c (Node t (p, - 1) r) \<Longrightarrow>
      \<exists>s'. insert_rebalance s p = Some s' \<and> holds s' [] (ins_reb c (Node t (p, - 1) r)) \<and>
        only_links (set (addrs (plug c (Node t (p, - 1) r)))) s s'"
  shows "\<exists>s'. insert_rebalance s (root_addr t) = Some s' \<and> holds s' [] (ins_reb (LeftOf (p, b) r # c) t) \<and>
    only_links (set (addrs (plug c (Node t (p, b) r)))) s s'"
proof -
  from g obtain tl a ba tr where T: "t = Node tl (a, ba) tr" by (cases t) (auto simp: grown_def)
  note links = holds_parent_links [OF h [unfolded T]] holds_links(3) [OF h [unfolded T]]
  note setb = set_factor_refines [OF out_left [OF h]]
  from g have bt: "bal t" "t \<noteq> Leaf" by (simp_all add: grown_def)
  from grown_LeftOf [OF g]
  consider "b = - 1" | "b = 0" "grown c (Node t (p, - 1) r)" | "b = 1" by blast
  then show ?thesis
  proof cases
    case 1
    from rotate_LeftOf_refines [OF h bt] obtain s' n where
      "(if factor t > 0 then rebalance_left_right s p else rebalance_right s p) = Some (s', n)"
      "holds s' c (if factor t > 0 then reb_left_right (Node t (p, b) r) else reb_right (Node t (p, b) r))"
      "only_links (set (addrs (plug c (Node t (p, b) r)))) s s'" .
    with 1 T links show ?thesis
      by (subst insert_rebalance.simps) (auto simp: holds_plug split del: if_split)
  next
    case 2
    from setb [of "- 1"] obtain s1 where s1: "set_balance_factor s p (- 1) = Some s1"
      "holds s1 c (Node t (p, - 1) r)" "only_links (set (addrs (plug c (Node t (p, b) r)))) s s1" by auto
    with IH [OF 2(1) _ 2(2)] obtain s2 where "insert_rebalance s1 p = Some s2"
      "holds s2 [] (ins_reb c (Node t (p, - 1) r))" "only_links (set (addrs (plug c (Node t (p, - 1) r)))) s1 s2"
      by blast
    with s1 2(1) T links show ?thesis
      by (subst insert_rebalance.simps) (auto simp: set_addrs_plug intro: only_links_trans)
  next
    case 3
    from setb [of 0] obtain s1 where "set_balance_factor s p 0 = Some s1"
      "holds s1 c (Node t (p, 0) r)" "only_links (set (addrs (plug c (Node t (p, b) r)))) s s1" by auto
    with 3 T links show ?thesis
      by (subst insert_rebalance.simps) (auto simp: holds_plug)
  qed
qed

lemma insert_rebalance_refines:
  "holds s c t \<Longrightarrow> grown c t \<Longrightarrow>
     \<exists>s'. insert_rebalance s (root_addr t) = Some s' \<and> holds s' [] (ins_reb c t) \<and>
       only_links (set (addrs (plug c t))) s s'"
proof (induction c t arbitrary: s rule: ins_reb.induct)
  case (1 t)
  then have "t \<noteq> Leaf" by (simp add: grown_def)
  then obtain l a b r where "t = Node l (a, b) r" by (cases t) auto
  with 1 holds_links [of s "[]" l a b r] show ?case
    by (subst insert_rebalance.simps) simp
next
  case (2 l x c t)
  obtain p b where x: "x = (p, b)" by (cases x)
  show ?case
    unfolding x plug.simps using 2(2,3) unfolding x
    by (rule insert_rebalance_RightOf) (use 2(1) x in \<open>auto simp: grown_def\<close>)
next
  case (3 x r c t)
  obtain p b where x: "x = (p, b)" by (cases x)
  show ?case
    unfolding x plug.simps using 3(2,3) unfolding x
    by (rule insert_rebalance_LeftOf) (use 3(1) x in \<open>auto simp: grown_def\<close>)
qed

section \<open>The search\<close>

text \<open>
  The descent shared by \<open>insert\<close>, \<open>find\<close> and \<open>lower_bound\<close>: go left where \<open>lt\<close> holds of the
  node, else right where \<open>gt\<close> holds, else stop.
\<close>

fun descend :: "(addr \<Rightarrow> bool) \<Rightarrow> (addr \<Rightarrow> bool) \<Rightarrow> shape \<Rightarrow> zipper \<Rightarrow> zipper \<times> shape" where
  "descend lt gt Leaf c = (c, Leaf)"
| "descend lt gt (Node l x r) c =
     (if lt (fst x) then descend lt gt l (LeftOf x r # c)
      else if gt (fst x) then descend lt gt r (RightOf l x # c)
      else (c, Node l x r))"

text \<open>Where the key is: before, at or after an element.\<close>

definition cls :: "(addr \<Rightarrow> bool) \<Rightarrow> (addr \<Rightarrow> bool) \<Rightarrow> addr \<Rightarrow> int" where
  "cls lt gt a = (if lt a then 1 else if gt a then - 1 else 0)"

lemma descend_plug: "descend lt gt t c = (c', t') \<Longrightarrow> plug c' t' = plug c t"
  by (induction lt gt t c rule: descend.induct) (auto split: if_splits)

lemma descend_found: "descend lt gt t c = (c', Node l x r) \<Longrightarrow> cls lt gt (fst x) = 0"
  by (induction lt gt t c rule: descend.induct) (auto split: if_splits simp: cls_def)

lemma descend_missing:
  assumes "descend lt gt t c = (c', Leaf)" and "sorted (map (cls lt gt) (addrs t))"
    and "\<forall>a \<in> set (zleft c). cls lt gt a = - 1" and "\<forall>a \<in> set (zright c). cls lt gt a = 1"
  shows "(\<forall>a \<in> set (zleft c'). cls lt gt a = - 1) \<and> (\<forall>a \<in> set (zright c'). cls lt gt a = 1)"
  using assms
proof (induction lt gt t c rule: descend.induct)
  case (2 lt gt l x r c)
  have range: "cls lt gt a \<in> {- 1, 0, 1}" for a by (simp add: cls_def)
  from 2(4) have srt: "sorted (map (cls lt gt) (addrs l))" "sorted (map (cls lt gt) (addrs r))"
      "\<forall>a \<in> set (addrs l). cls lt gt a \<le> cls lt gt (fst x)"
      "\<forall>a \<in> set (addrs r). cls lt gt (fst x) \<le> cls lt gt a"
    by (auto simp: sorted_append)
  consider (left) "lt (fst x)" | (right) "\<not> lt (fst x)" "gt (fst x)"
    | (here) "\<not> lt (fst x)" "\<not> gt (fst x)" by blast
  then show ?case
  proof cases
    case left
    then have x: "cls lt gt (fst x) = 1" by (simp add: cls_def)
    with srt range have "\<forall>a \<in> set (addrs r). cls lt gt a = 1" by force
    then show ?thesis using 2(1) [OF left] 2(3,5,6) left x srt by (auto simp: ball_Un)
  next
    case right
    then have x: "cls lt gt (fst x) = - 1" by (simp add: cls_def)
    with srt range have "\<forall>a \<in> set (addrs l). cls lt gt a = - 1" by force
    then show ?thesis using 2(2) [OF right] 2(3,5,6) right x srt by (auto simp: ball_Un)
  next
    case here
    with 2(3) show ?thesis by simp
  qed
qed simp

section \<open>The insertion refines the insertion into the shape\<close>

text \<open>
  An element that is in no container: what its constructor leaves in the links
  (\<open>chained_allocatable\<close> and the \<open>tree_parent\<close> member start as null).
\<close>

definition detached :: "('a, 'z) store_scheme \<Rightarrow> addr \<Rightarrow> bool" where
  "detached s e \<longleftrightarrow> good_addr (valid s) e \<and> prev s e = nullptr \<and> nxt s e = nullptr \<and> tree_parent s e = nullptr"

lemma holds_val: "holds s c (Node l x r) \<Longrightarrow> read_val s (fst x) = Some (val s (fst x))"
  by (simp add: holds_accessible reads_accessible)

lemma holds_Leaf_iff: "holds s c (Node l x r) \<Longrightarrow> root_addr l = 0 \<longleftrightarrow> l = Leaf"
    "holds s c (Node l x r) \<Longrightarrow> root_addr r = 0 \<longleftrightarrow> r = Leaf"
  by (auto simp: holds_def)

lemma link_left_refines:
  assumes h: "holds s c (Node Leaf (a, b) r)" and e: "detached s e" "e \<notin> set (addrs (plug c (Node Leaf (a, b) r)))"
  defines "s' \<equiv> s\<lparr>prev := (prev s)(a := e), tree_parent := (tree_parent s)(e := pack_factor a 0)\<rparr>"
  shows "do {
           s \<leftarrow> set_left s a e;
           l \<leftarrow> get_left s a;
           s \<leftarrow> set_tree_parent s l a;
           l \<leftarrow> get_left s a;
           Some (s, l, True)
         } = Some (s', e, True)"
    and "holds s' (LeftOf (a, b) r # c) (Node Leaf (e, 0) Leaf)"
proof -
  from e have [simp]: "accessible s e" "e \<noteq> 0" "aligned8 e" "prev s e = 0" "nxt s e = 0" "tree_parent s e = 0"
      "good_addr (valid s) e"
    by (auto simp: detached_def good_addr_def good_accessible)
  from h have [simp]: "accessible s a" "aligned8 a"
    by (auto simp: holds_def good_addr_def accessible_def)
  from e have [simp]: "a \<noteq> e" "e \<noteq> a" "e \<notin> set (addrs r)" "e \<notin> set (zipper_addrs c)"
    by (auto simp: set_addrs_plug)
  show "do {
           s \<leftarrow> set_left s a e;
           l \<leftarrow> get_left s a;
           s \<leftarrow> set_tree_parent s l a;
           l \<leftarrow> get_left s a;
           Some (s, l, True)
         } = Some (s', e, True)"
    by (simp add: accessors s'_def)
  show "holds s' (LeftOf (a, b) r # c) (Node Leaf (e, 0) Leaf)"
    using h by (auto simp: holds_def s'_def)
qed

lemma link_right_refines:
  assumes h: "holds s c (Node l (a, b) Leaf)" and e: "detached s e" "e \<notin> set (addrs (plug c (Node l (a, b) Leaf)))"
  defines "s' \<equiv> s\<lparr>nxt := (nxt s)(a := e), tree_parent := (tree_parent s)(e := pack_factor a 0)\<rparr>"
  shows "do {
           s \<leftarrow> set_right s a e;
           r \<leftarrow> get_right s a;
           s \<leftarrow> set_tree_parent s r a;
           r \<leftarrow> get_right s a;
           Some (s, r, True)
         } = Some (s', e, True)"
    and "holds s' (RightOf l (a, b) # c) (Node Leaf (e, 0) Leaf)"
proof -
  from e have [simp]: "accessible s e" "e \<noteq> 0" "aligned8 e" "prev s e = 0" "nxt s e = 0" "tree_parent s e = 0"
      "good_addr (valid s) e"
    by (auto simp: detached_def good_addr_def good_accessible)
  from h have [simp]: "accessible s a" "aligned8 a"
    by (auto simp: holds_def good_addr_def accessible_def)
  from e have [simp]: "a \<noteq> e" "e \<noteq> a" "e \<notin> set (addrs l)" "e \<notin> set (zipper_addrs c)"
    by (auto simp: set_addrs_plug)
  show "do {
           s \<leftarrow> set_right s a e;
           r \<leftarrow> get_right s a;
           s \<leftarrow> set_tree_parent s r a;
           r \<leftarrow> get_right s a;
           Some (s, r, True)
         } = Some (s', e, True)"
    by (simp add: accessors s'_def)
  show "holds s' (RightOf l (a, b) # c) (Node Leaf (e, 0) Leaf)"
    using h by (auto simp: holds_def s'_def)
qed

lemma insert_search_found:
  "holds s c t \<Longrightarrow> accessible s e \<Longrightarrow>
   descend (\<lambda>a. cmp (val s e) (val s a)) (\<lambda>a. cmp (val s a) (val s e)) t c = (c', Node l x r) \<Longrightarrow>
   insert_search cmp s e (root_addr t) = Some (s, fst x, False)"
proof (induction t arbitrary: c)
  case (Node tl y tr)
  obtain a b where y: "y = (a, b)" by (cases y)
  note links = holds_links [OF Node.prems(1) [unfolded y]] holds_val [OF Node.prems(1)]
  from Node.IH(1) [OF into_left [OF Node.prems(1)]] Node.IH(2) [OF into_right [OF Node.prems(1)]]
    Node.prems links y holds_Leaf_iff [OF Node.prems(1)] show ?case
    by (subst insert_search.simps) (auto simp: reads_accessible split: if_splits)
qed simp

lemma insert_search_missing:
  "holds s c t \<Longrightarrow> t \<noteq> Leaf \<Longrightarrow> detached s e \<Longrightarrow> e \<notin> set (addrs (plug c t)) \<Longrightarrow>
   descend (\<lambda>a. cmp (val s e) (val s a)) (\<lambda>a. cmp (val s a) (val s e)) t c = (c', Leaf) \<Longrightarrow>
   \<exists>s'. insert_search cmp s e (root_addr t) = Some (s', e, True) \<and> holds s' c' (Node Leaf (e, 0) Leaf) \<and>
     only_links (insert e (set (addrs (plug c t)))) s s'"
proof (induction t arbitrary: c)
  case (Node tl y tr)
  obtain a b where y: "y = (a, b)" by (cases y)
  note h = Node.prems(1)
  have e: "read_val s e = Some (val s e)"
    using Node.prems(3) by (simp add: detached_def good_accessible reads_accessible)
  note links = holds_links [OF h [unfolded y]] holds_val [OF h] holds_Leaf_iff [OF h] e
  consider (left) "cmp (val s e) (val s a)" | (right) "\<not> cmp (val s e) (val s a)" "cmp (val s a) (val s e)"
    using Node.prems(5) y by (auto split: if_splits)
  then show ?case
  proof cases
    case left
    show ?thesis
    proof (cases "tl = Leaf")
      case True
      with link_left_refines [of s c a b tr e] Node.prems y left links show ?thesis
        by (subst insert_search.simps) (auto simp: only_links_def set_addrs_plug)
    next
      case False
      with Node.IH(1) [OF into_left [OF h]] Node.prems y left links show ?thesis
        by (subst insert_search.simps) simp
    qed
  next
    case right
    show ?thesis
    proof (cases "tr = Leaf")
      case True
      with link_right_refines [of s c tl a b e] Node.prems y right links show ?thesis
        by (subst insert_search.simps) (auto simp: only_links_def set_addrs_plug)
    next
      case False
      with Node.IH(2) [OF into_right [OF h]] Node.prems y right links show ?thesis
        by (subst insert_search.simps) simp
    qed
  qed
qed simp

section \<open>The contract of the tree\<close>

text \<open>
  The store holds a balanced tree whose elements, in order, are \<open>xs\<close>; \<open>size()\<close> is their number and
  they are strictly ascending.
\<close>

definition represents :: "('a \<Rightarrow> 'a \<Rightarrow> bool) \<Rightarrow> 'a avl_tree \<Rightarrow> addr list \<Rightarrow> bool" where
  "represents cmp s xs \<longleftrightarrow>
     (\<exists>t. holds s [] t \<and> bal t \<and> addrs t = xs) \<and> size s = of_nat (length xs) \<and>
     sorted_wrt (\<lambda>a b. cmp (val s a) (val s b)) xs"

text \<open>An operation that writes no object but those in \<open>A\<close>, and of those only the links.\<close>

definition same_outside :: "addr set \<Rightarrow> 'a avl_tree \<Rightarrow> 'a avl_tree \<Rightarrow> bool" where
  "same_outside A s s' \<longleftrightarrow>
     valid s' = valid s \<and> val s' = val s \<and>
     (\<forall>a. a \<notin> A \<longrightarrow> prev s' a = prev s a \<and> nxt s' a = nxt s a \<and> tree_parent s' a = tree_parent s a)"

lemma only_links_same_outside:
  "only_links A s s' \<Longrightarrow> same_outside A s s'" "only_links A s s' \<Longrightarrow> same_outside A s (s'\<lparr>size := n\<rparr>)"
  by (auto simp: only_links_def same_outside_def)

lemma holds_size [simp]: "holds (s\<lparr>size := n\<rparr>) c t = holds s c t"
  by (simp add: holds_def)

lemma cls_sorted:
  assumes "transp cmp" "sorted_wrt (\<lambda>a b. cmp (V a) (V b)) xs"
  shows "sorted (map (cls (\<lambda>a. cmp v (V a)) (\<lambda>a. cmp (V a) v)) xs)"
  using assms(2)
proof (induction xs)
  case (Cons x xs)
  have "cls (\<lambda>a. cmp v (V a)) (\<lambda>a. cmp (V a) v) x \<le> cls (\<lambda>a. cmp v (V a)) (\<lambda>a. cmp (V a) v) y"
    if "cmp (V x) (V y)" for y
    using that transpD [OF assms(1), of v "V x" "V y"] transpD [OF assms(1), of "V x" "V y" v]
    by (auto simp: cls_def)
  with Cons show ?case by simp
qed simp

lemma sorted_wrt_insert:
  "sorted_wrt P (xs @ ys) \<Longrightarrow> \<forall>a \<in> set xs. P a e \<Longrightarrow> \<forall>a \<in> set ys. P e a \<Longrightarrow> sorted_wrt P (xs @ e # ys)"
  by (simp add: sorted_wrt_append)

lemma descend_root_cases:
  assumes "sorted (map (cls lt gt) (addrs t))"
  obtains (missing) c where "descend lt gt t [] = (c, Leaf)" "plug c Leaf = t"
      "\<forall>a \<in> set (zleft c). cls lt gt a = - 1" "\<forall>a \<in> set (zright c). cls lt gt a = 1"
    | (found) c l x r where "descend lt gt t [] = (c, Node l x r)" "plug c (Node l x r) = t"
      "fst x \<in> set (addrs t)" "cls lt gt (fst x) = 0"
proof (cases "descend lt gt t []")
  case (Pair c t')
  then have p: "plug c t' = t" by (auto dest: descend_plug)
  show thesis
  proof (cases t')
    case Leaf
    with Pair p descend_missing [OF _ assms, of "[]" c] show thesis by (intro missing) auto
  next
    case (Node l x r)
    with Pair p descend_found [of lt gt t "[]" c l x r] show thesis
      by (intro found [of c l x r]) (auto simp: set_addrs_plug)
  qed
qed

lemma grown_leaf: "bal (plug c Leaf) \<Longrightarrow> grown c (Node Leaf (e, 0) Leaf)"
  by (simp add: grown_def bal_plug)

lemma represents_empty: "represents cmp s [] \<longleftrightarrow> root s = 0 \<and> size s = 0"
  by (auto simp: represents_def holds_def intro!: exI [of _ Leaf] elim!: addrs.elims)

text \<open>The comparison need not be transitive on all values; it is enough that it sorts the elements around the new one.\<close>

lemma insert_new_sorted:
  assumes r: "represents cmp s xs"
    and tr: "sorted (map (cls (\<lambda>a. cmp (val s e) (val s a)) (\<lambda>a. cmp (val s a) (val s e))) xs)"
    and e: "detached s e" "e \<notin> set xs"
    and new: "\<forall>a \<in> set xs. cmp (val s e) (val s a) \<or> cmp (val s a) (val s e)"
  obtains s' ys zs where "avl_insert cmp s e = Some (s', e, True)" and "xs = ys @ zs"
    and "represents cmp s' (ys @ e # zs)" and "same_outside (insert e (set xs)) s s'"
proof -
  from r obtain t where h: "holds s [] t" and t: "bal t" "addrs t = xs" and sz: "size s = of_nat (length xs)"
      and srt: "sorted_wrt (\<lambda>a b. cmp (val s a) (val s b)) xs"
    by (auto simp: represents_def)
  let ?cls = "cls (\<lambda>a. cmp (val s e) (val s a)) (\<lambda>a. cmp (val s a) (val s e))"
  show thesis
  proof (cases "t = Leaf")
    case True
    with h t e have "holds (s\<lparr>root := e\<rparr>) [] (Node Leaf (e, 0) Leaf)"
      by (auto simp: holds_def detached_def)
    moreover have xs: "xs = []" using True t by simp
    ultimately have "represents cmp (s\<lparr>root := e, size := size s + 1\<rparr>) ([] @ e # [])"
      using sz unfolding represents_def by (auto intro!: exI [of _ "Node Leaf (e, 0) Leaf"])
    moreover have "avl_insert cmp s e = Some (s\<lparr>root := e, size := size s + 1\<rparr>, e, True)"
      using True h by (simp add: avl_insert_def holds_def)
    moreover have "same_outside (insert e (set xs)) s (s\<lparr>root := e, size := size s + 1\<rparr>)"
      by (simp add: same_outside_def)
    ultimately show thesis using xs that [of _ "[]" "[]"] by simp
  next
    case False
    from tr t have "sorted (map ?cls (addrs t))" by simp
    then show thesis
    proof (cases rule: descend_root_cases)
      case (missing c)
      with t have xs: "xs = zleft c @ zright c" using addrs_plug [of c Leaf] by auto
      from insert_search_missing [OF h False e(1) _ missing(1)] e t obtain s1 where
        s1: "insert_search cmp s e (root s) = Some (s1, e, True)" "holds s1 c (Node Leaf (e, 0) Leaf)"
          "only_links (insert e (set xs)) s s1"
        using h by (auto simp: holds_def)
      with insert_rebalance_refines [OF s1(2) grown_leaf] missing t obtain s2 where
        s2: "insert_rebalance s1 e = Some s2" "holds s2 [] (ins_reb c (Node Leaf (e, 0) Leaf))"
          "only_links (insert e (set xs)) s1 s2"
        using xs by (auto simp: addrs_plug set_addrs_plug)
      note o = only_links_trans [OF s1(3) s2(3)]
      have "root s \<noteq> 0" using False h by (auto simp: holds_def)
      with s1 s2 have "avl_insert cmp s e = Some (s2\<lparr>size := size s2 + 1\<rparr>, e, True)"
        by (simp add: avl_insert_def)
      moreover have "sorted_wrt (\<lambda>a b. cmp (val s a) (val s b)) (zleft c @ e # zright c)"
        using srt missing new xs by (auto intro!: sorted_wrt_insert simp: cls_def split: if_splits)
      then have "represents cmp (s2\<lparr>size := size s2 + 1\<rparr>) (zleft c @ e # zright c)"
        using s2(2) ins_reb_bal [OF grown_leaf [of c e]] missing t only_links_fields [OF o] sz xs
        by (auto simp: represents_def addrs_ins_reb)
      ultimately show thesis using xs only_links_same_outside(2) [OF o] that by blast
    next
      case (found c l x r)
      with new t show thesis by (auto simp: cls_def split: if_splits)
    qed
  qed
qed

lemma insert_new:
  assumes r: "represents cmp s xs" and tr: "transp cmp" and e: "detached s e" "e \<notin> set xs"
    and new: "\<forall>a \<in> set xs. cmp (val s e) (val s a) \<or> cmp (val s a) (val s e)"
  obtains s' ys zs where "avl_insert cmp s e = Some (s', e, True)" and "xs = ys @ zs"
    and "represents cmp s' (ys @ e # zs)" and "same_outside (insert e (set xs)) s s'"
  by (rule insert_new_sorted [OF r cls_sorted [OF tr] e new]) (use r in \<open>auto simp: represents_def\<close>)

lemma insert_present:
  assumes r: "represents cmp s xs" and tr: "transp cmp" and e: "accessible s e"
    and dup: "a \<in> set xs" "\<not> cmp (val s e) (val s a)" "\<not> cmp (val s a) (val s e)"
  obtains b where "avl_insert cmp s e = Some (s, b, False)" and "b \<in> set xs"
    and "\<not> cmp (val s e) (val s b)" and "\<not> cmp (val s b) (val s e)"
proof -
  from r obtain t where h: "holds s [] t" and t: "addrs t = xs"
      and srt: "sorted_wrt (\<lambda>a b. cmp (val s a) (val s b)) xs"
    by (auto simp: represents_def)
  let ?cls = "cls (\<lambda>a. cmp (val s e) (val s a)) (\<lambda>a. cmp (val s a) (val s e))"
  from cls_sorted [OF tr srt, of "val s e"] t have "sorted (map ?cls (addrs t))" by simp
  then show thesis
  proof (cases rule: descend_root_cases)
    case (missing c)
    then have "a \<in> set (zleft c) \<union> set (zright c)" using dup(1) t addrs_plug [of c Leaf] by auto
    with missing dup show thesis by (auto simp: cls_def)
  next
    case (found c l x r)
    from insert_search_found [OF h e found(1)] h t
    have "avl_insert cmp s e = Some (s, fst x, False)"
      using dup(1) by (cases t) (auto simp: avl_insert_def holds_def good_addr_def)
    with found t that show thesis by (auto simp: cls_def split: if_splits)
  qed
qed

end
