(* ===== verification/Avl_Iterate.thy ===== *)
theory Avl_Iterate
  imports Avl_Insert
begin

text \<open>
  The iterators of the AVL tree: \<open>begin\<close>, \<open>operator++\<close> and \<open>operator--\<close> against the in-order list of
  the elements. The increment moves to the next element, the decrement does not move to the previous
  one when the element has no left child.
\<close>

section \<open>Positions\<close>

text \<open>The first address of a list, \<open>end()\<close> if there is none.\<close>

fun first :: "addr list \<Rightarrow> addr" where
  "first [] = nullptr"
| "first (a # as) = a"

lemma position_of:
  assumes "a \<in> set (addrs t)"
  obtains c l b r where "plug c (Node l (a, b) r) = t"
proof -
  have "\<exists>c' l b r. plug c' (Node l (a, b) r) = plug c t" for c
    using assms
  proof (induction t arbitrary: c)
    case (Node l x r)
    then consider "a = fst x" | "a \<in> set (addrs l)" | "a \<in> set (addrs r)" by auto
    then show ?case
    proof cases
      case 1
      then show ?thesis by (metis prod.collapse)
    next
      case 2
      with Node.IH(1) [of "LeftOf x r # c"] show ?thesis by simp
    next
      case 3
      with Node.IH(2) [of "RightOf l x # c"] show ?thesis by simp
    qed
  qed simp
  from this [of "[]"] that show thesis by auto
qed

lemma holds_distinct: "holds s [] t \<Longrightarrow> distinct (addrs t)"
  by (simp add: holds_def)

lemma represents_distinct: "represents cmp s xs \<Longrightarrow> distinct xs"
  by (auto simp: represents_def dest: holds_distinct)

lemma represents_position:
  assumes "represents cmp s xs" "a \<in> set xs"
  obtains c l b r where "holds s c (Node l (a, b) r)" "bal (plug c (Node l (a, b) r))"
    and "xs = zleft c @ addrs l @ a # addrs r @ zright c"
proof -
  from assms obtain t where t: "holds s [] t" "bal t" "addrs t = xs" by (auto simp: represents_def)
  with assms(2) position_of [of a t] obtain c l b r where "plug c (Node l (a, b) r) = t" by metis
  with t that [of c l b r] show thesis by (auto simp: holds_plug addrs_plug)
qed

section \<open>The walks down and up\<close>

lemma leftmost_refines: "holds s c t \<Longrightarrow> t \<noteq> Leaf \<Longrightarrow> leftmost s (root_addr t) = Some (hd (addrs t))"
proof (induction t arbitrary: c)
  case (Node l x r)
  obtain a b where x: "x = (a, b)" by (cases x)
  note h = Node.prems(1)
  from Node.IH(1) [OF into_left [OF h]] holds_links [OF h [unfolded x]] holds_Leaf_iff(1) [OF h] x
  show ?case by (subst leftmost.simps) (cases l; auto simp: hd_append)
qed simp

lemma rightmost_refines: "holds s c t \<Longrightarrow> t \<noteq> Leaf \<Longrightarrow> rightmost s (root_addr t) = Some (last (addrs t))"
proof (induction t arbitrary: c)
  case (Node l x r)
  obtain a b where x: "x = (a, b)" by (cases x)
  note h = Node.prems(1)
  from Node.IH(2) [OF into_right [OF h]] holds_links [OF h [unfolded x]] holds_Leaf_iff(2) [OF h] x
  show ?case by (subst rightmost.simps) (cases r; auto)
qed simp

lemma climb_next_null [simp]: "climb_next s 0 = Some 0"
  by (subst climb_next.simps) simp

lemma climb_prev_null [simp]: "climb_prev s 0 = Some 0"
  by (subst climb_prev.simps) simp

lemma climb_next_refines: "holds s c (Node l (a, b) r) \<Longrightarrow> climb_next s a = Some (first (zright c))"
proof (induction c arbitrary: l a b r)
  case Nil
  with holds_links [OF Nil] show ?case by (subst climb_next.simps) simp
next
  case (Cons f c)
  note links = holds_links [OF Cons.prems] holds_parent_links [OF Cons.prems]
  show ?case
  proof (cases f)
    case (LeftOf x r')
    with links show ?thesis by (subst climb_next.simps) auto
  next
    case (RightOf l' x)
    with Cons.prems have "holds s c (Node l' (fst x, snd x) (Node l (a, b) r))"
      by (simp add: holds_right)
    from Cons.IH [OF this] links RightOf show ?thesis by (subst climb_next.simps) auto
  qed
qed

lemma iterator_incr_refines:
  assumes h: "holds s c (Node l (a, b) r)"
  shows "iterator_incr s a = Some (first (addrs r @ zright c))"
proof (cases "r = Leaf")
  case True
  with holds_links [OF h] climb_next_refines [OF h] show ?thesis by (simp add: iterator_incr_def)
next
  case False
  then have "first (addrs r @ zright c) = hd (addrs r)" by (cases "addrs r"; cases r) auto
  with False holds_links [OF h] holds_Leaf_iff(2) [OF h] leftmost_refines [OF into_right [OF h]]
  show ?thesis by (simp add: iterator_incr_def)
qed

lemma begin_refines: "represents cmp s xs \<Longrightarrow> avl_begin s = Some (first xs)"
proof -
  assume "represents cmp s xs"
  then obtain t where t: "holds s [] t" "addrs t = xs" by (auto simp: represents_def)
  show ?thesis
  proof (cases "t = Leaf")
    case False
    then have "hd (addrs t) = first (addrs t)" by (cases "addrs t"; cases t) auto
    moreover have "root s = root_addr t" "root_addr t \<noteq> 0"
      using t(1) False by (auto simp: holds_def)
    ultimately show ?thesis
      using leftmost_refines [OF t(1) False] t(2) by (simp add: avl_begin_def)
  qed (use t in \<open>auto simp: avl_begin_def holds_def\<close>)
qed

lemma incr_refines:
  assumes r: "represents cmp s xs" and x: "xs = ys @ a # zs"
  shows "iterator_incr s a = Some (first zs)"
proof -
  from represents_position [OF r] x obtain c l b r where h: "holds s c (Node l (a, b) r)"
    and y: "xs = (zleft c @ addrs l) @ a # addrs r @ zright c" by (metis append.assoc in_set_conv_decomp)
  have "a \<notin> set ys" "a \<notin> set zs" using represents_distinct [OF r] x by auto
  with x y have "zs = addrs r @ zright c" using append_Cons_eq_iff [of a ys zs "zleft c @ addrs l" "addrs r @ zright c"] by simp
  with iterator_incr_refines [OF h] show ?thesis by simp
qed

text \<open>
  The decrement: with a left child it moves to the greatest smaller element; without one it climbs
  while the node is a left child and stays \<open>on\<close> the first node that is a right child.
\<close>

fun stop_prev :: "zipper \<Rightarrow> addr \<Rightarrow> addr" where
  "stop_prev [] a = nullptr"
| "stop_prev (LeftOf x r # c) a = stop_prev c (fst x)"
| "stop_prev (RightOf l x # c) a = a"

lemma climb_prev_refines: "holds s c (Node l (a, b) r) \<Longrightarrow> climb_prev s a = Some (stop_prev c a)"
proof (induction c arbitrary: l a b r)
  case Nil
  with holds_links [OF Nil] show ?case by (subst climb_prev.simps) simp
next
  case (Cons f c)
  note links = holds_links [OF Cons.prems] holds_parent_links [OF Cons.prems]
  show ?case
  proof (cases f)
    case (LeftOf x r')
    with Cons.prems have "holds s c (Node (Node l (a, b) r) (fst x, snd x) r')"
      by (simp add: holds_left)
    from Cons.IH [OF this] links LeftOf show ?thesis by (subst climb_prev.simps) auto
  next
    case (RightOf l' x)
    with links show ?thesis by (subst climb_prev.simps) auto
  qed
qed

lemma iterator_decr_refines:
  assumes h: "holds s c (Node l (a, b) r)"
  shows "iterator_decr s a = Some (if l = Leaf then stop_prev c a else last (addrs l))"
  using holds_links [OF h] holds_Leaf_iff(1) [OF h] rightmost_refines [OF into_left [OF h]]
    climb_prev_refines [OF h]
  by (simp add: iterator_decr_def)

end
