(* ===== verification/Avl_Erase.thy ===== *)
theory Avl_Erase
  imports Avl_Iterate
begin

text \<open>
  Removal from the AVL tree: the loop of \<open>_erase_rebalance\<close> and the three ways of taking a node out
  of the links refine functions on shapes, which keep the tree balanced, except in the case of the
  source that rebalances the root with a single rotation only.
\<close>

section \<open>Rebalancing after a removal\<close>

fun er_reb :: "zipper \<Rightarrow> shape \<Rightarrow> shape" where
  "er_reb [] t = t"
| "er_reb (LeftOf x r # c) t =
     (if snd x > 0 then
        let u = (if factor r < 0 then reb_right_left (Node t x r) else reb_left (Node t x r))
        in if factor r = 0 then plug c u else er_reb c u
      else if snd x = 0 then plug c (Node t (fst x, 1) r)
      else er_reb c (Node t (fst x, 0) r))"
| "er_reb (RightOf l x # c) t =
     (if snd x < 0 then
        let u = (if factor l > 0 then reb_left_right (Node l x t) else reb_right (Node l x t))
        in if factor l = 0 then plug c u else er_reb c u
      else if snd x = 0 then plug c (Node l (fst x, - 1) t)
      else er_reb c (Node l (fst x, 0) t))"

text \<open>The subtree at the position got shorter by one and is balanced; the rest is as before.\<close>

definition shrunk :: "zipper \<Rightarrow> shape \<Rightarrow> bool" where
  "shrunk c t \<longleftrightarrow> bal t \<and> zbal c (Suc (height t))"

fun is_left :: "zipper \<Rightarrow> bool" where
  "is_left (LeftOf x r # c) = True"
| "is_left c = False"

lemma addrs_er_reb: "addrs (er_reb c t) = zleft c @ addrs t @ zright c"
  by (induction c t rule: er_reb.induct) (auto simp: addrs_plug Let_def)

lemma addrs_Leaf_iff: "addrs t = [] \<longleftrightarrow> t = Leaf"
  by (cases t) auto

lemma holds_factor: "holds s c t \<Longrightarrow> t \<noteq> Leaf \<Longrightarrow> get_balance_factor s (root_addr t) = Some (factor t)"
  by (cases t) (auto dest: holds_links(3))

text \<open>One round of the loop: the subtree \<open>u\<close> it leaves, and whether it goes on.\<close>

lemma erase_step_LeftOf:
  fixes s :: "'a avl_tree"
  assumes h: "holds s (LeftOf (p, b) r # c) t" and g: "shrunk (LeftOf (p, b) r # c) t"
  obtains s' u again where "erase_rebalance_step s p True = Some (s', root_addr u, again)"
    and "holds s' c u" and "u \<noteq> Leaf" and "only_links (set (addrs (plug c (Node t (p, b) r)))) s s'"
    and "addrs u = addrs (Node t (p, b) r)"
    and "er_reb (LeftOf (p, b) r # c) t = (if again then er_reb c u else plug c u)"
    and "if again then shrunk c u else bal (plug c u)"
proof -
  from g have t: "bal t" "bal r" "tilt b (Suc (height t)) (height r)"
      "zbal c (Suc (max (Suc (height t)) (height r)))"
    by (simp_all add: shrunk_def)
  note links = holds_links [OF out_left [OF h]]
  note setb = set_factor_refines [OF out_left [OF h]]
  from t(3) show thesis
  proof (cases rule: tiltE)
    case 1
    obtain s' where "set_balance_factor s p 1 = Some s'" "holds s' c (Node t (p, 1) r)"
      "only_links (set (addrs (plug c (Node t (p, b) r)))) s s'" by (rule setb [of 1]) simp_all
    with 1 links t that [of s' "Node t (p, 1) r" False] show thesis
      by (auto simp: erase_rebalance_step_def bal_plug)
  next
    case 2
    then have r: "r \<noteq> Leaf" by auto
    define u where "u = (if factor r < 0 then reb_right_left (Node t (p, b) r) else reb_left (Node t (p, b) r))"
    from rotate_RightOf_refines [OF into_right [OF out_left [OF h]] t(2) r] obtain s' n where
      s': "(if factor r < 0 then rebalance_right_left s p else rebalance_left s p) = Some (s', n)"
        "n = root_addr u" "holds s' c u" "only_links (set (addrs (plug c (Node t (p, b) r)))) s s'"
      unfolding u_def .
    have fr: "get_balance_factor s (root_addr r) = Some (factor r)"
      by (rule holds_factor [OF into_right [OF out_left [OF h]] r])
    have u: "addrs u = addrs (Node t (p, b) r)" by (simp add: u_def)
    have "bal u" "height u = (if factor r = 0 then height t + 3 else height t + 2)"
      using 2 t reb_left_bal [of t r "(p, b)"] reb_right_left_bal [of t r "(p, b)"] by (auto simp: u_def)
    moreover have "addrs u \<noteq> []" by (simp add: u)
    then have "u \<noteq> Leaf" unfolding addrs_Leaf_iff .
    ultimately have b: "if factor r \<noteq> 0 then shrunk c u else bal (plug c u)" and ne: "u \<noteq> Leaf"
      using 2 t by (simp_all add: bal_plug shrunk_def numeral_3_eq_3)
    have "erase_rebalance_step s p True = Some (s', root_addr u, factor r \<noteq> 0)"
      using 2 s' links fr by (simp add: erase_rebalance_step_def split del: if_split)
    moreover have "er_reb (LeftOf (p, b) r # c) t = (if factor r \<noteq> 0 then er_reb c u else plug c u)"
      using 2 by (simp add: Let_def u_def)
    ultimately show thesis using that s'(3,4) u b ne by blast
  next
    case 3
    obtain s' where "set_balance_factor s p 0 = Some s'" "holds s' c (Node t (p, 0) r)"
      "only_links (set (addrs (plug c (Node t (p, b) r)))) s s'" by (rule setb [of 0]) simp_all
    with 3 links t that [of s' "Node t (p, 0) r" True] show thesis
      by (auto simp: erase_rebalance_step_def shrunk_def)
  qed
qed

lemma erase_step_RightOf:
  fixes s :: "'a avl_tree"
  assumes h: "holds s (RightOf l (p, b) # c) t" and g: "shrunk (RightOf l (p, b) # c) t"
  obtains s' u again where "erase_rebalance_step s p False = Some (s', root_addr u, again)"
    and "holds s' c u" and "u \<noteq> Leaf" and "only_links (set (addrs (plug c (Node l (p, b) t)))) s s'"
    and "addrs u = addrs (Node l (p, b) t)"
    and "er_reb (RightOf l (p, b) # c) t = (if again then er_reb c u else plug c u)"
    and "if again then shrunk c u else bal (plug c u)"
proof -
  from g have t: "bal t" "bal l" "tilt b (height l) (Suc (height t))"
      "zbal c (Suc (max (height l) (Suc (height t))))"
    by (simp_all add: shrunk_def)
  note links = holds_links [OF out_right [OF h]]
  note setb = set_factor_refines [OF out_right [OF h]]
  from t(3) show thesis
  proof (cases rule: tiltE)
    case 1
    obtain s' where "set_balance_factor s p (- 1) = Some s'" "holds s' c (Node l (p, - 1) t)"
      "only_links (set (addrs (plug c (Node l (p, b) t)))) s s'" by (rule setb [of "- 1"]) simp_all
    with 1 links t that [of s' "Node l (p, - 1) t" False] show thesis
      by (auto simp: erase_rebalance_step_def bal_plug)
  next
    case 3
    then have l: "l \<noteq> Leaf" by auto
    define u where "u = (if factor l > 0 then reb_left_right (Node l (p, b) t) else reb_right (Node l (p, b) t))"
    from rotate_LeftOf_refines [OF into_left [OF out_right [OF h]] t(2) l] obtain s' n where
      s': "(if factor l > 0 then rebalance_left_right s p else rebalance_right s p) = Some (s', n)"
        "n = root_addr u" "holds s' c u" "only_links (set (addrs (plug c (Node l (p, b) t)))) s s'"
      unfolding u_def .
    have fr: "get_balance_factor s (root_addr l) = Some (factor l)"
      by (rule holds_factor [OF into_left [OF out_right [OF h]] l])
    have u: "addrs u = addrs (Node l (p, b) t)" by (simp add: u_def)
    have "bal u" "height u = (if factor l = 0 then height t + 3 else height t + 2)"
      using 3 t reb_right_bal [of l t "(p, b)"] reb_left_right_bal [of l t "(p, b)"] by (auto simp: u_def)
    moreover have "addrs u \<noteq> []" by (simp add: u)
    then have "u \<noteq> Leaf" unfolding addrs_Leaf_iff .
    ultimately have b: "if factor l \<noteq> 0 then shrunk c u else bal (plug c u)" and ne: "u \<noteq> Leaf"
      using 3 t by (simp_all add: bal_plug shrunk_def numeral_3_eq_3)
    have "erase_rebalance_step s p False = Some (s', root_addr u, factor l \<noteq> 0)"
      using 3 s' links fr by (simp add: erase_rebalance_step_def split del: if_split)
    moreover have "er_reb (RightOf l (p, b) # c) t = (if factor l \<noteq> 0 then er_reb c u else plug c u)"
      using 3 by (simp add: Let_def u_def)
    ultimately show thesis using that s'(3,4) u b ne by blast
  next
    case 2
    obtain s' where "set_balance_factor s p 0 = Some s'" "holds s' c (Node l (p, 0) t)"
      "only_links (set (addrs (plug c (Node l (p, b) t)))) s s'" by (rule setb [of 0]) simp_all
    with 2 links t that [of s' "Node l (p, 0) t" True] show thesis
      by (auto simp: erase_rebalance_step_def shrunk_def)
  qed
qed

text \<open>The end of a round: the loop reads the parent and the side of the subtree it goes on with.\<close>

lemma erase_rebalance_null [simp]: "erase_rebalance s 0 b = Some s"
  by (subst erase_rebalance.simps) simp

lemma next_round:
  assumes h: "holds s c u" "u \<noteq> Leaf"
  shows "do {
           parent \<leftarrow> get_tree_parent s (root_addr u);
           shortened_left \<leftarrow> (if parent \<noteq> 0 then do { l \<leftarrow> get_left s parent; Some (root_addr u = l) }
                             else Some False);
           erase_rebalance s parent shortened_left
         } = erase_rebalance s (parent_addr c) (is_left c)"
proof -
  from h obtain l a b r where u: "u = Node l (a, b) r" by (cases u) auto
  show ?thesis
  proof (cases c)
    case Nil
    with u holds_links [OF h(1) [unfolded u]] show ?thesis by simp
  next
    case (Cons f c')
    with u holds_parent_links [OF h(1) [unfolded u Cons]] show ?thesis by (cases f) auto
  qed
qed

lemma erase_rebalance_refines:
  "holds s c t \<Longrightarrow> shrunk c t \<Longrightarrow>
     \<exists>s'. erase_rebalance s (parent_addr c) (is_left c) = Some s' \<and> holds s' [] (er_reb c t) \<and>
       bal (er_reb c t) \<and> only_links (set (addrs (plug c t))) s s'"
proof (induction c arbitrary: s t)
  case Nil
  then show ?case by (simp add: shrunk_def)
next
  case (Cons f c)
  obtain s' u again where
    step: "erase_rebalance_step s (frame_addr f) (is_left (f # c)) = Some (s', root_addr u, again)"
      "holds s' c u" "u \<noteq> Leaf" "only_links (set (addrs (plug (f # c) t))) s s'"
      "set (addrs (plug c u)) = set (addrs (plug (f # c) t))"
      "er_reb (f # c) t = (if again then er_reb c u else plug c u)"
      "if again then shrunk c u else bal (plug c u)"
  proof (cases f)
    case (LeftOf x r)
    obtain p b where x: "x = (p, b)" by (cases x)
    show thesis
      by (rule erase_step_LeftOf [OF Cons.prems [unfolded LeftOf x]], rule that)
        (simp_all add: LeftOf x set_addrs_plug del: er_reb.simps)
  next
    case (RightOf l x)
    obtain p b where x: "x = (p, b)" by (cases x)
    show thesis
      by (rule erase_step_RightOf [OF Cons.prems [unfolded RightOf x]], rule that)
        (simp_all add: RightOf x set_addrs_plug del: er_reb.simps)
  qed
  have p: "frame_addr f \<noteq> 0" using Cons.prems(1) by (cases f) (auto simp: holds_def good_addr_def)
  show ?case
  proof (cases again)
    case True
    with Cons.IH [OF step(2)] step obtain s2 where
      s2: "erase_rebalance s' (parent_addr c) (is_left c) = Some s2" "holds s2 [] (er_reb c u)"
        "bal (er_reb c u)" "only_links (set (addrs (plug (f # c) t))) s' s2" by auto
    with step True p next_round [OF step(2,3)]
    have "erase_rebalance s (frame_addr f) (is_left (f # c)) = Some s2"
      by (subst erase_rebalance.simps) simp
    with s2 step True show ?thesis by (auto intro: only_links_trans)
  next
    case False
    with step p show ?thesis by (subst erase_rebalance.simps) (simp add: holds_plug)
  qed
qed

section \<open>Taking a node out of the links\<close>

lemma tree_at_cong:
  assumes "\<And>a. a \<in> set (addrs t) \<Longrightarrow> P a = P' a \<and> N a = N' a \<and> T a = T' a"
  shows "tree_at V P N T q t = tree_at V P' N' T' q t"
  using assms by (induction t arbitrary: q) auto

lemma zipper_at_cong:
  assumes "\<And>a. a \<in> set (zipper_addrs c) \<Longrightarrow> P a = P' a \<and> N a = N' a \<and> T a = T' a"
  shows "zipper_at V P N T rt h c = zipper_at V P' N' T' rt h c"
  using assms
proof (induction c arbitrary: h rule: zipper_addrs.induct)
  case (2 x r c)
  then have "tree_at V P N T q r = tree_at V P' N' T' q r" for q by (intro tree_at_cong) auto
  with 2 show ?case by auto
next
  case (3 l x c)
  then have "tree_at V P N T q l = tree_at V P' N' T' q l" for q by (intro tree_at_cong) auto
  with 3 show ?case by auto
qed simp

lemma tree_at_plug_replace:
  assumes "tree_at V P N T x (plug d u)" and "root_addr u' = root_addr u"
    and "\<And>y. tree_at V P N T y u \<Longrightarrow> tree_at V P' N' T' y u'"
    and "\<And>a. a \<in> set (zipper_addrs d) \<Longrightarrow> P' a = P a \<and> N' a = N a \<and> T' a = T a"
  shows "tree_at V P' N' T' x (plug d u')"
  using assms
proof (induction d u arbitrary: u' rule: plug.induct)
  case (2 y r d t)
  have "tree_at V P N T q r = tree_at V P' N' T' q r" for q using 2(5) by (intro tree_at_cong) auto
  with 2 show ?case by auto
next
  case (3 l y d t)
  have "tree_at V P N T q l = tree_at V P' N' T' q l" for q using 3(5) by (intro tree_at_cong) auto
  with 3 show ?case by auto
qed simp

lemma root_addr_plug: "d \<noteq> [] \<Longrightarrow> root_addr (plug d u) = root_addr (plug d u')"
proof (induction d u arbitrary: u' rule: plug.induct)
  case (2 x r c t)
  then show ?case by (cases "c = []") auto
next
  case (3 l x c t)
  then show ?case by (cases "c = []") auto
qed simp

lemma plug_append: "plug (d @ c) t = plug c (plug d t)"
  by (induction d t rule: plug.induct) auto

lemma holds_append: "holds s (d @ c) t \<longleftrightarrow> holds s c (plug d t)"
  using holds_plug [of s "d @ c" t] holds_plug [of s c "plug d t"] by (simp add: plug_append)

lemma holds_root_iff:
  assumes "holds s c (Node l (a, b) r)"
  shows "root s = a \<longleftrightarrow> c = []"
proof -
  from assms have "root s = (if c = [] then a else frame_addr (last c))" "a \<notin> set (zipper_addrs c)"
    using zipper_at_root [of "valid s" "prev s" "nxt s" "tree_parent s" "root s" a c]
    by (auto simp: holds_def)
  then show ?thesis using frame_addr_last_in [of c] by auto
qed

text \<open>A node with at most one child is replaced by that child.\<close>

lemma unlink_holds:
  assumes h: "holds s c (Node A (w, b) B)" and t: "t = A \<and> B = Leaf \<or> t = B \<and> A = Leaf"
  shows "holds (s\<lparr>root := hang_root c (root s) (root_addr t), prev := hang_prev c (prev s) (root_addr t),
    nxt := hang_nxt c (nxt s) (root_addr t), tree_parent := reparent t (tree_parent s) (parent_addr c)\<rparr>) c t"
  using h t zipper_at_hang [of "valid s" "prev s" "nxt s" "tree_parent s" "root s" w c "root_addr t"]
  by (auto simp: holds_def Int_commute)

lemma erase_one_child_refines:
  assumes h: "holds s c (Node A (w, b) B)" and one: "A = Leaf \<or> B = Leaf"
  defines "t \<equiv> if A \<noteq> Leaf then A else B"
  obtains s' where "erase_one_child s w = Some (s', parent_addr c, is_left c)"
    and "holds s' c t" and "only_links (set (addrs (plug c (Node A (w, b) B)))) s s'"
proof -
  let ?s' = "s\<lparr>root := hang_root c (root s) (root_addr t), prev := hang_prev c (prev s) (root_addr t),
    nxt := hang_nxt c (nxt s) (root_addr t), tree_parent := reparent t (tree_parent s) (parent_addr c)\<rparr>"
  from h have [simp]: "accessible s w" "w \<noteq> 0" "tree_parent s w = pack_factor (parent_addr c) b"
      "aligned8 (parent_addr c)" "prev s w = root_addr A" "nxt s w = root_addr B"
      "root_addr A = 0 \<longleftrightarrow> A = Leaf" "root s = w \<longleftrightarrow> c = []" "w = root s \<longleftrightarrow> c = []"
    using holds_root_iff [OF h] by (auto simp: holds_def good_addr_def accessible_def)
  have t: "tree_at (valid s) (prev s) (nxt s) (tree_parent s) w t" "w \<notin> set (addrs t)"
    using h by (auto simp: holds_def t_def)
  have R: "(if root_addr t \<noteq> 0 then set_tree_parent s1 (root_addr t) q else Some s1) =
      Some (s1\<lparr>tree_parent := reparent t (tree_parent s1) q\<rparr>)"
    if "valid s1 = valid s" "tree_parent s1 = tree_parent s" for s1 :: "'a avl_tree" and q
    using that reparent_exec [of s1 "prev s" "nxt s" "tree_parent s" w t] t by simp
  have repl: "(if A \<noteq> Leaf then Some (root_addr A) else Some (root_addr B)) = Some (root_addr t)"
    by (simp add: t_def)
  have "erase_one_child s w = Some (?s', parent_addr c, is_left c)"
  proof (cases c rule: zipper_addrs.cases)
    case 1
    with h R show ?thesis
      by (simp add: erase_one_child_def accessors repl split del: if_split cong: if_cong)
  next
    case (2 x r c')
    with h have "accessible s (fst x)" "prev s (fst x) = w" "aligned8 (fst x)" "fst x \<noteq> 0"
      by (auto simp: holds_def good_accessible good_addr_def)
    with 2 R show ?thesis
      by (simp add: erase_one_child_def accessors repl split del: if_split cong: if_cong)
  next
    case (3 l x c')
    with h have "accessible s (fst x)" "prev s (fst x) = root_addr l" "aligned8 (fst x)" "fst x \<noteq> 0"
      by (auto simp: holds_def good_accessible good_addr_def)
    moreover have "w \<noteq> root_addr l" using holds_parent_links(3) [OF h [unfolded 3], of l x] by auto
    ultimately show ?thesis using 3 R
      by (simp add: erase_one_child_def accessors repl split del: if_split cong: if_cong)
  qed
  moreover have "holds ?s' c t" using h one by (intro unlink_holds) (auto simp: t_def)
  moreover have "only_links (set (addrs (plug c (Node A (w, b) B)))) s ?s'"
    by (auto simp: only_links_def set_addrs_plug t_def)
  ultimately show thesis by (rule that)
qed

text \<open>The successor takes the place of a node with two children: the link above first.\<close>

lemma relink_parent_refines:
  assumes h: "holds s c (Node A (w, b) B)"
  shows "relink_parent s w n = Some (s\<lparr>prev := hang_prev c (prev s) n, nxt := hang_nxt c (nxt s) n\<rparr>)"
proof (cases c)
  case Nil
  with holds_links [OF h] show ?thesis by (simp add: relink_parent_def)
next
  case (Cons f c')
  with h have "accessible s (frame_addr f)"
    by (cases f) (auto simp: holds_def good_accessible)
  with Cons holds_parent_links [OF h [unfolded Cons]] show ?thesis
    by (cases f) (auto simp: relink_parent_def accessors)
qed

lemma reparent_upd_twist: "a \<notin> set (addrs t) \<Longrightarrow> reparent t (T(a := v)) q = (reparent t T q)(a := v)"
  by (cases t) (auto simp: fun_upd_twist)

lemma replace_right_child_holds:
  assumes h: "holds s c (Node A (w, b) (Node Leaf (n, bn) C))" and b': "factor_range b'"
  shows "holds (s\<lparr>prev := (hang_prev c (prev s) n)(n := root_addr A),
      nxt := hang_nxt c (nxt s) n,
      tree_parent := (reparent A (tree_parent s) n)(n := pack_factor (parent_addr c) b'), root := hang_root c (root s) n\<rparr>) c (Node A (n, b') C)"
  using h b' zipper_at_hang [of "valid s" "prev s" "nxt s" "tree_parent s" "root s" w c n]
    tree_at_reparent [of "valid s" "prev s" "nxt s" "tree_parent s" w A n]
  by (auto simp: holds_def Int_commute Int_Un_distrib)

lemma erase_right_child_exec:
  assumes h: "holds s c (Node A (w, b) (Node Leaf (n, bn) C))" and A: "A \<noteq> Leaf"
    and b: "factor_range (b - 1)"
  defines "s' \<equiv> \<lambda>b'. s\<lparr>prev := (hang_prev c (prev s) n)(n := root_addr A),
      nxt := hang_nxt c (nxt s) n,
      tree_parent := (reparent A (tree_parent s) n)(n := pack_factor (parent_addr c) b'), root := hang_root c (root s) n\<rparr>"
  shows "erase_right_child s w =
    (if c \<noteq> [] then Some (s' b, n, False)
     else do {
       s \<leftarrow> (if b < 0 then do { (s, _) \<leftarrow> rebalance_right (s' (b - 1)) n; Some s } else Some (s' (b - 1)));
       Some (s, nullptr, False)
     })"
proof -
  from h have [simp]: "accessible s w" "accessible s n" "w \<noteq> 0" "n \<noteq> 0" "w \<noteq> n" "n \<noteq> w" "aligned8 w" "aligned8 n"
      "tree_parent s w = pack_factor (parent_addr c) b" "tree_parent s n = pack_factor w bn"
      "aligned8 (parent_addr c)" "prev s w = root_addr A" "nxt s w = n" "factor_range b" "factor_range bn"
      "root_addr A \<noteq> 0" "w \<notin> set (addrs A)" "n \<notin> set (addrs A)" "parent_addr c = 0 \<longleftrightarrow> c = []"
      "w \<notin> set (zipper_addrs c)" "n \<notin> set (zipper_addrs c)"
    using A by (auto simp: holds_def good_addr_def accessible_def)
  have "root_addr A \<in> set (addrs A)" "n \<notin> set (addrs A)" using root_addr_in [of A] by simp_all
  then have [simp]: "root_addr A \<noteq> n" "n \<noteq> root_addr A" by blast+
  have t: "tree_at (valid s) (prev s) (nxt s) (tree_parent s) w A"
    using h by (auto simp: holds_def)
  have R: "(if root_addr A \<noteq> 0 then set_tree_parent s1 (root_addr A) q else Some s1) =
      Some (s1\<lparr>tree_parent := reparent A (tree_parent s1) q\<rparr>)"
    if "valid s1 = valid s" "tree_parent s1 (root_addr A) = tree_parent s (root_addr A)" for s1 :: "'a avl_tree" and q
    using that reparent_exec [of s1 "prev s" "nxt s" "tree_parent s" w A] t by simp
  then have R: "set_tree_parent s1 (root_addr A) q = Some (s1\<lparr>tree_parent := reparent A (tree_parent s1) q\<rparr>)"
    if "valid s1 = valid s" "tree_parent s1 (root_addr A) = tree_parent s (root_addr A)" for s1 :: "'a avl_tree" and q
    using that by simp
  show ?thesis
  proof (cases "c = []")
    case True
    then show ?thesis using b
      by (simp add: erase_right_child_def relink_parent_refines [OF h] accessors R s'_def
          reparent_upd_twist)
  next
    case False
    then have "hang_root c (root s) n = root s" by (cases c) auto
    with False show ?thesis
      by (simp add: erase_right_child_def relink_parent_refines [OF h] accessors R s'_def
          reparent_upd_twist)
  qed
qed

lemma erase_right_child_inner:
  assumes h: "holds s c (Node A (w, b) (Node Leaf (n, bn) C))" and A: "A \<noteq> Leaf" and c: "c \<noteq> []"
    and b: "factor_range (b - 1)"
  obtains s' where "erase_right_child s w = Some (s', n, False)" and "holds s' (RightOf A (n, b) # c) C"
    and "only_links (set (addrs (plug c (Node A (w, b) (Node Leaf (n, bn) C))))) s s'"
proof -
  from h have "factor_range b" by (simp add: holds_def)
  let ?s' = "s\<lparr>prev := (hang_prev c (prev s) n)(n := root_addr A),
      nxt := hang_nxt c (nxt s) n,
      tree_parent := (reparent A (tree_parent s) n)(n := pack_factor (parent_addr c) b), root := hang_root c (root s) n\<rparr>"
  show thesis
  proof
    show "erase_right_child s w = Some (?s', n, False)" using erase_right_child_exec [OF h A b] c by simp
    show "holds ?s' (RightOf A (n, b) # c) C"
      by (rule into_right [OF replace_right_child_holds [OF h \<open>factor_range b\<close>]])
    show "only_links (set (addrs (plug c (Node A (w, b) (Node Leaf (n, bn) C))))) s ?s'"
      by (simp add: only_links_def set_addrs_plug)
  qed
qed

text \<open>
  At the root the source does not call \<open>_erase_rebalance\<close>: it lowers the factor of the successor and
  rotates once if the removed root leaned to the left.
\<close>

lemma erase_right_child_root:
  assumes h: "holds s [] (Node A (w, b) (Node Leaf (n, bn) C))" and A: "A \<noteq> Leaf"
    and b: "factor_range (b - 1)"
  defines "t \<equiv> if b < 0 then reb_right (Node A (n, b - 1) C) else Node A (n, b - 1) C"
  obtains s' where "erase_right_child s w = Some (s', nullptr, False)" and "holds s' [] t"
    and "only_links (set (addrs (Node A (w, b) (Node Leaf (n, bn) C)))) s s'"
proof -
  let ?s1 = "s\<lparr>prev := (prev s)(n := root_addr A),
      tree_parent := (reparent A (tree_parent s) n)(n := pack_factor 0 (b - 1)), root := n\<rparr>"
  have h1: "holds ?s1 [] (Node A (n, b - 1) C)"
    using replace_right_child_holds [OF h b] by simp
  have o1: "only_links (set (addrs (Node A (w, b) (Node Leaf (n, bn) C)))) s ?s1"
    by (simp add: only_links_def)
  show thesis
  proof (cases "b < 0")
    case False
    with erase_right_child_exec [OF h A b] h1 o1 that [of ?s1] show thesis by (simp add: t_def)
  next
    case True
    from A obtain A1 l bl A2 where l: "A = Node A1 (l, bl) A2" by (cases A) auto
    obtain s2 where s2: "rebalance_right ?s1 n = Some (s2, l)" "holds s2 [] t"
        "only_links (set (addrs (Node A (n, b - 1) C))) ?s1 s2"
      using rebalance_right_refines [OF h1 [unfolded l]] True unfolding l t_def by auto
    have "only_links (set (addrs (Node A (w, b) (Node Leaf (n, bn) C)))) ?s1 s2"
      by (rule only_links_mono [OF s2(3)]) auto
    with erase_right_child_exec [OF h A b] s2 True show thesis
      by (intro that [of s2] only_links_trans [OF o1]) simp_all
  qed
qed

text \<open>The leftmost node of a subtree and the path to it.\<close>

lemma leftmost_position:
  assumes "t \<noteq> Leaf"
  obtains d n bn C where "t = plug d (Node Leaf (n, bn) C)" "zleft d = []" "d = [] \<longleftrightarrow> left t = Leaf"
proof -
  have "\<exists>d n bn C. t = plug d (Node Leaf (n, bn) C) \<and> zleft d = [] \<and> (d = [] \<longleftrightarrow> left t = Leaf)"
    using assms
  proof (induction t)
    case (Node l x r)
    show ?case
    proof (cases "l = Leaf")
      case True
      then show ?thesis by (intro exI [of _ "[]"] exI [of _ "fst x"] exI [of _ "snd x"]) simp
    next
      case False
      with Node.IH(1) obtain d n bn C where "l = plug d (Node Leaf (n, bn) C)" "zleft d = []" by auto
      moreover have "zleft (d @ c) = [] \<longleftrightarrow> zleft d = [] \<and> zleft c = []" for c
        by (induction d rule: zleft.induct) auto
      ultimately show ?thesis using False
        by (intro exI [of _ "d @ [LeftOf x r]"] exI [of _ n] exI [of _ bn]) (auto simp: plug_append)
    qed
  qed simp
  with that show thesis by metis
qed

lemma zipper_addrs_append: "set (zipper_addrs (d @ c)) = set (zipper_addrs d) \<union> set (zipper_addrs c)"
  by (induction d rule: zipper_addrs.induct) auto

lemma reparent_exec_node:
  assumes "tree_at (valid s) P N T x t" and "t \<noteq> Leaf" and "tree_parent s (root_addr t) = T (root_addr t)"
  shows "set_tree_parent s (root_addr t) q = Some (s\<lparr>tree_parent := reparent t (tree_parent s) q\<rparr>)"
  using assms by (cases t) (auto simp: accessors good_accessible good_addr_def)

lemma unlink_leftmost:
  assumes "tree_at V P N T x (plug (LeftOf (q, bq) r # d) (Node Leaf (n, bn) C))"
    and "distinct (addrs (plug (LeftOf (q, bq) r # d) (Node Leaf (n, bn) C)))"
  shows "tree_at V (P(q := root_addr C)) N (reparent C T q) x (plug (LeftOf (q, bq) r # d) C)"
proof -
  from assms(2) have ds: "distinct (addrs (Node (Node Leaf (n, bn) C) (q, bq) r) @ zipper_addrs d)"
    by (simp add: distinct_addrs_plug)
  have "tree_at V (P(q := root_addr C)) N (reparent C T q) x (plug d (Node C (q, bq) r))"
  proof (rule tree_at_plug_replace)
    show "tree_at V P N T x (plug d (Node (Node Leaf (n, bn) C) (q, bq) r))" using assms(1) by simp
    show "root_addr (Node C (q, bq) r) = root_addr (Node (Node Leaf (n, bn) C) (q, bq) r)" by simp
  next
    fix y assume "tree_at V P N T y (Node (Node Leaf (n, bn) C) (q, bq) r)"
    with ds show "tree_at V (P(q := root_addr C)) N (reparent C T q) y (Node C (q, bq) r)"
      by (auto simp: Int_Un_distrib)
  next
    fix a assume a: "a \<in> set (zipper_addrs d)"
    with ds have "a \<notin> set (addrs C)" by auto
    with a ds show "(P(q := root_addr C)) a = P a \<and> N a = N a \<and> reparent C T q a = T a" by auto
  qed
  then show ?thesis by simp
qed

text \<open>A node \<open>n\<close> from outside takes the place of \<open>w\<close>, with its factor, its parent and its children.\<close>

lemma replace_node_holds:
  assumes w: "holds s c (Node A (w, b) R)" and n: "good_addr (valid s) n" "n \<notin> set (addrs (plug c (Node A (w, b) R)))"
  shows "holds (s\<lparr>prev := (hang_prev c (prev s) n)(n := root_addr A),
      nxt := (hang_nxt c (nxt s) n)(n := root_addr R),
      tree_parent := (reparent R (reparent A (tree_parent s) n) n)(n := pack_factor (parent_addr c) b),
      root := hang_root c (root s) n\<rparr>) c (Node A (n, b) R)"
proof -
  let ?V = "valid s" and ?P = "prev s" and ?N = "nxt s" and ?T = "tree_parent s"
  from w n(2) have A: "tree_at ?V ?P ?N ?T w A" and R: "tree_at ?V ?P ?N ?T w R"
    and c: "zipper_at ?V ?P ?N ?T (root s) w c" and [simp]: "factor_range b" "n \<notin> set (addrs A)"
      "n \<notin> set (addrs R)" "n \<notin> set (zipper_addrs c)" and ds: "distinct (addrs A)" "distinct (addrs R)"
      "distinct (zipper_addrs c)" "set (addrs A) \<inter> set (addrs R) = {}"
      "set (addrs A) \<inter> set (zipper_addrs c) = {}" "set (addrs R) \<inter> set (zipper_addrs c) = {}"
    by (auto simp: holds_def set_addrs_plug)
  from tree_at_reparent [OF A ds(1), of n] have A': "tree_at ?V ?P ?N (reparent A ?T n) n A" .
  from R ds(4) have "tree_at ?V ?P ?N (reparent A ?T n) w R" by simp
  from tree_at_reparent [OF this ds(2), of n] have R': "tree_at ?V ?P ?N (reparent R (reparent A ?T n) n) n R" .
  from A' ds(4) have "tree_at ?V ?P ?N (reparent R (reparent A ?T n) n) n A" by (simp add: Int_commute)
  with R' zipper_at_hang [OF c ds(3), of n] ds n show ?thesis
    by (simp add: holds_def Int_commute Int_Un_distrib)
qed

lemma hang_prev_upd:
  "q \<notin> set (zipper_addrs c) \<Longrightarrow> hang_prev c (P(q := v)) n = (hang_prev c P n)(q := v)"
  by (cases c rule: zipper_addrs.cases) (auto intro: fun_upd_twist)

lemma erase_leftmost_exec:
  fixes s :: "'a avl_tree"
  assumes h: "holds s c (Node A (w, b) R)" and A: "A \<noteq> Leaf"
    and R: "R = plug (LeftOf (q, bq) r # d) (Node Leaf (n, bn) C)" and d: "zleft d = []"
  defines "R' \<equiv> plug (LeftOf (q, bq) r # d) C"
  defines "s1 \<equiv> s\<lparr>prev := (prev s)(q := root_addr C), tree_parent := reparent C (tree_parent s) q\<rparr>"
  shows "erase_leftmost s w = Some (s1\<lparr>prev := (hang_prev c (prev s1) n)(n := root_addr A),
      nxt := (hang_nxt c (nxt s1) n)(n := root_addr R'),
      tree_parent := (reparent R' (reparent A (tree_parent s1) n) n)(n := pack_factor (parent_addr c) b),
      root := hang_root c (root s1) n\<rparr>, q, True)"
proof -
  let ?V = "valid s" and ?P = "prev s" and ?N = "nxt s" and ?T = "tree_parent s"
  have hn: "holds s (LeftOf (q, bq) r # d @ RightOf A (w, b) # c) (Node Leaf (n, bn) C)"
    using h R holds_append [of s "LeftOf (q, bq) r # d" "RightOf A (w, b) # c" "Node Leaf (n, bn) C"]
    by (simp add: holds_right)
  from h have w [simp]: "accessible s w" "?T w = pack_factor (parent_addr c) b" "?P w = root_addr A"
      "?N w = root_addr R" "w \<notin> set (zipper_addrs c)" "w \<notin> set (addrs A)" "factor_range b"
      "aligned8 (parent_addr c)" "parent_addr c = 0 \<longleftrightarrow> c = []"
    by (auto simp: holds_def good_addr_def accessible_def)
  from hn have n [simp]: "accessible s n" "accessible s q" "aligned8 n" "aligned8 q" "?T n = pack_factor q bn"
      "?P q = n" "?N n = root_addr C" "n \<noteq> q" "q \<noteq> n" "factor_range bn" "n \<noteq> 0" "q \<noteq> 0"
    by (auto simp: holds_def good_addr_def accessible_def)
  from h have ds: "distinct (addrs (plug c (Node A (w, b) R)))" by (simp add: holds_def distinct_addrs_plug)
  have sets: "set (addrs R) = insert n (set (addrs R'))" "set (addrs C) \<subseteq> set (addrs R')" "q \<in> set (addrs R')"
      "q \<notin> set (addrs C)" "n \<notin> set (addrs R')"
    using ds by (auto simp: R R'_def set_addrs_plug distinct_addrs_plug)
  have disj: "set (addrs R) \<inter> set (addrs A) = {}" "set (addrs R) \<inter> set (zipper_addrs c) = {}" "w \<notin> set (addrs R)"
    using ds by (auto simp: distinct_addrs_plug)
  have [simp]: "n \<notin> set (addrs R')" "n \<notin> set (addrs C)" "n \<notin> set (addrs A)" "q \<notin> set (addrs A)"
      "n \<notin> set (zipper_addrs c)" "q \<notin> set (zipper_addrs c)" "w \<noteq> n" "w \<noteq> q" "n \<noteq> w" "q \<noteq> w"
      "w \<notin> set (addrs R')" "w \<notin> set (addrs C)"
    using sets disj by auto
  have "R' \<noteq> Leaf" using sets by auto
  have root: "root_addr R = root_addr R'" unfolding R R'_def by (rule root_addr_plug) simp
  obtain RL x y RR where RN: "R = Node RL (x, y) RR" using sets by (cases R) auto
  have "hd (addrs R) = n" using d by (simp add: R addrs_plug)
  with RN root sets(5) root_addr_in [of R'] \<open>R' \<noteq> Leaf\<close> have RL: "RL \<noteq> Leaf" "hd (addrs RL) = n"
    by (cases RL; cases R'; auto simp: hd_append)+
  have gl: "get_left s (root_addr R) = Some (root_addr RL)"
    using holds_links(1) [OF into_right [OF h, unfolded RN]] by (simp add: RN)
  have lm: "leftmost s (root_addr RL) = Some n"
    using leftmost_refines [OF into_left [OF into_right [OF h, unfolded RN]] RL(1)] RL(2) by simp
  have tC: "tree_at ?V ?P ?N ?T n C" and tA: "tree_at ?V ?P ?N ?T w A" and tR: "tree_at ?V ?P ?N ?T w R"
    using h hn by (auto simp: holds_def)
  have tR': "tree_at ?V (?P(q := root_addr C)) ?N (reparent C ?T q) w R'"
    unfolding R'_def using tR ds by (intro unlink_leftmost) (auto simp: R distinct_addrs_plug)
  have RC: "(if root_addr C \<noteq> 0 then set_tree_parent s' (root_addr C) q else Some s') =
      Some (s'\<lparr>tree_parent := reparent C (tree_parent s') q\<rparr>)"
    if "valid s' = ?V" "tree_parent s' (root_addr C) = ?T (root_addr C)" for s' :: "'a avl_tree"
    using that reparent_exec [of s' ?P ?N ?T n C] tC by simp
  have RA: "set_tree_parent s' (root_addr A) n = Some (s'\<lparr>tree_parent := reparent A (tree_parent s') n\<rparr>)"
    if "valid s' = ?V" "tree_parent s' (root_addr A) = ?T (root_addr A)" for s' :: "'a avl_tree"
    using that reparent_exec_node [of s' ?P ?N ?T w A] tA A by simp
  have RR: "set_tree_parent s' (root_addr R') n = Some (s'\<lparr>tree_parent := reparent R' (tree_parent s') n\<rparr>)"
    if "valid s' = ?V" "tree_parent s' (root_addr R') = reparent C ?T q (root_addr R')" for s' :: "'a avl_tree"
    using that reparent_exec_node [OF _ \<open>R' \<noteq> Leaf\<close>, of s' _ ?N "reparent C ?T q" w n] tR' by simp
  have rA: "root_addr A \<in> set (addrs A)" using A by (cases A) auto
  have rR: "root_addr R' \<in> set (addrs R')" using \<open>R' \<noteq> Leaf\<close> by (cases R') auto
  have nA: "n \<notin> set (addrs A)" "n \<notin> set (addrs C)" by simp_all
  have ne: "root_addr A \<noteq> n" "root_addr R' \<noteq> n" "root_addr C \<noteq> n" "root_addr A \<notin> set (addrs C)"
      "root_addr R' \<notin> set (addrs A)"
    using root_addr_in [of C] rA rR sets disj nA \<open>n \<noteq> 0\<close> by (metis | blast)+
  have hr: "c \<noteq> [] \<Longrightarrow> hang_root c (root s) n = root s" by (cases c) auto
  note exec = erase_leftmost_def relink_parent_refines [OF h] accessors gl [unfolded root] lm RC RA RR ne root
    s1_def reparent_upd_twist hang_prev_upd hr
  show ?thesis by (cases "c = []") (simp_all add: exec split del: if_split cong: if_cong)
qed

lemma erase_leftmost_refines:
  fixes s :: "'a avl_tree"
  assumes h: "holds s c (Node A (w, b) R)" and A: "A \<noteq> Leaf"
    and R: "R = plug (LeftOf (q, bq) r # d) (Node Leaf (n, bn) C)" and d: "zleft d = []"
  obtains s' where "erase_leftmost s w = Some (s', q, True)"
    and "holds s' (LeftOf (q, bq) r # d @ RightOf A (n, b) # c) C"
    and "only_links (set (addrs (plug c (Node A (w, b) R)))) s s'"
proof -
  let ?R' = "plug (LeftOf (q, bq) r # d) C"
  let ?s1 = "s\<lparr>prev := (prev s)(q := root_addr C), tree_parent := reparent C (tree_parent s) q\<rparr>"
  from h have ds: "distinct (addrs (plug c (Node A (w, b) R)))" by (simp add: holds_def distinct_addrs_plug)
  have root: "root_addr R = root_addr ?R'" unfolding R by (rule root_addr_plug) simp
  have R': "tree_at (valid ?s1) (prev ?s1) (nxt ?s1) (tree_parent ?s1) w ?R'"
    using unlink_leftmost [of "valid s" "prev s" "nxt s" "tree_parent s" w q bq r d n bn C] h R ds
    by (simp add: holds_def distinct_addrs_plug)
  have sets: "q \<in> set (addrs R)" "set (addrs C) \<subseteq> set (addrs R)" "set (addrs ?R') \<subseteq> set (addrs R)"
      "n \<in> set (addrs R)" "n \<notin> set (addrs ?R')" "distinct (addrs ?R')"
    using ds by (auto simp: R set_addrs_plug distinct_addrs_plug)
  have disj: "set (addrs R) \<inter> set (addrs A) = {}" "set (addrs R) \<inter> set (zipper_addrs c) = {}" "w \<notin> set (addrs R)"
    using ds by (auto simp: distinct_addrs_plug)
  have h1: "holds ?s1 c (Node A (w, b) ?R')"
  proof -
    have [simp]: "q \<notin> set (addrs A)" "q \<notin> set (zipper_addrs c)" "q \<noteq> w" "w \<noteq> q" "w \<notin> set (addrs C)"
        "set (addrs C) \<inter> set (addrs A) = {}" "set (addrs C) \<inter> set (zipper_addrs c) = {}"
      using sets disj by auto
    show ?thesis using h R' sets disj root by (auto simp: holds_def)
  qed
  have n: "good_addr (valid ?s1) n" "n \<notin> set (addrs (plug c (Node A (w, b) ?R')))"
  proof -
    show "good_addr (valid ?s1) n" using h sets(4) by (auto simp: holds_def dest: tree_at_good)
    show "n \<notin> set (addrs (plug c (Node A (w, b) ?R')))" using sets disj by (auto simp: set_addrs_plug)
  qed
  have out: "a \<notin> set (addrs R) \<Longrightarrow> a \<noteq> q \<and> a \<noteq> n \<and> a \<notin> set (addrs C) \<and> a \<notin> set (addrs ?R')" for a
    using sets by blast
  show thesis
  proof (rule that)
    show "erase_leftmost s w = Some (?s1\<lparr>prev := (hang_prev c (prev ?s1) n)(n := root_addr A),
      nxt := (hang_nxt c (nxt ?s1) n)(n := root_addr ?R'),
      tree_parent := (reparent ?R' (reparent A (tree_parent ?s1) n) n)(n := pack_factor (parent_addr c) b),
      root := hang_root c (root ?s1) n\<rparr>, q, True)" (is "_ = Some (?s', _, _)")
      by (rule erase_leftmost_exec [OF h A R d])
    from holds_append [of ?s' "LeftOf (q, bq) r # d" "RightOf A (n, b) # c" C]
      into_right [OF replace_node_holds [OF h1 n]]
    show "holds ?s' (LeftOf (q, bq) r # d @ RightOf A (n, b) # c) C" by simp
    show "only_links (set (addrs (plug c (Node A (w, b) R)))) s ?s'"
      using out by (simp add: only_links_def set_addrs_plug [of c])
  qed
qed

section \<open>The contract of the removal\<close>

text \<open>
  The state in which the source rebalances wrongly: the root is removed, its right child is the
  successor, the root leans to the left and its left child to the right, so that a double rotation is
  needed and a single one is made.
\<close>

definition root_needs_double_rotation :: "'a avl_tree \<Rightarrow> addr \<Rightarrow> bool" where
  "root_needs_double_rotation s a \<longleftrightarrow>
     a = root s \<and> prev s a \<noteq> nullptr \<and> nxt s a \<noteq> nullptr \<and> prev s (nxt s a) = nullptr \<and>
     unpack_factor (tree_parent s a) < 0 \<and> unpack_factor (tree_parent s (prev s a)) > 0"

lemma zbal_append: "zbal (d @ c) (height t) \<longleftrightarrow> zbal d (height t) \<and> zbal c (height (plug d t))"
proof (induction d t rule: plug.induct)
  case (2 x r d t)
  then show ?case by simp
next
  case (3 l x d t)
  then show ?case by simp
qed simp

lemma shrunk_one_child:
  assumes "bal (plug c (Node A (w, b) R))" "A = Leaf \<or> R = Leaf"
  shows "shrunk c (if A \<noteq> Leaf then A else R)"
  using assms by (auto simp: shrunk_def bal_plug)

lemma shrunk_leftmost:
  assumes "bal (plug c (Node A (w, b) R))" and R: "R = plug d (Node Leaf (n, bn) C)"
  shows "shrunk (d @ RightOf A (n, b) # c) C"
  using assms zbal_append [of d "RightOf A (n, b) # c" "Node Leaf (n, bn) C"]
  by (auto simp: shrunk_def bal_plug)

text \<open>What the links hold after the removal of the node at a position.\<close>

definition erased :: "zipper \<Rightarrow> shape \<Rightarrow> shape \<Rightarrow> 'a avl_tree \<Rightarrow> shape \<Rightarrow> bool" where
  "erased c A R s' t' \<longleftrightarrow>
     holds s' [] t' \<and> addrs t' = zleft c @ addrs A @ addrs R @ zright c"

lemma rebalance_if:
  assumes "holds s c t" "shrunk c t"
  obtains s' where "(if parent_addr c \<noteq> 0 then erase_rebalance s (parent_addr c) (is_left c) else Some s) = Some s'"
    "holds s' [] (er_reb c t)" "bal (er_reb c t)" "only_links (set (addrs (plug c t))) s s'"
proof -
  from erase_rebalance_refines [OF assms] obtain s' where
    s': "erase_rebalance s (parent_addr c) (is_left c) = Some s'"
    "holds s' [] (er_reb c t)" "bal (er_reb c t)" "only_links (set (addrs (plug c t))) s s'" by blast
  then have "(if parent_addr c \<noteq> 0 then erase_rebalance s (parent_addr c) (is_left c) else Some s) = Some s'"
    by (cases "parent_addr c = 0") simp_all
  with s' that show thesis by blast
qed

lemma erase_links_one_child:
  assumes h: "holds s c (Node A (w, b) R)" and bt: "bal (plug c (Node A (w, b) R))" and one: "A = Leaf \<or> R = Leaf"
  obtains s' t' where "erase_links s w = Some s'" "erased c A R s' t'" "bal t'"
    "only_links (set (addrs (plug c (Node A (w, b) R)))) s s'"
proof -
  let ?t = "if A \<noteq> Leaf then A else R"
  obtain s1 where s1: "erase_one_child s w = Some (s1, parent_addr c, is_left c)" "holds s1 c ?t"
    "only_links (set (addrs (plug c (Node A (w, b) R)))) s s1"
    by (rule erase_one_child_refines [OF h one])
  obtain s2 where s2:
    "(if parent_addr c \<noteq> 0 then erase_rebalance s1 (parent_addr c) (is_left c) else Some s1) = Some s2"
    "holds s2 [] (er_reb c ?t)" "bal (er_reb c ?t)" "only_links (set (addrs (plug c ?t))) s1 s2"
    by (rule rebalance_if [OF s1(2) shrunk_one_child [OF bt one]])
  have "erase_links s w = Some s2"
    using one holds_links [OF h] holds_Leaf_iff [OF h] s1(1) s2(1) by (auto simp: erase_links_def)
  moreover have "erased c A R s2 (er_reb c ?t)"
    using one s2(2) by (auto simp: erased_def addrs_er_reb)
  moreover have "only_links (set (addrs (plug c (Node A (w, b) R)))) s1 s2"
    by (rule only_links_mono [OF s2(4)]) (auto simp: set_addrs_plug)
  ultimately show thesis using s1(3) s2(3) that only_links_trans by blast
qed

lemma erase_links_right_child:
  assumes h: "holds s c (Node A (w, b) (Node Leaf (n, bn) C))" and A: "A \<noteq> Leaf" and c: "c \<noteq> []"
    and bt: "bal (plug c (Node A (w, b) (Node Leaf (n, bn) C)))"
  obtains s' t' where "erase_links s w = Some s'" "erased c A (Node Leaf (n, bn) C) s' t'" "bal t'"
    "only_links (set (addrs (plug c (Node A (w, b) (Node Leaf (n, bn) C))))) s s'"
proof -
  have fr: "factor_range (b - 1)" using bt by (auto simp: bal_plug factor_range_def tilt_def)
  obtain s1 where s1: "erase_right_child s w = Some (s1, n, False)" "holds s1 (RightOf A (n, b) # c) C"
    "only_links (set (addrs (plug c (Node A (w, b) (Node Leaf (n, bn) C))))) s s1"
    by (rule erase_right_child_inner [OF h A c fr])
  have sh: "shrunk (RightOf A (n, b) # c) C" using shrunk_leftmost [OF bt, of "[]" n bn C] by simp
  obtain s2 where s2:
    "(if parent_addr (RightOf A (n, b) # c) \<noteq> 0 then
        erase_rebalance s1 (parent_addr (RightOf A (n, b) # c)) (is_left (RightOf A (n, b) # c))
      else Some s1) = Some s2"
    "holds s2 [] (er_reb (RightOf A (n, b) # c) C)" "bal (er_reb (RightOf A (n, b) # c) C)"
    "only_links (set (addrs (plug (RightOf A (n, b) # c) C))) s1 s2"
    by (rule rebalance_if [OF s1(2) sh])
  have "get_left s n = Some 0" "n \<noteq> 0" using holds_links [OF into_right [OF h]] by simp_all
  then have "erase_links s w = Some s2"
    using A holds_links [OF h] holds_Leaf_iff [OF h] s1(1) s2(1) by (simp add: erase_links_def)
  moreover have "erased c A (Node Leaf (n, bn) C) s2 (er_reb (RightOf A (n, b) # c) C)"
    using s2(2) by (simp add: erased_def addrs_er_reb del: er_reb.simps)
  moreover have "only_links (set (addrs (plug c (Node A (w, b) (Node Leaf (n, bn) C))))) s1 s2"
    by (rule only_links_mono [OF s2(4)]) (auto simp: set_addrs_plug)
  ultimately show thesis using s1(3) s2(3) that only_links_trans by blast
qed

lemma erase_links_leftmost:
  assumes h: "holds s c (Node A (w, b) R)" and A: "A \<noteq> Leaf" and R: "R \<noteq> Leaf" "left R \<noteq> Leaf"
    and bt: "bal (plug c (Node A (w, b) R))"
  obtains s' t' where "erase_links s w = Some s'" "erased c A R s' t'" "bal t'"
    "only_links (set (addrs (plug c (Node A (w, b) R)))) s s'"
proof -
  from leftmost_position [OF R(1)] R(2) obtain d0 n bn C where
    d0: "R = plug d0 (Node Leaf (n, bn) C)" "zleft d0 = []" "d0 \<noteq> []" by metis
  then obtain q bq r d where d: "d0 = LeftOf (q, bq) r # d" "zleft d = []"
    by (cases d0 rule: zleft.cases) auto
  note Rd = d0(1) [unfolded d(1)]
  obtain s1 where s1: "erase_leftmost s w = Some (s1, q, True)"
    "holds s1 (LeftOf (q, bq) r # d @ RightOf A (n, b) # c) C"
    "only_links (set (addrs (plug c (Node A (w, b) R)))) s s1"
    by (rule erase_leftmost_refines [OF h A Rd d(2)])
  let ?c = "LeftOf (q, bq) r # d @ RightOf A (n, b) # c"
  have sh: "shrunk ?c C" using shrunk_leftmost [OF bt Rd] by simp
  obtain s2 where s2:
    "(if parent_addr ?c \<noteq> 0 then erase_rebalance s1 (parent_addr ?c) (is_left ?c) else Some s1) = Some s2"
    "holds s2 [] (er_reb ?c C)" "bal (er_reb ?c C)" "only_links (set (addrs (plug ?c C))) s1 s2"
    by (rule rebalance_if [OF s1(2) sh])
  from R obtain RL x y RR where RN: "R = Node RL (x, y) RR" "RL \<noteq> Leaf" by (cases R) auto
  from holds_links [OF into_right [OF h [unfolded RN(1)]]] holds_Leaf_iff(1) [OF into_right [OF h [unfolded RN(1)]]] RN
  have "get_left s (root_addr R) = Some (root_addr RL)" "root_addr RL \<noteq> 0" by simp_all
  then have "erase_links s w = Some s2"
    using A R(1) holds_links [OF h] holds_Leaf_iff [OF h] s1(1) s2(1)
    by (simp add: erase_links_def split: if_splits)
  moreover have "zleft (d @ c') = zleft c' \<and> zright (d @ c') = zright d @ zright c'" for c'
    using d(2) by (induction d rule: zleft.induct) auto
  then have "erased c A R s2 (er_reb ?c C)"
    using s2(2) d(2) Rd by (simp add: erased_def addrs_er_reb addrs_plug del: er_reb.simps)
  moreover have "only_links (set (addrs (plug c (Node A (w, b) R)))) s1 s2"
    by (rule only_links_mono [OF s2(4)]) (auto simp: set_addrs_plug zipper_addrs_append Rd)
  ultimately show thesis using s1(3) s2(3) that only_links_trans by blast
qed

lemma erase_links_root:
  assumes h: "holds s [] (Node A (w, b) (Node Leaf (n, bn) C))" and A: "A \<noteq> Leaf"
    and bt: "bal (Node A (w, b) (Node Leaf (n, bn) C))"
  obtains s' t' where "erase_links s w = Some s'" "erased [] A (Node Leaf (n, bn) C) s' t'"
    "bal t' \<longleftrightarrow> \<not> root_needs_double_rotation s w"
    "only_links (set (addrs (Node A (w, b) (Node Leaf (n, bn) C)))) s s'"
proof -
  have fr: "factor_range (b - 1)" using bt by (auto simp: factor_range_def tilt_def)
  let ?t = "if b < 0 then reb_right (Node A (n, b - 1) C) else Node A (n, b - 1) C"
  obtain s1 where s1: "erase_right_child s w = Some (s1, nullptr, False)" "holds s1 [] ?t"
    "only_links (set (addrs (Node A (w, b) (Node Leaf (n, bn) C)))) s s1"
    by (rule erase_right_child_root [OF h A fr])
  have "get_left s n = Some 0" "n \<noteq> 0" using holds_links [OF into_right [OF h]] by simp_all
  then have "erase_links s w = Some s1"
    using A holds_links [OF h] holds_Leaf_iff [OF h] s1(1) by (simp add: erase_links_def)
  moreover have "erased [] A (Node Leaf (n, bn) C) s1 ?t"
    using s1(2) by (simp add: erased_def)
  moreover from A obtain A1 l bl A2 where l: "A = Node A1 (l, bl) A2" by (cases A) auto
  have dr: "root_needs_double_rotation s w \<longleftrightarrow> b < 0 \<and> bl > 0"
    using h l by (auto simp: root_needs_double_rotation_def holds_def good_addr_def)
  have tb: "tilt b (height A) (Suc (height C))" "tilt bl (height A1) (height A2)"
    and bs: "bal A1" "bal A2" "bal C"
    using bt l by simp_all
  have "bal ?t \<longleftrightarrow> \<not> root_needs_double_rotation s w"
    unfolding dr using tb unfolding l
    by - (erule tiltE; erule tiltE; simp add: bs)
  ultimately show thesis using s1(3) that by blast
qed

lemma erase_links_refines:
  assumes h: "holds s c (Node A (w, b) R)" and bt: "bal (plug c (Node A (w, b) R))"
  obtains s' t' where "erase_links s w = Some s'" "erased c A R s' t'"
    "bal t' \<longleftrightarrow> \<not> root_needs_double_rotation s w"
    "only_links (set (addrs (plug c (Node A (w, b) R)))) s s'"
proof -
  have nd: "\<not> root_needs_double_rotation s w" if "A = Leaf \<or> R = Leaf \<or> left R \<noteq> Leaf \<or> c \<noteq> []"
  proof -
    have "prev s w = root_addr A" "nxt s w = root_addr R" "R \<noteq> Leaf \<Longrightarrow> prev s (root_addr R) = root_addr (left R)"
        "R \<noteq> Leaf \<Longrightarrow> left R \<noteq> Leaf \<Longrightarrow> root_addr (left R) \<noteq> 0"
      using h by (cases R; auto simp: holds_def)+
    with that holds_root_iff [OF h] show ?thesis
      by (cases "R = Leaf") (auto simp: root_needs_double_rotation_def)
  qed
  consider "A = Leaf \<or> R = Leaf" | "A \<noteq> Leaf" "R \<noteq> Leaf" "left R \<noteq> Leaf"
    | n bn C where "A \<noteq> Leaf" "R = Node Leaf (n, bn) C" "c \<noteq> []"
    | n bn C where "A \<noteq> Leaf" "R = Node Leaf (n, bn) C" "c = []"
    by (cases R; cases "value R"; cases "left R = Leaf"; cases "c = []"; cases "A = Leaf") auto
  then show thesis
  proof cases
    case 1
    with nd erase_links_one_child [OF h bt 1] that show thesis by metis
  next
    case 2
    with nd erase_links_leftmost [OF h 2 bt] that show thesis by metis
  next
    case 3
    with nd erase_links_right_child [OF h [unfolded 3(2)] 3(1,3) bt [unfolded 3(2)]] that show thesis
      by metis
  next
    case 4
    with erase_links_root [OF h [unfolded 4(2,3)] 4(1)] bt that show thesis by (metis plug.simps(1))
  qed
qed

lemma tree_at_unique: "tree_at V P N T q t \<Longrightarrow> tree_at V P N T q t' \<Longrightarrow> root_addr t = root_addr t' \<Longrightarrow> t = t'"
proof (induction t arbitrary: q t')
  case Leaf
  then show ?case by (cases t') (auto simp: good_addr_def)
next
  case (Node l x r)
  then obtain l' x' r' where t': "t' = Node l' x' r'" by (cases t') (auto simp: good_addr_def)
  with Node.prems have "fst x = fst x'" by simp
  moreover from this have "snd x = snd x'" using Node.prems t' unpack_factor_pack by (metis tree_at.simps(2))
  ultimately show ?case using Node t' by (auto simp: prod_eq_iff)
qed

lemma holds_unique: "holds s [] t \<Longrightarrow> holds s [] t' \<Longrightarrow> t = t'"
  using tree_at_unique by (auto simp: holds_def)

lemma of_nat_minus_1 [simp]: "(of_nat (Suc n) :: u64) - 1 = of_nat n"
  by simp

lemma erase_refines:
  assumes r: "represents cmp s xs" and x: "xs = ys @ a # zs"
  obtains s' t' where "avl_erase s a = Some (s', first zs)" "holds s' [] t'" "addrs t' = ys @ zs"
    "represents cmp s' (ys @ zs) \<longleftrightarrow> \<not> root_needs_double_rotation s a" "same_outside (set xs) s s'"
    "size s' = of_nat (length (ys @ zs))"
proof -
  from r x obtain c A b R where h: "holds s c (Node A (a, b) R)" and bt: "bal (plug c (Node A (a, b) R))"
    and y: "xs = (zleft c @ addrs A) @ a # addrs R @ zright c"
    using represents_position [OF r, of a] by (metis append.assoc in_set_conv_decomp)
  have "a \<notin> set ys" "a \<notin> set zs" using represents_distinct [OF r] x by auto
  with x y have yz: "ys = zleft c @ addrs A" "zs = addrs R @ zright c"
    using append_Cons_eq_iff [of a ys zs "zleft c @ addrs A" "addrs R @ zright c"] by simp_all
  obtain s' t' where s': "erase_links s a = Some s'" "erased c A R s' t'"
    "bal t' \<longleftrightarrow> \<not> root_needs_double_rotation s a" "only_links (set (addrs (plug c (Node A (a, b) R)))) s s'"
    by (rule erase_links_refines [OF h bt])
  let ?s = "s'\<lparr>size := size s' - 1\<rparr>"
  have e: "avl_erase s a = Some (?s, first zs)"
    using s'(1) iterator_incr_refines [OF h] yz by (simp add: avl_erase_def)
  have t': "holds ?s [] t'" "addrs t' = ys @ zs" using s'(2) yz by (simp_all add: erased_def)
  have same: "same_outside (set xs) s ?s"
    using only_links_same_outside(2) [OF s'(4)] y by (simp add: addrs_plug)
  have sz: "size ?s = of_nat (length (ys @ zs))"
    using r x only_links_fields [OF s'(4)] by (simp add: represents_def)
  have "sorted_wrt (\<lambda>a b. cmp (val s a) (val s b)) (ys @ zs)"
    using r x by (auto simp: represents_def sorted_wrt_append)
  moreover have "(\<exists>t. holds ?s [] t \<and> bal t \<and> addrs t = ys @ zs) \<longleftrightarrow> bal t'"
    using t' holds_unique by blast
  moreover have "val ?s = val s" using only_links_fields [OF s'(4)] by simp
  ultimately have "represents cmp ?s (ys @ zs) \<longleftrightarrow> \<not> root_needs_double_rotation s a"
    using sz s'(3) unfolding represents_def by simp
  with e t' same sz that show thesis by blast
qed

end
