(* ===== verification/Avl_Lookup.thy ===== *)
theory Avl_Lookup
  imports Avl_Erase
begin

text \<open>
  The lookups of the AVL tree against the in-order list of the elements, the invariant check, and the
  destructor. A key is compared with the elements by a pair of predicates; the lookups need only that
  the elements come in the order "before the key, equivalent, after the key".
\<close>

section \<open>Lookup\<close>

text \<open>Where a key is, relative to an element.\<close>

definition key_cls :: "('k \<Rightarrow> 'a \<Rightarrow> bool) \<Rightarrow> ('a \<Rightarrow> 'k \<Rightarrow> bool) \<Rightarrow> 'k \<Rightarrow> 'a avl_tree \<Rightarrow> addr \<Rightarrow> int" where
  "key_cls kcomp compk k s = cls (\<lambda>a. kcomp k (val s a)) (\<lambda>a. compk (val s a) k)"

lemma find_loop_refines:
  "holds s c t \<Longrightarrow> t \<noteq> Leaf \<Longrightarrow>
   find_loop lt gt s (root_addr t) =
     Some (root_addr (snd (descend (\<lambda>a. lt (val s a)) (\<lambda>a. gt (val s a)) t c)))"
proof (induction t arbitrary: c)
  case (Node l y r)
  obtain a b where y: "y = (a, b)" by (cases y)
  note h = Node.prems(1)
  note links = holds_links [OF h [unfolded y]] holds_val [OF h] holds_Leaf_iff [OF h]
  show ?case
    using Node.IH(1) [OF into_left [OF h]] Node.IH(2) [OF into_right [OF h]] links y
    by (subst find_loop.simps) (auto simp: avl_end_def)
qed simp

lemma represents_root:
  assumes "represents cmp s xs"
  obtains t where "holds s [] t" "bal t" "addrs t = xs" "root s = root_addr t" "root s = 0 \<longleftrightarrow> t = Leaf"
  using assms by (auto simp: represents_def holds_def)

lemma find_refines:
  assumes r: "represents cmp s xs" and k: "sorted (map (key_cls kcomp compk k s) xs)"
  obtains a where "avl_find kcomp compk s k = Some a"
    "a \<noteq> 0 \<and> a \<in> set xs \<and> key_cls kcomp compk k s a = 0 \<or>
     a = 0 \<and> (\<forall>b \<in> set xs. key_cls kcomp compk k s b \<noteq> 0)"
proof -
  from r obtain t where t: "holds s [] t" "addrs t = xs" "root s = root_addr t" "root s = 0 \<longleftrightarrow> t = Leaf"
    by (rule represents_root)
  show thesis
  proof (cases "t = Leaf")
    case True
    with t that [of 0] show thesis by (simp add: avl_find_def avl_end_def)
  next
    case False
    let ?lt = "\<lambda>a. kcomp k (val s a)" and ?gt = "\<lambda>a. compk (val s a) k"
    have f: "avl_find kcomp compk s k = Some (root_addr (snd (descend ?lt ?gt t [])))"
      using find_loop_refines [OF t(1) False] t False by (simp add: avl_find_def)
    from k t have "sorted (map (cls ?lt ?gt) (addrs t))" by (simp add: key_cls_def)
    then show thesis
    proof (cases rule: descend_root_cases)
      case (missing c)
      then have "set xs = set (zleft c) \<union> set (zright c)" using t addrs_plug [of c Leaf] by auto
      with missing have "\<forall>b \<in> set xs. key_cls kcomp compk k s b \<noteq> 0" by (auto simp: key_cls_def)
      with missing f that [of 0] show thesis by simp
    next
      case (found c l x r)
      with t have "fst x \<noteq> 0" by (metis holds_plug holds_accessible accessible_null)
      with found f t that [of "fst x"] show thesis by (simp add: key_cls_def)
    qed
  qed
qed

text \<open>
  What \<open>lower_bound\<close> answers where the search ends in an empty subtree: the last node, if the search
  went left from it; otherwise the parent of the last node, but only if the last node is a left child.
\<close>

fun last_turn :: "zipper \<Rightarrow> addr" where
  "last_turn (LeftOf x r # c) = fst x"
| "last_turn (RightOf l x # LeftOf y r # c) = fst y"
| "last_turn c = nullptr"

definition bound_of :: "zipper \<times> shape \<Rightarrow> addr" where
  "bound_of p = (if snd p = Leaf then last_turn (fst p) else root_addr (snd p))"

lemma lower_bound_loop_refines:
  "holds s c t \<Longrightarrow> t \<noteq> Leaf \<Longrightarrow>
   lower_bound_loop lt gt s (root_addr t) =
     Some (bound_of (descend (\<lambda>a. lt (val s a)) (\<lambda>a. gt (val s a)) t c))"
proof (induction t arbitrary: c)
  case (Node l y r)
  obtain a b where y: "y = (a, b)" by (cases y)
  note h = Node.prems(1)
  note links = holds_links [OF h [unfolded y]] holds_val [OF h] holds_Leaf_iff [OF h]
  have up: "do {
      p \<leftarrow> get_tree_parent s a;
      if p = 0 then Some 0
      else do { pr \<leftarrow> get_right s p; if pr = a then Some 0 else get_tree_parent s a }
    } = Some (last_turn (RightOf l y # c))"
  proof (cases c)
    case (Cons f c')
    with holds_parent_links [OF h [unfolded y Cons]] show ?thesis by (cases f) auto
  qed (use links in simp)
  show ?case
    using Node.IH(1) [OF into_left [OF h]] Node.IH(2) [OF into_right [OF h]] links y up
    by (subst lower_bound_loop.simps) (auto simp: avl_end_def bound_of_def split: if_splits cong: if_cong)
qed simp

lemma last_turn_cases: "last_turn c = first (zright c) \<or> last_turn c = 0"
  by (cases c rule: last_turn.cases) auto

lemma lower_bound_refines:
  assumes r: "represents cmp s xs" and k: "sorted (map (key_cls kcomp compk k s) xs)"
    and u: "\<And>a b. a \<in> set xs \<Longrightarrow> b \<in> set xs \<Longrightarrow> key_cls kcomp compk k s a = 0 \<Longrightarrow>
      key_cls kcomp compk k s b = 0 \<Longrightarrow> a = b"
  obtains a where "avl_lower_bound kcomp compk s k = Some a"
    "a = first (filter (\<lambda>b. key_cls kcomp compk k s b \<ge> 0) xs) \<or> a = 0"
proof -
  from r obtain t where t: "holds s [] t" "addrs t = xs" "root s = root_addr t" "root s = 0 \<longleftrightarrow> t = Leaf"
    by (rule represents_root)
  show thesis
  proof (cases "t = Leaf")
    case True
    with t that [of 0] show thesis by (simp add: avl_lower_bound_def avl_end_def)
  next
    case False
    let ?lt = "\<lambda>a. kcomp k (val s a)" and ?gt = "\<lambda>a. compk (val s a) k"
    have f: "avl_lower_bound kcomp compk s k = Some (bound_of (descend ?lt ?gt t []))"
      using lower_bound_loop_refines [OF t(1) False] t False by (simp add: avl_lower_bound_def)
    from k t have "sorted (map (cls ?lt ?gt) (addrs t))" by (simp add: key_cls_def)
    then show thesis
    proof (cases rule: descend_root_cases)
      case (missing c)
      then have "xs = zleft c @ zright c" using t addrs_plug [of c Leaf] by auto
      with missing have "filter (\<lambda>b. key_cls kcomp compk k s b \<ge> 0) xs = zright c"
        by (auto simp: key_cls_def filter_empty_conv intro!: filter_True)
      with missing f that last_turn_cases [of c] show thesis by (auto simp: bound_of_def)
    next
      case (found c l x r)
      then have xs: "xs = (zleft c @ addrs l) @ fst x # addrs r @ zright c"
        using t addrs_plug [of c "Node l x r"] by auto
      have "filter (\<lambda>b. key_cls kcomp compk k s b \<ge> 0) (zleft c @ addrs l) = []"
      proof (rule ccontr)
        assume "filter (\<lambda>b. key_cls kcomp compk k s b \<ge> 0) (zleft c @ addrs l) \<noteq> []"
        then obtain b where b: "b \<in> set (zleft c @ addrs l)" "key_cls kcomp compk k s b \<ge> 0"
          by (auto simp: filter_empty_conv)
        moreover from k xs b(1) found have "key_cls kcomp compk k s b \<le> 0"
          by (auto simp: sorted_append key_cls_def)
        ultimately have "b = fst x" using u [of b "fst x"] found xs by (auto simp: key_cls_def)
        with b(1) represents_distinct [OF r] xs show False by auto
      qed
      then have "first (filter (\<lambda>b. key_cls kcomp compk k s b \<ge> 0) xs) = fst x"
        using found xs by (simp add: key_cls_def)
      with found f that show thesis by (auto simp: bound_of_def)
    qed
  qed
qed

section \<open>The invariant check\<close>

lemma holds_root_links:
  assumes "holds s c t" "t \<noteq> Leaf"
  shows "get_tree_parent s (root_addr t) = Some (parent_addr c)"
    and "read_val s (root_addr t) = Some (val s (root_addr t))" and "root_addr t \<noteq> 0"
  using assms by (cases t; auto dest: holds_links(4,5) holds_val)+

lemma side_depth_refines:
  "holds s c t \<Longrightarrow> t \<noteq> Leaf \<Longrightarrow> side_depth s True (root_addr t) = Some (int (height (left t))) \<and>
     side_depth s False (root_addr t) = Some (int (height (right t)))"
proof (induction t arbitrary: c)
  case (Node l x r)
  obtain a b where x: "x = (a, b)" by (cases x)
  note h = Node.prems(1)
  have depth: "int (height u) = (if u = Leaf then 0 else max (int (height (left u))) (int (height (right u))) + 1)"
    for u :: shape by (cases u) auto
  from holds_links [OF h [unfolded x]] holds_Leaf_iff [OF h] Node.IH(1) [OF into_left [OF h]]
    Node.IH(2) [OF into_right [OF h]] depth [of l] depth [of r] x
  show ?case by (subst (1 2) side_depth.simps) (auto simp: max_def)
qed simp

text \<open>The order the check looks at: every node against its two children.\<close>

fun child_ordered :: "('a \<Rightarrow> 'a \<Rightarrow> bool) \<Rightarrow> (addr \<Rightarrow> 'a) \<Rightarrow> shape \<Rightarrow> bool" where
  "child_ordered cmp V Leaf = True"
| "child_ordered cmp V (Node l x r) =
     ((l = Leaf \<or> cmp (V (root_addr l)) (V (fst x))) \<and> (r = Leaf \<or> cmp (V (fst x)) (V (root_addr r))) \<and>
      child_ordered cmp V l \<and> child_ordered cmp V r)"

lemma check_node_null [simp]:
  "check_node cmp s 0 = Some \<lparr>correct = True, reason = [], offending_node = 0\<rparr>"
  by (subst check_node.simps) simp

lemma parent_link_ok_refines:
  assumes h: "holds s c (Node l (a, b) r)"
  shows "parent_link_ok s a (root_addr l) = Some True" and "parent_link_ok s a (root_addr r) = Some True"
  using holds_root_links(1) [OF into_left [OF h]] holds_root_links(1) [OF into_right [OF h]] holds_Leaf_iff [OF h]
  by (auto simp: parent_link_ok_def)

lemma check_node_refines:
  "holds s c t \<Longrightarrow> \<exists>res. check_node cmp s (root_addr t) = Some res \<and>
     (correct res \<longleftrightarrow> bal t \<and> child_ordered cmp (val s) t) \<and> (correct res \<longrightarrow> reason res = [] \<and> offending_node res = 0)"
proof (induction t arbitrary: c)
  case (Node l x r)
  obtain a b where x: "x = (a, b)" by (cases x)
  note h = Node.prems
  note links = holds_links [OF h [unfolded x]] holds_val [OF h] holds_Leaf_iff [OF h]
    side_depth_refines [OF h [unfolded x]] holds_root_links(2) [OF into_left [OF h]]
    holds_root_links(2) [OF into_right [OF h]] parent_link_ok_refines [OF h [unfolded x]]
  obtain lres where l: "check_node cmp s (root_addr l) = Some lres"
      "correct lres \<longleftrightarrow> bal l \<and> child_ordered cmp (val s) l"
    using Node.IH(1) [OF into_left [OF h]] by blast
  obtain rres where r: "check_node cmp s (root_addr r) = Some rres"
      "correct rres \<longleftrightarrow> bal r \<and> child_ordered cmp (val s) r"
      "correct rres \<longrightarrow> reason rres = [] \<and> offending_node rres = 0"
    using Node.IH(2) [OF into_right [OF h]] by blast
  show ?case
    using links l r x
    by (subst check_node.simps) (auto simp: tilt_def)
qed simp

lemma sorted_child_ordered:
  "sorted_wrt (\<lambda>a b. cmp (V a) (V b)) (addrs t) \<Longrightarrow> child_ordered cmp V t"
proof (induction t)
  case (Node l x r)
  have "root_addr u \<in> set (addrs u)" if "u \<noteq> Leaf" for u using that by (cases u) auto
  with Node show ?case by (auto simp: sorted_wrt_append)
qed simp

lemma check_invariants_refines:
  assumes "holds s [] t"
  obtains res where "check_invariants cmp s = Some res"
    "correct res \<longleftrightarrow> bal t \<and> child_ordered cmp (val s) t"
proof -
  have "root s = root_addr t" using assms by (simp add: holds_def)
  with check_node_refines [OF assms, of cmp] that show thesis by (auto simp: check_invariants_def)
qed

section \<open>The destructor\<close>

text \<open>The rotations of the inner loop on the shape.\<close>

function unroll :: "shape \<Rightarrow> shape" where
  "unroll (Node (Node A y B) x C) = unroll (Node A y (Node B x C))"
| "unroll (Node Leaf x C) = Node Leaf x C"
| "unroll Leaf = Leaf"
  by pat_completeness auto
termination by (relation "measure (\<lambda>t. length (addrs (left t)))") auto

lemma addrs_unroll [simp]: "addrs (unroll t) = addrs t"
  by (induction t rule: unroll.induct) auto

lemma unroll_cases: "t \<noteq> Leaf \<Longrightarrow> \<exists>x C. unroll t = Node Leaf x C"
  by (induction t rule: unroll.induct) auto

lemma rotate_root_refines:
  "holds s [] t \<Longrightarrow> t \<noteq> Leaf \<Longrightarrow> \<exists>s'. rotate_root s = Some s' \<and> holds s' [] (unroll t) \<and>
     only_links (set (addrs t)) s s'"
proof (induction t arbitrary: s rule: unroll.induct)
  case (1 A y B x C)
  obtain a b n m where xy: "y = (a, b)" "x = (n, m)" by (cases x; cases y)
  note h = 1(2) [unfolded xy]
  have "root s = n" using h by (simp add: holds_def)
  moreover obtain s1 where s1: "rotate_right s n = Some (s1, a)" "holds s1 [] (Node A (a, b) (Node B (n, m) C))"
    "only_links (set (addrs (Node (Node A (a, b) B) (n, m) C))) s s1"
    using rotate_right_refines [OF h] by auto
  moreover obtain s2 where "rotate_root s1 = Some s2" "holds s2 [] (unroll (Node A y (Node B x C)))"
    "only_links (set (addrs (Node A y (Node B x C)))) s1 s2"
    using 1(1) s1(2) xy by auto
  ultimately show ?case
    using holds_links [OF h] holds_Leaf_iff [OF h] xy
    by (subst rotate_root.simps) (auto intro: only_links_trans)
next
  case (2 x C)
  obtain a b where x: "x = (a, b)" by (cases x)
  with 2 holds_links [OF 2(1) [unfolded x]] show ?case
    by (subst rotate_root.simps) (simp add: holds_def)
qed simp

text \<open>Dropping the root that has no left child.\<close>

lemma drop_root_holds:
  assumes "holds s [] (Node Leaf (a, b) C)"
  shows "holds (s\<lparr>root := root_addr C, tree_parent := reparent C (tree_parent s) 0\<rparr>) [] C"
  using assms by (auto simp: holds_def)

lemma destroy_refines:
  "holds s [] t \<Longrightarrow> \<exists>s'. destroy s released = Some (s', released @ butlast (addrs t)) \<and> root s' = 0"
proof (induction "length (addrs t)" arbitrary: s t released)
  case 0
  then have "root s = 0" by (simp add: holds_def addrs_Leaf_iff)
  with 0 show ?case by (subst destroy.simps) simp
next
  case (Suc n)
  then have "t \<noteq> Leaf" by auto
  with Suc.prems rotate_root_refines obtain s1 where
    s1: "rotate_root s = Some s1" "holds s1 [] (unroll t)" by blast
  obtain a b C where u: "unroll t = Node Leaf (a, b) C" using unroll_cases [OF \<open>t \<noteq> Leaf\<close>] by auto
  note h = s1(2) [unfolded u]
  have t: "addrs t = a # addrs C" using addrs_unroll [of t] u by simp
  have roots: "root s \<noteq> 0" "root s1 = a" "get_right s1 a = Some (root_addr C)"
    using Suc.prems \<open>t \<noteq> Leaf\<close> h holds_links [OF h] by (auto simp: holds_def)
  show ?case
  proof (cases "C = Leaf")
    case True
    with roots s1 t show ?thesis by (subst destroy.simps) simp
  next
    case False
    let ?s2 = "s1\<lparr>root := root_addr C, tree_parent := reparent C (tree_parent s1) 0\<rparr>"
    have "tree_at (valid s1) (prev s1) (nxt s1) (tree_parent s1) a C" using h by (simp add: holds_def)
    then have "set_tree_parent (s1\<lparr>root := root_addr C\<rparr>) (root_addr C) 0 = Some ?s2" "root_addr C \<noteq> 0"
      using reparent_exec_node [of "s1\<lparr>root := root_addr C\<rparr>" "prev s1" "nxt s1" "tree_parent s1" a C 0] False
      by simp_all
    moreover obtain s' where "destroy ?s2 (released @ [a]) = Some (s', (released @ [a]) @ butlast (addrs C))" "root s' = 0"
      using Suc.hyps(1) [OF _ drop_root_holds [OF h]] Suc.hyps(2) t by fastforce
    moreover have "addrs C \<noteq> []" using False by (simp add: addrs_Leaf_iff)
    ultimately show ?thesis using roots s1 t by (subst destroy.simps) simp
  qed
qed

end
