(* ===== verification/Avl_Properties.thy ===== *)
theory Avl_Properties
  imports Avl_Lookup
begin

text \<open>
  The properties of the AVL tree of \<open>kernel/util/avl_tree.h\<close>, over the refinement lemmas of the
  preceding theories, each with an application to a concrete tree in a concrete store.
\<close>

section \<open>Concrete trees\<close>

text \<open>Three elements at the addresses 8, 16 and 24, in one level below the root; one outside.\<close>

definition three :: "nat avl_tree" where
  "three = \<lparr>valid = (\<lambda>a. a \<in> {8, 16, 24, 32}), prev = (\<lambda>_. 0)(16 := 8), nxt = (\<lambda>_. 0)(16 := 24),
     tree_parent = (\<lambda>_. 0)(8 := 16, 24 := 16), val = unat, root = 16, size = 3\<rparr>"

text \<open>The root 40 leans to the left, its left child 16 to the right: 40 (16 (-, 24), 48).\<close>

definition leaning :: "nat avl_tree" where
  "leaning = \<lparr>valid = (\<lambda>a. a \<in> {16, 24, 40, 48}), prev = (\<lambda>_. 0)(40 := 16), nxt = (\<lambda>_. 0)(40 := 48, 16 := 24),
     tree_parent = (\<lambda>_. 0)(40 := pack_factor 0 (- 1), 16 := pack_factor 40 1, 24 := 16, 48 := 40),
     val = unat, root = 40, size = 4\<rparr>"

lemma aligned8_examples [simp]: "aligned8 8" "aligned8 16" "aligned8 24" "aligned8 32" "aligned8 40" "aligned8 48"
  by (simp_all add: aligned8_def)

lemma three_represents: "represents (<) three [8, 16, 24]"
  unfolding represents_def
  by (intro conjI exI [of _ "Node (Node Leaf (8, 0) Leaf) (16, 0) (Node Leaf (24, 0) Leaf)"])
    (simp_all add: three_def holds_def good_addr_def)

lemma leaning_represents: "represents (<) leaning [16, 24, 40, 48]"
  unfolding represents_def
  by (intro conjI exI [of _ "Node (Node Leaf (16, 1) (Node Leaf (24, 0) Leaf)) (40, - 1) (Node Leaf (48, 0) Leaf)"])
    (simp_all add: leaning_def holds_def good_addr_def)

lemma detached_three: "detached three 32"
  by (simp add: three_def detached_def good_addr_def)

section \<open>Insertion\<close>

text \<open>
  C1. Inserting an element that is in no container and is equivalent to none of the elements of a
  balanced, ordered tree returns (no fault, no endless loop) the element and \<open>true\<close>; the tree is then
  balanced and ordered again and its elements are the old ones and the new one at its place. The only
  objects written are the elements of the tree, and of those only the links.
\<close>

theorem insert_adds_element:
  assumes "represents cmp s xs" and "transp cmp" and "detached s e" and "e \<notin> set xs"
    and "\<forall>a \<in> set xs. cmp (val s e) (val s a) \<or> cmp (val s a) (val s e)"
  shows "\<exists>s' ys zs. avl_insert cmp s e = Some (s', e, True) \<and> xs = ys @ zs \<and>
    represents cmp s' (ys @ e # zs) \<and> same_outside (insert e (set xs)) s s'"
  by (rule insert_new [OF assms]) blast

theorem insert_adds_element_witness:
  "\<exists>s' ys zs. avl_insert (<) three 32 = Some (s', 32, True) \<and> [8, 16, 24] = ys @ zs \<and>
    represents (<) s' (ys @ 32 # zs) \<and> same_outside (insert 32 (set [8, 16, 24])) three s'"
  by (rule insert_adds_element [OF three_represents _ detached_three]) (auto simp: three_def)

text \<open>
  Inserting an element equivalent to one that is already there changes nothing and returns an
  equivalent element of the tree and \<open>false\<close>.
\<close>

lemma insert_rejects_equivalent:
  assumes "represents cmp s xs" and "transp cmp" and "accessible s e"
    and "a \<in> set xs" and "\<not> cmp (val s e) (val s a)" and "\<not> cmp (val s a) (val s e)"
  shows "\<exists>b. avl_insert cmp s e = Some (s, b, False) \<and> b \<in> set xs \<and>
    \<not> cmp (val s e) (val s b) \<and> \<not> cmp (val s b) (val s e)"
  by (rule insert_present [OF assms]) blast

lemma insert_rejects_equivalent_witness:
  "\<exists>b. avl_insert (<) three 24 = Some (three, b, False) \<and> b \<in> set [8, 16, 24] \<and>
    \<not> val three 24 < val three b \<and> \<not> val three b < val three 24"
  by (rule insert_rejects_equivalent [OF three_represents, where a = 24]) (auto simp: three_def accessible_def)

section \<open>Removal\<close>

text \<open>
  C2. Removing an element from a balanced, ordered tree returns the element that followed it; the tree
  is then balanced and ordered, holds exactly the other elements in their order, and \<open>size()\<close> counts
  them. The one exception is the state \<open>root_needs_double_rotation\<close>.
\<close>

theorem erase_removes_element:
  assumes "represents cmp s (ys @ a # zs)" and "\<not> root_needs_double_rotation s a"
  shows "\<exists>s'. avl_erase s a = Some (s', first zs) \<and> represents cmp s' (ys @ zs) \<and>
    same_outside (set (ys @ a # zs)) s s'"
  by (rule erase_refines [OF assms(1) refl]) (use assms(2) in blast)

theorem erase_removes_element_witness:
  "\<exists>s'. avl_erase three 16 = Some (s', first [24]) \<and> represents (<) s' ([8] @ [24]) \<and>
    same_outside (set ([8] @ 16 # [24])) three s'"
proof (rule erase_removes_element)
  show "represents (<) three ([8] @ 16 # [24])" using three_represents by simp
  show "\<not> root_needs_double_rotation three 16" by (simp add: three_def root_needs_double_rotation_def)
qed

text \<open>
  C22. In the state \<open>root_needs_double_rotation\<close> the removal of the root keeps the elements, their order
  and the count, but always leaves a tree that is not balanced: \<open>erase\<close> makes a single rotation where a
  double one is needed, and \<open>check_invariants\<close> then reports a failure.
\<close>

theorem erase_root_unbalances:
  assumes "represents cmp s (ys @ a # zs)" and "root_needs_double_rotation s a"
  shows "\<exists>s' t res. avl_erase s a = Some (s', first zs) \<and> holds s' [] t \<and> addrs t = ys @ zs \<and> \<not> bal t \<and>
    check_invariants cmp s' = Some res \<and> \<not> correct res"
proof -
  obtain s' t where s': "avl_erase s a = Some (s', first zs)" "holds s' [] t" "addrs t = ys @ zs"
    "represents cmp s' (ys @ zs) \<longleftrightarrow> \<not> root_needs_double_rotation s a"
    "same_outside (set (ys @ a # zs)) s s'" "size s' = of_nat (length (ys @ zs))"
    by (rule erase_refines [OF assms(1) refl])
  have "sorted_wrt (\<lambda>a b. cmp (val s' a) (val s' b)) (ys @ zs)"
    using assms(1) s'(5) by (auto simp: represents_def same_outside_def sorted_wrt_append)
  with s' assms(2) have "\<not> bal t" by (auto simp: represents_def)
  moreover obtain res where "check_invariants cmp s' = Some res"
    "correct res \<longleftrightarrow> bal t \<and> child_ordered cmp (val s') t"
    by (rule check_invariants_refines [OF s'(2)])
  ultimately show ?thesis using s'(1-3) by blast
qed

theorem erase_root_unbalances_witness:
  "\<exists>s' t res. avl_erase leaning 40 = Some (s', first [48]) \<and> holds s' [] t \<and> addrs t = [16, 24] @ [48] \<and> \<not> bal t \<and>
    check_invariants (<) s' = Some res \<and> \<not> correct res"
proof (rule erase_root_unbalances)
  show "represents (<) leaning ([16, 24] @ 40 # [48])" using leaning_represents by simp
  show "root_needs_double_rotation leaning 40" by (simp add: leaning_def root_needs_double_rotation_def)
qed

section \<open>Lookup and iteration\<close>

text \<open>
  C23. \<open>find\<close> returns an element equivalent to the key if there is one and \<open>end()\<close> otherwise, for every
  key the order of the elements agrees with.
\<close>

theorem find_finds:
  assumes "represents cmp s xs" and "sorted (map (key_cls kcomp compk k s) xs)"
  shows "\<exists>a. avl_find kcomp compk s k = Some a \<and>
    (if \<exists>b \<in> set xs. key_cls kcomp compk k s b = 0
     then a \<in> set xs \<and> key_cls kcomp compk k s a = 0 else a = nullptr)"
  by (rule find_refines [OF assms]) auto

theorem find_finds_witness:
  "\<exists>a. avl_find (<) (<) three 16 = Some a \<and>
    (if \<exists>b \<in> set [8, 16, 24]. key_cls (<) (<) 16 three b = 0
     then a \<in> set [8, 16, 24] \<and> key_cls (<) (<) 16 three a = 0 else a = nullptr)"
  by (rule find_finds [OF three_represents]) (simp add: three_def key_cls_def cls_def)

text \<open>
  C24. \<open>begin()\<close> is the first element, and \<open>operator++\<close> moves from every element to the next one and
  from the last to \<open>end()\<close>, so that a loop over the tree visits every element once, in order.
\<close>

theorem iteration_in_order:
  assumes "represents cmp s xs"
  shows "avl_begin s = Some (first xs) \<and>
    (\<forall>i < length xs. iterator_incr s (xs ! i) = Some (first (drop (Suc i) xs)))"
  using begin_refines [OF assms] incr_refines [OF assms id_take_nth_drop] by blast

theorem iteration_in_order_witness:
  "avl_begin three = Some 8 \<and> iterator_incr three 8 = Some 16 \<and> iterator_incr three 24 = Some 0"
  using iteration_in_order [OF three_represents]
  by (simp add: All_less_Suc)

text \<open>
  \<open>lower_bound\<close> returns the first element that is not before the key, or it returns \<open>end()\<close>
  although there is such an element.
\<close>

lemma lower_bound_sound:
  assumes "represents cmp s xs" and "sorted (map (key_cls kcomp compk k s) xs)"
    and "\<forall>a \<in> set xs. \<forall>b \<in> set xs. key_cls kcomp compk k s a = 0 \<longrightarrow> key_cls kcomp compk k s b = 0 \<longrightarrow> a = b"
  shows "\<exists>a. avl_lower_bound kcomp compk s k = Some a \<and>
    a \<in> {first (filter (\<lambda>b. key_cls kcomp compk k s b \<ge> 0) xs), nullptr}"
  by (rule lower_bound_refines [OF assms(1,2)]) (use assms(3) in blast)+

lemma lower_bound_sound_example:
  "\<exists>a. avl_lower_bound (<) (<) three 20 = Some a \<and>
    a \<in> {first (filter (\<lambda>b. key_cls (<) (<) 20 three b \<ge> 0) [8, 16, 24]), nullptr}"
  by (rule lower_bound_sound [OF three_represents]) (simp_all add: three_def key_cls_def cls_def)

text \<open>
  The second alternative happens: in the tree with the elements 16, 24, 40 and 48, \<open>lower_bound(30)\<close>
  is \<open>end()\<close>, while the first element that is not before 30 is 40. The search stops at a right child,
  and the source looks no further up than its parent.
\<close>

lemma lower_bound_misses:
  "avl_lower_bound (<) (<) leaning 30 = Some nullptr \<and>
   first (filter (\<lambda>b. key_cls (<) (<) 30 leaning b \<ge> 0) [16, 24, 40, 48]) = 40"
proof -
  let ?t = "Node (Node Leaf (16, 1) (Node Leaf (24, 0) Leaf)) (40, - 1) (Node Leaf (48, 0) Leaf) :: shape"
  have "holds leaning [] ?t" "root leaning = 40" by (simp_all add: leaning_def holds_def good_addr_def)
  from lower_bound_loop_refines [OF this(1), of "(<) 30" "\<lambda>v. v < 30"] this(2)
  show ?thesis by (simp add: avl_lower_bound_def bound_of_def key_cls_def cls_def leaning_def)
qed

text \<open>
  The decrement of an iterator at a right child that has no left child does not move: it returns the
  element itself, not the previous one.
\<close>

lemma decrement_stays:
  assumes "holds s (RightOf l x # c) (Node Leaf (a, b) r)"
  shows "iterator_decr s a = Some a"
  using iterator_decr_refines [OF assms] by simp

lemma decrement_stays_witness: "iterator_decr three 24 = Some 24"
proof (rule decrement_stays)
  show "holds three (RightOf (Node Leaf (8, 0) Leaf) (16, 0) # []) (Node Leaf (24, 0) Leaf)"
    by (simp add: three_def holds_def good_addr_def)
qed

section \<open>The invariant check and the destructor\<close>

text \<open>
  C25. On links that form a tree, \<open>check_invariants\<close> returns, and answers \<open>correct\<close> exactly when every
  stored balance factor is the difference of the heights, at most one, and every node is ordered with
  its children.
\<close>

theorem check_invariants_exact:
  assumes "holds s [] t"
  shows "\<exists>res. check_invariants cmp s = Some res \<and> (correct res \<longleftrightarrow> bal t \<and> child_ordered cmp (val s) t)"
  by (rule check_invariants_refines [OF assms]) blast

theorem check_invariants_exact_witness:
  "\<exists>res. check_invariants (<) three = Some res \<and>
    (correct res \<longleftrightarrow> bal (Node (Node Leaf (8, 0) Leaf) (16, 0) (Node Leaf (24, 0) Leaf)) \<and>
      child_ordered (<) (val three) (Node (Node Leaf (8, 0) Leaf) (16, 0) (Node Leaf (24, 0) Leaf)))"
  by (rule check_invariants_exact) (simp add: three_def holds_def good_addr_def)

text \<open>
  The destructor ends with an empty tree and has released the elements in order, except the last
  one: the early return before \<open>Traits::create\<close> leaks the greatest element of every tree.
\<close>

lemma destructor_leaks_last:
  assumes "represents cmp s xs"
  shows "\<exists>s'. destroy s [] = Some (s', butlast xs) \<and> root s' = nullptr"
proof -
  from assms obtain t where "holds s [] t" "addrs t = xs" by (rule represents_root)
  with destroy_refines [of s t "[]"] show ?thesis by auto
qed

lemma destructor_leaks_last_example:
  "\<exists>s'. destroy three [] = Some (s', butlast [8, 16, 24]) \<and> root s' = nullptr"
  by (rule destructor_leaks_last [OF three_represents])

end
