(* ===== verification/Tree_Heap.thy ===== *)
theory Tree_Heap
  imports Avl_Shape
begin

text \<open>
  The intrusive binary heap of \<open>kernel/util/tree_heap.h\<close>. Like the AVL tree it links its elements by
  \<open>prev\<close> (left child), \<open>next\<close> (right child) and \<open>tree_parent\<close>, here a plain pointer; the heap object
  itself is a root pointer, \<open>_top\<close>, and a count, \<open>_size\<close>, so the state is the one of the AVL tree. The
  shape of the heap is always the left-filled tree: the node with index \<open>i\<close> has its children at the
  indices \<open>2 i\<close> and \<open>2 i + 1\<close>, and the indices are \<open>1 .. _size\<close>.

  The index arithmetic of \<open>_get_nth\<close> is on natural numbers: every value in it is at most the number
  of elements, which is below \<open>2^64\<close> because the elements have distinct addresses.
\<close>

section \<open>The heap object\<close>

type_synonym 'a tree_heap = "'a avl_tree"

abbreviation heap_top :: "'a tree_heap \<Rightarrow> addr" where
  "heap_top s \<equiv> root s"

definition peek :: "'a tree_heap \<Rightarrow> addr" where
  "peek s = heap_top s"

definition write_parent_of :: "'a tree_heap \<Rightarrow> addr \<Rightarrow> addr \<Rightarrow> 'a tree_heap option" where
  "write_parent_of s child p = (if child \<noteq> nullptr then write_tree_parent s child p else Some s)"

definition heap_swap :: "'a tree_heap \<Rightarrow> addr \<Rightarrow> addr \<Rightarrow> 'a tree_heap option" where
  "heap_swap s parent child =
     do {
       pprev \<leftarrow> read_prev s parent;
       pnext \<leftarrow> read_nxt s parent;
       pparent \<leftarrow> read_tree_parent s parent;
       cprev \<leftarrow> read_prev s child;
       s \<leftarrow> write_prev s parent cprev;
       cnext \<leftarrow> read_nxt s child;
       s \<leftarrow> write_nxt s parent cnext;
       l \<leftarrow> read_prev s parent;
       s \<leftarrow> write_parent_of s l parent;
       r \<leftarrow> read_nxt s parent;
       s \<leftarrow> write_parent_of s r parent;
       pp \<leftarrow> read_tree_parent s parent;
       s \<leftarrow> write_tree_parent s child pp;
       s \<leftarrow> write_tree_parent s parent child;
       s \<leftarrow> (if pprev = child then do {
               s \<leftarrow> write_prev s child parent;
               s \<leftarrow> write_nxt s child pnext;
               r \<leftarrow> read_nxt s child;
               write_parent_of s r child
             } else do {
               s \<leftarrow> write_prev s child pprev;
               l \<leftarrow> read_prev s child;
               s \<leftarrow> write_parent_of s l child;
               write_nxt s child parent
             });
       s \<leftarrow> (if pparent \<noteq> nullptr then do {
               l \<leftarrow> read_prev s pparent;
               if l = parent then write_prev s pparent child else write_nxt s pparent child
             } else Some s);
       cp \<leftarrow> read_tree_parent s child;
       Some (if cp = nullptr then s\<lparr>root := child\<rparr> else s)
     }"

section \<open>Finding a node by its index\<close>

text \<open>The width of \<open>nth\<close> in bits: \<open>sizeof(std::size_t) * CHAR_BIT - __builtin_clzl(nth)\<close>.\<close>

fun bit_width :: "nat \<Rightarrow> nat" where
  "bit_width n = (if n = 0 then 0 else Suc (bit_width (n div 2)))"

declare bit_width.simps [simp del]

partial_function (option) get_nth_loop ::
    "'a tree_heap \<Rightarrow> nat \<Rightarrow> nat \<Rightarrow> nat \<Rightarrow> nat \<Rightarrow> nat \<Rightarrow> addr \<Rightarrow> addr option" where
  "get_nth_loop s level level_elements slot n x current =
     (if n < level then
        let y = level_elements div 2 ^ n + x
        in if y < slot then do {
             current \<leftarrow> read_nxt s current;
             get_nth_loop s level level_elements slot (n + 1) y current
           } else do {
             current \<leftarrow> read_prev s current;
             get_nth_loop s level level_elements slot (n + 1) x current
           }
      else Some current)"

definition get_nth :: "'a tree_heap \<Rightarrow> nat \<Rightarrow> addr option" where
  "get_nth s slot =
     (let level = bit_width slot;
          level_elements = 2 ^ (level - 1)
      in get_nth_loop s level level_elements (slot - (level_elements - 1)) 1 0 (heap_top s))"

definition parent_of_leftmost_empty :: "'a tree_heap \<Rightarrow> addr option" where
  "parent_of_leftmost_empty s = get_nth s (unat ((size s + 1) div 2))"

definition rightmost_full :: "'a tree_heap \<Rightarrow> addr option" where
  "rightmost_full s = get_nth s (unat (size s))"

section \<open>push and pop\<close>

partial_function (option) sift_up ::
    "('a \<Rightarrow> 'a \<Rightarrow> bool) \<Rightarrow> 'a tree_heap \<Rightarrow> addr \<Rightarrow> addr \<Rightarrow> 'a tree_heap option" where
  "sift_up cmp s element parent =
     (if element \<noteq> heap_top s then do {
        e \<leftarrow> read_val s element;
        p \<leftarrow> read_val s parent;
        if cmp e p then do {
          s \<leftarrow> heap_swap s parent element;
          parent \<leftarrow> read_tree_parent s element;
          sift_up cmp s element parent
        } else Some s
      } else Some s)"

definition heap_push :: "('a \<Rightarrow> 'a \<Rightarrow> bool) \<Rightarrow> 'a tree_heap \<Rightarrow> addr \<Rightarrow> 'a tree_heap option" where
  "heap_push cmp s element =
     (if heap_top s = nullptr then Some (s\<lparr>root := element, size := size s + 1\<rparr>)
      else do {
        parent \<leftarrow> parent_of_leftmost_empty s;
        s \<leftarrow> write_tree_parent s element parent;
        s \<leftarrow> write_prev s element nullptr;
        s \<leftarrow> write_nxt s element nullptr;
        l \<leftarrow> read_prev s parent;
        s \<leftarrow> (if l \<noteq> nullptr then write_nxt s parent element else write_prev s parent element);
        s \<leftarrow> sift_up cmp s element parent;
        Some (s\<lparr>size := size s + 1\<rparr>)
      })"

text \<open>The better of an element and one of its children, as the sift-down loop compares them.\<close>

definition better :: "('a \<Rightarrow> 'a \<Rightarrow> bool) \<Rightarrow> 'a tree_heap \<Rightarrow> addr \<Rightarrow> addr \<Rightarrow> addr option" where
  "better cmp s child best =
     (if child \<noteq> nullptr then do {
        c \<leftarrow> read_val s child;
        b \<leftarrow> read_val s best;
        Some (if cmp c b then child else best)
      } else Some best)"

partial_function (option) sift_down ::
    "('a \<Rightarrow> 'a \<Rightarrow> bool) \<Rightarrow> 'a tree_heap \<Rightarrow> addr \<Rightarrow> 'a tree_heap option" where
  "sift_down cmp s element =
     do {
       l \<leftarrow> read_prev s element;
       best \<leftarrow> better cmp s l element;
       r \<leftarrow> read_nxt s element;
       best \<leftarrow> better cmp s r best;
       if best = element then Some s
       else do { s \<leftarrow> heap_swap s element best; sift_down cmp s element }
     }"

definition pop_two :: "'a tree_heap \<Rightarrow> ('a tree_heap \<times> addr) option" where
  "pop_two s =
     do {
       let top = heap_top s;
       l \<leftarrow> read_prev s top;
       s \<leftarrow> write_tree_parent (s\<lparr>root := l\<rparr>) l nullptr;
       Some (s\<lparr>size := size s - 1\<rparr>, top)
     }"

definition pop_three :: "('a \<Rightarrow> 'a \<Rightarrow> bool) \<Rightarrow> 'a tree_heap \<Rightarrow> ('a tree_heap \<times> addr) option" where
  "pop_three cmp s =
     do {
       let top = heap_top s;
       l \<leftarrow> read_prev s top;
       r \<leftarrow> read_nxt s top;
       lv \<leftarrow> read_val s l;
       rv \<leftarrow> read_val s r;
       s \<leftarrow> (if cmp lv rv then do {
               s \<leftarrow> write_tree_parent (s\<lparr>root := l\<rparr>) r l;
               write_prev s l r
             } else do {
               s \<leftarrow> write_tree_parent (s\<lparr>root := r\<rparr>) l r;
               write_prev s r l
             });
       s \<leftarrow> write_tree_parent s (heap_top s) nullptr;
       Some (s\<lparr>size := size s - 1\<rparr>, top)
     }"

definition pop_many :: "('a \<Rightarrow> 'a \<Rightarrow> bool) \<Rightarrow> 'a tree_heap \<Rightarrow> ('a tree_heap \<times> addr) option" where
  "pop_many cmp s =
     do {
       let top = heap_top s;
       element \<leftarrow> rightmost_full s;
       let s = s\<lparr>root := element\<rparr>;
       l \<leftarrow> read_prev s top;
       s \<leftarrow> write_prev s element l;
       r \<leftarrow> read_nxt s top;
       s \<leftarrow> write_nxt s element r;
       ep \<leftarrow> read_tree_parent s element;
       epl \<leftarrow> read_prev s ep;
       s \<leftarrow> (if element = epl then write_prev s ep nullptr else write_nxt s ep nullptr);
       s \<leftarrow> write_tree_parent s element nullptr;
       l \<leftarrow> read_prev s top;
       s \<leftarrow> write_tree_parent s l element;
       r \<leftarrow> read_nxt s top;
       s \<leftarrow> write_tree_parent s r element;
       s \<leftarrow> sift_down cmp s element;
       Some (s\<lparr>size := size s - 1\<rparr>, top)
     }"

definition heap_pop :: "('a \<Rightarrow> 'a \<Rightarrow> bool) \<Rightarrow> 'a tree_heap \<Rightarrow> ('a tree_heap \<times> addr) option" where
  "heap_pop cmp s =
     (if size s = 0 then Some (s, nullptr)
      else if size s = 1 then Some (s\<lparr>root := nullptr, size := size s - 1\<rparr>, heap_top s)
      else if size s = 2 then pop_two s
      else if size s = 3 then pop_three cmp s
      else pop_many cmp s)"

section \<open>The destructor\<close>

text \<open>
  \<open>~tree_heap\<close> pops until the heap is empty; the owning pointer each \<open>pop\<close> returns is dropped at once,
  which ends the lifetime of the element. The elements released are collected in order.
\<close>

partial_function (option) heap_destroy ::
    "('a \<Rightarrow> 'a \<Rightarrow> bool) \<Rightarrow> 'a tree_heap \<Rightarrow> addr list \<Rightarrow> ('a tree_heap \<times> addr list) option" where
  "heap_destroy cmp s released =
     (if peek s = nullptr then Some (s, released)
      else do {
        (s, e) \<leftarrow> heap_pop cmp s;
        heap_destroy cmp (s\<lparr>valid := (valid s)(e := False)\<rparr>) (released @ [e])
      })"

end
