(* ===== verification/Heap_Shape.thy ===== *)
theory Heap_Shape
  imports Tree_Heap
begin

text \<open>
  The links of the heap as a shape: the same predicate as for the AVL tree, with no factor in the
  parent word. Swapping a node with one of its children refines the swap of the two addresses.
\<close>

section \<open>Plain parent pointers\<close>

fun flat :: "shape \<Rightarrow> bool" where
  "flat Leaf = True"
| "flat (Node l x r) = (snd x = 0 \<and> flat l \<and> flat r)"

fun zflat :: "zipper \<Rightarrow> bool" where
  "zflat [] = True"
| "zflat (LeftOf x r # c) = (snd x = 0 \<and> flat r \<and> zflat c)"
| "zflat (RightOf l x # c) = (snd x = 0 \<and> flat l \<and> zflat c)"

lemma flat_plug: "flat (plug c t) \<longleftrightarrow> flat t \<and> zflat c"
  by (induction c t rule: plug.induct) auto

definition heap_holds :: "'a tree_heap \<Rightarrow> zipper \<Rightarrow> shape \<Rightarrow> bool" where
  "heap_holds s c t \<longleftrightarrow> holds s c t \<and> flat t \<and> zflat c"

lemma heap_holds_plug: "heap_holds s [] (plug c t) \<longleftrightarrow> heap_holds s c t"
  by (simp add: heap_holds_def holds_plug flat_plug)

lemma heap_holds_left: "heap_holds s (LeftOf x r # c) l \<longleftrightarrow> heap_holds s c (Node l x r)"
  by (auto simp: heap_holds_def holds_left)

lemma heap_holds_right: "heap_holds s (RightOf l x # c) r \<longleftrightarrow> heap_holds s c (Node l x r)"
  by (auto simp: heap_holds_def holds_right)

lemma write_parent_of_refines:
  assumes "tree_at (valid s) P N T x t" and "flat t" and "aligned8 q"
  shows "write_parent_of s (root_addr t) q = Some (s\<lparr>tree_parent := reparent t (tree_parent s) q\<rparr>)"
  using assms by (cases t) (auto simp: write_parent_of_def writes_accessible good_accessible good_addr_def)

text \<open>The links of a node in the store.\<close>

lemma heap_links:
  assumes "heap_holds s c (Node l (a, b) r)"
  shows "accessible s a" "a \<noteq> 0" "b = 0" "read_prev s a = Some (root_addr l)" "read_nxt s a = Some (root_addr r)"
    "read_tree_parent s a = Some (parent_addr c)" "read_val s a = Some (val s a)"
    "root_addr l = 0 \<longleftrightarrow> l = Leaf" "root_addr r = 0 \<longleftrightarrow> r = Leaf"
  using assms by (auto simp: heap_holds_def holds_def good_addr_def accessible_def read_prev_def read_nxt_def
      read_tree_parent_def read_val_def)

text \<open>The link from the position to its child, as the code writes it.\<close>

lemma heap_hang_exec:
  assumes "zipper_at (valid s) P N T rt old c"
    and "prev s (parent_addr c) = P (parent_addr c)" and "old \<noteq> 0" and "old \<notin> set (zipper_addrs c)"
  shows "(if parent_addr c \<noteq> 0 then do {
            l \<leftarrow> read_prev s (parent_addr c);
            if l = old then write_prev s (parent_addr c) h else write_nxt s (parent_addr c) h
          } else Some s) =
         Some (s\<lparr>prev := hang_prev c (prev s) h, nxt := hang_nxt c (nxt s) h\<rparr>)"
proof (cases c rule: zipper_addrs.cases)
  case (3 l x c')
  with assms have "root_addr l \<noteq> old"
    using root_addr_in [of l] by auto
  with 3 assms show ?thesis
    by (auto simp: reads_accessible writes_accessible good_accessible good_addr_def)
qed (use assms in \<open>auto simp: reads_accessible writes_accessible good_accessible good_addr_def\<close>)

lemma root_if:
  assumes "zipper_at V P N T rt old c"
  shows "(if parent_addr c = 0 then s\<lparr>root := h\<rparr> else s) = s\<lparr>root := hang_root c (root s) h\<rparr>"
  using assms by (cases c rule: zipper_addrs.cases) (auto simp: good_addr_def)

section \<open>Swapping a node with a child\<close>

lemma heap_swap_left_refines:
  assumes h: "heap_holds s c (Node (Node l (ch, 0) r) (p, 0) R)"
  obtains s' where "heap_swap s p ch = Some s'"
    and "heap_holds s' c (Node (Node l (p, 0) r) (ch, 0) R)"
    and "only_links (set (addrs (plug c (Node (Node l (ch, 0) r) (p, 0) R)))) s s'"
proof -
  let ?V = "valid s" and ?P = "prev s" and ?N = "nxt s" and ?T = "tree_parent s"
  from h have hs: "holds s c (Node (Node l (ch, 0) r) (p, 0) R)" and [simp]: "flat l" "flat r" "flat R" "zflat c"
    by (auto simp: heap_holds_def)
  from hs have [simp]: "accessible s p" "accessible s ch" "p \<noteq> ch" "ch \<noteq> p" "p \<noteq> 0" "ch \<noteq> 0"
      "aligned8 p" "aligned8 ch" "aligned8 (parent_addr c)"
      "?P p = ch" "?N p = root_addr R" "?T p = parent_addr c" "?P ch = root_addr l" "?N ch = root_addr r"
      "p \<notin> set (addrs l)" "p \<notin> set (addrs r)" "p \<notin> set (addrs R)" "p \<notin> set (zipper_addrs c)"
      "ch \<notin> set (addrs l)" "ch \<notin> set (addrs r)" "ch \<notin> set (addrs R)" "ch \<notin> set (zipper_addrs c)"
      "set (addrs l) \<inter> set (addrs r) = {}" "set (addrs l) \<inter> set (addrs R) = {}" "set (addrs r) \<inter> set (addrs R) = {}"
      "set (addrs l) \<inter> set (zipper_addrs c) = {}" "set (addrs r) \<inter> set (zipper_addrs c) = {}"
      "set (addrs R) \<inter> set (zipper_addrs c) = {}"
    and tl: "tree_at ?V ?P ?N ?T ch l" and tr: "tree_at ?V ?P ?N ?T ch r" and tR: "tree_at ?V ?P ?N ?T p R"
    and c: "zipper_at ?V ?P ?N ?T (root s) p c"
    and ds: "distinct (addrs l)" "distinct (addrs r)" "distinct (addrs R)" "distinct (zipper_addrs c)"
    by (auto simp: holds_def good_addr_def accessible_def)
  let ?T1 = "(reparent r (reparent l ?T p) p)(ch := parent_addr c, p := ch)"
  let ?s' = "s\<lparr>prev := hang_prev c (?P(p := root_addr l, ch := p)) ch,
     nxt := hang_nxt c (?N(p := root_addr r, ch := root_addr R)) ch,
     tree_parent := reparent R ?T1 ch, root := hang_root c (root s) ch\<rparr>"
  have W: "write_parent_of s1 (root_addr l) p = Some (s1\<lparr>tree_parent := reparent l (tree_parent s1) p\<rparr>)"
     "write_parent_of s1 (root_addr r) p = Some (s1\<lparr>tree_parent := reparent r (tree_parent s1) p\<rparr>)"
     "write_parent_of s1 (root_addr R) ch = Some (s1\<lparr>tree_parent := reparent R (tree_parent s1) ch\<rparr>)"
    if "valid s1 = ?V" for s1 :: "'a avl_tree"
    using that tl tr tR by (simp_all add: write_parent_of_refines)
  have [simp]: "parent_addr c \<noteq> p" "parent_addr c \<noteq> ch" "p \<noteq> parent_addr c" "ch \<noteq> parent_addr c"
    using parent_addr_in [of c] \<open>p \<noteq> 0\<close> \<open>ch \<noteq> 0\<close> \<open>p \<notin> set (zipper_addrs c)\<close> \<open>ch \<notin> set (zipper_addrs c)\<close> by metis+
  note H = heap_hang_exec [OF _ _ \<open>p \<noteq> 0\<close> \<open>p \<notin> set (zipper_addrs c)\<close>, of _ ?P ?N ?T "root s"]
  have "heap_swap s p ch = Some ?s'"
    by (simp add: heap_swap_def reads_accessible writes_accessible W H c root_if [OF c] split del: if_split)
  moreover have "heap_holds ?s' c (Node (Node l (p, 0) r) (ch, 0) R)"
    using hs c zipper_at_hang [of ?V "?P(p := root_addr l, ch := p)" "?N(p := root_addr r, ch := root_addr R)" ?T
        "root s" p c ch]
    by (simp add: heap_holds_def holds_def Int_commute Int_Un_distrib tree_at_reparent [where q = ch and t = l]
        tree_at_reparent [where q = ch and t = r] tree_at_reparent [where q = p and t = R])
  moreover have "only_links (set (addrs (plug c (Node (Node l (ch, 0) r) (p, 0) R)))) s ?s'"
    by (simp add: only_links_def set_addrs_plug)
  ultimately show thesis by (rule that)
qed

lemma heap_swap_right_refines:
  assumes h: "heap_holds s c (Node L (p, 0) (Node l (ch, 0) r))"
  obtains s' where "heap_swap s p ch = Some s'"
    and "heap_holds s' c (Node L (ch, 0) (Node l (p, 0) r))"
    and "only_links (set (addrs (plug c (Node L (p, 0) (Node l (ch, 0) r))))) s s'"
proof -
  let ?V = "valid s" and ?P = "prev s" and ?N = "nxt s" and ?T = "tree_parent s"
  from h have hs: "holds s c (Node L (p, 0) (Node l (ch, 0) r))" and [simp]: "flat l" "flat r" "flat L" "zflat c"
    by (auto simp: heap_holds_def)
  from hs have [simp]: "accessible s p" "accessible s ch" "p \<noteq> ch" "ch \<noteq> p" "p \<noteq> 0" "ch \<noteq> 0"
      "aligned8 p" "aligned8 ch" "aligned8 (parent_addr c)"
      "?N p = ch" "?P p = root_addr L" "?T p = parent_addr c" "?P ch = root_addr l" "?N ch = root_addr r"
      "p \<notin> set (addrs l)" "p \<notin> set (addrs r)" "p \<notin> set (addrs L)" "p \<notin> set (zipper_addrs c)"
      "ch \<notin> set (addrs l)" "ch \<notin> set (addrs r)" "ch \<notin> set (addrs L)" "ch \<notin> set (zipper_addrs c)"
      "set (addrs l) \<inter> set (addrs r) = {}" "set (addrs l) \<inter> set (addrs L) = {}" "set (addrs r) \<inter> set (addrs L) = {}"
      "set (addrs l) \<inter> set (zipper_addrs c) = {}" "set (addrs r) \<inter> set (zipper_addrs c) = {}"
      "set (addrs L) \<inter> set (zipper_addrs c) = {}"
    and tl: "tree_at ?V ?P ?N ?T ch l" and tr: "tree_at ?V ?P ?N ?T ch r" and tL: "tree_at ?V ?P ?N ?T p L"
    and c: "zipper_at ?V ?P ?N ?T (root s) p c"
    and ds: "distinct (addrs l)" "distinct (addrs r)" "distinct (addrs L)" "distinct (zipper_addrs c)"
    by (auto simp: holds_def good_addr_def accessible_def)
  let ?T1 = "(reparent r (reparent l ?T p) p)(ch := parent_addr c, p := ch)"
  let ?s' = "s\<lparr>prev := hang_prev c (?P(p := root_addr l, ch := root_addr L)) ch,
     nxt := hang_nxt c (?N(p := root_addr r, ch := p)) ch,
     tree_parent := reparent L ?T1 ch, root := hang_root c (root s) ch\<rparr>"
  have W: "write_parent_of s1 (root_addr l) p = Some (s1\<lparr>tree_parent := reparent l (tree_parent s1) p\<rparr>)"
     "write_parent_of s1 (root_addr r) p = Some (s1\<lparr>tree_parent := reparent r (tree_parent s1) p\<rparr>)"
     "write_parent_of s1 (root_addr L) ch = Some (s1\<lparr>tree_parent := reparent L (tree_parent s1) ch\<rparr>)"
    if "valid s1 = ?V" for s1 :: "'a avl_tree"
    using that tl tr tL by (simp_all add: write_parent_of_refines)
  have [simp]: "parent_addr c \<noteq> p" "parent_addr c \<noteq> ch" "p \<noteq> parent_addr c" "ch \<noteq> parent_addr c"
    using parent_addr_in [of c] \<open>p \<noteq> 0\<close> \<open>ch \<noteq> 0\<close> \<open>p \<notin> set (zipper_addrs c)\<close> \<open>ch \<notin> set (zipper_addrs c)\<close> by metis+
  have [simp]: "root_addr L \<noteq> ch"
    using root_addr_in [of L] \<open>ch \<noteq> 0\<close> \<open>ch \<notin> set (addrs L)\<close> by metis
  note H = heap_hang_exec [OF _ _ \<open>p \<noteq> 0\<close> \<open>p \<notin> set (zipper_addrs c)\<close>, of _ ?P ?N ?T "root s"]
  have "heap_swap s p ch = Some ?s'"
    by (simp add: heap_swap_def reads_accessible writes_accessible W H c root_if [OF c] split del: if_split)
  moreover have "heap_holds ?s' c (Node L (ch, 0) (Node l (p, 0) r))"
    using hs c zipper_at_hang [of ?V "?P(p := root_addr l, ch := root_addr L)" "?N(p := root_addr r, ch := p)" ?T
        "root s" p c ch]
    by (simp add: heap_holds_def holds_def Int_commute Int_Un_distrib tree_at_reparent [where q = ch and t = l]
        tree_at_reparent [where q = ch and t = r] tree_at_reparent [where q = p and t = L])
  moreover have "only_links (set (addrs (plug c (Node L (p, 0) (Node l (ch, 0) r))))) s ?s'"
    by (simp add: only_links_def set_addrs_plug)
  ultimately show thesis by (rule that)
qed

end
