(* ===== verification/Heap_Index.thy ===== *)
theory Heap_Index
  imports Heap_Shape
begin

text \<open>
  The left-filled shape of the heap and \<open>_get_nth\<close>, which finds the node with a given index by
  halving the bottom level: it is the walk along the binary digits of the index.
\<close>

section \<open>Indices\<close>

fun idxs :: "nat \<Rightarrow> shape \<Rightarrow> nat set" where
  "idxs i Leaf = {}"
| "idxs i (Node l x r) = insert i (idxs (2 * i) l \<union> idxs (2 * i + 1) r)"

fun zidx :: "zipper \<Rightarrow> nat" where
  "zidx [] = 1"
| "zidx (LeftOf x r # c) = 2 * zidx c"
| "zidx (RightOf l x # c) = 2 * zidx c + 1"

fun zidxs :: "zipper \<Rightarrow> nat set" where
  "zidxs [] = {}"
| "zidxs (LeftOf x r # c) = insert (zidx c) (idxs (2 * zidx c + 1) r \<union> zidxs c)"
| "zidxs (RightOf l x # c) = insert (zidx c) (idxs (2 * zidx c) l \<union> zidxs c)"

text \<open>The tree with \<open>n\<close> nodes, filled level by level from the left.\<close>

definition left_filled :: "shape \<Rightarrow> nat \<Rightarrow> bool" where
  "left_filled t n \<longleftrightarrow> idxs 1 t = {1..n}"

lemma zidx_pos [simp]: "0 < zidx c"
  by (induction c rule: zidx.induct) auto

lemma idxs_plug: "idxs 1 (plug c t) = zidxs c \<union> idxs (zidx c) t"
  by (induction c t rule: plug.induct) auto

lemma div_pow_Suc: "(j :: nat) div 2 ^ Suc k = j div 2 ^ k div 2"
  by (metis div_mult2_eq power_Suc2)

lemma idxs_below: "j \<in> idxs i t \<Longrightarrow> \<exists>k. j div 2 ^ k = i"
proof (induction t arbitrary: i)
  case (Node l x r)
  from Node.prems consider "j = i" | "j \<in> idxs (2 * i) l" | "j \<in> idxs (2 * i + 1) r" by auto
  then show ?case
  proof cases
    case 1
    then show ?thesis by (intro exI [of _ 0]) simp
  next
    case 2
    from Node.IH(1) [OF 2] obtain k where "j div 2 ^ k = 2 * i" ..
    then show ?thesis by (intro exI [of _ "Suc k"]) (simp add: div_pow_Suc del: power_Suc)
  next
    case 3
    from Node.IH(2) [OF 3] obtain k where "j div 2 ^ k = 2 * i + 1" ..
    then show ?thesis by (intro exI [of _ "Suc k"]) (simp add: div_pow_Suc del: power_Suc)
  qed
qed simp

lemma div_pow_le: "0 < (a :: nat) \<Longrightarrow> a div 2 ^ k = b \<Longrightarrow> k \<noteq> 0 \<Longrightarrow> b \<le> a div 2"
  using div_le_mono2 [of 2 "2 ^ k" a] by (simp add: self_le_power)

lemma div_pow_split: "m \<le> k \<Longrightarrow> (j :: nat) div 2 ^ k = j div 2 ^ m div 2 ^ (k - m)"
  by (metis div_mult2_eq le_add_diff_inverse power_add)

lemma siblings_disjoint:
  assumes "(j :: nat) div 2 ^ k = 2 * z" "j div 2 ^ m = 2 * z + 1" "0 < z"
  shows False
proof (cases "m \<le> k")
  case True
  with assms have "(2 * z + 1) div 2 ^ (k - m) = 2 * z" using div_pow_split [OF True, of j] by simp
  with assms(3) div_pow_le [of "2 * z + 1" "k - m" "2 * z"] show False by (cases "k - m = 0") auto
next
  case False
  with assms have "(2 * z) div 2 ^ (m - k) = 2 * z + 1" using div_pow_split [of k m j] by simp
  with assms(3) div_pow_le [of "2 * z" "m - k" "2 * z + 1"] show False by (cases "m - k = 0") auto
qed

lemma zidxs_not_below: "j \<in> zidxs c \<Longrightarrow> j div 2 ^ k \<noteq> zidx c"
proof (induction c arbitrary: k rule: zidxs.induct)
  case (2 x r c)
  show ?case
  proof
    assume a: "j div 2 ^ k = zidx (LeftOf x r # c)"
    from 2(2) consider "j = zidx c" | "j \<in> idxs (2 * zidx c + 1) r" | "j \<in> zidxs c" by auto
    then show False
    proof cases
      case 1
      have "zidx c div 2 ^ k \<le> zidx c" by simp
      with 1 a zidx_pos [of c] show False by (simp del: zidx_pos)
    next
      case 2
      with idxs_below a siblings_disjoint [of j k "zidx c"] show False by fastforce
    next
      case 3
      with 2(1) [of "Suc k"] a show False by (simp add: div_pow_Suc del: power_Suc)
    qed
  qed
next
  case (3 l x c)
  show ?case
  proof
    assume a: "j div 2 ^ k = zidx (RightOf l x # c)"
    from 3(2) consider "j = zidx c" | "j \<in> idxs (2 * zidx c) l" | "j \<in> zidxs c" by auto
    then show False
    proof cases
      case 1
      have "zidx c div 2 ^ k \<le> zidx c" by simp
      with 1 a zidx_pos [of c] show False by (simp del: zidx_pos)
    next
      case 2
      with idxs_below a siblings_disjoint [of j _ "zidx c" k] show False by fastforce
    next
      case 3
      with "3.IH" [of "Suc k"] a show False by (simp add: div_pow_Suc del: power_Suc)
    qed
  qed
qed simp

lemma zidxs_disjoint: "zidxs c \<inter> idxs (zidx c) t = {}"
  using zidxs_not_below idxs_below by blast

lemma zidx_notin: "zidx c \<notin> zidxs c"
  using zidxs_not_below [of "zidx c" c 0] by auto

section \<open>Positions\<close>

lemma position_idx:
  assumes "j \<in> idxs 1 t"
  obtains c l b r a where "t = plug c (Node l (a, b) r)" "zidx c = j"
proof -
  have "j \<in> idxs (zidx c) t \<Longrightarrow> \<exists>c' l a b r. plug c t = plug c' (Node l (a, b) r) \<and> zidx c' = j" for c
  proof (induction t arbitrary: c)
    case (Node l x r)
    then consider "j = zidx c" | "j \<in> idxs (zidx (LeftOf x r # c)) l" | "j \<in> idxs (zidx (RightOf l x # c)) r" by auto
    then show ?case
    proof cases
      case 1
      then show ?thesis by (metis prod.collapse)
    next
      case 2
      from Node.IH(1) [OF this] show ?thesis by simp
    next
      case 3
      from Node.IH(2) [OF this] show ?thesis by simp
    qed
  qed simp
  from this [of "[]"] assms that show thesis by auto
qed

lemma zidx_bounds: "2 ^ length c \<le> zidx c" "zidx c < 2 ^ Suc (length c)"
  by (induction c rule: zidx.induct) auto

lemma bit_width_bounds: "2 ^ k \<le> n \<Longrightarrow> n < 2 ^ Suc k \<Longrightarrow> bit_width n = Suc k"
proof (induction k arbitrary: n)
  case 0
  then have "n = 1" by simp
  then show ?case by (simp add: bit_width.simps)
next
  case (Suc k)
  then have "bit_width (n div 2) = Suc k" by (intro Suc.IH) auto
  with Suc.prems show ?case by (subst bit_width.simps) auto
qed

lemma bit_width_zidx: "bit_width (zidx c) = Suc (length c)"
  using zidx_bounds by (rule bit_width_bounds)

text \<open>The ancestors of a position are the suffixes of its path.\<close>

lemma zidx_drop: "k \<le> length c \<Longrightarrow> zidx (drop k c) = zidx c div 2 ^ k"
proof (induction k)
  case (Suc k)
  then have "k < length c" by simp
  then obtain f c' where d: "drop k c = f # c'" by (cases "drop k c") auto
  then have "zidx (f # c') div 2 = zidx c'" by (cases f) auto
  moreover have "drop (Suc k) c = c'" by (metis d drop_Suc list.sel(3) tl_drop)
  ultimately show ?case using Suc d by (simp add: div_pow_Suc del: power_Suc)
qed simp

lemma slot_shift: "(n :: nat) \<le> a \<Longrightarrow> a \<le> z \<Longrightarrow> 1 \<le> n \<Longrightarrow> k + (a - n) < z - (n - 1) \<longleftrightarrow> a + k \<le> z"
  by linarith

text \<open>One step of the search: the digit that decides the side.\<close>

lemma digit_decides:
  assumes k: "Suc k \<le> length c"
  defines "x \<equiv> (zidx (drop (Suc k) c) - 2 ^ (length c - Suc k)) * 2 ^ Suc k"
  shows "2 ^ k + x < zidx c - (2 ^ length c - 1) \<longleftrightarrow> odd (zidx (drop k c))"
    and "zidx (drop k c) = 2 * zidx (drop (Suc k) c) + (if odd (zidx (drop k c)) then 1 else 0)"
proof -
  let ?z = "zidx (drop (Suc k) c)" and ?w = "zidx (drop k c)"
  have w: "?w = zidx c div 2 ^ k" and z: "?z = ?w div 2"
    using k zidx_drop [of k c] zidx_drop [of "Suc k" c] by (simp_all add: div_pow_Suc del: power_Suc)
  then show wz: "?w = 2 * ?z + (if odd ?w then 1 else 0)" by (simp add: odd_two_times_div_two_succ)
  have "2 ^ (length c - Suc k) \<le> ?z" using zidx_bounds(1) [of "drop (Suc k) c"] by simp
  then have "x = ?z * 2 ^ Suc k - 2 ^ (length c - Suc k) * 2 ^ Suc k"
    unfolding x_def by (simp only: diff_mult_distrib)
  also have "(2 :: nat) ^ (length c - Suc k) * 2 ^ Suc k = 2 ^ length c"
    using k by (metis le_add_diff_inverse2 power_add)
  finally have x: "x = ?z * 2 ^ Suc k - 2 ^ length c" .
  have le: "2 ^ length c \<le> ?z * 2 ^ Suc k"
    using \<open>2 ^ (length c - Suc k) \<le> ?z\<close> \<open>(2 :: nat) ^ (length c - Suc k) * 2 ^ Suc k = 2 ^ length c\<close>
    by (metis mult_le_mono1)
  have "?z * 2 ^ Suc k \<le> zidx c" using w z by (simp add: div_pow_Suc [symmetric] del: power_Suc)
  then have "2 ^ k + x < zidx c - (2 ^ length c - 1) \<longleftrightarrow> ?z * 2 ^ Suc k + 2 ^ k \<le> zidx c"
    unfolding x by (intro slot_shift le) simp_all
  also have "\<dots> \<longleftrightarrow> (2 * ?z + 1) * 2 ^ k \<le> zidx c" by (simp add: algebra_simps)
  also have "\<dots> \<longleftrightarrow> 2 * ?z + 1 \<le> ?w" using w by (simp add: less_eq_div_iff_mult_less_eq)
  also have "\<dots> \<longleftrightarrow> odd ?w" using wz by (cases "odd ?w") auto
  finally show "2 ^ k + x < zidx c - (2 ^ length c - 1) \<longleftrightarrow> odd ?w" .
qed

section \<open>The search refines the walk to the position\<close>

text \<open>The address of the node \<open>k\<close> levels above the position of the node \<open>a\<close>.\<close>

definition above :: "zipper \<Rightarrow> addr \<Rightarrow> nat \<Rightarrow> addr" where
  "above c a k = (if k = 0 then a else frame_addr (c ! (k - 1)))"

lemma above_simps [simp]: "above c a 0 = a" "above (f # c) a (Suc k) = above c (frame_addr f) k"
  by (auto simp: above_def nth_Cons split: nat.splits)

lemma zipper_at_nth:
  "zipper_at V P N T rt a c \<Longrightarrow> k < length c \<Longrightarrow>
     good_addr V (frame_addr (c ! k)) \<and>
     (case c ! k of LeftOf x r \<Rightarrow> P (fst x) = above c a k | RightOf l x \<Rightarrow> N (fst x) = above c a k)"
proof (induction V P N T rt a c arbitrary: k rule: zipper_at.induct)
  case (2 V P N T rt h x r c)
  show ?case
  proof (cases k)
    case (Suc n)
    show ?thesis unfolding Suc using Suc 2(1) [of n] 2(2,3) by (auto split: frame.splits)
  qed (use 2 in simp)
next
  case (3 V P N T rt h l x c)
  show ?case
  proof (cases k)
    case (Suc n)
    show ?thesis unfolding Suc using Suc 3(1) [of n] 3(2,3) by (auto split: frame.splits)
  qed (use 3 in simp)
qed simp

lemma get_nth_loop_refines:
  assumes h: "heap_holds s c (Node l (a, b) r)" and S: "S = zidx c - (2 ^ length c - 1)"
  shows "k \<le> length c \<Longrightarrow>
    get_nth_loop s (Suc (length c)) (2 ^ length c) S (Suc (length c) - k)
      ((zidx (drop k c) - 2 ^ (length c - k)) * 2 ^ k) (above c a k) = Some a"
proof (induction k)
  case 0
  then show ?case by (subst get_nth_loop.simps) (simp add: above_def)
next
  case (Suc k)
  let ?z = "zidx (drop (Suc k) c)" and ?m = "(2 :: nat) ^ (length c - Suc k)"
  have k: "k < length c" and z: "?m \<le> ?z" using Suc.prems zidx_bounds(1) [of "drop (Suc k) c"] by simp_all
  have m: "(2 :: nat) ^ (length c - k) = 2 * ?m" using k by (metis Suc_diff_Suc power_Suc)
  have y: "2 ^ length c div 2 ^ (Suc (length c) - Suc k) = (2 :: nat) ^ k"
    using k by (simp add: power_diff [symmetric])
  have x: "(2 * ?z - 2 * ?m) * 2 ^ k = (?z - ?m) * 2 ^ Suc k"
      "(2 * ?z + 1 - 2 * ?m) * 2 ^ k = 2 ^ k + (?z - ?m) * 2 ^ Suc k"
  proof -
    have "2 * ?z - 2 * ?m = 2 * (?z - ?m)" "2 * ?z + 1 - 2 * ?m = 2 * (?z - ?m) + 1" using z by simp_all
    then show "(2 * ?z - 2 * ?m) * 2 ^ k = (?z - ?m) * 2 ^ Suc k"
      "(2 * ?z + 1 - 2 * ?m) * 2 ^ k = 2 ^ k + (?z - ?m) * 2 ^ Suc k" by (simp_all add: algebra_simps)
  qed
  have "zipper_at (valid s) (prev s) (nxt s) (tree_parent s) (root s) a c"
    using h by (simp add: heap_holds_def holds_def)
  note nth = zipper_at_nth [OF this k]
  have d: "drop k c = c ! k # drop (Suc k) c" using k by (simp add: Cons_nth_drop_Suc)
  have n: "length c - k < Suc (length c)" using k by simp
  have IH: "get_nth_loop s (Suc (length c)) (2 ^ length c) S (Suc (length c) - k)
      ((zidx (drop k c) - 2 * ?m) * 2 ^ k) (above c a k) = Some a"
    using Suc.IH k m by simp
  show ?case
  proof (cases "c ! k")
    case (LeftOf y r')
    with d have w: "zidx (drop k c) = 2 * ?z" by simp
    with digit_decides(1) [OF Suc.prems, folded S] have "\<not> 2 ^ k + (?z - ?m) * 2 ^ Suc k < S"
      by simp
    moreover have "read_prev s (above c a (Suc k)) = Some (above c a k)"
      using nth LeftOf by (auto simp: above_def read_prev_def dest: good_accessible)
    ultimately show ?thesis using IH w x(1) k y n by (subst get_nth_loop.simps) (simp add: Let_def Suc_diff_le)
  next
    case (RightOf l' y)
    with d have w: "zidx (drop k c) = 2 * ?z + 1" by simp
    with digit_decides(1) [OF Suc.prems, folded S] have "2 ^ k + (?z - ?m) * 2 ^ Suc k < S"
      by simp
    moreover have "read_nxt s (above c a (Suc k)) = Some (above c a k)"
      using nth RightOf by (auto simp: above_def read_nxt_def dest: good_accessible)
    ultimately show ?thesis using IH w x(2) k y n by (subst get_nth_loop.simps) (simp add: Let_def Suc_diff_le)
  qed
qed

lemma get_nth_refines:
  assumes h: "heap_holds s c (Node l (a, b) r)"
  shows "get_nth s (zidx c) = Some a"
proof -
  have "root s = above c a (length c)"
    using h zipper_at_root [of "valid s" "prev s" "nxt s" "tree_parent s" "root s" a c]
    by (auto simp: heap_holds_def holds_def above_def last_conv_nth)
  with get_nth_loop_refines [OF h refl order_refl] show ?thesis
    by (simp add: get_nth_def bit_width_zidx)
qed

end
