(* ===== verification/Heap_Order.thy ===== *)
theory Heap_Order
  imports Heap_Index Avl_Erase
begin

text \<open>
  The order of the heap, and that the two sifting loops restore it: every element of a subtree is not
  better than the root of the subtree. The comparator is a strict weak order.
\<close>

section \<open>The heap order\<close>

definition strict_weak :: "('a \<Rightarrow> 'a \<Rightarrow> bool) \<Rightarrow> bool" where
  "strict_weak cmp \<longleftrightarrow> (\<forall>x y. cmp x y \<longrightarrow> \<not> cmp y x) \<and> (\<forall>x y z. \<not> cmp x y \<longrightarrow> \<not> cmp y z \<longrightarrow> \<not> cmp x z)"

lemma strict_weakD:
  assumes "strict_weak cmp"
  shows "cmp x y \<Longrightarrow> \<not> cmp y x" and "\<not> cmp x x" and "\<not> cmp x y \<Longrightarrow> \<not> cmp y z \<Longrightarrow> \<not> cmp x z"
    and "cmp x y \<Longrightarrow> cmp y z \<Longrightarrow> cmp x z" and "\<not> cmp x y \<Longrightarrow> cmp z y \<Longrightarrow> \<not> cmp x z"
  using assms unfolding strict_weak_def by metis+

fun heap_ord :: "('a \<Rightarrow> 'a \<Rightarrow> bool) \<Rightarrow> (addr \<Rightarrow> 'a) \<Rightarrow> shape \<Rightarrow> bool" where
  "heap_ord cmp V Leaf = True"
| "heap_ord cmp V (Node l x r) =
     ((\<forall>y \<in> set (addrs l) \<union> set (addrs r). \<not> cmp (V y) (V (fst x))) \<and> heap_ord cmp V l \<and> heap_ord cmp V r)"

text \<open>The order of the nodes around a position that holds the elements \<open>S\<close>.\<close>

fun zord :: "('a \<Rightarrow> 'a \<Rightarrow> bool) \<Rightarrow> (addr \<Rightarrow> 'a) \<Rightarrow> zipper \<Rightarrow> addr set \<Rightarrow> bool" where
  "zord cmp V [] S = True"
| "zord cmp V (LeftOf x r # c) S =
     ((\<forall>y \<in> S \<union> set (addrs r). \<not> cmp (V y) (V (fst x))) \<and> heap_ord cmp V r \<and>
      zord cmp V c (insert (fst x) (S \<union> set (addrs r))))"
| "zord cmp V (RightOf l x # c) S =
     ((\<forall>y \<in> S \<union> set (addrs l). \<not> cmp (V y) (V (fst x))) \<and> heap_ord cmp V l \<and>
      zord cmp V c (insert (fst x) (S \<union> set (addrs l))))"

lemma heap_ord_plug: "heap_ord cmp V (plug c t) \<longleftrightarrow> heap_ord cmp V t \<and> zord cmp V c (set (addrs t))"
proof (induction c t rule: plug.induct)
  case (2 x r c t)
  then show ?case by (auto simp: ball_Un)
next
  case (3 l x c t)
  then show ?case by (auto simp: ball_Un Un_commute)
qed simp

lemma zord_mono: "zord cmp V c S \<Longrightarrow> S' \<subseteq> S \<Longrightarrow> zord cmp V c S'"
proof (induction c arbitrary: S S' rule: zidx.induct)
  case (2 x r c)
  then have "zord cmp V c (insert (fst x) (S' \<union> set (addrs r)))" by (auto elim!: 2(1))
  with 2 show ?case by auto
next
  case (3 l x c)
  then have "zord cmp V c (insert (fst x) (S' \<union> set (addrs l)))" by (auto elim!: 3(1))
  with 3 show ?case by auto
qed simp

text \<open>An element not better than one that is there may join it.\<close>

lemma zord_insert:
  assumes sw: "strict_weak cmp"
  shows "zord cmp V c S \<Longrightarrow> p \<in> S \<Longrightarrow> \<not> cmp (V e) (V p) \<Longrightarrow> zord cmp V c (insert e S)"
proof (induction c arbitrary: S rule: zidx.induct)
  case (2 x r c)
  from 2(1) [of "insert (fst x) (S \<union> set (addrs r))"] 2(2-4)
  have "zord cmp V c (insert e (insert (fst x) (S \<union> set (addrs r))))" by auto
  moreover have "insert (fst x) (insert e S \<union> set (addrs r)) = insert e (insert (fst x) (S \<union> set (addrs r)))" by auto
  moreover have "\<not> cmp (V e) (V (fst x))" using 2(2-4) strict_weakD(3) [OF sw] by auto
  ultimately show ?case using 2(2) by auto
next
  case (3 l x c)
  from 3(1) [of "insert (fst x) (S \<union> set (addrs l))"] 3(2-4)
  have "zord cmp V c (insert e (insert (fst x) (S \<union> set (addrs l))))" by auto
  moreover have "insert (fst x) (insert e S \<union> set (addrs l)) = insert e (insert (fst x) (S \<union> set (addrs l)))" by auto
  moreover have "\<not> cmp (V e) (V (fst x))" using 3(2-4) strict_weakD(3) [OF sw] by auto
  ultimately show ?case using 3(2) by auto
qed simp

section \<open>Sifting up\<close>

text \<open>What a loop over the heap leaves: a heap with the same elements on the same indices.\<close>

definition reheaped :: "('a \<Rightarrow> 'a \<Rightarrow> bool) \<Rightarrow> 'a tree_heap \<Rightarrow> zipper \<Rightarrow> shape \<Rightarrow> 'a tree_heap \<Rightarrow> shape \<Rightarrow> bool" where
  "reheaped cmp s c t s' t' \<longleftrightarrow>
     heap_holds s' c t' \<and> set (addrs t') = set (addrs t) \<and> (\<forall>i. idxs i t' = idxs i t) \<and>
     heap_ord cmp (val s) t' \<and> only_links (set (addrs (plug c t))) s s'"

lemma idxs_plug_cong: "\<forall>i. idxs i t = idxs i t' \<Longrightarrow> idxs i (plug c t) = idxs i (plug c t')"
  by (induction c t arbitrary: t' rule: plug.induct) auto

lemma set_addrs_plug_cong: "set (addrs t) = set (addrs t') \<Longrightarrow> set (addrs (plug c t)) = set (addrs (plug c t'))"
  by (simp add: set_addrs_plug)

lemma reheaped_step:
  assumes "only_links (set (addrs t)) s s1" and "reheaped cmp s1 [] t1 s2 t2"
    and "set (addrs t1) = set (addrs t)" and "\<forall>i. idxs i t1 = idxs i t"
  shows "reheaped cmp s [] t s2 t2"
  using assms only_links_fields(2) [OF assms(1)] by (auto simp: reheaped_def intro: only_links_trans)

lemma better_than_all:
  "strict_weak cmp \<Longrightarrow> cmp (V e) (V p) \<Longrightarrow> \<forall>y \<in> S. \<not> cmp (V y) (V p) \<Longrightarrow> \<forall>y \<in> insert p S. \<not> cmp (V y) (V e)"
  using strict_weakD(1,5) [of cmp] by blast

lemma zord_join:
  assumes "strict_weak cmp" "zord cmp V (f # c) (set (addrs l) \<union> set (addrs r))" "heap_ord cmp V (Node l (e, 0) r)"
    and "\<not> cmp (V e) (V (frame_addr f))"
  shows "heap_ord cmp V (plug (f # c) (Node l (e, 0) r))"
proof -
  have "zord cmp V (f # c) (insert e (set (addrs l) \<union> set (addrs r)))"
  proof (cases f)
    case (LeftOf x R)
    from assms(2) LeftOf zord_insert [OF assms(1), of V c _ "fst x" e] assms(4)
    show ?thesis by (simp add: insert_commute)
  next
    case (RightOf L x)
    from assms(2) RightOf zord_insert [OF assms(1), of V c _ "fst x" e] assms(4)
    show ?thesis by (simp add: insert_commute)
  qed
  moreover have "insert e (set (addrs l) \<union> set (addrs r)) = set (addrs (Node l (e, 0) r))" by simp
  ultimately show ?thesis using assms(3) by (simp only: heap_ord_plug)
qed

lemma sift_up_refines:
  fixes s :: "'a tree_heap"
  assumes sw: "strict_weak cmp"
  shows "heap_holds s c (Node l (e, 0) r) \<Longrightarrow> heap_ord cmp (val s) (Node l (e, 0) r) \<Longrightarrow>
    zord cmp (val s) c (set (addrs l) \<union> set (addrs r)) \<Longrightarrow>
    \<exists>s' t'. sift_up cmp s e (parent_addr c) = Some s' \<and> reheaped cmp s [] (plug c (Node l (e, 0) r)) s' t'"
proof (induction c arbitrary: s l r)
  case Nil
  then have "root s = e" by (simp add: heap_holds_def holds_def)
  with Nil show ?case by (subst sift_up.simps) (auto simp: reheaped_def)
next
  case (Cons f c)
  have ne: "e \<noteq> root s"
    using holds_root_iff [of s "f # c" l e 0 r] Cons.prems(1) by (auto simp: heap_holds_def)
  show ?case
  proof (cases f)
    case (LeftOf x R)
    obtain p b where x: "x = (p, b)" by (cases x)
    note h = Cons.prems(1) [unfolded LeftOf x heap_holds_left]
    have b: "b = 0" and links: "read_val s p = Some (val s p)" "read_val s e = Some (val s e)"
      using heap_links [OF h] heap_links [OF Cons.prems(1)] by simp_all
    show ?thesis
    proof (cases "cmp (val s e) (val s p)")
      case True
      from heap_swap_left_refines [OF h [unfolded b]] obtain s1 where
        s1: "heap_swap s p e = Some s1" "heap_holds s1 c (Node (Node l (p, 0) r) (e, 0) R)"
          "only_links (set (addrs (plug (f # c) (Node l (e, 0) r)))) s s1"
        using LeftOf x b by auto
      have v: "val s1 = val s" using s1(3) by (rule only_links_fields)
      have "heap_ord cmp (val s1) (Node (Node l (p, 0) r) (e, 0) R)"
        using Cons.prems(2,3) LeftOf x v better_than_all [OF sw, of "val s" e p, OF True, of "set (addrs R)"] by (simp add: ball_Un)
      moreover have "zord cmp (val s1) c (set (addrs (Node l (p, 0) r)) \<union> set (addrs R))"
        using Cons.prems(3) LeftOf x v by (simp add: Un_commute Un_left_commute insert_commute)
      ultimately obtain s2 t2 where s2: "sift_up cmp s1 e (parent_addr c) = Some s2"
        "reheaped cmp s1 [] (plug c (Node (Node l (p, 0) r) (e, 0) R)) s2 t2"
        using Cons.IH [OF s1(2)] by blast
      have "sift_up cmp s e (parent_addr (f # c)) = Some s2"
        using ne links True s1(1) s2(1) heap_links(6) [OF s1(2)] LeftOf x by (subst sift_up.simps) simp
      moreover have "reheaped cmp s [] (plug (f # c) (Node l (e, 0) r)) s2 t2"
        using s1(3) s2(2) by (rule reheaped_step) (auto simp: LeftOf x set_addrs_plug intro!: idxs_plug_cong)
      ultimately show ?thesis by blast
    next
      case False
      then have "sift_up cmp s e (parent_addr (f # c)) = Some s"
        using LeftOf x ne links by (subst sift_up.simps) simp
      moreover have "reheaped cmp s [] (plug (f # c) (Node l (e, 0) r)) s (plug (f # c) (Node l (e, 0) r))"
        using zord_join [OF sw Cons.prems(3,2)] False LeftOf x Cons.prems(1) heap_holds_plug [of s "f # c"]
        by (simp add: reheaped_def)
      ultimately show ?thesis by blast
    qed
  next
    case (RightOf L x)
    obtain p b where x: "x = (p, b)" by (cases x)
    note h = Cons.prems(1) [unfolded RightOf x heap_holds_right]
    have b: "b = 0" and links: "read_val s p = Some (val s p)" "read_val s e = Some (val s e)"
      using heap_links [OF h] heap_links [OF Cons.prems(1)] by simp_all
    show ?thesis
    proof (cases "cmp (val s e) (val s p)")
      case True
      from heap_swap_right_refines [OF h [unfolded b]] obtain s1 where
        s1: "heap_swap s p e = Some s1" "heap_holds s1 c (Node L (e, 0) (Node l (p, 0) r))"
          "only_links (set (addrs (plug (f # c) (Node l (e, 0) r)))) s s1"
        using RightOf x b by auto
      have v: "val s1 = val s" using s1(3) by (rule only_links_fields)
      have "heap_ord cmp (val s1) (Node L (e, 0) (Node l (p, 0) r))"
        using Cons.prems(2,3) RightOf x v better_than_all [OF sw, of "val s" e p, OF True, of "set (addrs L)"] by (simp add: ball_Un)
      moreover have "zord cmp (val s1) c (set (addrs L) \<union> set (addrs (Node l (p, 0) r)))"
        using Cons.prems(3) RightOf x v by (simp add: Un_commute Un_left_commute insert_commute)
      ultimately obtain s2 t2 where s2: "sift_up cmp s1 e (parent_addr c) = Some s2"
        "reheaped cmp s1 [] (plug c (Node L (e, 0) (Node l (p, 0) r))) s2 t2"
        using Cons.IH [OF s1(2)] by blast
      have "sift_up cmp s e (parent_addr (f # c)) = Some s2"
        using ne links True s1(1) s2(1) heap_links(6) [OF s1(2)] RightOf x by (subst sift_up.simps) simp
      moreover have "reheaped cmp s [] (plug (f # c) (Node l (e, 0) r)) s2 t2"
        using s1(3) s2(2) by (rule reheaped_step) (auto simp: RightOf x set_addrs_plug intro!: idxs_plug_cong)
      ultimately show ?thesis by blast
    next
      case False
      then have "sift_up cmp s e (parent_addr (f # c)) = Some s"
        using RightOf x ne links by (subst sift_up.simps) simp
      moreover have "reheaped cmp s [] (plug (f # c) (Node l (e, 0) r)) s (plug (f # c) (Node l (e, 0) r))"
        using zord_join [OF sw Cons.prems(3,2)] False RightOf x Cons.prems(1) heap_holds_plug [of s "f # c"]
        by (simp add: reheaped_def)
      ultimately show ?thesis by blast
    qed
  qed
qed

section \<open>Sifting down\<close>

lemma better_refines:
  assumes "heap_holds s c t" and "read_val s b = Some (val s b)"
  shows "better cmp s (root_addr t) b =
    Some (if t \<noteq> Leaf \<and> cmp (val s (root_addr t)) (val s b) then root_addr t else b)"
  using assms by (cases t) (auto simp: better_def dest: heap_links)

text \<open>The root of a heap is not worse than all of it.\<close>

lemma heap_ord_root:
  assumes "strict_weak cmp" "heap_ord cmp V t" "y \<in> set (addrs t)"
  shows "\<not> cmp (V y) (V (root_addr t))"
  using assms strict_weakD(2) [of cmp] by (cases t) auto

text \<open>One round of the loop: stop, or exchange the element with the better child.\<close>

lemma sift_down_step:
  assumes sw: "strict_weak cmp" and h: "heap_holds s c (Node l (e, 0) r)"
    and o: "heap_ord cmp (val s) l" "heap_ord cmp (val s) r"
  obtains (stop) "sift_down cmp s e = Some s" "heap_ord cmp (val s) (Node l (e, 0) r)"
    | (left) s1 ll p lr where "l = Node ll (p, 0) lr" "sift_down cmp s e = sift_down cmp s1 e"
        "heap_holds s1 (LeftOf (p, 0) r # c) (Node ll (e, 0) lr)"
        "only_links (set (addrs (plug c (Node l (e, 0) r)))) s s1"
        "\<forall>y \<in> insert e (set (addrs l) \<union> set (addrs r)). \<not> cmp (val s y) (val s p)"
    | (right) s1 rl p rr where "r = Node rl (p, 0) rr" "sift_down cmp s e = sift_down cmp s1 e"
        "heap_holds s1 (RightOf l (p, 0) # c) (Node rl (e, 0) rr)"
        "only_links (set (addrs (plug c (Node l (e, 0) r)))) s s1"
        "\<forall>y \<in> insert e (set (addrs l) \<union> set (addrs r)). \<not> cmp (val s y) (val s p)"
proof -
  note links = heap_links [OF h]
  let ?L = "l \<noteq> Leaf \<and> cmp (val s (root_addr l)) (val s e)"
  define b where "b = (if ?L then root_addr l else e)"
  let ?R = "r \<noteq> Leaf \<and> cmp (val s (root_addr r)) (val s b)"
  have rb: "read_val s b = Some (val s b)"
    using links heap_links(7) [of s "LeftOf (e, 0) r # c"] h by (cases l) (auto simp: b_def heap_holds_left)
  have best: "sift_down cmp s e =
      (if ?R \<or> ?L then do { s \<leftarrow> heap_swap s e (if ?R then root_addr r else root_addr l); sift_down cmp s e }
       else Some s)"
  proof -
    have ne: "root_addr r = e \<longleftrightarrow> False" "root_addr l = e \<longleftrightarrow> False"
      using h root_addr_in [of r] root_addr_in [of l] by (auto simp: heap_holds_def holds_def good_addr_def)
    show ?thesis
      using links better_refines [of s "LeftOf (e, 0) r # c" l e cmp] rb
        better_refines [of s "RightOf l (e, 0) # c" r b cmp] h
      by (subst sift_down.simps) (auto simp: heap_holds_left heap_holds_right b_def ne)
  qed
  have below: "\<not> cmp (val s y) (val s (root_addr l))" if "y \<in> set (addrs l)" for y
    by (rule heap_ord_root [OF sw o(1) that])
  have below': "\<not> cmp (val s y) (val s (root_addr r))" if "y \<in> set (addrs r)" for y
    by (rule heap_ord_root [OF sw o(2) that])
  have yb: "\<not> cmp (val s y) (val s b)" if "y \<in> insert e (set (addrs l))" for y
  proof (cases ?L)
    case True
    with that below strict_weakD(1) [OF sw] show ?thesis by (auto simp: b_def)
  next
    case False
    then have "b = e" by (auto simp: b_def)
    moreover have "\<not> cmp (val s y) (val s e)" if "y \<in> set (addrs l)" for y
      using False below [OF that] that strict_weakD(3) [OF sw] by (cases l) auto
    ultimately show ?thesis using that strict_weakD(2) [OF sw] by auto
  qed
  have yr: "\<not> cmp (val s y) (val s b)" if "y \<in> set (addrs r)" "\<not> ?R" for y
    using that below' [OF that(1)] strict_weakD(3) [OF sw] by (cases r) auto
  consider "?R" | "\<not> ?R" "?L" | "\<not> ?R" "\<not> ?L" by blast
  then show thesis
  proof cases
    case 1
    then obtain rl p b' rr where r: "r = Node rl (p, b') rr" by (cases r) auto
    have b': "b' = 0" using h r by (auto simp: heap_holds_def)
    from heap_swap_right_refines [OF h [unfolded r b']] obtain s1 where
      "heap_swap s e p = Some s1" "heap_holds s1 c (Node l (p, 0) (Node rl (e, 0) rr))"
      "only_links (set (addrs (plug c (Node l (e, 0) r)))) s s1" using r b' by auto
    moreover have "\<forall>y \<in> insert e (set (addrs l) \<union> set (addrs r)). \<not> cmp (val s y) (val s p)"
    proof -
      have "\<not> cmp (val s y) (val s p)" if "y \<in> insert e (set (addrs l))" for y
        using strict_weakD(5) [OF sw yb [OF that]] 1 r by simp
      moreover have "\<not> cmp (val s y) (val s p)" if "y \<in> set (addrs r)" for y using below' [OF that] r by simp
      ultimately show ?thesis by blast
    qed
    ultimately show thesis using 1 r b' best by (intro right [of rl p rr s1]) (simp_all add: heap_holds_right)
  next
    case 2
    then obtain ll p b' lr where l: "l = Node ll (p, b') lr" by (cases l) auto
    have b': "b' = 0" using h l by (auto simp: heap_holds_def)
    have b: "b = p" using 2 l by (simp add: b_def)
    from heap_swap_left_refines [OF h [unfolded l b']] obtain s1 where
      "heap_swap s e p = Some s1" "heap_holds s1 c (Node (Node ll (e, 0) lr) (p, 0) r)"
      "only_links (set (addrs (plug c (Node l (e, 0) r)))) s s1" using l b' by auto
    moreover have "\<forall>y \<in> insert e (set (addrs l) \<union> set (addrs r)). \<not> cmp (val s y) (val s p)"
      using yb yr 2(1) b by auto
    moreover have "sift_down cmp s e = do { s \<leftarrow> heap_swap s e p; sift_down cmp s e }"
      using best 2 l by auto
    ultimately show thesis using l b' by (intro left [of ll p lr s1]) (simp_all add: heap_holds_left)
  next
    case 3
    then have "b = e" by (auto simp: b_def)
    with 3 best yb yr o show thesis by (intro stop) auto
  qed
qed

lemma sift_down_refines:
  fixes s :: "'a tree_heap"
  assumes sw: "strict_weak cmp"
  shows "heap_holds s c (Node l (e, 0) r) \<Longrightarrow> heap_ord cmp (val s) l \<Longrightarrow> heap_ord cmp (val s) r \<Longrightarrow>
    \<exists>s' t'. sift_down cmp s e = Some s' \<and> reheaped cmp s c (Node l (e, 0) r) s' t'"
proof (induction "length (addrs l) + length (addrs r)" arbitrary: s c l r rule: less_induct)
  case less
  from sw less.prems show ?case
  proof (cases rule: sift_down_step)
    case stop
    with less.prems show ?thesis by (auto simp: reheaped_def)
  next
    case (left s1 ll p lr)
    have v: "val s1 = val s" using left(4) by (rule only_links_fields)
    obtain s2 t2 where s2: "sift_down cmp s1 e = Some s2"
      "reheaped cmp s1 (LeftOf (p, 0) r # c) (Node ll (e, 0) lr) s2 t2"
      using less.hyps [OF _ left(3)] less.prems left(1) v by fastforce
    then have "reheaped cmp s c (Node l (e, 0) r) s2 (Node t2 (p, 0) r)"
      using left less.prems v only_links_trans [OF left(4), of s2]
      by (auto simp: reheaped_def heap_holds_left set_addrs_plug insert_commute)
    with left(2) s2(1) show ?thesis by auto
  next
    case (right s1 rl p rr)
    have v: "val s1 = val s" using right(4) by (rule only_links_fields)
    obtain s2 t2 where s2: "sift_down cmp s1 e = Some s2"
      "reheaped cmp s1 (RightOf l (p, 0) # c) (Node rl (e, 0) rr) s2 t2"
      using less.hyps [OF _ right(3)] less.prems right(1) v by fastforce
    then have "reheaped cmp s c (Node l (e, 0) r) s2 (Node l (p, 0) t2)"
      using right less.prems v only_links_trans [OF right(4), of s2]
      by (auto simp: reheaped_def heap_holds_right set_addrs_plug insert_commute)
    with right(2) s2(1) show ?thesis by auto
  qed
qed

end
