(* ===== verification/Heap_Properties.thy ===== *)
theory Heap_Properties
  imports Heap_Order
begin

text \<open>
  The contract of the heap of \<open>kernel/util/tree_heap.h\<close>: it holds a set of elements, \<open>push\<close> adds one and
  \<open>pop\<close> removes a best one. The only way to break it from outside is to push an element with stale
  links onto an empty heap.
\<close>

section \<open>The contract\<close>

definition heap_rep :: "('a \<Rightarrow> 'a \<Rightarrow> bool) \<Rightarrow> 'a tree_heap \<Rightarrow> addr set \<Rightarrow> bool" where
  "heap_rep cmp s A \<longleftrightarrow>
     (\<exists>t. heap_holds s [] t \<and> left_filled t (card A) \<and> heap_ord cmp (val s) t \<and> set (addrs t) = A) \<and>
     size s = of_nat (card A)"

lemma heap_rep_bound:
  assumes "heap_rep cmp s A"
  shows "finite A" and "card A < 2 ^ 64" and "e \<notin> A \<Longrightarrow> e \<noteq> 0 \<Longrightarrow> card A + 1 < 2 ^ 64"
proof -
  from assms obtain t where t: "heap_holds s [] t" "set (addrs t) = A" by (auto simp: heap_rep_def)
  show f: "finite A" using t(2) by (metis List.finite_set)
  have "0 \<notin> A"
    using t tree_at_good [of "valid s" "prev s" "nxt s" "tree_parent s" 0 t 0]
    by (auto simp: heap_holds_def holds_def good_addr_def)
  have U: "card B \<le> 2 ^ 64" for B :: "addr set"
    using card_mono [of UNIV B] by (simp add: card_word)
  show "card A < 2 ^ 64" using U [of "insert 0 A"] f \<open>0 \<notin> A\<close> by simp
  show "card A + 1 < 2 ^ 64" if "e \<notin> A" "e \<noteq> 0" using U [of "insert 0 (insert e A)"] f \<open>0 \<notin> A\<close> that by simp
qed

lemma left_filled_nonempty:
  assumes "left_filled t n"
  shows "t = Leaf \<longleftrightarrow> n = 0"
proof (cases t)
  case (Node l x r)
  then have "1 \<in> {1..n}" using assms unfolding left_filled_def by (metis idxs.simps(2) insertI1)
  with Node show ?thesis by simp
qed (use assms in \<open>auto simp: left_filled_def\<close>)

text \<open>The place of the next element: below the node \<open>(n + 1) div 2\<close>, on the side of the parity.\<close>

lemma next_place:
  assumes lf: "left_filled (plug c (Node l (p, b) r)) n" and z: "zidx c = (n + 1) div 2"
  shows "if even (n + 1) then l = Leaf else l \<noteq> Leaf \<and> r = Leaf"
proof -
  let ?z = "zidx c"
  have ix: "zidxs c \<union> insert ?z (idxs (2 * ?z) l \<union> idxs (2 * ?z + 1) r) = {1..n}"
    using lf idxs_plug [of c "Node l (p, b) r"] by (simp add: left_filled_def)
  have root: "u = Leaf \<or> i \<in> idxs i u" for i u by (cases u) auto
  show ?thesis
  proof (cases "even (n + 1)")
    case True
    then have "2 * ?z = n + 1" using z by simp
    then have "2 * ?z \<notin> {1..n}" by simp
    with True root [of l "2 * ?z"] ix show ?thesis by auto
  next
    case False
    then have n: "n = 2 * ?z" using z by presburger
    then have "2 * ?z + 1 \<notin> {1..n}" by simp
    with root [of r "2 * ?z + 1"] ix have r: "r = Leaf" by blast
    have "n \<in> {1..n}" using n zidx_pos [of c] by (simp add: Suc_le_eq)
    then have "n \<in> zidxs c \<union> insert ?z (idxs (2 * ?z) l \<union> idxs (2 * ?z + 1) r)" unfolding ix .
    moreover have "n \<notin> zidxs c" using zidxs_not_below [of n c 1] n by auto
    moreover have "n \<noteq> ?z" using n zidx_pos [of c] by simp
    ultimately have "n \<in> idxs (2 * ?z) l" using r by (simp only: Un_iff insert_iff idxs.simps empty_iff) simp
    then have "l \<noteq> Leaf" by auto
    with False r show ?thesis by simp
  qed
qed

lemma half_range: "(n :: nat) \<noteq> 0 \<Longrightarrow> 1 \<le> (n + 1) div 2 \<and> (n + 1) div 2 \<le> n"
  by presburger

text \<open>Linking the new element below its parent.\<close>

lemma link_leaf_left:
  assumes h: "heap_holds s c (Node Leaf (p, 0) r)" and e: "good_addr (valid s) e"
    "e \<notin> set (addrs (plug c (Node Leaf (p, 0) r)))"
  shows "heap_holds (s\<lparr>tree_parent := (tree_parent s)(e := p), nxt := (nxt s)(e := 0), prev := (prev s)(e := 0, p := e)\<rparr>)
    (LeftOf (p, 0) r # c) (Node Leaf (e, 0) Leaf)"
proof -
  from e(2) have [simp]: "p \<noteq> e" "e \<noteq> p" "e \<notin> set (addrs r)" "e \<notin> set (zipper_addrs c)" by (auto simp: set_addrs_plug)
  from h have "aligned8 p" by (auto simp: heap_holds_def holds_def good_addr_def)
  with h e show ?thesis by (auto simp: heap_holds_def holds_def)
qed

lemma link_leaf_right:
  assumes h: "heap_holds s c (Node l (p, 0) Leaf)" and e: "good_addr (valid s) e"
    "e \<notin> set (addrs (plug c (Node l (p, 0) Leaf)))"
  shows "heap_holds (s\<lparr>tree_parent := (tree_parent s)(e := p), prev := (prev s)(e := 0), nxt := (nxt s)(e := 0, p := e)\<rparr>)
    (RightOf l (p, 0) # c) (Node Leaf (e, 0) Leaf)"
proof -
  from e(2) have [simp]: "p \<noteq> e" "e \<noteq> p" "e \<notin> set (addrs l)" "e \<notin> set (zipper_addrs c)" by (auto simp: set_addrs_plug)
  from h have "aligned8 p" by (auto simp: heap_holds_def holds_def good_addr_def)
  with h e show ?thesis by (auto simp: heap_holds_def holds_def)
qed

text \<open>After the element is linked at a free position with the next index, sifting it up makes a heap.\<close>

lemma push_finish:
  assumes sw: "strict_weak cmp" and h: "heap_holds s1 c (Node Leaf (e, 0) Leaf)" and z: "zidx c = n + 1"
    and t: "left_filled (plug c Leaf) n" "heap_ord cmp (val s1) (plug c Leaf)" "set (addrs (plug c Leaf)) = A"
    and n: "n = card A" "e \<notin> A" "size s1 = of_nat n"
  obtains s2 where "sift_up cmp s1 e (parent_addr c) = Some s2"
    "heap_rep cmp (s2\<lparr>size := size s2 + 1\<rparr>) (insert e A)" "only_links (insert e A) s1 s2"
proof -
  have fin: "finite A" using t(3) by (metis List.finite_set)
  from t(2) have "zord cmp (val s1) c (set (addrs Leaf) \<union> set (addrs Leaf))" by (simp add: heap_ord_plug)
  with sift_up_refines [OF sw h] obtain s2 t2 where s2: "sift_up cmp s1 e (parent_addr c) = Some s2"
    "reheaped cmp s1 [] (plug c (Node Leaf (e, 0) Leaf)) s2 t2" by auto
  have A: "set (addrs (plug c (Node Leaf (e, 0) Leaf))) = insert e A" using t(3) by (auto simp: set_addrs_plug)
  have "idxs 1 (plug c (Node Leaf (e, 0) Leaf)) = insert (n + 1) {1..n}"
    using t(1) z idxs_plug [of c Leaf] idxs_plug [of c "Node Leaf (e, 0) Leaf"] by (auto simp: left_filled_def)
  then have "left_filled t2 (card (insert e A))"
    using s2(2) n fin by (auto simp: reheaped_def left_filled_def)
  with s2 A n fin have "heap_rep cmp (s2\<lparr>size := size s2 + 1\<rparr>) (insert e A)"
    using only_links_fields [of "insert e A" s1 s2] by (auto simp: heap_rep_def reheaped_def heap_holds_def)
  with s2 A that show thesis by (auto simp: reheaped_def)
qed

lemma push_refines:
  assumes sw: "strict_weak cmp" and r: "heap_rep cmp s A" and e: "good_addr (valid s) e" "e \<notin> A"
    and fresh: "A = {} \<Longrightarrow> detached s e"
  obtains s' where "heap_push cmp s e = Some s'" "heap_rep cmp s' (insert e A)" "same_outside (insert e A) s s'"
proof -
  from r obtain t where t: "heap_holds s [] t" "left_filled t (card A)" "heap_ord cmp (val s) t" "set (addrs t) = A"
    and sz: "size s = of_nat (card A)" by (auto simp: heap_rep_def)
  have e0: "e \<noteq> 0" "accessible s e" using e by (auto simp: good_addr_def good_accessible)
  note bound = heap_rep_bound(1) [OF r] heap_rep_bound(3) [OF r e(2) e0(1)]
  have root: "root s = root_addr t" "root_addr t = 0 \<longleftrightarrow> t = Leaf"
    using t(1) by (auto simp: heap_holds_def holds_def)
  show thesis
  proof (cases "t = Leaf")
    case True
    then have "A = {}" using t by simp
    with fresh have d: "detached s e" by simp
    let ?s = "s\<lparr>root := e, size := size s + 1\<rparr>"
    have "heap_holds ?s [] (Node Leaf (e, 0) Leaf)" using d by (simp add: heap_holds_def holds_def detached_def)
    then have "heap_rep cmp ?s (insert e A)"
      using \<open>A = {}\<close> sz by (auto simp: heap_rep_def left_filled_def intro!: exI [of _ "Node Leaf (e, 0) Leaf"])
    with True root that [of ?s] show thesis by (simp add: heap_push_def same_outside_def)
  next
    case False
    let ?n = "card A"
    from False t(2) left_filled_nonempty have n: "?n \<noteq> 0" by auto
    then have "(?n + 1) div 2 \<in> idxs 1 t" using t(2) half_range [OF n] by (simp add: left_filled_def)
    then obtain c l p b r where c: "t = plug c (Node l (p, b) r)" "zidx c = (?n + 1) div 2" by (rule position_idx)
    have h: "heap_holds s c (Node l (p, b) r)" using t(1) c(1) by (simp add: heap_holds_plug)
    then have b: "b = 0" by (rule heap_links)
    note links = heap_links [OF h]
    have place: "if even (?n + 1) then l = Leaf else l \<noteq> Leaf \<and> r = Leaf"
      by (rule next_place) (use t(2) c in auto)
    have "unat ((size s + 1) div 2) = (?n + 1) div 2"
      using bound(2) sz by (simp add: unat_div unat_word_ariths unat_of_nat)
    then have par: "parent_of_leftmost_empty s = Some p"
      using get_nth_refines [OF h] c(2) by (simp add: parent_of_leftmost_empty_def)
    have eA: "e \<notin> set (addrs (plug c (Node l (p, b) r)))" using e t c by simp
    then have ep: "e \<noteq> p" "p \<noteq> e" by (auto simp: set_addrs_plug)
    have z: "zidx (LeftOf x u # c) = ?n + 1" if "even (?n + 1)" for x u
      using that c(2) by simp
    have z': "zidx (RightOf u x # c) = ?n + 1" if "odd (?n + 1)" for x u
      using that c(2) by (metis odd_two_times_div_two_succ zidx.simps(3))
    show thesis
    proof (cases "even (?n + 1)")
      case True
      let ?s1 = "s\<lparr>tree_parent := (tree_parent s)(e := p), nxt := (nxt s)(e := 0), prev := (prev s)(e := 0, p := e)\<rparr>"
      have l: "l = Leaf" using place True by simp
      have h1: "heap_holds ?s1 (LeftOf (p, 0) r # c) (Node Leaf (e, 0) Leaf)"
        by (rule link_leaf_left) (use h e eA l b in auto)
      have "plug (LeftOf (p, 0) r # c) Leaf = t" using c(1) l b by simp
      then obtain s2 where s2: "sift_up cmp ?s1 e p = Some s2"
        "heap_rep cmp (s2\<lparr>size := size s2 + 1\<rparr>) (insert e A)" "only_links (insert e A) ?s1 s2"
        using push_finish [OF sw h1 z [OF True], of A] t e sz by auto
      have "heap_push cmp s e = Some (s2\<lparr>size := size s2 + 1\<rparr>)"
        using False root par links(1,4) l ep e0 s2(1) by (simp add: heap_push_def reads_accessible writes_accessible
            read_prev_def)
      moreover have "same_outside (insert e A) s (s2\<lparr>size := size s2 + 1\<rparr>)"
        using s2(3) t(4) c(1) by (auto simp: same_outside_def only_links_def set_addrs_plug)
      ultimately show thesis using s2(2) that by blast
    next
      case odd: False
      let ?s1 = "s\<lparr>tree_parent := (tree_parent s)(e := p), prev := (prev s)(e := 0), nxt := (nxt s)(e := 0, p := e)\<rparr>"
      have l: "l \<noteq> Leaf" "r = Leaf" using place odd by simp_all
      have h1: "heap_holds ?s1 (RightOf l (p, 0) # c) (Node Leaf (e, 0) Leaf)"
        by (rule link_leaf_right) (use h e eA l b in auto)
      have "plug (RightOf l (p, 0) # c) Leaf = t" using c(1) l b by simp
      then obtain s2 where s2: "sift_up cmp ?s1 e p = Some s2"
        "heap_rep cmp (s2\<lparr>size := size s2 + 1\<rparr>) (insert e A)" "only_links (insert e A) ?s1 s2"
        using push_finish [OF sw h1 z' [OF odd], of A] t e sz by auto
      have "heap_push cmp s e = Some (s2\<lparr>size := size s2 + 1\<rparr>)"
        using False root par links(1,4,8) l ep e0 s2(1) by (simp add: heap_push_def reads_accessible writes_accessible
            read_prev_def)
      moreover have "same_outside (insert e A) s (s2\<lparr>size := size s2 + 1\<rparr>)"
        using s2(3) t(4) c(1) by (auto simp: same_outside_def only_links_def set_addrs_plug)
      ultimately show thesis using s2(2) that by blast
    qed
  qed
qed

section \<open>pop\<close>

lemma left_filled_pop:
  assumes "left_filled (plug c (Node Leaf x Leaf)) n" "zidx c = n"
  shows "left_filled (plug c Leaf) (n - 1)"
proof -
  have "insert n (zidxs c) = {1..n}" "n \<notin> zidxs c"
    using assms idxs_plug [of c "Node Leaf x Leaf"] zidx_notin [of c] by (auto simp: left_filled_def)
  then have "zidxs c = {1..n} - {n}" by blast
  also have "\<dots> = {1..n - 1}" by auto
  finally show ?thesis using idxs_plug [of c Leaf] by (simp add: left_filled_def)
qed

text \<open>The last node of a heap has no children.\<close>

lemma last_node_leaf:
  assumes "left_filled (plug c (Node l x r)) (zidx c)"
  shows "l = Leaf" "r = Leaf"
proof -
  have "idxs (2 * zidx c) l \<subseteq> {1..zidx c}" "idxs (2 * zidx c + 1) r \<subseteq> {1..zidx c}"
    using assms idxs_plug [of c "Node l x r"] by (auto simp: left_filled_def)
  moreover have "u = Leaf \<or> i \<in> idxs i u" for i u by (cases u) auto
  ultimately show "l = Leaf" "r = Leaf" using zidx_pos [of c] by fastforce+
qed

text \<open>The state after the last leaf has been moved to the root, before it sinks.\<close>

lemma move_last_to_root:
  assumes h: "heap_holds s c (Node Leaf (e, 0) Leaf)" and t: "plug c Leaf = Node l (p, 0) r"
  shows "heap_holds (s\<lparr>prev := (hang_prev c (prev s) 0)(e := root_addr l), nxt := (hang_nxt c (nxt s) 0)(e := root_addr r),
      tree_parent := (reparent r (reparent l (tree_parent s) e) e)(e := 0), root := e\<rparr>) [] (Node l (e, 0) r)"
proof -
  let ?s1 = "s\<lparr>root := hang_root c (root s) 0, prev := hang_prev c (prev s) 0, nxt := hang_nxt c (nxt s) 0\<rparr>"
  have hs: "holds s c (Node Leaf (e, 0) Leaf)" and fl: "flat (plug c Leaf)"
    using h by (simp_all add: heap_holds_def flat_plug)
  have "holds ?s1 c Leaf" using unlink_holds [OF hs, of Leaf] by simp
  then have h1: "holds ?s1 [] (Node l (p, 0) r)" using t by (metis holds_plug)
  have e: "good_addr (valid ?s1) e" "e \<notin> set (addrs (plug [] (Node l (p, 0) r)))"
    using hs set_addrs_plug [of c Leaf] t by (auto simp: holds_def)
  from replace_node_holds [OF h1 e] fl t show ?thesis by (simp add: heap_holds_def)
qed

text \<open>Below the first level nothing of the root or of its links depends on the subtree.\<close>

lemma plug_top:
  "c \<noteq> [] \<Longrightarrow> root_addr u = root_addr u' \<Longrightarrow>
   value (plug c u) = value (plug c u') \<and> root_addr (left (plug c u)) = root_addr (left (plug c u')) \<and>
   root_addr (right (plug c u)) = root_addr (right (plug c u'))"
proof (induction c u arbitrary: u' rule: plug.induct)
  case (2 x r c t)
  then show ?case by (cases "c = []") simp_all
next
  case (3 l x c t)
  then show ?case by (cases "c = []") simp_all
qed simp

lemma root_of_two_levels:
  assumes h: "heap_holds s (f # g # c) (Node Leaf (e, 0) Leaf)" and t: "plug (f # g # c) Leaf = Node l (p, 0) r"
  shows "heap_top s = p" "prev s p = root_addr l" "nxt s p = root_addr r" "p \<noteq> e" "p \<noteq> frame_addr f" "accessible s p"
proof -
  define t0 where "t0 = plug (f # g # c) (Node Leaf (e, 0) Leaf)"
  have "root_addr (plug [f] (Node Leaf (e, 0) Leaf)) = root_addr (plug [f] Leaf)" by (rule root_addr_plug) simp
  from plug_top [OF _ this, of "g # c"] plug_append [of "[f]" "g # c"] t
  have top: "value t0 = (p, 0)" "root_addr (left t0) = root_addr l" "root_addr (right t0) = root_addr r"
    by (simp_all add: t0_def)
  have "addrs t0 \<noteq> []" unfolding t0_def addrs_plug by simp
  then have t0: "t0 = Node (left t0) (p, 0) (right t0)" using top(1) by (cases t0) simp_all
  have h0: "holds s [] t0" using h by (simp add: t0_def heap_holds_def holds_plug)
  from h0 top show r: "heap_top s = p" "prev s p = root_addr l" "nxt s p = root_addr r" "accessible s p"
    by (subst (asm) t0; simp add: holds_def good_accessible)+
  have "zipper_at (valid s) (prev s) (nxt s) (tree_parent s) (root s) e (f # g # c)"
    and ds: "distinct (e # zipper_addrs (f # g # c))" using h by (simp_all add: heap_holds_def holds_def)
  from zipper_at_root [OF this(1)] r(1) have "p = frame_addr (last (g # c))" by (auto split: if_splits)
  with frame_addr_last_in [of "g # c"] have "p \<in> set (zipper_addrs (g # c))" by simp
  with ds show "p \<noteq> e" "p \<noteq> frame_addr f" by (cases f; auto)+
qed

lemma heap_update_order:
  fixes s :: "'a tree_heap"
  shows "s\<lparr>root := e, nxt := N, prev := P, tree_parent := T\<rparr> = s\<lparr>prev := P, nxt := N, tree_parent := T, root := e\<rparr>"
    and "s\<lparr>root := e, prev := P, nxt := N, tree_parent := T\<rparr> = s\<lparr>prev := P, nxt := N, tree_parent := T, root := e\<rparr>"
    and "s\<lparr>prev := P, nxt := N, root := e, tree_parent := T\<rparr> = s\<lparr>prev := P, nxt := N, tree_parent := T, root := e\<rparr>"
  by simp_all

lemma pop_many_exec:
  assumes h: "heap_holds s (f # g # c) (Node Leaf (e, 0) Leaf)" and t: "plug (f # g # c) Leaf = Node l (p, 0) r"
    and lr: "l \<noteq> Leaf" "r \<noteq> Leaf" and e: "rightmost_full s = Some e"
  defines "s1 \<equiv> s\<lparr>prev := (hang_prev (f # g # c) (prev s) 0)(e := root_addr l),
      nxt := (hang_nxt (f # g # c) (nxt s) 0)(e := root_addr r),
      tree_parent := (reparent r (reparent l (tree_parent s) e) e)(e := 0), root := e\<rparr>"
  shows "pop_many cmp s = do { s2 \<leftarrow> sift_down cmp s1 e; Some (s2\<lparr>size := size s2 - 1\<rparr>, p) }"
proof -
  note top = root_of_two_levels [OF h t]
  let ?f = "frame_addr f"
  have h1: "heap_holds s1 [] (Node l (e, 0) r)" unfolding s1_def by (rule move_last_to_root [OF h t])
  have f: "accessible s ?f" "e \<noteq> ?f" "?f \<noteq> e" "accessible s e" "tree_parent s e = ?f" "e \<noteq> 0"
    using h by (cases f; auto simp: heap_holds_def holds_def good_accessible good_addr_def)+
  obtain ll a lr' where l: "l = Node ll (a, 0) lr'" using lr h1 by (cases l) (auto simp: heap_holds_def)
  obtain rl b rr where r: "r = Node rl (b, 0) rr" using lr h1 by (cases r) (auto simp: heap_holds_def)
  have ab: "accessible s a" "accessible s b" "a \<noteq> e" "b \<noteq> e" "aligned8 e" "a \<noteq> b"
    using h1 l r by (auto simp: heap_holds_def holds_def s1_def good_accessible good_addr_def accessible_def)
  show ?thesis
  proof (cases f)
    case (LeftOf x u)
    with h have "prev s ?f = e" by (simp add: heap_holds_def holds_def)
    with e top f ab LeftOf l r show ?thesis
      by (simp add: pop_many_def s1_def reads_accessible writes_accessible fun_upd_twist [of e "fst x"]
          fun_upd_twist [of e a] fun_upd_twist [of e b] heap_update_order)
  next
    case (RightOf u x)
    with h have "prev s ?f = root_addr u" by (simp add: heap_holds_def holds_def)
    moreover have "root_addr u \<noteq> e"
      using h RightOf root_addr_in [of u] f(6) by (auto simp: heap_holds_def holds_def)
    ultimately show ?thesis using e top f ab RightOf l r
      by (simp add: pop_many_def s1_def reads_accessible writes_accessible fun_upd_twist [of e "fst x"]
          fun_upd_twist [of e a] fun_upd_twist [of e b] heap_update_order)
  qed
qed

text \<open>What \<open>pop\<close> promises for a heap of at least one element.\<close>

definition popped :: "('a \<Rightarrow> 'a \<Rightarrow> bool) \<Rightarrow> 'a tree_heap \<Rightarrow> addr set \<Rightarrow> 'a tree_heap \<Rightarrow> addr \<Rightarrow> bool" where
  "popped cmp s A s' a \<longleftrightarrow>
     a \<in> A \<and> (\<forall>y \<in> A. \<not> cmp (val s y) (val s a)) \<and> heap_rep cmp s' (A - {a}) \<and> same_outside A s s'"

lemma idxs_ge: "j \<in> idxs i t \<Longrightarrow> i \<le> j"
  by (induction t arbitrary: i) fastforce+

lemma idxs_siblings: "2 \<notin> idxs 3 t" "3 \<notin> idxs 2 t"
proof -
  show "2 \<notin> idxs 3 t" using idxs_ge [of 2 3 t] by auto
  have "(3 :: nat) div 2 ^ k \<noteq> 2" for k
    using div_le_dividend [of "Suc 0" "2 ^ (k - 1)"] by (cases k) (auto simp: div_mult2_eq simp del: div_le_dividend)
  with idxs_below [of 3 2 t] show "3 \<notin> idxs 2 t" by blast
qed

lemma children_of_root:
  assumes "left_filled (Node l x r) n"
  shows "2 \<le> n \<Longrightarrow> l \<noteq> Leaf" and "3 \<le> n \<Longrightarrow> r \<noteq> Leaf"
proof -
  have ix: "insert 1 (idxs 2 l \<union> idxs 3 r) = {1..n}"
    using assms by (simp add: left_filled_def numeral_3_eq_3 numeral_2_eq_2)
  show "l \<noteq> Leaf" if "2 \<le> n"
  proof -
    have "2 \<in> insert 1 (idxs 2 l \<union> idxs 3 r)" unfolding ix using that by simp
    with idxs_siblings show ?thesis by auto
  qed
  show "r \<noteq> Leaf" if "3 \<le> n"
  proof -
    have "3 \<in> insert 1 (idxs 2 l \<union> idxs 3 r)" unfolding ix using that by simp
    with idxs_siblings show ?thesis by auto
  qed
qed

lemma small_shapes:
  assumes "left_filled t n"
  shows "n = 1 \<Longrightarrow> \<exists>x. t = Node Leaf x Leaf"
    and "n = 2 \<Longrightarrow> \<exists>x y. t = Node (Node Leaf y Leaf) x Leaf"
    and "n = 3 \<Longrightarrow> \<exists>x y z. t = Node (Node Leaf y Leaf) x (Node Leaf z Leaf)"
proof -
  have root: "u = Leaf \<or> i \<in> idxs i u" for i u by (cases u) auto
  have ix: "idxs 1 t = {1..n}" using assms by (simp add: left_filled_def)
  have t: "t \<noteq> Leaf \<Longrightarrow> \<exists>l x r. t = Node l x r" by (cases t) auto
  have leaf: "l = Leaf" if "idxs i (Node l x r) \<subseteq> {1..n}" "2 * i > n" for l x r i
    using that root [of l "2 * i"] by auto
  have leaf': "r = Leaf" if "idxs i (Node l x r) \<subseteq> {1..n}" "2 * i + 1 > n" for l x r i
    using that root [of r "2 * i + 1"] by auto
  show "n = 1 \<Longrightarrow> \<exists>x. t = Node Leaf x Leaf"
    using ix leaf [of 1] leaf' [of 1] by (cases t) auto
  have child: "\<exists>x z r. t = Node (Node Leaf z Leaf) x r" if n: "n = 2 \<or> n = 3"
  proof -
    obtain l x r where t: "t = Node l x r" using ix n t by (cases t) auto
    then obtain ll z lr where l: "l = Node ll z lr" using children_of_root(1) [of l x r n] assms n by (cases l) auto
    have "idxs 2 l \<subseteq> {1..n}" using ix t by auto
    with l n leaf [of 2 ll z lr] leaf' [of 2 ll z lr] t show ?thesis by auto
  qed
  show "\<exists>x y. t = Node (Node Leaf y Leaf) x Leaf" if n: "n = 2"
  proof -
    from child n obtain x z r where t: "t = Node (Node Leaf z Leaf) x r" by blast
    with leaf' [of 1 "Node Leaf z Leaf" x r] ix n show ?thesis by auto
  qed
  show "\<exists>x y z. t = Node (Node Leaf y Leaf) x (Node Leaf z Leaf)" if n: "n = 3"
  proof -
    from child n obtain x z r where t: "t = Node (Node Leaf z Leaf) x r" by blast
    then obtain rl y rr where r: "r = Node rl y rr"
      using children_of_root(2) [of "Node Leaf z Leaf" x r n] assms n by (cases r) auto
    have "idxs 3 r \<subseteq> {1..n}" using ix t by (auto simp: numeral_3_eq_3)
    with r n leaf [of 3 rl y rr] leaf' [of 3 rl y rr] t show ?thesis by auto
  qed
qed

lemma pop_many_refines:
  assumes sw: "strict_weak cmp" and r: "heap_rep cmp s A" and n: "card A \<ge> 4"
  obtains s' a where "pop_many cmp s = Some (s', a)" "popped cmp s A s' a"
proof -
  from r obtain t where t: "heap_holds s [] t" "left_filled t (card A)" "heap_ord cmp (val s) t" "set (addrs t) = A"
    and sz: "size s = of_nat (card A)" by (auto simp: heap_rep_def)
  have fin: "finite A" using t(4) by (metis List.finite_set)
  have "0 \<notin> A"
    using t tree_at_good [of "valid s" "prev s" "nxt s" "tree_parent s" 0 t 0]
    by (auto simp: heap_holds_def holds_def good_addr_def)
  have "card A \<in> idxs 1 t" using t(2) n by (simp add: left_filled_def)
  then obtain C l0 e b r0 where C: "t = plug C (Node l0 (e, b) r0)" "zidx C = card A" by (rule position_idx)
  with last_node_leaf [of C l0 "(e, b)" r0] t(2) have leaf: "l0 = Leaf" "r0 = Leaf" by auto
  have h: "heap_holds s C (Node Leaf (e, b) Leaf)" using t(1) C(1) leaf by (simp add: heap_holds_plug)
  then have b: "b = 0" by (rule heap_links)
  have "2 \<le> length C"
  proof (rule ccontr)
    assume "\<not> 2 \<le> length C"
    then have "(2 :: nat) ^ Suc (length C) \<le> 2 ^ 2" by (intro power_increasing) auto
    with zidx_bounds(2) [of C] C(2) n show False by simp
  qed
  then obtain f g c where c: "C = f # g # c" by (cases C; cases "tl C") auto
  have t0: "t = plug (f # g # c) (Node Leaf (e, 0) Leaf)" using C(1) leaf b c by simp
  have h: "heap_holds s (f # g # c) (Node Leaf (e, 0) Leaf)" using h c b by simp
  have lf1: "left_filled (plug (f # g # c) Leaf) (card A - 1)"
    using left_filled_pop [of C "(e, 0)"] t(2) C(2) t0 c by simp
  have o1: "heap_ord cmp (val s) (plug (f # g # c) Leaf)"
    using t(3) zord_mono [of cmp "val s" "f # g # c" _ "{}"] unfolding t0 heap_ord_plug by simp
  have fl: "flat (plug (f # g # c) Leaf)" using h by (simp add: heap_holds_def flat_plug del: plug.simps)
  from lf1 n left_filled_nonempty [OF lf1] fl obtain l p r where t1: "plug (f # g # c) Leaf = Node l (p, 0) r"
    by (cases "plug (f # g # c) Leaf") auto
  have lr: "l \<noteq> Leaf" "r \<noteq> Leaf" using children_of_root [OF lf1 [unfolded t1]] n by simp_all
  have e: "rightmost_full s = Some e"
    using get_nth_refines [OF h] sz C(2) c heap_rep_bound(2) [OF r] by (simp add: rightmost_full_def unat_of_nat)
  let ?s1 = "s\<lparr>prev := (hang_prev (f # g # c) (prev s) 0)(e := root_addr l),
      nxt := (hang_nxt (f # g # c) (nxt s) 0)(e := root_addr r),
      tree_parent := (reparent r (reparent l (tree_parent s) e) e)(e := 0), root := e\<rparr>"
  have h1: "heap_holds ?s1 [] (Node l (e, 0) r)" by (rule move_last_to_root [OF h t1])
  from sift_down_refines [OF sw h1, of] o1 t1 obtain s2 t2 where
    s2: "sift_down cmp ?s1 e = Some s2" "reheaped cmp ?s1 [] (Node l (e, 0) r) s2 t2" by auto
  have top: "heap_top s = p" by (rule root_of_two_levels [OF h t1])
  have A: "A = insert e (set (addrs (Node l (p, 0) r)))"
    using t(4) unfolding t0 set_addrs_plug t1 [symmetric] by auto
  have "distinct (addrs (plug (f # g # c) Leaf))" "e \<notin> set (addrs (plug (f # g # c) Leaf))"
    using h by (auto simp: heap_holds_def holds_def distinct_addrs_plug set_addrs_plug simp del: plug.simps)
  then have ds: "p \<notin> set (addrs (Node l (e, 0) r))" "p \<in> A" "A - {p} = set (addrs (Node l (e, 0) r))"
    using A unfolding t1 by auto
  have rt: "root_addr t = p" using top t(1) by (simp add: heap_holds_def holds_def)
  have "heap_rep cmp (s2\<lparr>size := size s2 - 1\<rparr>) (A - {p})"
  proof -
    have "left_filled t2 (card (A - {p}))"
      using s2(2) lf1 t1 ds(2) fin by (auto simp: reheaped_def left_filled_def)
    moreover have "size s2 - 1 = of_nat (card (A - {p}))"
      using s2(2) sz ds(2) fin n only_links_fields(3) [of _ ?s1 s2] by (auto simp: reheaped_def of_nat_diff)
    ultimately show ?thesis
      using s2(2) ds(3) only_links_fields(2) [of _ ?s1 s2] by (auto simp: heap_rep_def reheaped_def heap_holds_def)
  qed
  moreover have "same_outside A s (s2\<lparr>size := size s2 - 1\<rparr>)"
  proof -
    have "frame_addr f \<in> A" using t(4) unfolding t0 set_addrs_plug by (cases f) auto
    then have "same_outside A s ?s1"
      using A by (cases f) (auto simp: same_outside_def)
    moreover have "only_links A ?s1 s2" using s2(2) A unfolding reheaped_def by (auto elim!: only_links_mono)
    ultimately show ?thesis by (auto simp: same_outside_def only_links_def)
  qed
  moreover have "\<forall>y \<in> A. \<not> cmp (val s y) (val s p)"
    using heap_ord_root [OF sw t(3)] rt t(4) by simp
  ultimately have "popped cmp s A (s2\<lparr>size := size s2 - 1\<rparr>) p" using ds(2) by (simp add: popped_def)
  moreover have "pop_many cmp s = Some (s2\<lparr>size := size s2 - 1\<rparr>, p)"
    using pop_many_exec [OF h t1 lr e, of cmp] s2(1) by simp
  ultimately show thesis using that by blast
qed

lemma pop_one_refines:
  assumes sw: "strict_weak cmp" and r: "heap_rep cmp s {a}"
  shows "heap_top s = a" and "popped cmp s {a} (s\<lparr>root := 0, size := size s - 1\<rparr>) a"
proof -
  from r obtain t where t: "heap_holds s [] t" "left_filled t 1" "set (addrs t) = {a}" and sz: "size s = 1"
    by (auto simp: heap_rep_def)
  from small_shapes(1) [OF t(2) refl] t(3) obtain b where "t = Node Leaf (a, b) Leaf" by auto
  with t(1) show "heap_top s = a" by (simp add: heap_holds_def holds_def)
  show "popped cmp s {a} (s\<lparr>root := 0, size := size s - 1\<rparr>) a"
    using sz strict_weakD(2) [OF sw]
    by (auto simp: popped_def heap_rep_def heap_holds_def holds_def left_filled_def same_outside_def
        intro!: exI [of _ Leaf])
qed

lemma pop_two_refines:
  assumes sw: "strict_weak cmp" and r: "heap_rep cmp s A" and n: "card A = 2"
  obtains s' a where "pop_two s = Some (s', a)" "popped cmp s A s' a"
proof -
  from r obtain t where t: "heap_holds s [] t" "left_filled t 2" "heap_ord cmp (val s) t" "set (addrs t) = A"
    and sz: "size s = 2" by (auto simp: heap_rep_def n)
  from small_shapes(2) [OF t(2) refl] obtain p b q b' where "t = Node (Node Leaf (q, b') Leaf) (p, b) Leaf" by auto
  with t(1) have T: "t = Node (Node Leaf (q, 0) Leaf) (p, 0) Leaf" by (simp add: heap_holds_def)
  with t(1) have l: "accessible s p" "accessible s q" "prev s p = q" "heap_top s = p" "p \<noteq> q" "good_addr (valid s) q"
      "prev s q = 0" "nxt s q = 0"
    by (auto simp: heap_holds_def holds_def good_accessible)
  let ?s = "s\<lparr>root := q, tree_parent := (tree_parent s)(q := 0), size := size s - 1\<rparr>"
  have A: "A = {p, q}" "A - {p} = {q}" using t(4) T l(5) by auto
  have "heap_holds ?s [] (Node Leaf (q, 0) Leaf)" using l by (simp add: heap_holds_def holds_def)
  then have "heap_rep cmp ?s {q}"
    using sz by (auto simp: heap_rep_def left_filled_def intro!: exI [of _ "Node Leaf (q, 0) Leaf"])
  then have "popped cmp s A ?s p"
    using A t(3) T strict_weakD(2) [OF sw] by (auto simp: popped_def same_outside_def)
  moreover have "pop_two s = Some (?s, p)"
    using l by (simp add: pop_two_def reads_accessible writes_accessible)
  ultimately show thesis using that by blast
qed

lemma pop_three_refines:
  assumes sw: "strict_weak cmp" and r: "heap_rep cmp s A" and n: "card A = 3"
  obtains s' a where "pop_three cmp s = Some (s', a)" "popped cmp s A s' a"
proof -
  from r obtain t where t: "heap_holds s [] t" "left_filled t 3" "heap_ord cmp (val s) t" "set (addrs t) = A"
    and sz: "size s = 3" by (auto simp: heap_rep_def n)
  from small_shapes(3) [OF t(2) refl] obtain p b q b' u b'' where
    "t = Node (Node Leaf (q, b') Leaf) (p, b) (Node Leaf (u, b'') Leaf)" by auto
  with t(1) have T: "t = Node (Node Leaf (q, 0) Leaf) (p, 0) (Node Leaf (u, 0) Leaf)" by (simp add: heap_holds_def)
  with t(1) have l: "accessible s p" "accessible s q" "accessible s u" "prev s p = q" "nxt s p = u" "heap_top s = p"
      "p \<noteq> q" "p \<noteq> u" "q \<noteq> u" "good_addr (valid s) q" "good_addr (valid s) u"
      "prev s q = 0" "nxt s q = 0" "prev s u = 0" "nxt s u = 0" "aligned8 q" "aligned8 u"
    by (auto simp: heap_holds_def holds_def good_accessible good_addr_def)
  let ?s = "\<lambda>x y. s\<lparr>root := x, tree_parent := (tree_parent s)(y := x, x := 0), prev := (prev s)(x := y), size := size s - 1\<rparr>"
  have A: "A = {p, q, u}" "A - {p} = {q, u}" using t(4) T l(7,8) by auto
  have h: "heap_holds (?s x y) [] (Node (Node Leaf (y, 0) Leaf) (x, 0) Leaf)"
    if "{x, y} = {q, u}" for x y
    using that l by (auto simp: heap_holds_def holds_def doubleton_eq_iff)
  have "heap_rep cmp (?s x y) {q, u}" if xy: "{x, y} = {q, u}" and c: "\<not> cmp (val s y) (val s x)" for x y
    using h [OF xy] xy c sz l(9)
    by (auto simp: heap_rep_def left_filled_def doubleton_eq_iff intro!: exI [of _ "Node (Node Leaf (y, 0) Leaf) (x, 0) Leaf"])
  then have pop: "popped cmp s A (?s x y) p" if "{x, y} = {q, u}" "\<not> cmp (val s y) (val s x)" for x y
    using that A t(3) T strict_weakD(2) [OF sw] by (auto simp: popped_def same_outside_def doubleton_eq_iff)
  show thesis
  proof (cases "cmp (val s q) (val s u)")
    case True
    then have "pop_three cmp s = Some (?s q u, p)"
      using l by (simp add: pop_three_def reads_accessible writes_accessible)
    with pop [of q u] True strict_weakD(1) [OF sw] that show thesis by blast
  next
    case False
    then have "pop_three cmp s = Some (?s u q, p)"
      using l by (simp add: pop_three_def reads_accessible writes_accessible)
    with pop [of u q] False that show thesis by blast
  qed
qed

lemma pop_refines:
  assumes sw: "strict_weak cmp" and r: "heap_rep cmp s A" and ne: "A \<noteq> {}"
  obtains s' a where "heap_pop cmp s = Some (s', a)" "popped cmp s A s' a"
proof -
  note fin = heap_rep_bound(1,2) [OF r]
  have sz: "size s = of_nat (card A)" using r by (simp add: heap_rep_def)
  have word: "(of_nat (card A) :: u64) = of_nat k \<longleftrightarrow> card A = k" if "k < 2 ^ 64" for k
    using fin(2) that by (simp add: word_of_nat_eq_iff take_bit_nat_eq_self)
  have c0: "card A \<noteq> 0" using ne fin(1) by simp
  have w: "size s = 0 \<longleftrightarrow> card A = 0" "size s = 1 \<longleftrightarrow> card A = 1" "size s = 2 \<longleftrightarrow> card A = 2"
      "size s = 3 \<longleftrightarrow> card A = 3"
    using word [of 0] word [of 1] word [of 2] word [of 3] by (simp_all add: sz)
  from c0 consider "card A = 1" | "card A = 2" | "card A = 3" | "card A \<ge> 4" by linarith
  then show thesis
  proof cases
    case 1
    then obtain a where a: "A = {a}" by (auto simp: card_1_singleton_iff)
    from pop_one_refines [OF sw r [unfolded a]] w 1 a that show thesis by (auto simp: heap_pop_def)
  next
    case 2
    then have "heap_pop cmp s = pop_two s" using w by (simp add: heap_pop_def)
    with pop_two_refines [OF sw r 2] that show thesis by metis
  next
    case 3
    then have "heap_pop cmp s = pop_three cmp s" using w by (simp add: heap_pop_def)
    with pop_three_refines [OF sw r 3] that show thesis by metis
  next
    case 4
    then have "heap_pop cmp s = pop_many cmp s" using w ne by (simp add: heap_pop_def)
    with pop_many_refines [OF sw r 4] that show thesis by metis
  qed
qed

section \<open>The destructor\<close>

lemma heap_rep_peek:
  assumes "heap_rep cmp s A"
  shows "heap_top s = 0 \<longleftrightarrow> A = {}"
proof -
  from assms obtain t where t: "heap_holds s [] t" "set (addrs t) = A" by (auto simp: heap_rep_def)
  then show ?thesis
    by (cases t) (auto simp: heap_holds_def holds_def good_addr_def)
qed

lemma tree_at_release:
  assumes "e \<notin> set (addrs t)"
  shows "tree_at (V(e := False)) P N T q t \<longleftrightarrow> tree_at V P N T q t"
  using assms by (induction t arbitrary: q) (auto simp: good_addr_def)

lemma heap_rep_release:
  assumes "heap_rep cmp s A" "e \<notin> A"
  shows "heap_rep cmp (s\<lparr>valid := (valid s)(e := False)\<rparr>) A"
proof -
  from assms(1) obtain t where t: "heap_holds s [] t" "left_filled t (card A)" "heap_ord cmp (val s) t"
    "set (addrs t) = A" and sz: "size s = of_nat (card A)" by (auto simp: heap_rep_def)
  then have "heap_holds (s\<lparr>valid := (valid s)(e := False)\<rparr>) [] t"
    using assms(2) by (simp add: heap_holds_def holds_def tree_at_release)
  with t sz show ?thesis by (auto simp: heap_rep_def)
qed

lemma heap_destroy_refines:
  assumes sw: "strict_weak cmp" and r: "heap_rep cmp s A"
  shows "\<exists>s' xs. heap_destroy cmp s acc = Some (s', acc @ xs) \<and> heap_rep cmp s' {} \<and>
    distinct xs \<and> set xs = A \<and> sorted_wrt (\<lambda>a b. \<not> cmp (val s b) (val s a)) xs"
  using r
proof (induction "card A" arbitrary: s A acc)
  case 0
  with heap_rep_bound(1) [OF 0(2)] have "A = {}" by simp
  with 0 show ?case
    by (subst heap_destroy.simps) (simp add: peek_def heap_rep_peek)
next
  case (Suc n)
  then have ne: "A \<noteq> {}" and fin: "finite A" using heap_rep_bound(1) by auto
  from pop_refines [OF sw Suc.prems ne] obtain s' a where p: "heap_pop cmp s = Some (s', a)" "popped cmp s A s' a"
    by metis
  let ?s = "s'\<lparr>valid := (valid s')(a := False)\<rparr>"
  from p(2) have "heap_rep cmp s' (A - {a})" by (simp add: popped_def)
  then have "heap_rep cmp ?s (A - {a})" by (rule heap_rep_release) simp
  with p(2) have a: "a \<in> A" "\<forall>y \<in> A. \<not> cmp (val s y) (val s a)" "heap_rep cmp ?s (A - {a})" "val s' = val s"
    by (auto simp: popped_def same_outside_def)
  then have "n = card (A - {a})" using Suc.hyps(2) fin by simp
  from Suc.hyps(1) [OF this a(3), of "acc @ [a]"] obtain s2 xs where
    "heap_destroy cmp ?s (acc @ [a]) = Some (s2, acc @ a # xs)" "heap_rep cmp s2 {}" "distinct xs"
    "set xs = A - {a}" "sorted_wrt (\<lambda>x y. \<not> cmp (val s y) (val s x)) xs"
    using a(4) by auto
  moreover have "heap_destroy cmp s acc = heap_destroy cmp ?s (acc @ [a])"
    using ne p(1) Suc.prems by (subst heap_destroy.simps) (simp add: peek_def heap_rep_peek)
  ultimately show ?case using a by (intro exI [of _ s2] exI [of _ "a # xs"]) auto
qed

section \<open>Concrete heaps\<close>

definition pair_heap :: "nat tree_heap" where
  "pair_heap = \<lparr>valid = (\<lambda>a. a \<in> {8, 16, 24, 32}), prev = (\<lambda>_. 0)(8 := 16), nxt = (\<lambda>_. 0),
     tree_parent = (\<lambda>_. 0)(16 := 8), val = unat, root = 8, size = 2\<rparr>"

lemma aligned8_heap [simp]: "aligned8 8" "aligned8 16" "aligned8 24" "aligned8 32"
  by (simp_all add: aligned8_def)

lemma strict_weak_less [simp]: "strict_weak ((<) :: nat \<Rightarrow> nat \<Rightarrow> bool)"
  by (auto simp: strict_weak_def)

lemma pair_heap_rep: "heap_rep (<) pair_heap {8, 16}"
proof -
  have "heap_holds pair_heap [] (Node (Node Leaf (16, 0) Leaf) (8, 0) Leaf)"
    by (simp add: pair_heap_def heap_holds_def holds_def good_addr_def)
  then show ?thesis unfolding heap_rep_def
    by (intro conjI exI [of _ "Node (Node Leaf (16, 0) Leaf) (8, 0) Leaf"])
      (auto simp: pair_heap_def left_filled_def)
qed

section \<open>Properties\<close>

text \<open>
  C13. \<open>push\<close> returns and adds exactly the pushed element to the heap, wherever its links point, except
  that onto an empty heap it must come with null links.
\<close>

theorem push_adds_element:
  assumes "strict_weak cmp" and "heap_rep cmp s A" and "good_addr (valid s) e" and "e \<notin> A"
    and "A = {} \<Longrightarrow> detached s e"
  shows "\<exists>s'. heap_push cmp s e = Some s' \<and> heap_rep cmp s' (insert e A) \<and> same_outside (insert e A) s s'"
  by (rule push_refines [OF assms]) blast+

theorem push_adds_element_witness:
  "\<exists>s'. heap_push (<) pair_heap 24 = Some s' \<and> heap_rep (<) s' (insert 24 {8, 16}) \<and>
     same_outside (insert 24 {8, 16}) pair_heap s'"
  by (rule push_adds_element [OF _ pair_heap_rep]) (auto simp: pair_heap_def good_addr_def)

text \<open>
  C14. \<open>pop\<close> on a non-empty heap returns an element no other element is better than, and removes exactly
  that element, in each of the five cases of the source.
\<close>

theorem pop_removes_best:
  assumes "strict_weak cmp" and "heap_rep cmp s A" and "A \<noteq> {}"
  shows "\<exists>s' a. heap_pop cmp s = Some (s', a) \<and> a \<in> A \<and> (\<forall>y \<in> A. \<not> cmp (val s y) (val s a)) \<and>
    heap_rep cmp s' (A - {a}) \<and> same_outside A s s'"
  by (rule pop_refines [OF assms]) (auto simp: popped_def)

theorem pop_removes_best_witness:
  "\<exists>s' a. heap_pop (<) pair_heap = Some (s', a) \<and> a \<in> {8, 16} \<and>
    (\<forall>y \<in> {8, 16}. \<not> val pair_heap y < val pair_heap a) \<and>
    heap_rep (<) s' ({8, 16} - {a}) \<and> same_outside {8, 16} pair_heap s'"
  by (rule pop_removes_best [OF _ pair_heap_rep]) simp_all

text \<open>
  An element that comes back with a stale link breaks the heap: \<open>push\<close> onto an empty heap does not
  reset the links, so that after a second \<open>push\<close> and a \<open>pop\<close> the top of the heap is the object the stale
  \<open>prev\<close> link points to, not the second element.
\<close>

lemma stale_link_becomes_top:
  assumes "heap_top s = nullptr" and "size s = 0" and "accessible s e" and "accessible s d" and "e \<noteq> d"
    and "prev s e = x" and "accessible s x" and "x \<noteq> d" and "\<not> cmp (val s d) (val s e)"
  shows "\<exists>s1 s2 s3. heap_push cmp s e = Some s1 \<and> heap_push cmp s1 d = Some s2 \<and>
    heap_pop cmp s2 = Some (s3, e) \<and> heap_top s3 = x"
proof -
  from assms have x: "x \<noteq> 0" "e \<noteq> 0" "d \<noteq> 0" by auto
  let ?s1 = "s\<lparr>root := e, size := 1\<rparr>"
  have g: "get_nth ?s1 1 = Some e"
    by (simp add: get_nth_def bit_width.simps get_nth_loop.simps)
  have "heap_push cmp s e = Some ?s1" using assms by (simp add: heap_push_def)
  moreover have "sift_up cmp s' d e = Some s'" if "val s' = val s" "valid s' = valid s" "root s' = e" for s' :: "'a tree_heap"
    using that assms by (subst sift_up.simps) (simp add: read_val_def accessible_def)
  then have "heap_push cmp ?s1 d = Some (s\<lparr>root := e, tree_parent := (tree_parent s)(d := e), prev := (prev s)(d := 0),
      nxt := (nxt s)(d := 0, e := d), size := 2\<rparr>)" (is "_ = Some ?s2")
    using assms x g by (simp add: heap_push_def parent_of_leftmost_empty_def reads_accessible writes_accessible)
  moreover have "heap_pop cmp ?s2 = Some (s\<lparr>root := x, tree_parent := (tree_parent s)(d := e, x := 0), prev := (prev s)(d := 0),
      nxt := (nxt s)(d := 0, e := d), size := 1\<rparr>, e)"
    using assms x by (simp add: heap_pop_def pop_two_def reads_accessible writes_accessible)
  ultimately show ?thesis by auto
qed

definition stale_heap :: "nat tree_heap" where
  "stale_heap = pair_heap\<lparr>root := 0, size := 0\<rparr>"

lemma stale_link_becomes_top_example:
  "\<exists>s1 s2 s3. heap_push (<) stale_heap 8 = Some s1 \<and> heap_push (<) s1 24 = Some s2 \<and>
    heap_pop (<) s2 = Some (s3, 8) \<and> heap_top s3 = 16"
  by (rule stale_link_becomes_top) (auto simp: stale_heap_def pair_heap_def accessible_def)

text \<open>
  C26. The destructor terminates and releases every element exactly once, the best one first.
\<close>

theorem heap_destructor_drains:
  assumes "strict_weak cmp" and "heap_rep cmp s A"
  shows "\<exists>s' xs. heap_destroy cmp s [] = Some (s', xs) \<and> heap_rep cmp s' {} \<and> distinct xs \<and> set xs = A \<and>
    sorted_wrt (\<lambda>a b. \<not> cmp (val s b) (val s a)) xs"
  using heap_destroy_refines [OF assms, of "[]"] by simp

theorem heap_destructor_drains_witness:
  "\<exists>s' xs. heap_destroy (<) pair_heap [] = Some (s', xs) \<and> heap_rep (<) s' {} \<and> distinct xs \<and>
    set xs = {8, 16} \<and> sorted_wrt (\<lambda>a b. \<not> val pair_heap b < val pair_heap a) xs"
  by (rule heap_destructor_drains [OF strict_weak_less pair_heap_rep])

end
