(* ===== verification/Fifo.thy ===== *)
theory Fifo
  imports Intrusive_Store
begin

text \<open>
  The intrusive queue of \<open>kernel/util/fifo.h\<close>, a chain of elements through their \<open>next\<close> links with a
  pointer to its first and to its last element. The last pointer is stale while the queue is empty,
  as in the source. The interface the clients rely on is the locale \<open>queue\<close>: the queue holds a list
  of elements, \<open>push_back\<close> appends to it and \<open>pop_front\<close> takes from its front.
\<close>

section \<open>The queue object\<close>

record 'a fifo = "'a store" +
  head :: addr
  tail :: addr
  fifo_size :: u64

definition fifo_empty :: "'a fifo \<Rightarrow> bool" where
  "fifo_empty s = (head s = nullptr)"

definition push_back :: "'a fifo \<Rightarrow> addr \<Rightarrow> 'a fifo option" where
  "push_back s element =
     (if head s = nullptr then do {
        let s = s\<lparr>head := element\<rparr>;
        let s = s\<lparr>tail := head s\<rparr>;
        s \<leftarrow> write_nxt s (head s) nullptr;
        Some (s\<lparr>fifo_size := fifo_size s + 1\<rparr>)
      } else do {
        s \<leftarrow> write_nxt s (tail s) element;
        n \<leftarrow> read_nxt s (tail s);
        s \<leftarrow> write_nxt s n nullptr;
        n \<leftarrow> read_nxt s (tail s);
        let s = s\<lparr>tail := n\<rparr>;
        Some (s\<lparr>fifo_size := fifo_size s + 1\<rparr>)
      })"

definition pop_front :: "'a fifo \<Rightarrow> ('a fifo \<times> addr) option" where
  "pop_front s =
     (if fifo_empty s then Some (s, nullptr)
      else do {
        let s = s\<lparr>fifo_size := fifo_size s - 1\<rparr>;
        let ret_raw = head s;
        n \<leftarrow> read_nxt s (head s);
        Some (s\<lparr>head := n\<rparr>, ret_raw)
      })"

section \<open>The list a queue holds\<close>

fun chain :: "(addr \<Rightarrow> addr) \<Rightarrow> addr \<Rightarrow> addr list \<Rightarrow> bool" where
  "chain N p [] = (p = nullptr)"
| "chain N p (x # xs) = (p = x \<and> chain N (N x) xs)"

definition fifo_holds :: "'a fifo \<Rightarrow> addr list \<Rightarrow> bool" where
  "fifo_holds s xs \<longleftrightarrow>
     chain (nxt s) (head s) xs \<and> distinct xs \<and> (\<forall>x \<in> set xs. accessible s x) \<and>
     (xs \<noteq> [] \<longrightarrow> tail s = last xs) \<and> fifo_size s = of_nat (length xs)"

lemma accessible_fifo_updates [simp]:
  "accessible (s\<lparr>head := h\<rparr>) p = accessible s p"
  "accessible (s\<lparr>tail := h\<rparr>) p = accessible s p"
  "accessible (s\<lparr>fifo_size := n\<rparr>) p = accessible s p"
  by (simp_all add: accessible_def)

lemma chain_frame: "x \<notin> set xs \<Longrightarrow> chain (N(x := y)) p xs = chain N p xs"
  by (induction xs arbitrary: p) auto

lemma chain_snoc:
  assumes "chain N p (xs @ [l])" "distinct (xs @ [l])" "e \<notin> set (xs @ [l])"
  shows "chain (N(l := e, e := 0)) p (xs @ [l, e])"
  using assms by (induction xs arbitrary: p) auto

lemma push_back_holds:
  assumes q: "fifo_holds s xs" and e: "accessible s e" "e \<notin> set xs"
  obtains s' where "push_back s e = Some s'" "fifo_holds s' (xs @ [e])" "valid s' = valid s" "val s' = val s"
proof (cases "xs = []")
  case True
  with q e that show thesis
    by (auto simp: fifo_holds_def push_back_def store_simps)
next
  case False
  then obtain ys l where xs: "xs = ys @ [l]" by (metis rev_exhaust)
  with q have h: "head s \<noteq> 0" "tail s = l" "accessible s l" "chain (nxt s) (head s) (ys @ [l])"
    by (auto simp: fifo_holds_def) (cases ys; auto)
  let ?s = "s\<lparr>nxt := (nxt s)(l := e, e := 0), tail := e, fifo_size := fifo_size s + 1\<rparr>"
  have "push_back s e = Some ?s"
    using h e xs by (auto simp: push_back_def store_simps)
  moreover have "fifo_holds ?s (xs @ [e])"
    using q e h chain_snoc [OF h(4), of e] xs by (auto simp: fifo_holds_def)
  ultimately show thesis using that by simp
qed

lemma pop_front_holds:
  assumes q: "fifo_holds s (x # xs)"
  obtains s' where "pop_front s = Some (s', x)" "fifo_holds s' xs" "valid s' = valid s" "val s' = val s"
proof -
  let ?s = "s\<lparr>fifo_size := fifo_size s - 1, head := nxt s x\<rparr>"
  from q have x: "head s = x" "accessible s x" "x \<noteq> 0" by (auto simp: fifo_holds_def)
  then have "pop_front s = Some (?s, x)"
    by (simp add: pop_front_def fifo_empty_def store_simps)
  moreover have "fifo_holds ?s xs" using q by (auto simp: fifo_holds_def)
  ultimately show thesis using that by simp
qed

lemma fifo_empty_iff: "fifo_holds s xs \<Longrightarrow> fifo_empty s \<longleftrightarrow> xs = []"
  by (cases xs) (auto simp: fifo_holds_def fifo_empty_def)

lemma pop_front_empty: "fifo_holds s [] \<Longrightarrow> pop_front s = Some (s, 0)"
  by (simp add: pop_front_def fifo_empty_iff)

section \<open>The interface\<close>

text \<open>
  What a client of a queue may rely on. \<open>holds\<close> says which list a queue object holds, \<open>usable\<close> which
  addresses may be pushed.
\<close>

fun push_all :: "('s \<Rightarrow> addr \<Rightarrow> 's option) \<Rightarrow> 's \<Rightarrow> addr list \<Rightarrow> 's option" where
  "push_all push s [] = Some s"
| "push_all push s (x # xs) = do { s \<leftarrow> push s x; push_all push s xs }"

fun pop_n :: "('s \<Rightarrow> ('s \<times> addr) option) \<Rightarrow> nat \<Rightarrow> 's \<Rightarrow> ('s \<times> addr list) option" where
  "pop_n pop 0 s = Some (s, [])"
| "pop_n pop (Suc n) s = do { (s, x) \<leftarrow> pop s; (s, xs) \<leftarrow> pop_n pop n s; Some (s, x # xs) }"

locale queue =
  fixes holds :: "'s \<Rightarrow> addr list \<Rightarrow> bool"
    and usable :: "'s \<Rightarrow> addr \<Rightarrow> bool"
    and push :: "'s \<Rightarrow> addr \<Rightarrow> 's option"
    and pop :: "'s \<Rightarrow> ('s \<times> addr) option"
  assumes push_law: "holds s xs \<Longrightarrow> usable s e \<Longrightarrow> e \<notin> set xs \<Longrightarrow>
      \<exists>s'. push s e = Some s' \<and> holds s' (xs @ [e]) \<and> usable s' = usable s"
    and pop_law: "holds s (x # xs) \<Longrightarrow>
      \<exists>s'. pop s = Some (s', x) \<and> holds s' xs \<and> usable s' = usable s"
    and pop_empty_law: "holds s [] \<Longrightarrow> pop s = Some (s, 0)"
begin

lemma push_all_holds:
  "holds s xs \<Longrightarrow> distinct (xs @ ys) \<Longrightarrow> (\<forall>y \<in> set ys. usable s y) \<Longrightarrow>
   \<exists>s'. push_all push s ys = Some s' \<and> holds s' (xs @ ys) \<and> usable s' = usable s"
proof (induction ys arbitrary: s xs)
  case (Cons y ys)
  then obtain s1 where "push s y = Some s1" "holds s1 (xs @ [y])" "usable s1 = usable s"
    using push_law [of s xs y] by auto
  with Cons.IH [of s1 "xs @ [y]"] Cons.prems show ?case by auto
qed simp

lemma pop_n_holds:
  "holds s (xs @ ys) \<Longrightarrow> \<exists>s'. pop_n pop (length xs) s = Some (s', xs) \<and> holds s' ys"
proof (induction xs arbitrary: s)
  case (Cons x xs)
  then obtain s1 where s1: "pop s = Some (s1, x)" "holds s1 (xs @ ys)" using pop_law [of s x "xs @ ys"] by auto
  from Cons.IH [OF s1(2)] s1(1) show ?case by auto
qed simp

lemma first_in_first_out:
  assumes "holds s []" "distinct ys" "\<forall>y \<in> set ys. usable s y"
  shows "\<exists>s1 s2. push_all push s ys = Some s1 \<and> pop_n pop (length ys) s1 = Some (s2, ys) \<and> holds s2 []"
proof -
  from push_all_holds [OF assms(1), of ys] assms obtain s1 where s1: "push_all push s ys = Some s1" "holds s1 ys"
    by auto
  with pop_n_holds [of s1 ys "[]"] show ?thesis by simp
qed

end

interpretation fifo_queue: queue fifo_holds accessible push_back pop_front
proof (unfold_locales, goal_cases)
  case (1 s xs e)
  from push_back_holds [OF this] obtain s' where
    "push_back s e = Some s'" "fifo_holds s' (xs @ [e])" "valid s' = valid s" by metis
  then show ?case by (auto simp: accessible_def fun_eq_iff)
next
  case (2 s x xs)
  from pop_front_holds [OF this] obtain s' where
    "pop_front s = Some (s', x)" "fifo_holds s' xs" "valid s' = valid s" by metis
  then show ?case by (auto simp: accessible_def fun_eq_iff)
next
  case (3 s)
  then show ?case by (rule pop_front_empty)
qed

section \<open>Properties\<close>

definition empty_fifo :: "unit fifo" where
  "empty_fifo = \<lparr>valid = (\<lambda>p. p \<in> {8, 16, 24}), prev = (\<lambda>_. 0), nxt = (\<lambda>_. 7), tree_parent = (\<lambda>_. 0),
     val = (\<lambda>_. ()), head = 0, tail = 24, fifo_size = 0\<rparr>"

text \<open>
  C27. The queue is first in, first out: pushing distinct live elements onto an empty queue and popping
  as many returns them in the same order and leaves the queue empty, whatever their links were.
\<close>

theorem fifo_order:
  assumes "fifo_holds s []" and "distinct ys" and "\<forall>y \<in> set ys. accessible s y"
  shows "\<exists>s1 s2. push_all push_back s ys = Some s1 \<and> pop_n pop_front (length ys) s1 = Some (s2, ys) \<and>
    fifo_holds s2 [] \<and> pop_front s2 = Some (s2, 0)"
  using fifo_queue.first_in_first_out [OF assms] pop_front_empty by blast

theorem fifo_order_witness:
  "\<exists>s1 s2. push_all push_back empty_fifo [16, 8, 24] = Some s1 \<and>
    pop_n pop_front (length [16, 8, 24 :: addr]) s1 = Some (s2, [16, 8, 24]) \<and>
    fifo_holds s2 [] \<and> pop_front s2 = Some (s2, 0)"
  by (rule fifo_order) (auto simp: empty_fifo_def fifo_holds_def accessible_def)

end
