(* ===== verification/Kernel_Result.thy ===== *)
theory Kernel_Result
  imports Kernel_Prelude
begin

text \<open>
  The results of kernel code that can stop. \<open>PANIC\<close> (\<open>kernel/util/log.h\<close>) prints its message and halts
  all cores; a thread that locks a \<open>std::mutex\<close> it already holds spins for ever
  (\<open>libraries/rosestd/include/mutex\<close>: the mutex is one flag that \<open>lock\<close> waits on); an access through a
  null or dangling pointer is a fault. All are values of \<open>kerror\<close>, the left summand of a result; the
  right summand is what the code returns, with the state after it.
\<close>

datatype kerror = Panic string | Deadlock | Fault

type_synonym 'a result = "kerror + 'a"

primrec bnd :: "'e + 'a \<Rightarrow> ('a \<Rightarrow> 'e + 'b) \<Rightarrow> 'e + 'b" where
  "bnd (Inl e) f = Inl e"
| "bnd (Inr x) f = f x"

text \<open>Code over the store of intrusive objects, where a fault is the value \<^const>\<open>None\<close>.\<close>

primrec deref :: "'a option \<Rightarrow> 'a result" where
  "deref None = Inl Fault"
| "deref (Some x) = Inr x"

lemma deref_Inr_iff: "deref r = Inr x \<longleftrightarrow> r = Some x"
  by (cases r) auto

lemma bnd_Inr_iff: "bnd r f = Inr y \<longleftrightarrow> (\<exists>x. r = Inr x \<and> f x = Inr y)"
  by (cases r) auto

lemma bnd_Inl_iff: "bnd r f = Inl e \<longleftrightarrow> r = Inl e \<or> (\<exists>x. r = Inr x \<and> f x = Inl e)"
  by (cases r) auto

lemma bnd_cong [fundef_cong]:
  "r = r' \<Longrightarrow> (\<And>x. r' = Inr x \<Longrightarrow> f x = f' x) \<Longrightarrow> bnd r f = bnd r' f'"
  by (cases r) auto

lemma bnd_assoc: "bnd (bnd r f) g = bnd r (\<lambda>x. bnd (f x) g)"
  by (cases r) auto

text \<open>Code that may also not return: the value \<^const>\<open>None\<close>.\<close>

definition obnd :: "('e + 'a) option \<Rightarrow> ('a \<Rightarrow> ('e + 'b) option) \<Rightarrow> ('e + 'b) option" where
  "obnd r f = Option.bind r (\<lambda>x. case x of Inl e \<Rightarrow> Some (Inl e) | Inr y \<Rightarrow> f y)"

lemma obnd_simps [simp]: "obnd None f = None" "obnd (Some (Inl e)) f = Some (Inl e)" "obnd (Some (Inr x)) f = f x"
  by (simp_all add: obnd_def)

lemma obnd_Inr_iff: "obnd r f = Some (Inr y) \<longleftrightarrow> (\<exists>x. r = Some (Inr x) \<and> f x = Some (Inr y))"
  by (auto simp: obnd_def split: bind_splits sum.splits)

text \<open>A counted loop: the body runs on each element of a list in turn.\<close>

fun each :: "('x \<Rightarrow> 's \<Rightarrow> 'e + 's) \<Rightarrow> 'x list \<Rightarrow> 's \<Rightarrow> 'e + 's" where
  "each f [] s = Inr s"
| "each f (x # xs) s = bnd (f x s) (each f xs)"

lemma each_append: "each f (xs @ ys) s = bnd (each f xs s) (each f ys)"
  by (induction xs arbitrary: s) (auto simp: bnd_assoc intro!: bnd_cong)

lemma each_invariant:
  assumes "\<And>x s s'. x \<in> set xs \<Longrightarrow> P s \<Longrightarrow> f x s = Inr s' \<Longrightarrow> P s'" and "P s" and "each f xs s = Inr s'"
  shows "P s'"
  using assms
proof (induction xs arbitrary: s)
  case (Cons x xs)
  then obtain s1 where "f x s = Inr s1" "each f xs s1 = Inr s'" by (auto simp: bnd_Inr_iff)
  with Cons.IH [of s1] Cons.prems show ?case by auto
qed simp

section \<open>Powers of two as words\<close>

text \<open>Masks and divisors of the form \<open>2^k\<close>, as the code writes page sizes and alignments.\<close>

lemma word_and_mask_eq_mod: "(w :: 'a :: len word) AND (2 ^ k - 1) = w mod 2 ^ k"
  by (simp add: mask_eq_exp_minus_1 [symmetric] take_bit_eq_mask [symmetric] take_bit_eq_mod)

lemma word_and_not_mask: "(w :: 'a :: len word) AND NOT (2 ^ k - 1) = w - w mod 2 ^ k"
proof -
  have "w = (w AND (2 ^ k - 1)) + (w AND NOT (2 ^ k - 1))"
    by (subst disjunctive_add_eq_or) (auto simp: bit_eq_iff bit_simps)
  then show ?thesis by (simp add: word_and_mask_eq_mod algebra_simps)
qed

lemma of_nat_u64_eq: "m < 2 ^ 64 \<Longrightarrow> n < 2 ^ 64 \<Longrightarrow> (of_nat m :: u64) = of_nat n \<longleftrightarrow> m = n"
  by (simp add: word_of_nat_eq_iff take_bit_nat_eq_self)

end
