(* ===== verification/Pmm.thy ===== *)
theory Pmm
  imports Kernel_Result
begin

text \<open>
  The physical memory manager: \<open>kernel/memory/pmm.h\<close> and \<open>kernel/memory/pmm.cpp\<close>, with the page sizes
  of \<open>kernel/arch/amd64/memory/vm.h\<close> and the memory map of \<open>boot-protocol/boot-memmap.h\<close>.

  Physical memory is a function from the addresses of 8-byte words to words. A free frame holds the
  address of the next free frame of its size in its first word; \<open>phys_ptr_t\<close> adds the base of the
  kernel's linear map of physical memory to reach it, which the model leaves out except where the
  difference shows: the null pointer a stack starts with is stored as \<open>- physmem_base\<close>.
\<close>

section \<open>The memory map\<close>

text \<open>A type is a 32-bit number, of which the first have names.\<close>

datatype memory_type =
    unusable | free | loader | preserve | acpi_reclaimable | persistent
  | kernel | initrd | paging | memory_map | backbuffer | log_buffer | working_stack
  | unnamed_type "32 word"

record memory_map_entry =
  physical_start :: u64
  region_length :: u64
  region_type :: memory_type
  attributes :: "32 word"

fun find_entry :: "memory_map_entry list \<Rightarrow> memory_type \<Rightarrow> memory_map_entry option" where
  "find_entry [] type = None"
| "find_entry (e # memmap) type = (if region_type e = type then Some e else find_entry memmap type)"

fun memmap_type_to_description :: "memory_type \<Rightarrow> string" where
  "memmap_type_to_description unusable = ''unusable''"
| "memmap_type_to_description free = ''free''"
| "memmap_type_to_description loader = ''bootloader''"
| "memmap_type_to_description preserve = ''preserve for runtime''"
| "memmap_type_to_description acpi_reclaimable = ''ACPI-reclaimable''"
| "memmap_type_to_description persistent = ''presistent''"
| "memmap_type_to_description kernel = ''kernel''"
| "memmap_type_to_description initrd = ''initrd''"
| "memmap_type_to_description paging = ''paging structures''"
| "memmap_type_to_description memory_map = ''memory map''"
| "memmap_type_to_description backbuffer = ''video backbuffer''"
| "memmap_type_to_description log_buffer = ''boot log buffer''"
| "memmap_type_to_description working_stack = ''working stack''"
| "memmap_type_to_description (unnamed_type n) = ''!! INVALID !!''"

section \<open>The manager\<close>

text \<open>The array \<open>page_sizes\<close>; its indices are below \<open>page_size_count\<close> wherever the code uses it.\<close>

definition page_size_count :: nat where
  "page_size_count = 3"

fun page_sizes :: "nat \<Rightarrow> u64" where
  "page_sizes 0 = 4 * 1024"
| "page_sizes (Suc 0) = 2 * 1024 * 1024"
| "page_sizes _ = 1 * 1024 * 1024 * 1024"

definition physmem_base :: u64 where
  "physmem_base = 0xffff800000000000"

record stack_info =
  stack_lock :: bool
  stack :: addr
  num_frames :: u64

record pmm =
  mem :: "addr \<Rightarrow> u64"                 \<comment> \<open>physical memory\<close>
  infos :: "nat \<Rightarrow> stack_info"
  free_frames :: "nat \<Rightarrow> u64"
  used_frames :: "nat \<Rightarrow> u64"
  sub_1M_bottom :: u64
  sub_1M_top :: u64

definition stack_info_init :: stack_info where
  "stack_info_init = \<lparr>stack_lock = False, stack = - physmem_base, num_frames = 0\<rparr>"

definition pmm_init :: "(addr \<Rightarrow> u64) \<Rightarrow> pmm" where
  "pmm_init m = \<lparr>mem = m, infos = (\<lambda>_. stack_info_init), free_frames = (\<lambda>_. 0), used_frames = (\<lambda>_. 0),
     sub_1M_bottom = 0, sub_1M_top = 0\<rparr>"

definition set_info :: "nat \<Rightarrow> stack_info \<Rightarrow> pmm \<Rightarrow> pmm" where
  "set_info i info s = s\<lparr>infos := (infos s)(i := info)\<rparr>"

definition lock_stack :: "nat \<Rightarrow> pmm \<Rightarrow> pmm result" where
  "lock_stack i s =
     (if stack_lock (infos s i) then Inl Deadlock else Inr (set_info i (infos s i\<lparr>stack_lock := True\<rparr>) s))"

definition unlock_stack :: "nat \<Rightarrow> pmm \<Rightarrow> pmm" where
  "unlock_stack i s = set_info i (infos s i\<lparr>stack_lock := False\<rparr>) s"

definition instance_push :: "nat \<Rightarrow> addr \<Rightarrow> pmm \<Rightarrow> pmm result" where
  "instance_push page_layer frame s =
     bnd (lock_stack page_layer s) (\<lambda>s.
       let s = s\<lparr>mem := (mem s)(frame := stack (infos s page_layer))\<rparr>;
           s = set_info page_layer (infos s page_layer\<lparr>stack := frame\<rparr>) s;
           s = set_info page_layer (infos s page_layer\<lparr>num_frames := num_frames (infos s page_layer) + 1\<rparr>) s
       in Inr (unlock_stack page_layer s))"

definition pmm_push :: "nat \<Rightarrow> addr \<Rightarrow> pmm \<Rightarrow> pmm result" where
  "pmm_push page_layer frame s =
     (if page_layer \<ge> page_size_count then Inl (Panic ''Tried to push a frame beyond arch-supported frame sizes'')
      else bnd (instance_push page_layer frame s) (\<lambda>s.
        Inr (s\<lparr>used_frames := (used_frames s)(page_layer := used_frames s page_layer - 1),
               free_frames := (free_frames s)(page_layer := free_frames s page_layer + 1)\<rparr>)))"

text \<open>The two halves of \<open>instance::pop\<close> below its guards: the loop over the pieces, and the removal of the top.\<close>

definition push_pieces :: "nat \<Rightarrow> addr \<Rightarrow> pmm \<Rightarrow> pmm result" where
  "push_pieces page_layer higher_layer_frame =
     each (\<lambda>i. pmm_push page_layer (higher_layer_frame + of_nat i * page_sizes page_layer))
       [0 ..< unat (page_sizes (page_layer + 1) div page_sizes page_layer)]"

definition take_top :: "nat \<Rightarrow> pmm \<Rightarrow> pmm \<times> addr" where
  "take_top page_layer s =
     (let ret = stack (infos s page_layer);
          s = set_info page_layer (infos s page_layer\<lparr>stack := mem s ret\<rparr>) s;
          s = set_info page_layer (infos s page_layer\<lparr>num_frames := num_frames (infos s page_layer) - 1\<rparr>) s
      in (unlock_stack page_layer s, ret))"

text \<open>
  The only caller from outside, \<open>pmm::pop\<close>, has \<open>page_layer < page_size_count\<close>; there the test
  \<open>page_layer \<ge> page_size_count - 1\<close> is the source's \<open>page_layer == page_size_count - 1\<close>.
\<close>

function instance_pop :: "nat \<Rightarrow> pmm \<Rightarrow> (pmm \<times> addr) result" where
  "instance_pop page_layer s =
     bnd (lock_stack page_layer s) (\<lambda>s.
       bnd (if num_frames (infos s page_layer) = 0 then
              if page_layer \<ge> page_size_count - 1 then
                Inl (Panic ''...and now implement cross-pmm-instance rebalancing'')
              else bnd (instance_pop (page_layer + 1) s) (\<lambda>(s, higher_layer_frame).
                push_pieces page_layer higher_layer_frame s)
            else Inr s) (\<lambda>s.
         Inr (take_top page_layer s)))"
  by pat_completeness auto
termination
  by (relation "measure (\<lambda>(l, _). page_size_count - l)") (auto simp: page_size_count_def)

declare instance_pop.simps [simp del]

definition pmm_pop :: "nat \<Rightarrow> pmm \<Rightarrow> (pmm \<times> addr) result" where
  "pmm_pop page_layer s =
     (if page_layer \<ge> page_size_count then Inl (Panic ''Tried to pop a frame beyond arch-supported frame sizes'')
      else bnd (instance_pop page_layer s) (\<lambda>(s, ret).
        Inr (s\<lparr>free_frames := (free_frames s)(page_layer := free_frames s page_layer - 1),
               used_frames := (used_frames s)(page_layer := used_frames s page_layer + 1)\<rparr>, ret)))"

section \<open>Initialization\<close>

text \<open>The run of entries that continue the current one: the inner loop over the map.\<close>

fun merge_run :: "u64 \<Rightarrow> u64 \<Rightarrow> memory_map_entry \<Rightarrow> memory_map_entry list \<Rightarrow>
    u64 \<times> memory_map_entry \<times> memory_map_entry list" where
  "merge_run start sz current [] = (sz, current, [])"
| "merge_run start sz current (n # rest) =
     (if region_type current = region_type n \<and> attributes current = attributes n \<and>
         start + sz = physical_start n
      then merge_run start (sz + region_length n) n rest
      else (sz, current, n # rest))"

lemma merge_run_shorter: "merge_run start sz e rest = (sz', e', rest') \<Longrightarrow> length rest' \<le> length rest"
  by (induction start sz e rest rule: merge_run.induct) (auto split: if_splits)

text \<open>The local \<open>push\<close> of \<open>initialize\<close>, on the state and the locals \<open>start\<close> and \<open>remaining\<close>.\<close>

definition push_free :: "nat \<Rightarrow> pmm \<times> u64 \<times> u64 \<Rightarrow> (pmm \<times> u64 \<times> u64) result" where
  "push_free i = (\<lambda>(s, start, remaining).
     bnd (instance_push i start s) (\<lambda>s.
       Inr (s\<lparr>free_frames := (free_frames s)(i := free_frames s i + 1)\<rparr>,
            start + page_sizes i, remaining - page_sizes i)))"

lemma page_sizes_pos: "0 < page_sizes i"
  by (cases i rule: page_sizes.cases) simp_all

lemma push_free_shrinks:
  assumes "page_sizes i \<le> remaining" "push_free i (s, start, remaining) = Inr (s', start', remaining')"
  shows "unat remaining' < unat remaining"
proof -
  have "remaining' = remaining - page_sizes i"
    using assms(2) by (auto simp: push_free_def bnd_Inr_iff)
  moreover have "0 < unat (page_sizes i)" "unat (page_sizes i) \<le> unat remaining"
    using assms(1) page_sizes_pos [of i] by (simp_all add: word_le_nat_alt word_less_nat_alt)
  ultimately show ?thesis using assms(1) by (simp add: unat_sub)
qed

function push_until_aligned :: "nat \<Rightarrow> pmm \<times> u64 \<times> u64 \<Rightarrow> (pmm \<times> u64 \<times> u64) result" where
  "push_until_aligned i (s, start, remaining) =
     (if start mod page_sizes (i + 1) \<noteq> 0 \<and> remaining \<ge> page_sizes i
      then bnd (push_free i (s, start, remaining)) (push_until_aligned i)
      else Inr (s, start, remaining))"
  by pat_completeness auto
termination
  by (relation "measure (\<lambda>(i, s, start, remaining). unat remaining)") (auto intro: push_free_shrinks)

function push_while_fits :: "nat \<Rightarrow> pmm \<times> u64 \<times> u64 \<Rightarrow> (pmm \<times> u64 \<times> u64) result" where
  "push_while_fits i (s, start, remaining) =
     (if remaining \<ge> page_sizes i
      then bnd (push_free i (s, start, remaining)) (push_while_fits i)
      else Inr (s, start, remaining))"
  by pat_completeness auto
termination
  by (relation "measure (\<lambda>(i, s, start, remaining). unat remaining)") (auto intro: push_free_shrinks)

declare push_until_aligned.simps [simp del] push_while_fits.simps [simp del]

definition carve :: "u64 \<Rightarrow> u64 \<Rightarrow> pmm \<Rightarrow> (pmm \<times> u64 \<times> u64) result" where
  "carve start sz s =
     bnd (each push_until_aligned [0 ..< page_size_count - 1] (s, start, sz))
       (each push_while_fits (rev [0 ..< page_size_count]))"

definition counted_as_used :: "memory_type \<Rightarrow> bool" where
  "counted_as_used type \<longleftrightarrow>
     type \<in> {loader, kernel, initrd, paging, memory_map, backbuffer, log_buffer, working_stack}"

definition add_region :: "u64 \<Rightarrow> u64 \<Rightarrow> memory_map_entry \<Rightarrow> pmm \<Rightarrow> pmm result" where
  "add_region start sz e s =
     (if region_type e = free then bnd (carve start sz s) (\<lambda>(s, _). Inr s)
      else if counted_as_used (region_type e) then
        Inr (s\<lparr>used_frames := (used_frames s)(0 := used_frames s 0 + region_length e div page_sizes 0)\<rparr>)
      else Inr s)"

definition mib :: u64 where
  "mib = 1024 * 1024"

function initialize :: "memory_map_entry list \<Rightarrow> pmm \<Rightarrow> pmm result" where
  "initialize [] s = Inr s"
| "initialize (e # rest) s =
     (let start = physical_start e;
          (sz, e', rest') = merge_run start (region_length e) e rest
      in if start < mib \<and> sub_1M_top s = 0 then
           let s = s\<lparr>sub_1M_bottom := start\<rparr>
           in if sz \<le> mib then initialize rest' (s\<lparr>sub_1M_top := sz\<rparr>)
              else bnd (add_region mib (sz - mib) e' (s\<lparr>sub_1M_top := mib\<rparr>)) (initialize rest')
         else bnd (add_region start sz e' s) (initialize rest'))"
  by pat_completeness auto
termination
  by (relation "measure (\<lambda>(l, _). length l)")
    (auto simp: less_Suc_eq_le dest!: merge_run_shorter [OF sym])

declare initialize.simps(2) [simp del]

definition get_sub_1M_bottom :: "pmm \<Rightarrow> u64" where
  "get_sub_1M_bottom s = sub_1M_bottom s"

definition get_sub_1M_top :: "pmm \<Rightarrow> u64" where
  "get_sub_1M_top s = sub_1M_top s"

section \<open>The report\<close>

text \<open>The amounts \<open>report\<close> prints, each as GiB, MiB and KiB: free, used and total.\<close>

definition gib_mib_kib :: "u64 \<Rightarrow> u64 \<times> u64 \<times> u64" where
  "gib_mib_kib n =
     (n div (1024 * 1024 * 1024), (n mod (1024 * 1024 * 1024)) div (1024 * 1024), (n mod (1024 * 1024)) div 1024)"

definition report :: "pmm \<Rightarrow> (u64 \<times> u64 \<times> u64) \<times> (u64 \<times> u64 \<times> u64) \<times> (u64 \<times> u64 \<times> u64)" where
  "report s =
     (let amount = (\<lambda>n. fold (\<lambda>i acc. acc + n i * page_sizes i) [0 ..< page_size_count] 0);
          free = amount (free_frames s);
          used = amount (used_frames s)
      in (gib_mib_kib free, gib_mib_kib used, gib_mib_kib (free + used)))"

end
