(* ===== verification/Pmm_Properties.thy ===== *)
theory Pmm_Properties
  imports Pmm
begin

text \<open>
  The contract of the physical memory manager. Its state is described by the list of free frames of
  each size; the frames are aligned to their size and pairwise disjoint, and no lock is held. \<open>push\<close>
  and \<open>pop\<close> on a non-empty stack keep this description; \<open>initialize\<close> establishes it from a memory
  map and hands out only memory of free entries. Taking a frame of a size that has run out never
  returns.
\<close>

section \<open>The free frames\<close>

fun frames_at :: "(addr \<Rightarrow> u64) \<Rightarrow> addr \<Rightarrow> addr list \<Rightarrow> bool" where
  "frames_at m p [] = True"
| "frames_at m p (x # xs) = (p = x \<and> frames_at m (m x) xs)"

definition psize :: "nat \<Rightarrow> nat" where
  "psize i = unat (page_sizes i)"

definition span :: "nat \<Rightarrow> addr \<Rightarrow> nat set" where
  "span i x = {unat x ..< unat x + psize i}"

type_synonym frame_lists = "nat \<Rightarrow> addr list"

definition stack_ok :: "pmm \<Rightarrow> nat \<Rightarrow> addr list \<Rightarrow> bool" where
  "stack_ok s i xs \<longleftrightarrow>
     frames_at (mem s) (stack (infos s i)) xs \<and> num_frames (infos s i) = of_nat (length xs) \<and>
     \<not> stack_lock (infos s i) \<and> distinct xs \<and> (\<forall>x \<in> set xs. psize i dvd unat x)"

definition pmm_inv :: "pmm \<Rightarrow> frame_lists \<Rightarrow> bool" where
  "pmm_inv s F \<longleftrightarrow>
     (\<forall>i < page_size_count. stack_ok s i (F i)) \<and>
     (\<forall>i < page_size_count. \<forall>j < page_size_count. \<forall>x \<in> set (F i). \<forall>y \<in> set (F j).
        (i, x) \<noteq> (j, y) \<longrightarrow> span i x \<inter> span j y = {})"

definition free_bytes :: "frame_lists \<Rightarrow> nat set" where
  "free_bytes F = (\<Union>i \<in> {..< page_size_count}. \<Union>x \<in> set (F i). span i x)"

lemma psize_eq: "i < page_size_count \<Longrightarrow> psize i = 2 ^ (12 + 9 * i)"
proof -
  assume "i < page_size_count"
  then have "i = 0 \<or> i = Suc 0 \<or> i = Suc (Suc 0)" by (auto simp: page_size_count_def)
  then show ?thesis by (auto simp: psize_def)
qed

lemma psize_pos [simp]: "0 < psize i"
  using page_sizes_pos [of i] by (simp add: psize_def word_less_nat_alt)

lemma psize_dvd: "i \<le> j \<Longrightarrow> j < page_size_count \<Longrightarrow> psize i dvd psize j"
  by (simp add: psize_eq le_imp_power_dvd)

lemma psize_mono: "i \<le> j \<Longrightarrow> j < page_size_count \<Longrightarrow> psize i \<le> psize j"
  using psize_dvd [of i j] by (simp add: dvd_imp_le)

lemma self_in_span: "unat x \<in> span i x"
  by (simp add: span_def)

lemma frames_at_frame: "x \<notin> set xs \<Longrightarrow> frames_at (m(x := y)) p xs = frames_at m p xs"
  by (induction xs arbitrary: p) auto

lemma stack_ok_length:
  assumes "stack_ok s i xs" and i: "i < page_size_count"
  shows "length xs < 2 ^ 64"
proof -
  from assms have d: "distinct xs" "\<forall>x \<in> set xs. psize i dvd unat x" by (auto simp: stack_ok_def)
  have "\<not> psize i dvd 1" using i by (simp add: psize_eq)
  then have "1 \<notin> set xs" using d(2) by fastforce
  then have "length (1 # xs) \<le> card (UNIV :: addr set)"
    using d(1) distinct_card [of "1 # xs"] card_mono [of UNIV "set (1 # xs)"] by simp
  then show ?thesis by (simp add: card_word)
qed

lemma stack_ok_empty:
  assumes "stack_ok s i xs" "i < page_size_count"
  shows "num_frames (infos s i) = 0 \<longleftrightarrow> xs = []"
proof -
  have "(of_nat (length xs) :: u64) = 0 \<longleftrightarrow> length xs = 0"
    using stack_ok_length [OF assms] of_nat_u64_eq [of "length xs" 0] by simp
  then show ?thesis using assms(1) by (simp add: stack_ok_def)
qed

section \<open>push and pop\<close>

lemma stack_info_unlocked: "\<not> stack_lock inf' \<Longrightarrow> inf'\<lparr>stack_lock := False\<rparr> = inf'"
  by (cases inf') simp

lemma instance_push_exec:
  assumes "\<not> stack_lock (infos s i)"
  shows "instance_push i x s =
    Inr (s\<lparr>mem := (mem s)(x := stack (infos s i)),
           infos := (infos s)(i := infos s i\<lparr>stack := x, num_frames := num_frames (infos s i) + 1\<rparr>)\<rparr>)"
  using assms by (cases "infos s i") (simp add: instance_push_def lock_stack_def unlock_stack_def set_info_def Let_def)

lemma instance_pop_exec:
  assumes "\<not> stack_lock (infos s i)" "num_frames (infos s i) \<noteq> 0"
  shows "instance_pop i s =
    Inr (s\<lparr>infos := (infos s)(i := infos s i\<lparr>stack := mem s (stack (infos s i)),
           num_frames := num_frames (infos s i) - 1\<rparr>)\<rparr>, stack (infos s i))"
  using assms
  by (cases "infos s i", subst instance_pop.simps)
    (simp add: lock_stack_def unlock_stack_def set_info_def take_top_def Let_def)

lemma pmm_inv_push:
  assumes inv: "pmm_inv s F" and i: "i < page_size_count" and x: "psize i dvd unat x"
    and fresh: "span i x \<inter> free_bytes F = {}"
  shows "\<exists>s'. instance_push i x s = Inr s' \<and> pmm_inv s' (F(i := x # F i)) \<and>
    free_frames s' = free_frames s \<and> used_frames s' = used_frames s \<and> sub_1M_top s' = sub_1M_top s \<and>
    sub_1M_bottom s' = sub_1M_bottom s"
proof -
  have new: "x \<notin> set (F j)" if "j < page_size_count" for j
  proof
    assume "x \<in> set (F j)"
    then have "span j x \<subseteq> free_bytes F" using that by (auto simp: free_bytes_def)
    then show False using fresh self_in_span [of x i] self_in_span [of x j] by blast
  qed
  let ?s = "s\<lparr>mem := (mem s)(x := stack (infos s i)),
           infos := (infos s)(i := infos s i\<lparr>stack := x, num_frames := num_frames (infos s i) + 1\<rparr>)\<rparr>"
  have "instance_push i x s = Inr ?s"
    using inv i by (intro instance_push_exec) (auto simp: pmm_inv_def stack_ok_def)
  moreover have "stack_ok ?s j ((F(i := x # F i)) j)" if "j < page_size_count" for j
    using inv that new [OF that] x by (auto simp: pmm_inv_def stack_ok_def frames_at_frame)
  moreover have "span i x \<inter> span j y = {}" if "j < page_size_count" "y \<in> set (F j)" for j y
    using fresh that by (auto simp: free_bytes_def)
  ultimately show ?thesis
    using inv by (auto simp: pmm_inv_def Int_commute)
qed

lemma free_bytes_push: "i < page_size_count \<Longrightarrow> free_bytes (F(i := x # F i)) = free_bytes F \<union> span i x"
proof -
  assume "i < page_size_count"
  then have A: "(\<Union>j \<in> {..< page_size_count}. f j) = f i \<union> (\<Union>j \<in> {..< page_size_count} - {i}. f j)"
    for f :: "nat \<Rightarrow> nat set" by auto
  show ?thesis unfolding free_bytes_def
    by (subst (1 2) A) auto
qed

lemma pmm_inv_accounting [simp]:
  "pmm_inv (s\<lparr>free_frames := f\<rparr>) F = pmm_inv s F" "pmm_inv (s\<lparr>used_frames := f\<rparr>) F = pmm_inv s F"
  "pmm_inv (s\<lparr>sub_1M_top := t\<rparr>) F = pmm_inv s F" "pmm_inv (s\<lparr>sub_1M_bottom := t\<rparr>) F = pmm_inv s F"
  by (simp_all add: pmm_inv_def stack_ok_def)

lemma pmm_inv_pop:
  assumes inv: "pmm_inv s F" and i: "i < page_size_count" and F: "F i = x # xs"
  shows "\<exists>s'. instance_pop i s = Inr (s', x) \<and> pmm_inv s' (F(i := xs)) \<and>
    free_frames s' = free_frames s \<and> used_frames s' = used_frames s \<and> mem s' = mem s"
proof -
  let ?s = "s\<lparr>infos := (infos s)(i := infos s i\<lparr>stack := mem s x, num_frames := num_frames (infos s i) - 1\<rparr>)\<rparr>"
  from inv i F have ok: "stack_ok s i (x # xs)" by (auto simp: pmm_inv_def)
  then have st: "stack (infos s i) = x" by (simp add: stack_ok_def)
  have "instance_pop i s = Inr (?s, x)"
    using instance_pop_exec [of s i] ok stack_ok_empty [OF ok i] st by (simp add: stack_ok_def)
  moreover have "stack_ok ?s j ((F(i := xs)) j)" if "j < page_size_count" for j
    using inv that F by (auto simp: pmm_inv_def stack_ok_def)
  moreover have "set ((F(i := xs)) j) \<subseteq> set (F j)" for j using F by auto
  ultimately show ?thesis
    using inv unfolding pmm_inv_def by (intro exI [of _ ?s]) (simp add: subset_iff)
qed

lemma pmm_pop_inv:
  assumes "pmm_inv p F" and "i < page_size_count" and "F i = x # xs"
  obtains p' where "pmm_pop i p = Inr (p', x)" "pmm_inv p' (F(i := xs))" "mem p' = mem p"
proof -
  from pmm_inv_pop [OF assms] obtain p1 where p1: "instance_pop i p = Inr (p1, x)" "pmm_inv p1 (F(i := xs))" "mem p1 = mem p" by auto
  then show thesis using that assms(2) by (simp add: pmm_pop_def)
qed

lemma pmm_inv_empty: "pmm_inv (pmm_init m) (\<lambda>_. [])"
  by (simp add: pmm_inv_def stack_ok_def pmm_init_def stack_info_init_def)

section \<open>Carving a region into frames\<close>

text \<open>
  The state of the loops over a free region from byte \<open>a\<close> to byte \<open>b\<close>: the bytes before \<open>start\<close> have
  become free frames, \<open>remaining\<close> bytes are left.
\<close>

definition carving :: "pmm \<Rightarrow> frame_lists \<Rightarrow> nat \<Rightarrow> nat \<Rightarrow> pmm \<times> u64 \<times> u64 \<Rightarrow> bool" where
  "carving s0 F a b = (\<lambda>(s, start, remaining).
     (\<exists>F'. pmm_inv s F' \<and> free_bytes F' = free_bytes F \<union> {a ..< unat start}) \<and>
     a \<le> unat start \<and> unat start + unat remaining = b \<and> sub_1M_top s = sub_1M_top s0 \<and>
     psize 0 dvd unat start \<and> {a ..< b} \<inter> free_bytes F = {} \<and> b < 2 ^ 64)"

text \<open>A frame of each size up to the \<open>n\<close>-th can start at \<open>start\<close>, or no longer fits.\<close>

definition placed :: "nat \<Rightarrow> pmm \<times> u64 \<times> u64 \<Rightarrow> bool" where
  "placed n = (\<lambda>(s, start, remaining). \<forall>j \<le> n. psize j dvd unat start \<or> unat remaining < psize j)"

lemma aligned_iff: "start mod page_sizes i = 0 \<longleftrightarrow> psize i dvd unat start"
  by (simp add: psize_def dvd_eq_mod_eq_0 unat_mod [symmetric] unat_eq_0 del: page_sizes.simps)

lemma fits_iff: "page_sizes i \<le> remaining \<longleftrightarrow> psize i \<le> unat remaining"
  by (simp add: psize_def word_le_nat_alt)

lemma dvd_step:
  assumes "j \<le> i" "i < page_size_count" "psize i dvd n"
  shows "psize j dvd n" "psize j dvd n + psize i"
  using assms psize_dvd [of j i] by (meson dvd_add dvd_trans)+

lemma placed_mono: "placed n st \<Longrightarrow> m \<le> n \<Longrightarrow> placed m st"
  by (cases st) (auto simp: placed_def)

lemma push_free_carving:
  assumes c: "carving s0 F a b (s, start, remaining)" and i: "i < page_size_count"
    and al: "psize i dvd unat start" and fit: "psize i \<le> unat remaining"
  shows "\<exists>s'. push_free i (s, start, remaining) = Inr (s', start + page_sizes i, remaining - page_sizes i) \<and>
    carving s0 F a b (s', start + page_sizes i, remaining - page_sizes i)"
    and "unat (start + page_sizes i) = unat start + psize i"
    and "unat (remaining - page_sizes i) = unat remaining - psize i"
proof -
  from c obtain F' where F': "pmm_inv s F'" "free_bytes F' = free_bytes F \<union> {a ..< unat start}"
    and r: "a \<le> unat start" "unat start + unat remaining = b" "sub_1M_top s = sub_1M_top s0"
    and apart: "{a ..< b} \<inter> free_bytes F = {}" and below: "b < 2 ^ 64" and al0: "psize 0 dvd unat start"
    by (auto simp: carving_def)
  show u1: "unat (start + page_sizes i) = unat start + psize i"
    using r fit below by (subst unat_plus_if') (auto simp: psize_def)
  show u2: "unat (remaining - page_sizes i) = unat remaining - psize i"
    using fit by (subst unat_sub) (auto simp: psize_def word_le_nat_alt)
  have "span i start \<inter> free_bytes F' = {}"
  proof -
    have "span i start \<subseteq> {unat start ..< b}" "{unat start ..< b} \<subseteq> {a ..< b}"
      using r fit by (auto simp: span_def)
    moreover have "{unat start ..< b} \<inter> {a ..< unat start} = {}" by auto
    ultimately show ?thesis using apart F'(2) by blast
  qed
  from pmm_inv_push [OF F'(1) i al this] obtain s1 where s1: "instance_push i start s = Inr s1"
    "pmm_inv s1 (F'(i := start # F' i))" "free_frames s1 = free_frames s" "sub_1M_top s1 = sub_1M_top s" by auto
  let ?s = "s1\<lparr>free_frames := (free_frames s1)(i := free_frames s1 i + 1)\<rparr>"
  have "free_bytes (F'(i := start # F' i)) = free_bytes F \<union> {a ..< unat (start + page_sizes i)}"
    using free_bytes_push [OF i, of F' start] F'(2) r(1) u1 by (auto simp: span_def)
  then have "carving s0 F a b (?s, start + page_sizes i, remaining - page_sizes i)"
    unfolding carving_def prod.case u1 u2 using s1 r fit u1 apart below dvd_step(2) [OF _ i al, of 0]
    by (intro conjI exI [of _ "F'(i := start # F' i)"]) simp_all
  then show "\<exists>s'. push_free i (s, start, remaining) = Inr (s', start + page_sizes i, remaining - page_sizes i) \<and>
    carving s0 F a b (s', start + page_sizes i, remaining - page_sizes i)"
    using s1(1) by (auto simp: push_free_def)
qed

lemma push_until_aligned_carving:
  assumes "carving s0 F a b st" "placed i st" "i + 1 < page_size_count"
  shows "\<exists>st'. push_until_aligned i st = Inr st' \<and> carving s0 F a b st' \<and> placed (i + 1) st'"
  using assms
proof (induction i st rule: push_until_aligned.induct)
  case (1 i s start remaining)
  show ?case
  proof (cases "start mod page_sizes (i + 1) \<noteq> 0 \<and> page_sizes i \<le> remaining")
    case True
    then have fit: "psize i \<le> unat remaining" by (simp add: fits_iff)
    with 1 have al: "psize i dvd unat start" by (auto simp: placed_def)
    from 1 have i: "i < page_size_count" by simp
    from push_free_carving [OF 1(2) i al fit] obtain s' where
      p: "push_free i (s, start, remaining) = Inr (s', start + page_sizes i, remaining - page_sizes i)"
         "carving s0 F a b (s', start + page_sizes i, remaining - page_sizes i)" by auto
    have "placed i (s', start + page_sizes i, remaining - page_sizes i)"
      using push_free_carving(2) [OF 1(2) i al fit] dvd_step(2) [OF _ i al] by (simp add: placed_def)
    from 1(1) [OF True p(1) p(2) this 1(4)] p(1) True show ?thesis
      by (subst push_until_aligned.simps) simp
  next
    case False
    then have "psize (i + 1) dvd unat start \<or> unat remaining < psize i" by (auto simp: aligned_iff fits_iff)
    moreover have "psize i \<le> psize (i + 1)" using 1(4) by (intro psize_mono) auto
    ultimately have "placed (i + 1) (s, start, remaining)"
      using 1(3) by (auto simp: placed_def le_Suc_eq)
    with 1(2) show ?thesis by (subst push_until_aligned.simps, subst if_not_P [OF False]) simp
  qed
qed

lemma push_while_fits_carving:
  assumes "carving s0 F a b st" "placed i st" "i < page_size_count"
  shows "\<exists>st'. push_while_fits i st = Inr st' \<and> carving s0 F a b st' \<and> placed i st' \<and> unat (snd (snd st')) < psize i"
  using assms
proof (induction i st rule: push_while_fits.induct)
  case (1 i s start remaining)
  show ?case
  proof (cases "page_sizes i \<le> remaining")
    case True
    then have fit: "psize i \<le> unat remaining" by (simp add: fits_iff)
    with 1 have al: "psize i dvd unat start" by (auto simp: placed_def)
    from push_free_carving [OF 1(2) 1(4) al fit] obtain s' where
      p: "push_free i (s, start, remaining) = Inr (s', start + page_sizes i, remaining - page_sizes i)"
         "carving s0 F a b (s', start + page_sizes i, remaining - page_sizes i)" by auto
    have "placed i (s', start + page_sizes i, remaining - page_sizes i)"
      using push_free_carving(2) [OF 1(2) 1(4) al fit] dvd_step(2) [OF _ 1(4) al] by (simp add: placed_def)
    from 1(1) [OF True p(1) p(2) this 1(4)] p(1) True show ?thesis
      by (subst push_while_fits.simps) simp
  next
    case False
    with 1 show ?thesis by (subst push_while_fits.simps) (simp add: fits_iff)
  qed
qed

lemma carve_carving:
  assumes inv: "pmm_inv s F" and al: "psize 0 dvd unat start" and b: "unat start + unat sz < 2 ^ 64"
    and apart: "{unat start ..< unat start + unat sz} \<inter> free_bytes F = {}"
  shows "\<exists>s' start' remaining F'. carve start sz s = Inr (s', start', remaining) \<and> pmm_inv s' F' \<and>
    free_bytes F' = free_bytes F \<union> {unat start ..< unat start + unat sz - unat remaining} \<and>
    unat remaining < psize 0 \<and> unat remaining \<le> unat sz \<and> sub_1M_top s' = sub_1M_top s \<and>
    psize 0 dvd unat sz - unat remaining"
proof -
  let ?C = "carving s F (unat start) (unat start + unat sz)"
  have c0: "?C (s, start, sz)" "placed 0 (s, start, sz)"
    using assms by (auto simp: carving_def placed_def)
  from push_until_aligned_carving [OF c0] obtain st1 where st1: "push_until_aligned 0 (s, start, sz) = Inr st1"
    "?C st1" "placed 1 st1" by (auto simp: page_size_count_def)
  from push_until_aligned_carving [OF st1(2,3)] obtain st2 where st2: "push_until_aligned 1 st1 = Inr st2"
    "?C st2" "placed 2 st2" by (auto simp: page_size_count_def numeral_2_eq_2)
  from push_while_fits_carving [OF st2(2,3)] obtain st3 where st3: "push_while_fits 2 st2 = Inr st3"
    "?C st3" "placed 2 st3" by (auto simp: page_size_count_def)
  have p3: "placed 1 st3" by (rule placed_mono [OF st3(3)]) simp
  from push_while_fits_carving [OF st3(2) p3] obtain st4 where st4: "push_while_fits 1 st3 = Inr st4"
    "?C st4" "placed 1 st4" by (auto simp: page_size_count_def)
  have p4: "placed 0 st4" by (rule placed_mono [OF st4(3)]) simp
  from push_while_fits_carving [OF st4(2) p4] obtain s' start' remaining where
    st5: "push_while_fits 0 st4 = Inr (s', start', remaining)" "?C (s', start', remaining)" "unat remaining < psize 0"
    by (auto simp: page_size_count_def)
  have "carve start sz s = Inr (s', start', remaining)"
    using st1(1) st2(1) st3(1) st4(1) st5(1)
    by (simp add: carve_def page_size_count_def upt_rec numeral_2_eq_2 numeral_3_eq_3)
  moreover have "psize 0 dvd unat sz - unat remaining"
  proof -
    have "unat sz - unat remaining = unat start' - unat start" "psize 0 dvd unat start'"
      using st5(2) by (auto simp: carving_def)
    with al show ?thesis by (simp add: dvd_diff_nat)
  qed
  moreover have "unat start' = unat start + unat sz - unat remaining" using st5(2) by (auto simp: carving_def)
  ultimately show ?thesis using st5(2,3) by (auto simp: carving_def)
qed

section \<open>The memory map\<close>

definition region :: "memory_map_entry \<Rightarrow> nat set" where
  "region e = {unat (physical_start e) ..< unat (physical_start e) + unat (region_length e)}"

definition free_memory :: "memory_map_entry list \<Rightarrow> nat set" where
  "free_memory mm = (\<Union>e \<in> {e \<in> set mm. region_type e = free}. region e)"

text \<open>The entries start at page boundaries, end below \<open>2^64\<close> and do not overlap.\<close>

definition map_ok :: "memory_map_entry list \<Rightarrow> bool" where
  "map_ok mm \<longleftrightarrow>
     (\<forall>e \<in> set mm. psize 0 dvd unat (physical_start e) \<and>
        unat (physical_start e) + unat (region_length e) < 2 ^ 64) \<and>
     sorted_wrt (\<lambda>e f. region e \<inter> region f = {}) mm"

text \<open>Entries that are whole pages, at least one each, and entries above the first MiB.\<close>

definition whole_pages :: "memory_map_entry list \<Rightarrow> bool" where
  "whole_pages mm \<longleftrightarrow> (\<forall>e \<in> set mm. region_length e \<noteq> 0 \<and> psize 0 dvd unat (region_length e))"

definition high :: "memory_map_entry list \<Rightarrow> bool" where
  "high mm \<longleftrightarrow> (\<forall>e \<in> set mm. mib \<le> physical_start e)"

text \<open>
  The first entries that start below 1 MiB: those that continue each other, with the same type and attributes. They are a
  single range for the code, which it sets aside for the start of the other cores, up to 1 MiB.
\<close>

definition joins :: "memory_map_entry \<Rightarrow> memory_map_entry \<Rightarrow> bool" where
  "joins e f \<longleftrightarrow> region_type e = region_type f \<and> attributes e = attributes f \<and>
     unat (physical_start f) = unat (physical_start e) + unat (region_length e)"

fun contiguous :: "memory_map_entry list \<Rightarrow> bool" where
  "contiguous (e # f # es) = (joins e f \<and> contiguous (f # es))"
| "contiguous es = True"

definition low_run :: "memory_map_entry list \<Rightarrow> memory_map_entry list \<Rightarrow> bool" where
  "low_run mm run \<longleftrightarrow> (\<exists>before rest. mm = before @ run @ rest \<and> high before \<and> run \<noteq> [] \<and> physical_start (hd run) < mib \<and>
     contiguous run \<and> (rest \<noteq> [] \<longrightarrow> \<not> joins (last run) (hd rest)))"

definition run_length :: "memory_map_entry list \<Rightarrow> nat" where
  "run_length run = sum_list (map (\<lambda>e. unat (region_length e)) run)"

text \<open>
  What is not handed out of it: all of it if it is at most 1 MiB long, and otherwise what lies below 1 MiB, and as
  many bytes at its end as lie before its start.
\<close>

definition withheld :: "memory_map_entry list \<Rightarrow> nat set" where
  "withheld run =
     (let lo = unat (physical_start (hd run)); n = run_length run
      in if n \<le> 2 ^ 20 then {lo ..< lo + n} else {lo ..< 2 ^ 20} \<union> {n ..< lo + n})"

lemma merge_run_region:
  assumes "merge_run start sz e rest = (sz', e', rest')"
    and "map_ok rest" "unat start + unat sz < 2 ^ 64"
  shows "\<exists>run. rest = run @ rest' \<and> region_type e' = region_type e \<and> (\<forall>f \<in> set run. region_type f = region_type e) \<and>
    unat start + unat sz' < 2 ^ 64 \<and>
    {unat start ..< unat start + unat sz'} = {unat start ..< unat start + unat sz} \<union> (\<Union>f \<in> set run. region f) \<and>
    (psize 0 dvd unat sz \<and> whole_pages rest \<longrightarrow> psize 0 dvd unat sz') \<and> (\<forall>f \<in> set run. start \<le> physical_start f)"
  using assms
proof (induction start sz e rest rule: merge_run.induct)
  case (1 start sz e)
  then show ?case by auto
next
  case (2 start sz e n rest)
  show ?case
  proof (cases "region_type e = region_type n \<and> attributes e = attributes n \<and> start + sz = physical_start n")
    case True
    then have st: "unat (physical_start n) = unat start + unat sz"
      using 2(4) by (subst conjunct2 [OF conjunct2 [OF True], symmetric], subst unat_plus_if') simp
    from 2(3) have n: "unat (physical_start n) + unat (region_length n) < 2 ^ 64" "map_ok rest"
      by (auto simp: map_ok_def)
    then have sz: "unat (sz + region_length n) = unat sz + unat (region_length n)"
      using st by (subst unat_plus_if') simp
    have "unat start + unat (sz + region_length n) < 2 ^ 64" using sz st n by simp
    with 2(1) [OF True _ n(2)] 2(2) True obtain run where run: "rest = run @ rest'" "region_type e' = region_type n"
      "\<forall>f \<in> set run. region_type f = region_type n" "unat start + unat sz' < 2 ^ 64"
      "{unat start ..< unat start + unat sz'} =
        {unat start ..< unat start + unat (sz + region_length n)} \<union> (\<Union>f \<in> set run. region f)"
      "psize 0 dvd unat (sz + region_length n) \<and> whole_pages rest \<longrightarrow> psize 0 dvd unat sz'" "\<forall>f \<in> set run. start \<le> physical_start f"
      by auto
    have "{unat start ..< unat start + unat (sz + region_length n)} = {unat start ..< unat start + unat sz} \<union> region n"
      using sz st by (auto simp: region_def)
    with run(5) have "{unat start ..< unat start + unat sz'} =
        {unat start ..< unat start + unat sz} \<union> (\<Union>f \<in> set (n # run). region f)" by auto
    moreover have "psize 0 dvd unat sz \<and> whole_pages (n # rest) \<longrightarrow> psize 0 dvd unat sz'"
      using run(6) sz by (auto simp: whole_pages_def dvd_add)
    moreover have "start \<le> physical_start n" using st by (simp add: word_le_nat_alt)
    ultimately show ?thesis using run(1-4,7) True by (intro exI [of _ "n # run"]) auto
  next
    case False
    with 2 show ?thesis by auto
  qed
qed

lemma add_region_inv:
  assumes "pmm_inv s F" "psize 0 dvd unat start" "unat start + unat sz < 2 ^ 64"
    and "{unat start ..< unat start + unat sz} \<inter> free_bytes F = {}"
  shows "\<exists>s' F'. add_region start sz e s = Inr s' \<and> pmm_inv s' F' \<and> free_bytes F \<subseteq> free_bytes F' \<and>
    free_bytes F' \<subseteq> free_bytes F \<union> (if region_type e = free then {unat start ..< unat start + unat sz} else {}) \<and>
    (psize 0 dvd unat sz \<longrightarrow>
      free_bytes F' = free_bytes F \<union> (if region_type e = free then {unat start ..< unat start + unat sz} else {}))"
proof (cases "region_type e = free")
  case True
  from carve_carving [OF assms] obtain s' start' r F' where c: "carve start sz s = Inr (s', start', r)" "pmm_inv s' F'"
    "free_bytes F' = free_bytes F \<union> {unat start ..< unat start + unat sz - unat r}" "unat r < psize 0"
    "unat r \<le> unat sz" "psize 0 dvd unat sz - unat r" by auto
  have "unat r = 0" if "psize 0 dvd unat sz"
  proof -
    have "psize 0 dvd unat sz - (unat sz - unat r)" using that c(6) by (rule dvd_diff_nat)
    with c(4,5) show ?thesis by (auto dest: dvd_imp_le)
  qed
  with c True show ?thesis
    by (intro exI [of _ s'] exI [of _ F']) (auto simp: add_region_def)
next
  case False
  with assms(1) show ?thesis by (auto simp: add_region_def)
qed

lemma map_ok_append: "map_ok (xs @ ys) \<longleftrightarrow> map_ok xs \<and> map_ok ys \<and> (\<forall>x \<in> set xs. \<forall>y \<in> set ys. region x \<inter> region y = {})"
  by (auto simp: map_ok_def sorted_wrt_append)

lemma map_ok_Cons: "map_ok (x # ys) \<longleftrightarrow> map_ok [x] \<and> map_ok ys \<and> (\<forall>y \<in> set ys. region x \<inter> region y = {})"
  using map_ok_append [of "[x]" ys] by simp

text \<open>
  The bytes that are kept back from here on: none once a range below 1 MiB has been found, which the end of that range
  being set shows, or if there is none.
\<close>

definition keeps_back :: "u64 \<Rightarrow> memory_map_entry list \<Rightarrow> nat set \<Rightarrow> bool" where
  "keeps_back t mm K \<longleftrightarrow> ((t \<noteq> 0 \<or> high mm) \<and> K = {}) \<or> (t = 0 \<and> (\<exists>run. low_run mm run \<and> K = withheld run))"

lemma keeps_back_found [simp]: "t \<noteq> 0 \<Longrightarrow> keeps_back t mm K \<longleftrightarrow> K = {}"
  by (auto simp: keeps_back_def)

lemma contiguous_runs:
  assumes "contiguous (e # run)" "map_ok (e # run @ rest)" "rest \<noteq> [] \<longrightarrow> \<not> joins (last (e # run)) (hd rest)"
    and "unat start + unat sz = unat (physical_start e) + unat (region_length e)"
  shows "\<exists>sz' e'. merge_run start sz e (run @ rest) = (sz', e', rest) \<and> unat sz' = unat sz + run_length run"
  using assms
proof (induction run arbitrary: e sz)
  case Nil
  then have "unat (start + sz) = unat start + unat sz" by (subst unat_plus_if') (auto simp: map_ok_def)
  with Nil show ?case by (cases rest) (auto simp: joins_def run_length_def word_unat_eq_iff)
next
  case (Cons f run)
  from Cons.prems have f: "joins e f" "contiguous (f # run)" "unat (physical_start f) + unat (region_length f) < 2 ^ 64" "map_ok (f # run @ rest)"
    by (auto simp: map_ok_def)
  have s: "unat start + unat sz = unat (physical_start f)" using f(1) Cons.prems(4) by (simp add: joins_def)
  then have st: "start + sz = physical_start f" using f(3) by (simp add: word_unat_eq_iff unat_plus_if')
  have sz: "unat (sz + region_length f) = unat sz + unat (region_length f)" using s f(3) by (subst unat_plus_if') simp
  with s have "unat start + unat (sz + region_length f) = unat (physical_start f) + unat (region_length f)" by simp
  from Cons.IH [OF f(2,4) _ this] Cons.prems(3) f(1) st sz show ?case by (auto simp: joins_def run_length_def)
qed

lemma low_run_first:
  assumes "low_run (e # rest) run" "physical_start e < mib" "map_ok (e # rest)"
    and "merge_run (physical_start e) (region_length e) e rest = (sz, e', rest')"
  shows "hd run = e" "run_length run = unat sz" "run_length run \<ge> unat (region_length e)"
proof -
  from assms(1) obtain before after where r: "e # rest = before @ run @ after" "high before" "run \<noteq> []" "contiguous run"
      "after \<noteq> [] \<longrightarrow> \<not> joins (last run) (hd after)" by (auto simp: low_run_def)
  from r(1,2) assms(2) have "before = []" by (cases before) (auto simp: high_def)
  with r obtain run' where run': "run = e # run'" "rest = run' @ after" by (cases run) auto
  then show "hd run = e" "run_length run \<ge> unat (region_length e)" by (simp_all add: run_length_def)
  have "\<exists>sz' e'. merge_run (physical_start e) (region_length e) e (run' @ after) = (sz', e', after) \<and> unat sz' = unat (region_length e) + run_length run'"
    by (rule contiguous_runs) (use r assms(3) run' in auto)
  with assms(4) run' show "run_length run = unat sz" by (auto simp: run_length_def)
qed

lemma contiguous_region:
  "run \<noteq> [] \<Longrightarrow> contiguous run \<Longrightarrow> (\<Union>f \<in> set run. region f) = {unat (physical_start (hd run)) ..< unat (physical_start (hd run)) + run_length run}"
  by (induction run rule: contiguous.induct) (auto simp: joins_def region_def run_length_def)

lemma withheld_in_run:
  assumes "low_run mm run" shows "withheld run \<subseteq> (\<Union>f \<in> set run. region f)" "set run \<subseteq> set mm"
proof -
  from assms have r: "run \<noteq> []" "contiguous run" "unat (physical_start (hd run)) < 2 ^ 20"
    by (auto simp: low_run_def mib_def word_less_nat_alt)
  show "withheld run \<subseteq> (\<Union>f \<in> set run. region f)" unfolding contiguous_region [OF r(1,2)] using r(3) by (auto simp: withheld_def Let_def)
  show "set run \<subseteq> set mm" using assms by (auto simp: low_run_def)
qed

lemma low_run_later:
  assumes "low_run (first @ rest) run" and "high first"
  shows "low_run rest run"
proof -
  from assms(1) obtain before after where r: "first @ rest = before @ run @ after" "high before" "run \<noteq> []" "physical_start (hd run) < mib"
      "contiguous run" "after \<noteq> [] \<longrightarrow> \<not> joins (last run) (hd after)" by (auto simp: low_run_def)
  from r(1) obtain us where "(first = before @ us \<and> us @ rest = run @ after) \<or> (first @ us = before \<and> rest = us @ run @ after)"
    by (auto simp: append_eq_append_conv2)
  then show ?thesis
  proof
    assume u: "first = before @ us \<and> us @ rest = run @ after"
    have "us = []"
    proof (rule ccontr)
      assume "us \<noteq> []"
      with u r(3) have "hd us = hd run" "hd us \<in> set first" by (auto dest!: arg_cong [where f = hd])
      with assms(2) r(4) show False by (auto simp: high_def)
    qed
    with u r show ?thesis unfolding low_run_def high_def by (intro exI [of _ "[]"] exI [of _ after]) auto
  next
    assume "first @ us = before \<and> rest = us @ run @ after"
    with r show ?thesis unfolding low_run_def high_def by (intro exI [of _ us] exI [of _ after]) auto
  qed
qed

definition initialized :: "memory_map_entry list \<Rightarrow> pmm \<Rightarrow> frame_lists \<Rightarrow> bool" where
  "initialized mm s F \<longleftrightarrow> (\<exists>s' F'. initialize mm s = Inr s' \<and> pmm_inv s' F' \<and> free_bytes F \<subseteq> free_bytes F' \<and>
     free_bytes F' \<subseteq> free_bytes F \<union> free_memory mm \<and>
     (\<forall>K. whole_pages mm \<and> keeps_back (sub_1M_top s) mm K \<longrightarrow> free_bytes F' = free_bytes F \<union> (free_memory mm - K)))"

lemma first_run:
  assumes m: "merge_run (physical_start e) (region_length e) e rest = (sz, e', rest')" and ok: "map_ok (e # rest)"
    and A: "A = {unat (physical_start e) ..< unat (physical_start e) + unat sz}"
  shows "psize 0 dvd unat (physical_start e)" and "unat (physical_start e) + unat sz < 2 ^ 64"
    and "free_memory (e # rest) = (if region_type e' = free then A else {}) \<union> free_memory rest'"
    and "map_ok rest'" and "\<forall>f \<in> set rest'. A \<inter> region f = {}" and "set rest' \<subseteq> set rest"
    and "A \<subseteq> (\<Union>f \<in> set (e # rest). region f)" and "whole_pages (e # rest) \<Longrightarrow> psize 0 dvd unat sz"
    and "\<exists>run. e # rest = (e # run) @ rest' \<and> (mib \<le> physical_start e \<longrightarrow> high (e # run))"
proof -
  from ok have e: "unat (physical_start e) + unat (region_length e) < 2 ^ 64" and mr: "map_ok rest"
    and al: "psize 0 dvd unat (physical_start e)"
    by (auto simp: map_ok_def)
  from merge_run_region [OF m mr e] A obtain run where run: "rest = run @ rest'" "region_type e' = region_type e"
    "\<forall>f \<in> set run. region_type f = region_type e" and finish: "unat (physical_start e) + unat sz < 2 ^ 64"
    and A': "A = region e \<union> (\<Union>f \<in> set run. region f)"
    and whole: "psize 0 dvd unat (region_length e) \<and> whole_pages rest \<longrightarrow> psize 0 dvd unat sz"
    and after: "\<forall>f \<in> set run. physical_start e \<le> physical_start f"
    by (auto simp: region_def)
  show "psize 0 dvd unat (physical_start e)" by (rule al)
  show "unat (physical_start e) + unat sz < 2 ^ 64" by (rule finish)
  show "free_memory (e # rest) = (if region_type e' = free then A else {}) \<union> free_memory rest'"
    using run unfolding A' free_memory_def by (cases "region_type e = free") auto
  show "map_ok rest'" "\<forall>f \<in> set rest'. A \<inter> region f = {}"
    using iffD1 [OF map_ok_Cons ok] mr unfolding A' unfolding run(1) map_ok_append by (simp_all, blast+)
  show "set rest' \<subseteq> set rest" "A \<subseteq> (\<Union>f \<in> set (e # rest). region f)" using run(1) by (auto simp: A')
  show "whole_pages (e # rest) \<Longrightarrow> psize 0 dvd unat sz" using whole by (simp add: whole_pages_def)
  show "\<exists>run. e # rest = (e # run) @ rest' \<and> (mib \<le> physical_start e \<longrightarrow> high (e # run))"
    using run(1) after by (intro exI [of _ run]) (auto simp: high_def intro: order_trans)
qed

lemma initialized_continue:
  assumes mem: "free_memory mm = B \<union> free_memory rest'" and B: "\<forall>f \<in> set rest'. B \<inter> region f = {}"
    and sub: "set rest' \<subseteq> set mm" and F: "\<forall>f \<in> set rest'. region f \<inter> free_bytes F = {}"
    and F1: "free_bytes F \<subseteq> free_bytes F1" "free_bytes F1 \<subseteq> free_bytes F \<union> B"
    and eq: "\<And>K. whole_pages mm \<Longrightarrow> keeps_back (sub_1M_top s) mm K \<Longrightarrow> \<exists>K'. keeps_back (sub_1M_top s1) rest' K' \<and>
        free_bytes F1 = free_bytes F \<union> (B - K) \<and> free_memory rest' - K' = free_memory rest' - K"
    and cont: "initialize mm s = initialize rest' s1"
      "\<forall>f \<in> set rest'. region f \<inter> free_bytes F1 = {} \<Longrightarrow> initialized rest' s1 F1"
  shows "initialized mm s F"
proof -
  have "\<forall>f \<in> set rest'. region f \<inter> free_bytes F1 = {}" using F B F1(2) by blast
  with cont(2) obtain s' F' where r: "initialize rest' s1 = Inr s'" "pmm_inv s' F'" "free_bytes F1 \<subseteq> free_bytes F'"
    "free_bytes F' \<subseteq> free_bytes F1 \<union> free_memory rest'"
    "\<And>K. whole_pages rest' \<and> keeps_back (sub_1M_top s1) rest' K \<Longrightarrow> free_bytes F' = free_bytes F1 \<union> (free_memory rest' - K)"
    by (auto simp: initialized_def)
  have "free_bytes F' = free_bytes F \<union> (B \<union> free_memory rest' - K)" if K: "whole_pages mm" "keeps_back (sub_1M_top s) mm K" for K
  proof -
    have "whole_pages rest'" using K(1) sub by (auto simp: whole_pages_def)
    with eq [OF K] r(5) obtain K' where "free_bytes F' = free_bytes F1 \<union> (free_memory rest' - K')" "free_bytes F1 = free_bytes F \<union> (B - K)"
      "free_memory rest' - K' = free_memory rest' - K" by blast
    then show ?thesis by blast
  qed
  moreover have "free_bytes F \<subseteq> free_bytes F'" "free_bytes F' \<subseteq> free_bytes F \<union> (B \<union> free_memory rest')"
    using r(3,4) F1(1,2) by blast+
  ultimately show ?thesis using r(1,2) cont(1) unfolding initialized_def mem by auto
qed

lemma each_keeps:
  assumes "each f xs st = Inr st'" and "\<And>x st st'. f x st = Inr st' \<Longrightarrow> g st' = g st"
  shows "g st' = g st"
  using assms(1)
proof (induction xs arbitrary: st)
  case (Cons x xs)
  then show ?case using assms(2) by (auto simp: bnd_Inr_iff)
qed simp

lemma push_loops_top:
  "push_until_aligned i st = Inr st' \<Longrightarrow> sub_1M_top (fst st') = sub_1M_top (fst st)"
  "push_while_fits i st = Inr st' \<Longrightarrow> sub_1M_top (fst st') = sub_1M_top (fst st)"
proof -
  have top: "push_free i st = Inr st' \<Longrightarrow> sub_1M_top (fst st') = sub_1M_top (fst st)" for i st st'
    by (auto simp: push_free_def instance_push_def lock_stack_def unlock_stack_def set_info_def bnd_Inr_iff Let_def split: prod.splits if_splits)
  show "push_until_aligned i st = Inr st' \<Longrightarrow> sub_1M_top (fst st') = sub_1M_top (fst st)"
  proof (induction i st rule: push_until_aligned.induct)
    case (1 i s start remaining)
    then show ?case unfolding push_until_aligned.simps [of i s start remaining] by (fastforce simp: bnd_Inr_iff dest: top split: if_splits)
  qed
  show "push_while_fits i st = Inr st' \<Longrightarrow> sub_1M_top (fst st') = sub_1M_top (fst st)"
  proof (induction i st rule: push_while_fits.induct)
    case (1 i s start remaining)
    then show ?case unfolding push_while_fits.simps [of i s start remaining] by (fastforce simp: bnd_Inr_iff dest: top split: if_splits)
  qed
qed

lemma add_region_top:
  assumes "add_region start sz e s = Inr s'" shows "sub_1M_top s' = sub_1M_top s"
proof -
  have "sub_1M_top (fst st) = sub_1M_top s" if "carve start sz s = Inr st" for st
  proof -
    from that obtain st1 where st1: "each push_until_aligned [0 ..< page_size_count - 1] (s, start, sz) = Inr st1"
        "each push_while_fits (rev [0 ..< page_size_count]) st1 = Inr st" by (auto simp: carve_def bnd_Inr_iff)
    from each_keeps [where g = "\<lambda>st. sub_1M_top (fst st)", OF st1(1) push_loops_top(1)]
      each_keeps [where g = "\<lambda>st. sub_1M_top (fst st)", OF st1(2) push_loops_top(2)] show ?thesis by simp
  qed
  with assms show ?thesis by (auto simp: add_region_def bnd_Inr_iff split: if_splits)
qed

lemma mib_page: "psize 0 dvd unat mib"
  by (simp add: psize_def mib_def)

text \<open>What is left for the rest of the map after its first range.\<close>

lemma keeps_back_later:
  assumes "keeps_back t (first @ rest) K" and "t = 0 \<Longrightarrow> high first"
  shows "keeps_back t rest K \<and> (\<forall>A. (\<forall>f \<in> set rest. A \<inter> region f = {}) \<longrightarrow> A \<inter> K = {})"
proof (cases "K = {} \<and> (t \<noteq> 0 \<or> high (first @ rest))")
  case True
  then show ?thesis by (auto simp: keeps_back_def high_def)
next
  case False
  with assms obtain run where run: "t = 0" "low_run rest run" "K = withheld run"
    using low_run_later [of first rest] by (auto simp: keeps_back_def)
  then show ?thesis using withheld_in_run [OF run(2)] by (auto simp: keeps_back_def)
qed

lemma keeps_back_first:
  assumes "keeps_back 0 (e # rest) K" "physical_start e < mib" "map_ok (e # rest)" "whole_pages (e # rest)"
    and "merge_run (physical_start e) (region_length e) e rest = (sz, e', rest')"
  shows "sz \<noteq> 0" and "K = (if sz \<le> mib then {unat (physical_start e) ..< unat (physical_start e) + unat sz}
      else {unat (physical_start e) ..< unat mib} \<union> {unat sz ..< unat (physical_start e) + unat sz})"
proof -
  have "\<not> high (e # rest)" using assms(2) by (auto simp: high_def)
  with assms(1) obtain run where run: "low_run (e # rest) run" "K = withheld run" by (auto simp: keeps_back_def)
  note f = low_run_first [OF run(1) assms(2,3,5)]
  have "unat (region_length e) \<noteq> 0" using assms(4) by (auto simp: whole_pages_def unat_eq_0)
  with f(2,3) show "sz \<noteq> 0" by auto
  show "K = (if sz \<le> mib then {unat (physical_start e) ..< unat (physical_start e) + unat sz}
      else {unat (physical_start e) ..< unat mib} \<union> {unat sz ..< unat (physical_start e) + unat sz})"
    unfolding run(2) withheld_def f(1,2) Let_def by (simp add: mib_def word_le_nat_alt)
qed

lemma initialize_inv:
  assumes "pmm_inv s F" "map_ok mm" "\<forall>e \<in> set mm. region e \<inter> free_bytes F = {}"
  shows "initialized mm s F"
  using assms
proof (induction mm s arbitrary: F rule: initialize.induct)
  case (1 s)
  then show ?case by (auto simp: initialized_def free_memory_def)
next
  case (2 e rest s)
  let ?start = "physical_start e"
  obtain sz e' rest' where m: "merge_run ?start (region_length e) e rest = (sz, e', rest')"
    by (metis prod_cases3)
  define A where "A = {unat ?start ..< unat ?start + unat sz}"
  define B where "B = (if region_type e' = free then A else {})"
  note run = first_run [OF m "2.prems"(2) A_def]
  have AF: "A \<inter> free_bytes F = {}" using run(7) "2.prems"(3) by blast
  have F: "\<forall>f \<in> set rest'. region f \<inter> free_bytes F = {}" using run(6) "2.prems"(3) by auto
  have B: "\<forall>f \<in> set rest'. B \<inter> region f = {}" "set rest' \<subseteq> set (e # rest)" using run(5,6) by (auto simp: B_def)
  have Ar: "A \<inter> free_memory rest' = {}" using run(5) by (auto simp: free_memory_def)
  note continue = initialized_continue [OF run(3) [folded B_def] B F]
  show ?case
  proof (cases "?start < mib \<and> sub_1M_top s = 0")
    case low: True
    note first = keeps_back_first [OF _ _ "2.prems"(2) _ m]
    show ?thesis
    proof (cases "sz \<le> mib")
      case True
      let ?s = "s\<lparr>sub_1M_bottom := ?start, sub_1M_top := sz\<rparr>"
      have "initialize (e # rest) s = initialize rest' ?s" using low m True by (simp add: initialize.simps)
      moreover have "initialized rest' ?s F" if "\<forall>f \<in> set rest'. region f \<inter> free_bytes F = {}"
        using "2.IH"(1) [OF refl m [symmetric] refl refl low refl True _ run(4) that] "2.prems"(1) by simp
      moreover have "\<exists>K'. keeps_back (sub_1M_top ?s) rest' K' \<and> free_bytes F = free_bytes F \<union> (B - K) \<and> free_memory rest' - K' = free_memory rest' - K"
        if "whole_pages (e # rest)" "keeps_back (sub_1M_top s) (e # rest) K" for K
        using first [of K] that low True Ar by (auto simp: A_def B_def)
      ultimately show ?thesis using continue [of F s ?s] by blast
    next
      case False
      let ?s = "s\<lparr>sub_1M_bottom := ?start, sub_1M_top := mib\<rparr>"
      have u: "unat (sz - mib) = unat sz - unat mib" "unat ?start < unat mib" "unat mib < unat sz"
        using False low by (auto simp: unat_sub word_le_nat_alt word_less_nat_alt)
      then have sub: "{unat mib ..< unat mib + unat (sz - mib)} \<subseteq> A" by (auto simp: A_def)
      with AF have "{unat mib ..< unat mib + unat (sz - mib)} \<inter> free_bytes F = {}" by blast
      then obtain s1 F1 where s1: "add_region mib (sz - mib) e' ?s = Inr s1" "pmm_inv s1 F1" "free_bytes F \<subseteq> free_bytes F1"
        "free_bytes F1 \<subseteq> free_bytes F \<union> (if region_type e' = free then {unat mib ..< unat mib + unat (sz - mib)} else {})"
        "psize 0 dvd unat (sz - mib) \<longrightarrow>
          free_bytes F1 = free_bytes F \<union> (if region_type e' = free then {unat mib ..< unat mib + unat (sz - mib)} else {})"
        using add_region_inv [of ?s F mib "sz - mib" e'] "2.prems"(1) mib_page run(2) u by auto
      have F1: "free_bytes F1 \<subseteq> free_bytes F \<union> B" using s1(4) sub by (auto simp: B_def split: if_splits)
      have top: "sub_1M_top s1 \<noteq> 0" using add_region_top [OF s1(1)] by (simp add: mib_def)
      have "\<exists>K'. keeps_back (sub_1M_top s1) rest' K' \<and> free_bytes F1 = free_bytes F \<union> (B - K) \<and> free_memory rest' - K' = free_memory rest' - K"
        if K: "whole_pages (e # rest)" "keeps_back (sub_1M_top s) (e # rest) K" for K
      proof -
        have "K = {unat ?start ..< unat mib} \<union> {unat sz ..< unat ?start + unat sz}" using first(2) [of K] K low False by auto
        then have "K \<subseteq> A" "A - K = {unat mib ..< unat mib + unat (sz - mib)}" using u by (auto simp: A_def)
        moreover have "psize 0 dvd unat (sz - mib)" unfolding u(1) using run(8) [OF K(1)] mib_page by (rule dvd_diff_nat)
        ultimately show ?thesis using s1(5) Ar top by (auto simp: B_def)
      qed
      moreover have "initialize (e # rest) s = initialize rest' s1"
        using low False m s1(1) by (simp add: initialize.simps)
      ultimately show ?thesis using continue [OF s1(3) F1] "2.IH"(2) [OF refl m [symmetric] refl refl low refl False s1(1,2) run(4)] by blast
    qed
  next
    case False
    from add_region_inv [OF "2.prems"(1) run(1,2), of e', folded A_def, folded B_def] AF obtain s1 F1 where s1: "add_region ?start sz e' s = Inr s1"
      "pmm_inv s1 F1" "free_bytes F \<subseteq> free_bytes F1" "free_bytes F1 \<subseteq> free_bytes F \<union> B"
      "psize 0 dvd unat sz \<longrightarrow> free_bytes F1 = free_bytes F \<union> B" by auto
    obtain first where first: "e # rest = first @ rest'" "mib \<le> ?start \<longrightarrow> high first" using run(9) by blast
    have "\<exists>K'. keeps_back (sub_1M_top s1) rest' K' \<and> free_bytes F1 = free_bytes F \<union> (B - K) \<and> free_memory rest' - K' = free_memory rest' - K"
      if K: "whole_pages (e # rest)" "keeps_back (sub_1M_top s) (e # rest) K" for K
    proof -
      have "sub_1M_top s = 0 \<Longrightarrow> high first" using False first(2) by auto
      note later = keeps_back_later [OF K(2) [unfolded first(1)] this]
      have "B - K = B" using later B(1) by auto
      with later run(8) [OF K(1)] s1(5) add_region_top [OF s1(1)] show ?thesis by auto
    qed
    moreover have "initialize (e # rest) s = initialize rest' s1"
      using m s1(1) by (simp add: initialize.simps Let_def if_not_P [OF False])
    ultimately show ?thesis using continue [OF s1(3,4)] "2.IH"(3) [OF refl m [symmetric] refl refl False s1(1,2) run(4)] by blast
  qed
qed

section \<open>Properties\<close>

definition low_map :: "memory_map_entry list" where
  "low_map =
     [\<lparr>physical_start = 0, region_length = 0x9f000, region_type = free, attributes = 0\<rparr>,
      \<lparr>physical_start = 0x100000, region_length = 0x100000, region_type = free, attributes = 0\<rparr>,
      \<lparr>physical_start = 0x200000, region_length = 0x3000, region_type = free, attributes = 0\<rparr>]"

definition crossing_map :: "memory_map_entry list" where
  "crossing_map =
     [\<lparr>physical_start = 0x80000, region_length = 0x200000, region_type = free, attributes = 0\<rparr>]"

lemma map_ok_examples: "map_ok low_map" "map_ok crossing_map" "whole_pages low_map" "whole_pages crossing_map"
  by (auto simp: low_map_def crossing_map_def map_ok_def whole_pages_def psize_def region_def mib_def)

lemma low_run_examples: "low_run low_map (take 1 low_map)" "low_run crossing_map crossing_map"
  unfolding low_run_def
  by (rule exI [of _ "[]"], rule exI [of _ "drop 1 low_map"], simp add: low_map_def high_def mib_def joins_def)
    (rule exI [of _ "[]"], rule exI [of _ "[]"], simp add: crossing_map_def high_def mib_def)

text \<open>
  C15. Initialization from any memory map of disjoint page-aligned entries returns, leaves every stack a
  list of frames that are aligned to their size and pairwise disjoint, with no lock held, and hands
  out only bytes of free entries.
\<close>

theorem initialize_safe:
  assumes "map_ok mm"
  shows "\<exists>s F. initialize mm (pmm_init m) = Inr s \<and> pmm_inv s F \<and> free_bytes F \<subseteq> free_memory mm"
  using initialize_inv [OF pmm_inv_empty assms, of m] by (auto simp: initialized_def free_bytes_def)

theorem initialize_safe_witness:
  "\<exists>s F. initialize low_map (pmm_init (\<lambda>_. 0)) = Inr s \<and> pmm_inv s F \<and> free_bytes F \<subseteq> free_memory low_map"
  by (rule initialize_safe [OF map_ok_examples(1)])

text \<open>
  C16. Initialization from a memory map whose entries are whole pages hands out all of the free memory but for the range that is
  set aside below 1 MiB. If no entry starts below 1 MiB, the free frames partition the free memory. Otherwise they
  partition the free memory without a part of the first range that starts there: all of it if it is at most 1 MiB long, and
  if it is longer, its bytes below 1 MiB, and as many bytes at its end as lie before its start.
\<close>

theorem initialize_complete:
  assumes "map_ok mm" and "whole_pages mm"
  shows "\<exists>s F. initialize mm (pmm_init m) = Inr s \<and> pmm_inv s F \<and> (high mm \<longrightarrow> free_bytes F = free_memory mm) \<and>
    (\<forall>run. low_run mm run \<longrightarrow> free_bytes F = free_memory mm - withheld run)"
proof -
  from initialize_inv [OF pmm_inv_empty assms(1), of m] obtain s F where "initialize mm (pmm_init m) = Inr s" "pmm_inv s F"
    "\<forall>K. keeps_back 0 mm K \<longrightarrow> free_bytes F = free_memory mm - K"
    using assms(2) by (auto simp: initialized_def free_bytes_def pmm_init_def)
  then show ?thesis unfolding keeps_back_def by (metis Diff_empty)
qed

theorem initialize_complete_witness:
  "\<exists>s F. initialize low_map (pmm_init (\<lambda>_. 0)) = Inr s \<and> pmm_inv s F \<and> free_bytes F = free_memory low_map - {0 ..< 0x9f000}"
proof -
  have "withheld (take 1 low_map) = {0 ..< 0x9f000}" by (simp add: withheld_def run_length_def low_map_def)
  with initialize_complete [OF map_ok_examples(1,3), of "\<lambda>_. 0"] low_run_examples(1) show ?thesis by metis
qed

text \<open>If the range starts at 0, nothing above 1 MiB is lost; if not, the end of the range is.\<close>

lemma withheld_from_zero:
  "run \<noteq> [] \<Longrightarrow> physical_start (hd run) = 0 \<Longrightarrow> withheld run = {0 ..< min (run_length run) (2 ^ 20)}"
  by (auto simp: withheld_def Let_def)

lemma crossing_map_loses: "{0x200000 ..< 0x280000} \<subseteq> withheld crossing_map \<inter> free_memory crossing_map"
  by (auto simp: withheld_def run_length_def crossing_map_def free_memory_def region_def)

text \<open>
  C28. A frame that is given back is the next one handed out: \<open>pop\<close> after \<open>push\<close> of an aligned frame
  disjoint from the free ones returns it and restores the free frames and the counts.
\<close>

theorem push_pop_roundtrip:
  assumes "pmm_inv s F" and "i < page_size_count" and "psize i dvd unat x" and "span i x \<inter> free_bytes F = {}"
  shows "\<exists>s1 s2. pmm_push i x s = Inr s1 \<and> pmm_inv s1 (F(i := x # F i)) \<and> pmm_pop i s1 = Inr (s2, x) \<and>
    pmm_inv s2 F \<and> free_frames s2 = free_frames s \<and> used_frames s2 = used_frames s"
proof -
  from pmm_inv_push [OF assms] obtain s1 where s1: "instance_push i x s = Inr s1" "pmm_inv s1 (F(i := x # F i))"
    "free_frames s1 = free_frames s" "used_frames s1 = used_frames s" by auto
  let ?s1 = "s1\<lparr>used_frames := (used_frames s1)(i := used_frames s1 i - 1),
               free_frames := (free_frames s1)(i := free_frames s1 i + 1)\<rparr>"
  from pmm_inv_pop [of ?s1 "F(i := x # F i)" i x "F i"] s1 assms(2) obtain s2 where
    s2: "instance_pop i ?s1 = Inr (s2, x)" "pmm_inv s2 F" "free_frames s2 = free_frames ?s1" "used_frames s2 = used_frames ?s1"
    by auto
  have "pmm_push i x s = Inr ?s1" using s1(1) assms(2) by (simp add: pmm_push_def)
  moreover have "pmm_pop i ?s1 = Inr (s2\<lparr>free_frames := free_frames s, used_frames := used_frames s\<rparr>, x)"
    using s2 s1 assms(2) by (simp add: pmm_pop_def)
  ultimately show ?thesis using s1(2) s2(2) by simp
qed

theorem push_pop_roundtrip_witness:
  "\<exists>s1 s2. pmm_push 0 0x5000 (pmm_init (\<lambda>_. 0)) = Inr s1 \<and> pmm_inv s1 ((\<lambda>_. [])(0 := [0x5000])) \<and>
    pmm_pop 0 s1 = Inr (s2, 0x5000) \<and> pmm_inv s2 (\<lambda>_. []) \<and>
    free_frames s2 = free_frames (pmm_init (\<lambda>_. 0)) \<and> used_frames s2 = used_frames (pmm_init (\<lambda>_. 0))"
  using push_pop_roundtrip [OF pmm_inv_empty [of "\<lambda>_. 0"], of 0 "0x5000"]
  by (simp add: page_size_count_def psize_def free_bytes_def)

lemma pmm_push_elsewhere: "pmm_push j x s = Inr s' \<Longrightarrow> i \<noteq> j \<Longrightarrow> infos s' i = infos s i"
  by (auto simp: pmm_push_def instance_push_def lock_stack_def unlock_stack_def set_info_def Let_def split: if_splits)

lemma push_pieces_elsewhere:
  assumes "push_pieces j f s = Inr s'" "i \<noteq> j"
  shows "infos s' i = infos s i"
  using each_invariant [of _ "\<lambda>s'. infos s' i = infos s i", OF _ _ assms(1) [unfolded push_pieces_def]] assms(2)
  by (simp add: pmm_push_elsewhere)

lemma pop_elsewhere: "instance_pop j s = Inr (s', x) \<Longrightarrow> i < j \<Longrightarrow> infos s' i = infos s i"
proof (induction j s arbitrary: s' x rule: instance_pop.induct)
  case (1 j s)
  let ?s = "set_info j (infos s j\<lparr>stack_lock := True\<rparr>) s"
  note r = "1.prems"(1) [unfolded instance_pop.simps [of j s]]
  from r have l: "lock_stack j s = Inr ?s" by (auto simp: bnd_Inr_iff lock_stack_def split: if_splits)
  have top: "infos (fst (take_top j s3)) i = infos s3 i" for s3
    using "1.prems"(2) by (simp add: take_top_def Let_def unlock_stack_def set_info_def)
  show ?case
  proof (cases "num_frames (infos ?s j) = 0")
    case True
    with r l obtain s2 f s3 where s2: "instance_pop (j + 1) ?s = Inr (s2, f)" "push_pieces j f s2 = Inr s3"
      "s' = fst (take_top j s3)" "\<not> page_size_count - 1 \<le> j"
      by (auto simp: bnd_Inr_iff split: if_splits)
    with "1.IH" [OF l True s2(4,1)] "1.prems"(2) top [of s3] push_pieces_elsewhere [OF s2(2)] show ?thesis
      by (simp add: set_info_def)
  next
    case False
    with r l top [of ?s] "1.prems"(2) show ?thesis by (auto simp: set_info_def)
  qed
qed

text \<open>
  Taking a frame of a size that has run out never returns, whether or not larger frames are left:
  \<open>instance::pop\<close> keeps the lock of the stack while it splits a larger frame, and puts the pieces back
  through \<open>pmm::push\<close>, which takes the same lock.
\<close>

lemma pop_exhausted_never_returns:
  assumes "num_frames (infos s i) = 0"
  shows "\<exists>e. pmm_pop i s = Inl e"
proof -
  let ?s = "set_info i (infos s i\<lparr>stack_lock := True\<rparr>) s"
  have "\<exists>e. instance_pop i s = Inl e"
  proof (cases "instance_pop i s")
    case (Inr r)
    from Inr [unfolded instance_pop.simps [of i s]] assms obtain s2 x s3 where
      s2: "instance_pop (i + 1) ?s = Inr (s2, x)" "push_pieces i x s2 = Inr s3" and i: "\<not> page_size_count - 1 \<le> i"
      by (auto simp: bnd_Inr_iff lock_stack_def set_info_def split: if_splits)
    have "i = 0 \<or> i = Suc 0" using i by (auto simp: page_size_count_def)
    then have "0 < unat (page_sizes (i + 1) div page_sizes i)" by auto
    then obtain ks where "[0 ..< unat (page_sizes (i + 1) div page_sizes i)] = 0 # ks" using upt_conv_Cons by blast
    moreover have "stack_lock (infos s2 i)" using pop_elsewhere [OF s2(1), of i] by (simp add: set_info_def)
    ultimately have "push_pieces i x s2 = Inl Deadlock"
      using i by (simp add: push_pieces_def pmm_push_def instance_push_def lock_stack_def page_size_count_def)
    with s2(2) show ?thesis by simp
  qed simp
  then show ?thesis by (auto simp: pmm_pop_def)
qed

lemma pop_exhausted_never_returns_example:
  "\<exists>e. pmm_pop 0 (pmm_init (\<lambda>_. 0)) = Inl e"
  by (rule pop_exhausted_never_returns) (simp add: pmm_init_def stack_info_init_def)

end
