(* ===== verification/Paging.thy ===== *)
theory Paging
  imports Pmm
begin

text \<open>
  The amd64 page tables: \<open>kernel/arch/amd64/memory/vm.cpp\<close>, with the entry locks of
  \<open>kernel/util/bit_lock.h\<close> and the flags of \<open>kernel/memory/vm.h\<close>.

  A table is a frame of 512 entries in physical memory; an entry is a 64-bit word with the bit-fields
  of \<open>pmle\<close>. The templates over the level \<open>I\<close> of a table become recursion on the level. Every loop over the
  entries of a table locks the entry it works on by setting bit 62 and waits while the bit is set; in a
  sequential run a set bit is never cleared, so waiting on one is a deadlock. The level parameter 0
  is not instantiated by the source.
\<close>

section \<open>Entries\<close>

definition present_bit :: nat where "present_bit = 0"
definition user_bit :: nat where "user_bit = 2"
definition size_bit :: nat where "size_bit = 7"
definition lock_bit :: nat where "lock_bit = 62"

text \<open>The value of an entry whose members have their default initializers: \<open>read_write\<close> and \<open>global\<close> are 1.\<close>

definition pmle_default :: u64 where
  "pmle_default = set_bit 1 (set_bit 8 0)"

definition get_phys :: "u64 \<Rightarrow> addr" where
  "get_phys entry = push_bit 12 (take_bit 40 (drop_bit 12 entry))"

definition set_address :: "addr \<Rightarrow> u64 \<Rightarrow> u64" where
  "set_address phys entry = (entry AND NOT (push_bit 12 (mask 40))) OR push_bit 12 (take_bit 40 (drop_bit 12 phys))"

text \<open>The assignments to an entry: of a table, of a page above the lowest level, and of a page.\<close>

definition assign_table :: "addr \<Rightarrow> u64 \<Rightarrow> u64" where
  "assign_table table entry = set_address table (set_bit present_bit entry)"

definition assign_page :: "nat \<Rightarrow> addr \<Rightarrow> u64 \<Rightarrow> u64" where
  "assign_page I phys entry =
     (if I = 1 then set_address phys (set_bit present_bit entry)
      else set_address phys (set_bit size_bit (set_bit present_bit entry)))"

definition set_user :: "bool \<Rightarrow> u64 \<Rightarrow> u64" where
  "set_user b entry = (if b then set_bit user_bit entry else unset_bit user_bit entry)"

text \<open>The flags of a mapping (\<open>kernel/memory/vm.h\<close>).\<close>

definition flags_none :: u64 where "flags_none = 0"
definition flags_user :: u64 where "flags_user = push_bit 0 1"
definition flags_read_only :: u64 where "flags_read_only = push_bit 1 1"

definition flags_and :: "u64 \<Rightarrow> u64 \<Rightarrow> bool" where
  "flags_and lhs rhs \<longleftrightarrow> lhs AND rhs \<noteq> 0"

definition flags_or :: "u64 \<Rightarrow> u64 \<Rightarrow> u64" where
  "flags_or lhs rhs = lhs OR rhs"

section \<open>Entry locks\<close>

definition bit_lock_acquire :: "addr \<Rightarrow> pmm \<Rightarrow> pmm result" where
  "bit_lock_acquire p s =
     (if bit (mem s p) lock_bit then Inl Deadlock
      else Inr (s\<lparr>mem := (mem s)(p := set_bit lock_bit (mem s p))\<rparr>))"

definition bit_lock_release :: "addr \<Rightarrow> pmm \<Rightarrow> pmm" where
  "bit_lock_release p s = s\<lparr>mem := (mem s)(p := unset_bit lock_bit (mem s p))\<rparr>"

section \<open>Tables\<close>

definition entry_addr :: "addr \<Rightarrow> u64 \<Rightarrow> addr" where
  "entry_addr table index = table + 8 * index"

definition table_index :: "nat \<Rightarrow> u64 \<Rightarrow> u64" where
  "table_index I virt = drop_bit (I * 9 + 3) virt AND 511"

definition entry_size :: "nat \<Rightarrow> u64" where
  "entry_size I = push_bit (I * 9 + 3) 1"

text \<open>\<open>pmlt::operator new\<close> and the initialization of the 512 entries.\<close>

definition new_table :: "pmm \<Rightarrow> (pmm \<times> addr) result" where
  "new_table s =
     bnd (pmm_pop 0 s) (\<lambda>(s, frame).
       Inr (s\<lparr>mem := (\<lambda>p. if p AND NOT 4095 = frame then pmle_default else mem s p)\<rparr>, frame))"

definition update_entry :: "addr \<Rightarrow> (u64 \<Rightarrow> u64) \<Rightarrow> pmm \<Rightarrow> pmm" where
  "update_entry p f s = s\<lparr>mem := (mem s)(p := f (mem s p))\<rparr>"

text \<open>
  The end of the part of the range that the entry of \<open>virt_start\<close> covers; the test for zero is the
  protection against overflow at the highest addresses.
\<close>

definition entry_virt_end :: "nat \<Rightarrow> u64 \<Rightarrow> u64 \<Rightarrow> u64" where
  "entry_virt_end I virt_start virt_end =
     (let e = (virt_start + entry_size I) AND NOT (entry_size I - 1)
      in if e - 1 < virt_end \<and> e \<noteq> 0 then e else virt_end)"

lemma entry_size_power: "I * 9 + 3 < 64 \<Longrightarrow> entry_size I = 2 ^ (I * 9 + 3)"
  by (simp add: entry_size_def push_bit_eq_mult)

lemma unat_exp: "k < 64 \<Longrightarrow> unat ((2 :: u64) ^ k) = 2 ^ k"
  using power_strict_increasing [of k 64 "2 :: nat"] unat_of_nat [of "2 ^ k", where ?'a = 64] by simp

lemma entry_end_unat:
  assumes k: "I * 9 + 3 = k" "k < 64"
  shows "unat ((v + entry_size I) AND NOT (entry_size I - 1)) =
    (if unat v + 2 ^ k < 2 ^ 64 then unat v - unat v mod 2 ^ k + 2 ^ k else 0)"
proof -
  let ?w = "v + 2 ^ k"
  have k64: "(2 :: nat) ^ k < 2 ^ 64" using k(2) by (rule power_strict_increasing) simp
  have es: "entry_size I = 2 ^ k" using entry_size_power [of I] k by simp
  have u: "unat ?w = (if unat v + 2 ^ k < 2 ^ 64 then unat v + 2 ^ k else unat v + 2 ^ k - 2 ^ 64)"
    using k by (subst unat_plus_if') (auto simp: unat_exp)
  have m: "unat (?w mod 2 ^ k) = unat ?w mod 2 ^ k" using k(2) by (simp add: unat_mod unat_exp)
  have "?w mod 2 ^ k \<le> ?w" by (simp add: word_le_nat_alt m)
  then have "unat (?w - ?w mod 2 ^ k) = unat ?w - unat ?w mod 2 ^ k" by (simp add: unat_sub m)
  moreover have "unat v < 2 ^ 64" using unsigned_less [of v, where ?'a = nat] by simp
  moreover have "(n + 2 ^ k) - (n + 2 ^ k) mod 2 ^ k = n - n mod 2 ^ k + 2 ^ k" for n :: nat
    using mod_less_eq_dividend [of n "2 ^ k"] by simp
  ultimately show ?thesis
    unfolding es word_and_not_mask using u k64 by auto
qed

lemma entry_virt_end_bounds:
  assumes "v < e"
  shows "v < entry_virt_end I v e" and "entry_virt_end I v e \<le> e"
proof -
  let ?e = "(v + entry_size I) AND NOT (entry_size I - 1)"
  show "entry_virt_end I v e \<le> e"
  proof (cases "?e - 1 < e \<and> ?e \<noteq> 0")
    case True
    then have "?e \<le> e" by (metis inc_le diff_add_cancel)
    with True show ?thesis by (simp add: entry_virt_end_def Let_def)
  next
    case False
    then show ?thesis unfolding entry_virt_end_def Let_def by (subst if_not_P) simp_all
  qed
  show "v < entry_virt_end I v e"
  proof (cases "?e - 1 < e \<and> ?e \<noteq> 0")
    case True
    have "I * 9 + 3 < 64"
    proof (rule ccontr)
      assume "\<not> I * 9 + 3 < 64"
      then have "entry_size I = 0" by (intro bit_word_eqI) (simp add: entry_size_def bit_simps)
      with True show False by simp
    qed
    define M where "M = (2 :: nat) ^ (I * 9 + 3)"
    have "unat ?e = unat v - unat v mod M + M"
      using entry_end_unat [OF refl \<open>I * 9 + 3 < 64\<close>, of v] True by (auto simp: M_def unat_eq_0 split: if_splits)
    moreover have "unat v mod M < M" "unat v mod M \<le> unat v" by (simp_all add: M_def)
    ultimately have "v < ?e" unfolding word_less_nat_alt by linarith
    with True show ?thesis by (simp add: entry_virt_end_def Let_def)
  next
    case False
    with assms show ?thesis unfolding entry_virt_end_def Let_def by (subst if_not_P) simp_all
  qed
qed

section \<open>Walking a range\<close>

text \<open>
  The loop shared by \<open>vm_map\<close> and \<open>vm_unmap\<close>: from the entry of \<open>virt_start\<close> on, one entry after the other,
  each locked while \<open>body\<close> works on its part of the range.
\<close>

function for_entries ::
    "nat \<Rightarrow> (addr \<Rightarrow> u64 \<Rightarrow> u64 \<Rightarrow> pmm \<times> 'x \<Rightarrow> (pmm \<times> 'x) result) \<Rightarrow> addr \<Rightarrow> u64 \<Rightarrow> u64 \<Rightarrow> u64 \<Rightarrow>
     pmm \<times> 'x \<Rightarrow> (pmm \<times> 'x) result" where
  "for_entries I body table index virt_start virt_end (s, x) =
     (if virt_start < virt_end then
        let p = entry_addr table index;
            e = entry_virt_end I virt_start virt_end
        in bnd (bit_lock_acquire p s) (\<lambda>s.
             bnd (body p virt_start e (s, x)) (\<lambda>(s, x).
               for_entries I body table (index + 1) e virt_end (bit_lock_release p s, x)))
      else Inr (s, x))"
  by pat_completeness auto
termination
proof (relation "measure (\<lambda>(I, body, table, index, virt_start, virt_end, _). unat virt_end - unat virt_start)", goal_cases)
  case (2 I body table index virt_start virt_end s x)
  then show ?case
    using entry_virt_end_bounds [of virt_start virt_end I] by (auto simp: word_less_nat_alt word_le_nat_alt)
qed simp

declare for_entries.simps [simp del]

section \<open>Mapping\<close>

definition next_phys :: "nat \<Rightarrow> addr \<Rightarrow> addr" where
  "next_phys I phys = (phys + entry_size I) AND NOT (entry_size I - 1)"

definition map_page :: "nat \<Rightarrow> u64 \<Rightarrow> addr \<Rightarrow> u64 \<Rightarrow> u64 \<Rightarrow> pmm \<times> addr \<Rightarrow> (pmm \<times> addr) result" where
  "map_page I flags p virt_start e = (\<lambda>(s, phys).
     if bit (mem s p) present_bit then Inl (Panic ''Tried to re-map page'')
     else
       let s = update_entry p (assign_page I phys) s;
           s = update_entry p (set_user (flags_and flags flags_user)) s
       in Inr (s, next_phys I phys))"

definition map_table :: "(addr \<Rightarrow> u64 \<Rightarrow> u64 \<Rightarrow> addr \<Rightarrow> pmm \<Rightarrow> pmm result) \<Rightarrow> nat \<Rightarrow> u64 \<Rightarrow>
    addr \<Rightarrow> u64 \<Rightarrow> u64 \<Rightarrow> pmm \<times> addr \<Rightarrow> (pmm \<times> addr) result" where
  "map_table below I flags p virt_start e = (\<lambda>(s, phys).
     bnd (if \<not> bit (mem s p) present_bit
          then bnd (new_table s) (\<lambda>(s, table). Inr (update_entry p (assign_table table) s))
          else Inr s) (\<lambda>s.
       let s = update_entry p (\<lambda>w. set_user (bit w user_bit \<or> flags_and flags flags_user) w) s
       in bnd (below (get_phys (mem s p)) virt_start e phys s) (\<lambda>s.
            Inr (s, next_phys I phys))))"

fun vm_map :: "nat \<Rightarrow> nat \<Rightarrow> u64 \<Rightarrow> addr \<Rightarrow> u64 \<Rightarrow> u64 \<Rightarrow> addr \<Rightarrow> pmm \<Rightarrow> pmm result" where
  "vm_map lowest 0 flags table virt_start virt_end phys s = Inr s"
| "vm_map lowest (Suc n) flags table virt_start virt_end phys s =
     bnd (for_entries (Suc n)
            (if Suc n = lowest then map_page (Suc n) flags else map_table (vm_map lowest n flags) (Suc n) flags)
            table (table_index (Suc n) virt_start) virt_start virt_end (s, phys))
       (\<lambda>(s, _). Inr s)"

section \<open>Unmapping\<close>

text \<open>
  The cores, as far as the page tables are concerned: their \<open>CR3\<close>, which one runs the code, and
  whether \<open>scheduler::is_initialized\<close>. The invalidator collects pages and flushes them in batches
  of 32, on the current core only before the scheduler is up; \<open>flushed\<close> records the
  \<open>invlpg\<close> instructions by core.
\<close>

record cores =
  core_cr3 :: "addr list"
  current_core :: nat
  scheduler_initialized :: bool

record tlb_invalidator =
  tlb_asid :: "addr option"
  tlb_pages :: "u64 list"
  flushed :: "(nat \<times> u64) list"

definition get_asid :: "cores \<Rightarrow> addr" where
  "get_asid env = core_cr3 env ! current_core env"

definition tlb_trigger :: "cores \<Rightarrow> tlb_invalidator \<Rightarrow> tlb_invalidator" where
  "tlb_trigger env t =
     (let flushes =
        (if \<not> scheduler_initialized env then map (Pair (current_core env)) (tlb_pages t)
         else concat (map (\<lambda>c. if tlb_asid t \<noteq> None \<and> tlb_asid t \<noteq> Some (core_cr3 env ! c) then []
                               else map (Pair c) (tlb_pages t)) [0 ..< length (core_cr3 env)]))
      in t\<lparr>flushed := flushed t @ flushes, tlb_pages := []\<rparr>)"

definition tlb_invalidate :: "cores \<Rightarrow> u64 \<Rightarrow> tlb_invalidator \<Rightarrow> tlb_invalidator" where
  "tlb_invalidate env page t =
     (let t = t\<lparr>tlb_pages := tlb_pages t @ [page]\<rparr>
      in if length (tlb_pages t) = 32 then tlb_trigger env t else t)"

definition unmap_page :: "cores \<Rightarrow> bool \<Rightarrow> addr \<Rightarrow> u64 \<Rightarrow> u64 \<Rightarrow> pmm \<times> tlb_invalidator \<Rightarrow>
    (pmm \<times> tlb_invalidator) result" where
  "unmap_page env free_physical p virt_start e = (\<lambda>(s, invl).
     if \<not> bit (mem s p) present_bit then Inl (Panic ''Tried to unmap an unmapped address'')
     else bnd (if free_physical then pmm_push 0 (get_phys (mem s p)) s else Inr s) (\<lambda>s.
       let s = update_entry p (unset_bit present_bit) s
       in Inr (s, tlb_invalidate env virt_start invl)))"

definition unmap_table :: "(addr \<Rightarrow> u64 \<Rightarrow> u64 \<Rightarrow> pmm \<times> tlb_invalidator \<Rightarrow> (pmm \<times> tlb_invalidator) result) \<Rightarrow>
    addr \<Rightarrow> u64 \<Rightarrow> u64 \<Rightarrow> pmm \<times> tlb_invalidator \<Rightarrow> (pmm \<times> tlb_invalidator) result" where
  "unmap_table below p virt_start e = (\<lambda>(s, invl).
     if \<not> bit (mem s p) present_bit then Inl (Panic ''Tried to unmap an unmapped address'')
     else if bit (mem s p) size_bit then Inl (Panic ''tried to unmap large page, this is not implemented yet'')
     else below (get_phys (mem s p)) virt_start e (s, invl))"

fun vm_unmap :: "nat \<Rightarrow> cores \<Rightarrow> bool \<Rightarrow> addr \<Rightarrow> u64 \<Rightarrow> u64 \<Rightarrow> pmm \<times> tlb_invalidator \<Rightarrow>
    (pmm \<times> tlb_invalidator) result" where
  "vm_unmap 0 env free_physical table virt_start virt_end st = Inr st"
| "vm_unmap (Suc n) env free_physical table virt_start virt_end st =
     for_entries (Suc n)
       (if Suc n = 1 then unmap_page env free_physical else unmap_table (vm_unmap n env free_physical))
       table (table_index (Suc n) virt_start) virt_start virt_end st"

section \<open>Translating\<close>

fun vm_virt_to_phys :: "nat \<Rightarrow> addr \<Rightarrow> u64 \<Rightarrow> pmm \<Rightarrow> addr result" where
  "vm_virt_to_phys 0 table virt s = Inr table"
| "vm_virt_to_phys (Suc n) table virt s =
     (let entry = mem s (entry_addr table (table_index (Suc n) virt))
      in if \<not> bit entry present_bit then Inl (Panic ''Tried to probe an unmapped address'')
         else if Suc n = 1 then Inr (get_phys entry)
         else if bit entry size_bit then Inr (get_phys entry)
         else vm_virt_to_phys n (get_phys entry) virt s)"

section \<open>The interface to the rest of the kernel\<close>

definition page_size :: u64 where
  "page_size = 4 * 1024"

definition page_mask :: u64 where
  "page_mask = NOT (page_size - 1)"

text \<open>The address space, or the current one for a null pointer.\<close>

definition asid_of :: "cores \<Rightarrow> addr option \<Rightarrow> addr" where
  "asid_of env address_space = (case address_space of Some asid \<Rightarrow> asid | None \<Rightarrow> get_asid env)"

definition map_physical :: "cores \<Rightarrow> addr option \<Rightarrow> u64 \<Rightarrow> u64 \<Rightarrow> addr \<Rightarrow> u64 \<Rightarrow> pmm \<Rightarrow> pmm result" where
  "map_physical env address_space start finish physical flags s =
     (let sz = finish - start
      in if sz = 0 then Inr s
         else
           let virt_start = start AND page_mask;
               virt_end = (virt_start + sz + page_size - 1) AND page_mask;
               phys_int = physical AND page_mask;
               cr3 = asid_of env address_space
           in vm_map 1 4 flags cr3 virt_start virt_end phys_int s)"

definition unmap :: "cores \<Rightarrow> addr option \<Rightarrow> u64 \<Rightarrow> u64 \<Rightarrow> bool \<Rightarrow> pmm \<Rightarrow> (pmm \<times> (nat \<times> u64) list) result" where
  "unmap env address_space start finish free_physical s =
     (let sz = finish - start
      in if sz = 0 then Inr (s, [])
         else
           let virt_start = start AND page_mask;
               virt_end = (virt_start + sz + page_size - 1) AND page_mask;
               cr3 = asid_of env address_space;
               invl = \<lparr>tlb_asid = (if start > 0x8000000000000000 then None else Some cr3), tlb_pages = [], flushed = []\<rparr>
           in bnd (vm_unmap 4 env free_physical cr3 virt_start virt_end (s, invl)) (\<lambda>(s, invl).
                Inr (s, flushed (tlb_trigger env invl))))"

definition virt_to_phys :: "cores \<Rightarrow> addr option \<Rightarrow> u64 \<Rightarrow> pmm \<Rightarrow> addr result" where
  "virt_to_phys env address_space address s = vm_virt_to_phys 4 (asid_of env address_space) address s"

section \<open>Copying and emptying address spaces\<close>

definition clone_entry :: "addr \<Rightarrow> addr \<Rightarrow> nat \<Rightarrow> pmm \<Rightarrow> pmm result" where
  "clone_entry cr3 ret i s =
     (let p = entry_addr cr3 (of_nat i);
          q = entry_addr ret (of_nat i)
      in bnd (bit_lock_acquire p s) (\<lambda>s.
           bnd (if \<not> bit (mem s p) present_bit
                then bnd (new_table s) (\<lambda>(s, table). Inr (update_entry p (assign_table table) s))
                else Inr s) (\<lambda>s.
             let s = update_entry q (\<lambda>_. mem s p) s;
                 s = update_entry q (unset_bit lock_bit) s
             in Inr (bit_lock_release p s))))"

definition clone_upper_half :: "cores \<Rightarrow> pmm \<Rightarrow> (pmm \<times> addr) result" where
  "clone_upper_half env s =
     bnd (new_table s) (\<lambda>(s, ret).
       bnd (each (clone_entry (get_asid env) ret) [256 ..< 512] s) (\<lambda>s. Inr (s, ret)))"

fun unmap_all :: "nat \<Rightarrow> addr \<Rightarrow> nat list \<Rightarrow> pmm \<Rightarrow> pmm result" where
  "unmap_all 0 table indices s = Inr s"
| "unmap_all (Suc n) table indices s =
     (if Suc n = 1 then Inr s
      else each (\<lambda>i s.
        let p = entry_addr table (of_nat i)
        in if bit (mem s p) lock_bit then Inl (Panic ''Page table lock set while unmapping lower half!'')
           else if bit (mem s p) present_bit then
             bnd (if \<not> bit (mem s p) size_bit then unmap_all n (get_phys (mem s p)) [0 ..< 512] s else Inr s) (\<lambda>s.
               let s = update_entry p (unset_bit present_bit) s
               in pmm_push 0 (get_phys (mem s p)) s)
           else Inr s) indices s)"

definition unmap_lower_half :: "cores \<Rightarrow> bool \<Rightarrow> pmm \<Rightarrow> (pmm \<times> bool) result" where
  "unmap_lower_half env unmap_lower_half_called s =
     (if unmap_lower_half_called then Inl (Panic ''arch::vm::unmap_lower_half called more than once!'')
      else bnd (unmap_all 4 (get_asid env) [0 ..< 256] s) (\<lambda>s. Inr (s, True)))"

end
