(* ===== verification/Chained_Allocator.thy ===== *)
theory Chained_Allocator
  imports Fifo Pmm_Properties
begin

text \<open>
  The allocator of \<open>kernel/util/chained_allocator.h\<close>: for every type a chain of unused objects through
  their \<open>next\<close> links, refilled with the objects of a fresh frame. \<open>sz\<close> is \<open>sizeof(T)\<close>, which a
  static assertion bounds by the size of a frame; objects are reached through the kernel's linear
  map of physical memory, at \<open>physmem_base\<close> above their frame.
\<close>

section \<open>The allocator\<close>

record 'a chained = "'a store" +
  chained_head :: addr
  chained_lock :: bool

definition object_at :: "u64 \<Rightarrow> addr \<Rightarrow> nat \<Rightarrow> addr" where
  "object_at sz first i = first + of_nat i * sz"

text \<open>How many objects the loop over a frame reaches: those with \<open>(i + 1) * sizeof(T) <= 4096\<close>.\<close>

definition objects_per_frame :: "u64 \<Rightarrow> nat" where
  "objects_per_frame sz = 4096 div unat sz"

text \<open>The memory of a frame becomes accessible as objects; its contents are what they were.\<close>

definition claim_frame :: "u64 \<Rightarrow> addr \<Rightarrow> 'a chained \<Rightarrow> 'a chained" where
  "claim_frame sz first s =
     s\<lparr>valid := (\<lambda>p. valid s p \<or> p \<in> set (map (object_at sz first) [0 ..< max 1 (objects_per_frame sz)]))\<rparr>"

definition link_object :: "u64 \<Rightarrow> addr \<Rightarrow> nat \<Rightarrow> 'a chained \<Rightarrow> 'a chained option" where
  "link_object sz first i s =
     do {
       s \<leftarrow> write_nxt s (object_at sz first (i - 1)) (object_at sz first i);
       s \<leftarrow> write_prev s (object_at sz first i) (object_at sz first (i - 1));
       write_nxt s (object_at sz first i) nullptr
     }"

definition lock_chain :: "'a chained \<Rightarrow> 'a chained result" where
  "lock_chain s = (if chained_lock s then Inl Deadlock else Inr (s\<lparr>chained_lock := True\<rparr>))"

definition refill :: "u64 \<Rightarrow> pmm \<Rightarrow> 'a chained \<Rightarrow> (pmm \<times> 'a chained) result" where
  "refill sz m s =
     bnd (pmm_pop 0 m) (\<lambda>(m, frame_address).
       let first = frame_address + physmem_base;
           s = claim_frame sz first s
       in bnd (deref (write_prev s first nullptr)) (\<lambda>s.
            bnd (each (\<lambda>i s. deref (link_object sz first i s)) [1 ..< objects_per_frame sz] s) (\<lambda>s.
              Inr (m, s\<lparr>chained_head := first\<rparr>))))"

definition allocate_chained :: "u64 \<Rightarrow> pmm \<Rightarrow> 'a chained \<Rightarrow> (pmm \<times> 'a chained \<times> addr) result" where
  "allocate_chained sz m s =
     bnd (lock_chain s) (\<lambda>s.
       bnd (if chained_head s = nullptr then refill sz m s else Inr (m, s)) (\<lambda>(m, s).
         let ret = chained_head s
         in bnd (deref (read_nxt s ret)) (\<lambda>n.
              Inr (m, s\<lparr>chained_head := n, chained_lock := False\<rparr>, ret))))"

definition deallocate_chained :: "addr \<Rightarrow> 'a chained \<Rightarrow> 'a chained result" where
  "deallocate_chained ptr s =
     bnd (lock_chain s) (\<lambda>s.
       bnd (deref (write_prev s ptr nullptr)) (\<lambda>s.
         bnd (deref (write_nxt s ptr (chained_head s))) (\<lambda>s.
           bnd (if chained_head s \<noteq> nullptr then deref (write_prev s (chained_head s) ptr) else Inr s) (\<lambda>s.
             Inr (s\<lparr>chained_head := ptr, chained_lock := False\<rparr>)))))"

definition operator_new :: "u64 \<Rightarrow> u64 \<Rightarrow> pmm \<Rightarrow> 'a chained \<Rightarrow> (pmm \<times> 'a chained \<times> addr) result" where
  "operator_new sz requested m s =
     (if requested \<noteq> sz then Inl (Panic ''Tried to allocate more than one chained object.'')
      else allocate_chained sz m s)"

definition operator_delete :: "addr \<Rightarrow> 'a chained \<Rightarrow> 'a chained result" where
  "operator_delete p s = deallocate_chained p s"

section \<open>The chain of unused objects\<close>

definition chain_list :: "'a chained \<Rightarrow> addr list \<Rightarrow> bool" where
  "chain_list s xs \<longleftrightarrow>
     chain (nxt s) (chained_head s) xs \<and> distinct xs \<and> (\<forall>x \<in> set xs. accessible s x)"

definition chain_holds :: "'a chained \<Rightarrow> addr list \<Rightarrow> bool" where
  "chain_holds s xs \<longleftrightarrow> chain_list s xs \<and> \<not> chained_lock s"

lemma accessible_chained_updates [simp]:
  "accessible (s\<lparr>chained_head := h\<rparr>) p = accessible s p"
  "accessible (s\<lparr>chained_lock := l\<rparr>) p = accessible s p"
  by (simp_all add: accessible_def)

lemma chain_list_lock [simp]: "chain_list (s\<lparr>chained_lock := l\<rparr>) xs = chain_list s xs"
  by (simp add: chain_list_def)

lemma allocate_exec:
  assumes "\<not> chained_lock s" and "chain_list s2 (p # ys)"
    and "(if chained_head s = 0 then refill sz m (s\<lparr>chained_lock := True\<rparr>) else Inr (m, s\<lparr>chained_lock := True\<rparr>)) = Inr (m2, s2)"
  shows "\<exists>s'. allocate_chained sz m s = Inr (m2, s', p) \<and> chain_holds s' ys \<and> accessible s' p \<and> p \<notin> set ys"
  using assms
  by (auto simp: chain_holds_def chain_list_def allocate_chained_def lock_chain_def store_simps split: if_splits)

lemma deallocate_to_chain:
  assumes "chain_holds s xs" and "accessible s p" and "p \<notin> set xs"
  shows "\<exists>s'. deallocate_chained p s = Inr s' \<and> chain_holds s' (p # xs)"
proof (cases xs)
  case Nil
  with assms show ?thesis
    by (auto simp: chain_holds_def chain_list_def deallocate_chained_def lock_chain_def store_simps)
next
  case (Cons y ys)
  with assms show ?thesis
    by (auto simp: chain_holds_def chain_list_def deallocate_chained_def lock_chain_def store_simps chain_frame)
qed

section \<open>Refilling the chain\<close>

text \<open>A frame whose objects have distinct, non-null addresses.\<close>

definition usable_frame :: "u64 \<Rightarrow> addr \<Rightarrow> bool" where
  "usable_frame sz first \<longleftrightarrow> first \<noteq> 0 \<and> sz \<noteq> 0 \<and> unat first + 4096 \<le> 2 ^ 64"

abbreviation objects :: "u64 \<Rightarrow> addr \<Rightarrow> addr list" where
  "objects sz first \<equiv> map (object_at sz first) [0 ..< objects_per_frame sz]"

lemma object_at_unat:
  assumes "usable_frame sz first" "i < objects_per_frame sz"
  shows "unat (object_at sz first i) = unat first + i * unat sz" and "object_at sz first i \<noteq> 0"
proof -
  have sz: "0 < unat sz" using assms(1) by (simp add: usable_frame_def unat_gt_0)
  have "Suc i * unat sz \<le> (4096 div unat sz) * unat sz"
    using assms(2) by (intro mult_le_mono1) (simp add: objects_per_frame_def)
  also have "\<dots> \<le> 4096" by (rule div_times_less_eq_dividend)
  finally have "i * unat sz + unat sz \<le> 4096" by simp
  with sz have b: "unat first + i * unat sz < 2 ^ 64" "i * unat sz < 2 ^ 64"
    using assms(1) by (auto simp: usable_frame_def)
  have "object_at sz first i = of_nat (unat first + i * unat sz)" by (simp add: object_at_def)
  then have "unat (object_at sz first i) = (unat first + i * unat sz) mod 2 ^ 64"
    by (simp only: unat_of_nat len_num1 len_bit0 len_bit1) simp
  with b show u: "unat (object_at sz first i) = unat first + i * unat sz" by simp
  have "unat first \<noteq> 0" using assms(1) by (simp add: usable_frame_def unat_eq_0)
  with u show "object_at sz first i \<noteq> 0" by (metis add_is_0 unsigned_0)
qed

lemma object_at_inj:
  assumes "usable_frame sz first" "i < objects_per_frame sz" "j < objects_per_frame sz"
  shows "object_at sz first i = object_at sz first j \<longleftrightarrow> i = j"
proof -
  have "0 < unat sz" using assms(1) by (simp add: usable_frame_def unat_gt_0)
  then show ?thesis
    using object_at_unat(1) [OF assms(1,2)] object_at_unat(1) [OF assms(1,3)] by (metis add_left_cancel mult_cancel2 not_gr0)
qed

lemma link_objects_holds:
  assumes f: "usable_frame sz first" and k: "k < objects_per_frame sz"
    and acc: "\<forall>i < objects_per_frame sz. accessible s (object_at sz first i)"
  shows "\<exists>s'. each (\<lambda>i s. deref (link_object sz first i s)) [1 ..< Suc k] s = Inr s' \<and>
    chain ((nxt s')(object_at sz first k := 0)) (object_at sz first 0) (map (object_at sz first) [0 ..< Suc k]) \<and>
    (0 < k \<longrightarrow> nxt s' (object_at sz first k) = 0) \<and> valid s' = valid s \<and> chained_lock s' = chained_lock s"
  using k
proof (induction k)
  case 0
  then show ?case by simp
next
  case (Suc k)
  let ?o = "object_at sz first"
  from Suc obtain s1 where s1: "each (\<lambda>i s. deref (link_object sz first i s)) [1 ..< Suc k] s = Inr s1"
    "chain ((nxt s1)(?o k := 0)) (?o 0) (map ?o [0 ..< Suc k])" "valid s1 = valid s" "chained_lock s1 = chained_lock s"
    using Suc_lessD by blast
  have acc1: "accessible s1 (?o k)" "accessible s1 (?o (Suc k))"
    using acc Suc.prems s1(3) by (auto simp: accessible_def)
  let ?s = "s1\<lparr>nxt := (nxt s1)(?o k := ?o (Suc k), ?o (Suc k) := 0), prev := (prev s1)(?o (Suc k) := ?o k)\<rparr>"
  have ne: "?o k \<noteq> ?o (Suc k)" using object_at_inj [OF f, of k "Suc k"] Suc.prems by simp
  have "link_object sz first (Suc k) s1 = Some ?s"
    using acc1 by (simp add: link_object_def store_simps)
  moreover have "[1 ..< Suc (Suc k)] = [1 ..< Suc k] @ [Suc k]" by simp
  ultimately have e: "each (\<lambda>i s. deref (link_object sz first i s)) [1 ..< Suc (Suc k)] s = Inr ?s"
    using s1(1) by (simp add: each_append del: upt_Suc)
  have "inj_on ?o (set [0 ..< Suc (Suc k)])" using object_at_inj [OF f] Suc.prems by (auto simp: inj_on_def)
  then have "distinct (map ?o [0 ..< Suc (Suc k)])" by (simp only: distinct_map distinct_upt simp_thms)
  then have "chain (((nxt s1)(?o k := 0))(?o k := ?o (Suc k), ?o (Suc k) := 0)) (?o 0) (map ?o [0 ..< k] @ [?o k, ?o (Suc k)])"
    using s1(2) by (intro chain_snoc) auto
  then have c: "chain (nxt ?s) (?o 0) (map ?o [0 ..< Suc (Suc k)])" by simp
  have z: "(nxt ?s)(?o (Suc k) := 0) = nxt ?s" by simp
  show ?case
  proof (intro exI [of _ ?s] conjI impI)
    show "each (\<lambda>i s. deref (link_object sz first i s)) [1 ..< Suc (Suc k)] s = Inr ?s" by (rule e)
    show "chain ((nxt ?s)(?o (Suc k) := 0)) (?o 0) (map ?o [0 ..< Suc (Suc k)])" unfolding z by (rule c)
  qed (simp_all add: s1(3,4))
qed

lemma refill_holds:
  assumes p: "pmm_pop 0 m = Inr (m', frame)" and f: "usable_frame sz (frame + physmem_base)"
    and two: "2 * unat sz \<le> 4096"
  shows "\<exists>s'. refill sz m s = Inr (m', s') \<and> chain_list s' (objects sz (frame + physmem_base))"
proof -
  let ?f = "frame + physmem_base" and ?n = "objects_per_frame sz"
  let ?s = "(claim_frame sz ?f s)\<lparr>prev := (prev s)(?f := 0)\<rparr>"
  have n: "2 \<le> ?n" using two f by (simp add: objects_per_frame_def usable_frame_def less_eq_div_iff_mult_less_eq unat_gt_0)
  have acc: "\<forall>i < ?n. accessible ?s (object_at sz ?f i)"
    using object_at_unat(2) [OF f] by (auto simp: accessible_def claim_frame_def)
  have o: "object_at sz ?f 0 = ?f" by (simp add: object_at_def)
  have "write_prev (claim_frame sz ?f s) ?f 0 = Some ?s"
  proof -
    have "accessible ?s ?f" using spec [OF acc, of 0] n o by simp
    then show ?thesis by (simp add: write_prev_def claim_frame_def)
  qed
  moreover obtain s1 where s1: "each (\<lambda>i s. deref (link_object sz ?f i s)) [1 ..< Suc (?n - 1)] ?s = Inr s1"
    "chain ((nxt s1)(object_at sz ?f (?n - 1) := 0)) (object_at sz ?f 0) (map (object_at sz ?f) [0 ..< Suc (?n - 1)])"
    "nxt s1 (object_at sz ?f (?n - 1)) = 0" "valid s1 = valid ?s" "chained_lock s1 = chained_lock ?s"
    using link_objects_holds [OF f _ acc, of "?n - 1"] n by auto
  have "Suc (?n - 1) = ?n" using n by simp
  with s1 have c: "chain (nxt s1) ?f (objects sz ?f)" "each (\<lambda>i s. deref (link_object sz ?f i s)) [1 ..< ?n] ?s = Inr s1"
    using o by (simp_all add: fun_upd_idem)
  ultimately have "refill sz m s = Inr (m', s1\<lparr>chained_head := ?f\<rparr>)"
    using p by (simp add: refill_def Let_def)
  moreover have "distinct (objects sz ?f)" using object_at_inj [OF f] by (auto simp: distinct_map inj_on_def)
  moreover have "\<forall>x \<in> set (objects sz ?f). accessible s1 x" using acc s1(4) by (auto simp: accessible_def)
  ultimately show ?thesis using c(1) by (auto simp: chain_list_def)
qed

text \<open>An allocation takes the first object of the chain, which it makes of a frame if it is empty.\<close>

lemma allocate_chained_holds:
  assumes s: "chain_holds s xs" and two: "2 * unat sz \<le> 4096"
    and pop: "xs = [] \<Longrightarrow> pmm_pop 0 m = Inr (m', frame) \<and> usable_frame sz (frame + physmem_base)"
  obtains s' p ys where "allocate_chained sz m s = Inr (if xs = [] then m' else m, s', p)" "chain_holds s' ys" "p \<notin> set ys" "accessible s' p"
    "p # ys = (if xs = [] then objects sz (frame + physmem_base) else xs)"
proof -
  let ?s = "s\<lparr>chained_lock := True\<rparr>"
  have l: "\<not> chained_lock s" "chain_list s xs" using s by (simp_all add: chain_holds_def)
  obtain s2 p ys where s2: "chain_list s2 (p # ys)" "p # ys = (if xs = [] then objects sz (frame + physmem_base) else xs)"
    "(if chained_head s = 0 then refill sz m ?s else Inr (m, ?s)) = Inr (if xs = [] then m' else m, s2)"
  proof (cases xs)
    case Nil
    note pop = pop [OF Nil]
    from refill_holds [of m m' frame sz ?s] pop two obtain s2 where
      s2: "refill sz m ?s = Inr (m', s2)" "chain_list s2 (objects sz (frame + physmem_base))" by auto
    have "objects_per_frame sz \<noteq> 0" using two pop by (auto simp: objects_per_frame_def div_eq_0_iff usable_frame_def unat_eq_0)
    then obtain p ys where o: "p # ys = objects sz (frame + physmem_base)"
      by (cases "objects sz (frame + physmem_base)") auto
    have h: "chained_head s = 0" using l(2) Nil by (simp add: chain_list_def)
    show thesis
    proof (rule that)
      show "chain_list s2 (p # ys)" unfolding o by (rule s2(2))
      show "p # ys = (if xs = [] then objects sz (frame + physmem_base) else xs)" unfolding o using Nil by simp
      show "(if chained_head s = 0 then refill sz m ?s else Inr (m, ?s)) = Inr (if xs = [] then m' else m, s2)" using h s2(1) Nil by simp
    qed
  next
    case (Cons p ys)
    then have "chained_head s \<noteq> 0" using l(2) by (auto simp: chain_list_def)
    with Cons l(2) show thesis by (intro that [of ?s p ys]) simp_all
  qed
  from allocate_exec [OF l(1) s2(1,3)] that s2(2) show thesis by blast
qed

section \<open>Properties\<close>

definition no_objects :: "unit chained" where
  "no_objects = \<lparr>valid = (\<lambda>_. False), prev = (\<lambda>_. 0), nxt = (\<lambda>_. 0x1234), tree_parent = (\<lambda>_. 0), val = (\<lambda>_. ()),
     chained_head = 0, chained_lock = False\<rparr>"

definition one_frame :: pmm where
  "one_frame = (pmm_init (\<lambda>_. 0))\<lparr>infos := (\<lambda>_. stack_info_init)(0 := \<lparr>stack_lock = False, stack = 0x5000, num_frames = 1\<rparr>)\<rparr>"

lemma one_frame_inv: "pmm_inv one_frame ((\<lambda>_. [])(0 := [0x5000]))"
  by (auto simp: one_frame_def pmm_inv_def stack_ok_def pmm_init_def stack_info_init_def psize_def)

text \<open>
  C29. Allocation of objects of at most half a page returns an accessible object that is not among the
  unused ones and leaves a chain of unused objects, whether it takes the object from the chain or
  refills the chain from the physical memory manager; giving the object back puts it first.
\<close>

theorem allocate_then_deallocate:
  assumes "chain_holds s xs" and "pmm_inv m F" and "F 0 = frame # fs" and "2 * unat sz \<le> 4096"
    and "usable_frame sz (frame + physmem_base)"
  shows "\<exists>m' s' p ys s''. allocate_chained sz m s = Inr (m', s', p) \<and> chain_holds s' ys \<and> p \<notin> set ys \<and> accessible s' p \<and>
    p # ys = (if xs = [] then objects sz (frame + physmem_base) else xs) \<and>
    deallocate_chained p s' = Inr s'' \<and> chain_holds s'' (p # ys)"
proof -
  from pmm_inv_pop [OF assms(2) _ assms(3)] obtain m1 where "instance_pop 0 m = Inr (m1, frame)"
    by (auto simp: page_size_count_def)
  then obtain m' where "pmm_pop 0 m = Inr (m', frame)" by (auto simp: pmm_pop_def page_size_count_def)
  with assms(5) obtain s' p ys where s': "allocate_chained sz m s = Inr (if xs = [] then m' else m, s', p)" "chain_holds s' ys" "p \<notin> set ys"
      "accessible s' p" "p # ys = (if xs = [] then objects sz (frame + physmem_base) else xs)"
    by (metis allocate_chained_holds [OF assms(1,4)])
  with deallocate_to_chain [OF s'(2,4,3)] show ?thesis by blast
qed

theorem allocate_then_deallocate_witness:
  "\<exists>m' s' p ys s''. allocate_chained 1024 one_frame no_objects = Inr (m', s', p) \<and> chain_holds s' ys \<and> p \<notin> set ys \<and>
    accessible s' p \<and> p # ys = (if [] = ([] :: addr list) then objects 1024 (0x5000 + physmem_base) else []) \<and>
    deallocate_chained p s' = Inr s'' \<and> chain_holds s'' (p # ys)"
  by (rule allocate_then_deallocate [OF _ one_frame_inv])
    (simp_all add: no_objects_def chain_holds_def chain_list_def usable_frame_def physmem_base_def)

text \<open>
  For objects of more than half a page the loop over the fresh frame does not run, and nothing sets
  the link of its only object: the allocation returns the object, and the chain of unused objects
  then starts at whatever the memory of the frame contained.
\<close>

lemma large_object_leaves_stale_chain:
  assumes "chain_holds s []" and "pmm_pop 0 m = Inr (m', frame)" and "2048 < unat sz" and "unat sz \<le> 4096"
    and "frame + physmem_base \<noteq> 0"
  shows "\<exists>s'. allocate_chained sz m s = Inr (m', s', frame + physmem_base) \<and>
    chained_head s' = nxt s (frame + physmem_base)"
proof -
  let ?f = "frame + physmem_base"
  have "4096 div unat sz = 1" using assms(3,4) by (simp add: Suc_le_eq div_nat_eqI)
  then have n: "objects_per_frame sz = 1" by (simp add: objects_per_frame_def)
  then have v: "valid (claim_frame sz ?f t) ?f" for t :: "'a chained" by (simp add: claim_frame_def object_at_def)
  let ?s = "(claim_frame sz ?f (s\<lparr>chained_lock := True\<rparr>))\<lparr>prev := (prev s)(?f := 0)\<rparr>"
  have "refill sz m (s\<lparr>chained_lock := True\<rparr>) = Inr (m', ?s\<lparr>chained_head := ?f\<rparr>)"
    using assms(2,5) n v by (simp add: refill_def write_prev_def accessible_def Let_def claim_frame_def)
  moreover have "read_nxt (?s\<lparr>chained_head := ?f\<rparr>) ?f = Some (nxt s ?f)"
    using assms(5) v by (simp add: read_nxt_def accessible_def claim_frame_def)
  ultimately show ?thesis
    using assms(1) by (auto simp: allocate_chained_def lock_chain_def chain_holds_def chain_list_def Let_def)
qed

lemma large_object_leaves_stale_chain_example:
  "\<exists>s'. allocate_chained 3000 one_frame no_objects = Inr (fst (projr (pmm_pop 0 one_frame)), s', 0x5000 + physmem_base) \<and>
    chained_head s' = nxt no_objects (0x5000 + physmem_base)"
proof (rule large_object_leaves_stale_chain)
  show "pmm_pop 0 one_frame = Inr (fst (projr (pmm_pop 0 one_frame)), 0x5000)"
    by (simp add: pmm_pop_def instance_pop_exec one_frame_def page_size_count_def)
qed (simp_all add: no_objects_def chain_holds_def chain_list_def physmem_base_def)

end
