(* ===== verification/Thorn_Lexer.thy ===== *)
theory Thorn_Lexer
  imports Main "HOL-Library.Monad_Syntax"
begin

text \<open>
  The lexer of \<open>thorn\<close>, the compiler of the system call descriptions: \<open>toolchain/thorn/lexer.h\<close>.

  The input stream is the list of characters that are left and its end-of-file flag, which reading or
  peeking past the end sets. \<open>_peek\<close> returns the result of \<open>std::ifstream::peek\<close> as a \<open>char\<close>, so that the end of
  the input reads as character 255. At the end of the input \<open>_generate\<close> returns with the current token
  as it was; this matters to the parser. \<open>REPORT_ERROR\<close> prints a message with a position and exits:
  it is the left summand of a result.
\<close>

section \<open>Tokens\<close>

datatype token_type =
    syscall | enum_t | struct_t | union_t | open_paren | close_paren | colon | comma | semicolon | scope
  | token_t | permissions | for_t | direction | ptr | identifier_t | arrow | dollar | include_t | header_name | blocking

definition quoted :: "string \<Rightarrow> string" where
  "quoted s = CHR 39 # s @ [CHR 39]"

fun descriptions :: "token_type \<Rightarrow> string" where
  "descriptions syscall = quoted ''syscall''" | "descriptions enum_t = quoted ''enum''"
| "descriptions struct_t = quoted ''struct''" | "descriptions union_t = quoted ''union''"
| "descriptions open_paren = quoted ''(''" | "descriptions close_paren = quoted '')''"
| "descriptions colon = quoted '':''" | "descriptions comma = quoted '',''"
| "descriptions semicolon = quoted '';''" | "descriptions scope = quoted ''::''"
| "descriptions token_t = quoted ''token''" | "descriptions permissions = quoted ''permissions''"
| "descriptions for_t = quoted ''for''" | "descriptions direction = ''direction-specifier''"
| "descriptions ptr = quoted ''ptr''" | "descriptions identifier_t = ''identifier''"
| "descriptions arrow = quoted ''->''" | "descriptions dollar = quoted ''$''"
| "descriptions include_t = quoted ''include''" | "descriptions header_name = ''header-name''"
| "descriptions blocking = quoted ''blocking''"

definition symbol_types :: "char \<Rightarrow> token_type option" where
  "symbol_types c =
     (if c = CHR ''('' then Some open_paren
      else if c = CHR '')'' then Some close_paren
      else if c = CHR '','' then Some comma
      else if c = CHR '';'' then Some semicolon
      else if c = CHR ''$'' then Some dollar
      else None)"

definition keywords_table :: "(string \<times> token_type) list" where
  "keywords_table =
     [(''syscall'', syscall), (''enum'', enum_t), (''struct'', struct_t), (''union'', union_t),
      (''token'', token_t), (''permissions'', permissions), (''for'', for_t), (''in'', direction),
      (''out'', direction), (''ptr'', ptr), (''include'', include_t), (''blocking'', blocking)]"

record token =
  tok_line :: nat
  tok_column :: nat
  contents :: string
  tok_type :: token_type

record tokenizer =
  input :: string
  eof :: bool
  current :: token
  line :: nat
  column :: nat

datatype thorn_error = Report nat nat string | Semantic string | Cannot_open

section \<open>The stream\<close>

definition eof_char :: char where
  "eof_char = CHR 0xFF"

definition peek_c :: "tokenizer \<Rightarrow> tokenizer \<times> char" where
  "peek_c t = (case input t of [] \<Rightarrow> (t\<lparr>eof := True\<rparr>, eof_char) | c # _ \<Rightarrow> (t, c))"

definition get_c :: "tokenizer \<Rightarrow> tokenizer \<times> char" where
  "get_c t =
     (case input t of
        [] \<Rightarrow> (t\<lparr>eof := True, column := column t + 1\<rparr>, eof_char)
      | c # cs \<Rightarrow>
          (if c = CHR 10 then t\<lparr>input := cs, line := line t + 1, column := 1\<rparr>
           else t\<lparr>input := cs, column := column t + 1\<rparr>, c))"

definition append_c :: "tokenizer \<Rightarrow> tokenizer" where
  "append_c t = (let (t, c) = get_c t in t\<lparr>current := current t\<lparr>contents := contents (current t) @ [c]\<rparr>\<rparr>)"

text \<open>The character classes of the C locale.\<close>

definition isspace :: "char \<Rightarrow> bool" where
  "isspace c \<longleftrightarrow> c \<in> {CHR '' '', CHR 9, CHR 10, CHR 11, CHR 12, CHR 13}"

definition isalpha :: "char \<Rightarrow> bool" where
  "isalpha c \<longleftrightarrow> (let n = (of_char c :: nat) in (97 \<le> n \<and> n \<le> 122) \<or> (65 \<le> n \<and> n \<le> 90))"

definition isdigit :: "char \<Rightarrow> bool" where
  "isdigit c \<longleftrightarrow> (let n = (of_char c :: nat) in 48 \<le> n \<and> n \<le> 57)"

definition isalnum :: "char \<Rightarrow> bool" where
  "isalnum c \<longleftrightarrow> isalpha c \<or> isdigit c"

section \<open>Generating the next token\<close>

lemma peek_c_input: "input (fst (peek_c t)) = input t"
  by (simp add: peek_c_def split: list.splits)

lemma get_c_input: "input (fst (get_c t)) = tl (input t)"
  by (simp add: get_c_def split: list.splits)

lemma peek_c_eof: "peek_c t = (t', c) \<Longrightarrow> c \<noteq> eof_char \<Longrightarrow> input t' \<noteq> []"
  by (auto simp: peek_c_def split: list.splits)

lemma class_eof [simp]: "\<not> isspace eof_char" "\<not> isalpha eof_char" "\<not> isdigit eof_char" "\<not> isalnum eof_char"
  by (simp_all add: eof_char_def isspace_def isalpha_def isdigit_def isalnum_def)

function skip_space :: "tokenizer \<Rightarrow> tokenizer" where
  "skip_space t =
     (let (t, c) = peek_c t
      in if isspace c then skip_space (fst (get_c t)) else t)"
  by pat_completeness auto
termination
  by (relation "measure (\<lambda>t. length (input t))")
    (auto simp: get_c_input peek_c_def class_eof split: list.splits)

text \<open>The loop over the characters of a word.\<close>

function word_loop :: "tokenizer \<Rightarrow> tokenizer" where
  "word_loop t =
     (let (t, c) = peek_c t
      in if isalnum c \<or> c = CHR ''_'' then word_loop (append_c t) else t)"
  by pat_completeness auto
termination
  by (relation "measure (\<lambda>t. length (input t))")
    (auto simp: append_c_def get_c_def peek_c_def eof_char_def class_eof [unfolded eof_char_def] split: list.splits)

text \<open>
  The loop over a header name. It ends at the closing bracket or with an error at the end of the
  input; a character 255 in the input looks like the end but does not set the flag.
\<close>

function header_loop :: "tokenizer \<Rightarrow> thorn_error + tokenizer" where
  "header_loop t =
     (let (t, c) = peek_c t
      in if c \<noteq> CHR ''>'' then
           if eof t then Inl (Report (line t) (column t) ''unternimated header-name'')
           else header_loop (append_c t)
         else Inr t)"
  by pat_completeness auto
termination
  by (relation "measure (\<lambda>t. length (input t))")
    (auto simp: append_c_def get_c_def peek_c_def split: list.splits)

declare skip_space.simps [simp del] word_loop.simps [simp del] header_loop.simps [simp del]

definition set_type :: "token_type \<Rightarrow> tokenizer \<Rightarrow> tokenizer" where
  "set_type ty t = t\<lparr>current := current t\<lparr>tok_type := ty\<rparr>\<rparr>"

definition generate :: "tokenizer \<Rightarrow> thorn_error + tokenizer" where
  "generate t =
     (let t = skip_space t
      in if eof t then Inr t
         else
           let t = t\<lparr>current := current t\<lparr>tok_line := line t, tok_column := column t, contents := []\<rparr>\<rparr>;
               (t, c) = peek_c t
           in if c = CHR '':'' then
                let t = set_type colon (append_c t);
                    (t, c) = peek_c t
                in Inr (if c = CHR '':'' then set_type scope (append_c t) else t)
              else if c = CHR ''-'' then
                let (t, c) = peek_c (append_c t)
                in if c \<noteq> CHR ''>'' then Inl (Report (line t) (column t) ''expected >'')
                   else Inr (set_type arrow (append_c t))
              else if c = CHR ''<'' then
                case header_loop (fst (get_c t)) of
                  Inl e \<Rightarrow> Inl e
                | Inr t \<Rightarrow> Inr (fst (get_c (set_type header_name t)))
              else if symbol_types c \<noteq> None then
                let t = append_c t
                in Inr (set_type (the (symbol_types (last (contents (current t))))) t)
              else if isalpha c then
                let t = word_loop (append_c t)
                in Inr (set_type (case map_of keywords_table (contents (current t)) of
                                    None \<Rightarrow> identifier_t | Some ty \<Rightarrow> ty) t)
              else Inl (Report (line t) (column t) ''unexpected character''))"

text \<open>The constructor of the iterator, on the contents of the file; the first token is generated at once.\<close>

definition default_token :: token where
  "default_token = \<lparr>tok_line = 0, tok_column = 0, contents = [], tok_type = syscall\<rparr>"

definition tokenize :: "string option \<Rightarrow> thorn_error + tokenizer" where
  "tokenize file =
     (case file of
        None \<Rightarrow> Inl Cannot_open
      | Some cs \<Rightarrow> generate \<lparr>input = cs, eof = False, current = default_token, line = 1, column = 1\<rparr>)"

definition at_sentinel :: "tokenizer \<Rightarrow> bool" where
  "at_sentinel t = eof t"

end
