(* ===== verification/Thorn_Parser.thy ===== *)
theory Thorn_Parser
  imports Thorn_Lexer
begin

text \<open>
  The parser of \<open>thorn\<close>: \<open>toolchain/thorn/parser.h\<close> and \<open>parser.cpp\<close>, over the token iterator. A parse
  function returns what it parsed and the iterator after it, or the error it exits with; a loop
  that never ends is \<^const>\<open>None\<close>. Such loops exist: the iterator stays on its last token at the end of
  the input.
\<close>

section \<open>Syntax trees\<close>

record qualified_name =
  in_generated_scope :: bool
  name_elements :: "string list"

record permissions_definition =
  object_type :: "qualified_name option"
  permission_names :: "string list"

record parameter =
  param_name :: string
  param_in :: bool
  param_out :: bool
  token_permissions :: "string list option"
  type_spec :: qualified_name

record parsed_syscall =
  syscall_scope :: qualified_name
  syscall_blocking :: bool
  syscall_name :: string
  parameters :: "parameter list"
  syscall_return :: "qualified_name option"

record parsed_enum =
  enum_name :: string
  enumerations :: "string list"

record union_member =
  union_member_name :: string
  union_member_type :: qualified_name

datatype member_type = Named qualified_name | Union "union_member list"

record struct_member =
  struct_member_name :: string
  struct_member_type :: member_type

record parsed_struct =
  struct_name :: string
  struct_members :: "struct_member list"

record parsed_include =
  include_header :: string

section \<open>Parsing in sequence\<close>

type_synonym 'a parse = "(thorn_error + 'a) option"

definition andthen :: "'a parse \<Rightarrow> ('a \<Rightarrow> 'b parse) \<Rightarrow> 'b parse" where
  "andthen m f = Option.bind m (\<lambda>r. case r of Inl e \<Rightarrow> Some (Inl e) | Inr x \<Rightarrow> f x)"

lemma andthen_simps [simp]:
  "andthen None f = None" "andthen (Some (Inl e)) f = Some (Inl e)" "andthen (Some (Inr x)) f = f x"
  by (simp_all add: andthen_def)

lemma andthen_mono [partial_function_mono]:
  assumes "mono_option m" "\<And>x. mono_option (\<lambda>g. f x g)"
  shows "mono_option (\<lambda>g. andthen (m g) (\<lambda>x. f x g))"
  unfolding andthen_def
proof (rule bind_mono [OF assms(1)])
  show "mono_option (\<lambda>g. case r of Inl e \<Rightarrow> Some (Inl e) | Inr x \<Rightarrow> f x g)" for r
    using assms(2) by (cases r) (auto intro: option.const_mono)
qed

definition ret :: "'a \<Rightarrow> 'a parse" where
  "ret x = Some (Inr x)"

lemma andthen_ret [simp]: "andthen (ret x) f = f x"
  by (simp add: ret_def)

definition cur_type :: "tokenizer \<Rightarrow> token_type" where
  "cur_type t = tok_type (current t)"

definition advance :: "tokenizer \<Rightarrow> tokenizer parse" where
  "advance t = Some (generate t)"

text \<open>The contents of the current token are copied: the iterator gives access to a constant token, from which nothing can be moved.\<close>

definition expect :: "token_type \<Rightarrow> tokenizer \<Rightarrow> (string \<times> tokenizer) parse" where
  "expect ty t =
     (if cur_type t \<noteq> ty then
        Some (Inl (Report (tok_line (current t)) (tok_column (current t))
          (''expected '' @ descriptions ty @ '', got '' @ quoted (contents (current t)))))
      else
        let r = contents (current t)
        in andthen (advance t) (\<lambda>t. ret (r, t)))"

text \<open>
  The loop over the rest of a list in parentheses: while the next token does not close the list,
  a comma and another item.
\<close>

partial_function (option) comma_loop ::
    "(tokenizer \<Rightarrow> ('a \<times> tokenizer) parse) \<Rightarrow> 'a list \<Rightarrow> tokenizer \<Rightarrow> ('a list \<times> tokenizer) parse" where
  "comma_loop item acc t =
     (if cur_type t \<noteq> close_paren then
        andthen (expect comma t) (\<lambda>(_, t).
          andthen (item t) (\<lambda>(x, t). comma_loop item (acc @ [x]) t))
      else ret (acc, t))"

definition parse_list :: "(tokenizer \<Rightarrow> ('a \<times> tokenizer) parse) \<Rightarrow> tokenizer \<Rightarrow> ('a list \<times> tokenizer) parse" where
  "parse_list item t =
     andthen (expect open_paren t) (\<lambda>(_, t).
       andthen (item t) (\<lambda>(x, t).
         andthen (comma_loop item [x] t) (\<lambda>(xs, t).
           andthen (expect close_paren t) (\<lambda>(_, t). ret (xs, t)))))"

section \<open>Names and permissions\<close>

partial_function (option) name_loop :: "string list \<Rightarrow> tokenizer \<Rightarrow> (string list \<times> tokenizer) parse" where
  "name_loop acc t =
     (if cur_type t = scope then
        andthen (expect scope t) (\<lambda>(_, t).
          andthen (expect identifier_t t) (\<lambda>(n, t). name_loop (acc @ [n]) t))
      else ret (acc, t))"

definition parse_qualified_name :: "tokenizer \<Rightarrow> (qualified_name \<times> tokenizer) parse" where
  "parse_qualified_name t =
     andthen (if cur_type t = dollar then
                andthen (expect dollar t) (\<lambda>(_, t). andthen (expect scope t) (\<lambda>(_, t). ret (True, t)))
              else ret (False, t)) (\<lambda>(generated, t).
       andthen (expect identifier_t t) (\<lambda>(n, t).
         andthen (name_loop [n] t) (\<lambda>(ns, t).
           if generated \<and> length ns \<noteq> 1 then
             Some (Inl (Report (tok_line (current t)) (tok_column (current t))
               ''a qualified name referencing generated scope contains more than one nested name segment''))
           else ret (\<lparr>in_generated_scope = generated, name_elements = ns\<rparr>, t))))"

definition parse_permissions :: "tokenizer \<Rightarrow> (permissions_definition \<times> tokenizer) parse" where
  "parse_permissions t =
     andthen (expect permissions t) (\<lambda>(_, t).
       andthen (if cur_type t \<noteq> open_paren then
                  andthen (expect for_t t) (\<lambda>(_, t).
                    andthen (parse_qualified_name t) (\<lambda>(q, t). ret (Some q, t)))
                else ret (None, t)) (\<lambda>(ty, t).
         andthen (parse_list (expect identifier_t) t) (\<lambda>(ps, t).
           andthen (expect semicolon t) (\<lambda>(_, t).
             ret (\<lparr>object_type = ty, permission_names = ps\<rparr>, t)))))"

section \<open>System calls\<close>

partial_function (option) direction_loop :: "bool \<Rightarrow> bool \<Rightarrow> tokenizer \<Rightarrow> ((bool \<times> bool) \<times> tokenizer) parse" where
  "direction_loop is_in is_out t =
     (if cur_type t = direction then
        andthen (expect direction t) (\<lambda>(c, t).
          direction_loop (is_in \<or> c = ''in'') (is_out \<or> c = ''out'') t)
      else ret ((is_in, is_out), t))"

definition parse_parameter :: "tokenizer \<Rightarrow> (parameter \<times> tokenizer) parse" where
  "parse_parameter t =
     andthen (expect identifier_t t) (\<lambda>(name, t).
       andthen (expect colon t) (\<lambda>(_, t).
         andthen (direction_loop False False t) (\<lambda>((is_in, is_out), t).
           andthen (if is_in \<or> is_out then andthen (expect ptr t) (\<lambda>(_, t). ret ((), t)) else ret ((), t)) (\<lambda>(_, t).
             andthen (if cur_type t = token_t then
                        andthen (expect token_t t) (\<lambda>(_, t).
                          andthen (parse_list (expect identifier_t) t) (\<lambda>(ps, t). ret (Some ps, t)))
                      else ret (None, t)) (\<lambda>(perms, t).
               andthen (parse_qualified_name t) (\<lambda>(ty, t).
                 ret (\<lparr>param_name = name, param_in = is_in, param_out = is_out, token_permissions = perms, type_spec = ty\<rparr>, t)))))))"

definition parse_syscall :: "tokenizer \<Rightarrow> (parsed_syscall \<times> tokenizer) parse" where
  "parse_syscall t =
     andthen (expect syscall t) (\<lambda>(_, t).
       andthen (expect open_paren t) (\<lambda>(_, t).
         andthen (parse_qualified_name t) (\<lambda>(sc, t).
           andthen (if cur_type t = comma then
                      andthen (expect comma t) (\<lambda>(_, t). andthen (expect blocking t) (\<lambda>(_, t). ret (True, t)))
                    else ret (False, t)) (\<lambda>(blocks, t).
             andthen (expect close_paren t) (\<lambda>(_, t).
               andthen (expect identifier_t t) (\<lambda>(name, t).
                 andthen (parse_list parse_parameter t) (\<lambda>(ps, t).
                   andthen (if cur_type t = arrow then
                              andthen (expect arrow t) (\<lambda>(_, t).
                                andthen (parse_qualified_name t) (\<lambda>(q, t). ret (Some q, t)))
                            else ret (None, t)) (\<lambda>(rt, t).
                     andthen (expect semicolon t) (\<lambda>(_, t).
                       ret (\<lparr>syscall_scope = sc, syscall_blocking = blocks, syscall_name = name, parameters = ps,
                             syscall_return = rt\<rparr>, t))))))))))"

section \<open>Types\<close>

definition parse_enum :: "tokenizer \<Rightarrow> (parsed_enum \<times> tokenizer) parse" where
  "parse_enum t =
     andthen (expect enum_t t) (\<lambda>(_, t).
       andthen (expect identifier_t t) (\<lambda>(name, t).
         andthen (parse_list (expect identifier_t) t) (\<lambda>(es, t).
           andthen (expect semicolon t) (\<lambda>(_, t).
             ret (\<lparr>enum_name = name, enumerations = es\<rparr>, t)))))"

definition parse_union_member :: "tokenizer \<Rightarrow> (union_member \<times> tokenizer) parse" where
  "parse_union_member t =
     andthen (expect identifier_t t) (\<lambda>(name, t).
       andthen (expect colon t) (\<lambda>(_, t).
         andthen (parse_qualified_name t) (\<lambda>(q, t).
           ret (\<lparr>union_member_name = name, union_member_type = q\<rparr>, t))))"

definition parse_union :: "tokenizer \<Rightarrow> (union_member list \<times> tokenizer) parse" where
  "parse_union t = andthen (expect union_t t) (\<lambda>(_, t). parse_list parse_union_member t)"

definition parse_struct_member :: "tokenizer \<Rightarrow> (struct_member \<times> tokenizer) parse" where
  "parse_struct_member t =
     andthen (expect identifier_t t) (\<lambda>(name, t).
       andthen (expect colon t) (\<lambda>(_, t).
         if cur_type t = union_t then
           andthen (parse_union t) (\<lambda>(ms, t).
             ret (\<lparr>struct_member_name = name, struct_member_type = Union ms\<rparr>, t))
         else
           andthen (parse_qualified_name t) (\<lambda>(q, t).
             ret (\<lparr>struct_member_name = name, struct_member_type = Named q\<rparr>, t))))"

partial_function (option) struct_loop :: "struct_member list \<Rightarrow> tokenizer \<Rightarrow> (struct_member list \<times> tokenizer) parse" where
  "struct_loop acc t =
     (if cur_type t \<noteq> close_paren then
        andthen (parse_struct_member t) (\<lambda>(m, t).
          andthen (if cur_type t \<noteq> close_paren then andthen (expect comma t) (\<lambda>(_, t). ret ((), t)) else ret ((), t)) (\<lambda>(_, t).
            struct_loop (acc @ [m]) t))
      else ret (acc, t))"

definition parse_struct :: "tokenizer \<Rightarrow> (parsed_struct \<times> tokenizer) parse" where
  "parse_struct t =
     andthen (expect struct_t t) (\<lambda>(_, t).
       andthen (expect identifier_t t) (\<lambda>(name, t).
         andthen (expect open_paren t) (\<lambda>(_, t).
           andthen (struct_loop [] t) (\<lambda>(ms, t).
             andthen (expect close_paren t) (\<lambda>(_, t).
               andthen (expect semicolon t) (\<lambda>(_, t).
                 ret (\<lparr>struct_name = name, struct_members = ms\<rparr>, t)))))))"

definition parse_include :: "tokenizer \<Rightarrow> (parsed_include \<times> tokenizer) parse" where
  "parse_include t =
     andthen (expect include_t t) (\<lambda>(_, t).
       andthen (expect header_name t) (\<lambda>(h, t).
         andthen (expect semicolon t) (\<lambda>(_, t).
           ret (\<lparr>include_header = h\<rparr>, t))))"

end
