(* ===== verification/Thorn_Context.thy ===== *)
theory Thorn_Context
  imports Thorn_Parser
begin

text \<open>
  The semantic pass of \<open>thorn\<close>: \<open>toolchain/thorn/context.h\<close> and \<open>context.cpp\<close>, with the descriptions of
  \<open>generator.h\<close>. Hash maps are association lists in insertion order, which is one of the orders an
  \<open>std::unordered_map\<close> may have. The random order of the system calls is an argument of \<open>output\<close>: the
  function that \<open>std::shuffle\<close> computes with the engine it is given.
\<close>

section \<open>Descriptions\<close>

record permission_description =
  perm_name :: string
  flag_bit :: int

type_synonym enum_description = "(string \<times> nat) list"

type_synonym union_description = "(string \<times> string) list"

datatype member_description = Type_name string | Union_of union_description

type_synonym struct_description = "(string \<times> member_description) list"

record handle_token =
  required_permissions :: "string list"
  token_deref_type :: string

record pointer =
  pointer_in :: bool
  pointer_out :: bool
  pointer_deref_type :: string

datatype parameter_description = Value string | Handle handle_token | Pointer pointer

record syscall_description =
  implementation_scope :: string
  desc_parameters :: "(string \<times> parameter_description) list"
  desc_return_type :: "string option"
  desc_id :: nat
  desc_blocking :: bool

datatype description = Enum enum_description | Struct struct_description | Syscall syscall_description

record symbol =
  module :: string
  description :: description

definition arch_registers_for_args :: "string \<Rightarrow> string list option" where
  "arch_registers_for_args arch =
     map_of [(''amd64'', [''rdi'', ''rsi'', ''r8'', ''r9'', ''r10'', ''r12''])] arch"

section \<open>The context\<close>

record thorn_context =
  arg_scope :: string
  arg_arch :: string
  symbols :: "(string \<times> symbol) list"
  module_deps :: "(string \<times> string list) list"
  module_includes :: "(string \<times> string list) list"
  syscalls :: "string list"
  symbols_in_order :: "string list"
  class_permissions :: "(string \<times> string list) list"
  global_permissions :: "string list option"

definition empty_context :: "string \<Rightarrow> string \<Rightarrow> thorn_context" where
  "empty_context sc arch = \<lparr>arg_scope = sc, arg_arch = arch, symbols = [], module_deps = [], module_includes = [],
     syscalls = [], symbols_in_order = [], class_permissions = [], global_permissions = None\<rparr>"

text \<open>Insertion of an element into the set under a key.\<close>

definition add_to :: "string \<Rightarrow> string \<Rightarrow> (string \<times> string list) list \<Rightarrow> (string \<times> string list) list" where
  "add_to k v m =
     (case map_of m k of
        None \<Rightarrow> m @ [(k, [v])]
      | Some vs \<Rightarrow> map (\<lambda>(k', vs'). if k' = k \<and> v \<notin> set vs' then (k', vs' @ [v]) else (k', vs')) m)"

text \<open>A qualified name as one string.\<close>

fun scoped :: "string list \<Rightarrow> string" where
  "scoped [] = []"
| "scoped (n # ns) = n @ concat (map (\<lambda>m. ''::'' @ m) ns)"

definition process_qualified_name :: "string \<Rightarrow> qualified_name \<Rightarrow> thorn_context \<Rightarrow> thorn_context \<times> string option" where
  "process_qualified_name modul ast c =
     (if in_generated_scope ast then
        let n = last (name_elements ast)
        in case map_of (symbols c) n of
             None \<Rightarrow> (c, None)
           | Some s \<Rightarrow>
               (if modul \<noteq> module s then c\<lparr>module_deps := add_to modul (module s) (module_deps c)\<rparr> else c,
                Some (arg_scope c @ ''::'' @ n))
      else (c, Some (scoped (name_elements ast))))"

definition insert_symbol :: "string \<Rightarrow> symbol \<Rightarrow> thorn_context \<Rightarrow> thorn_error + thorn_context" where
  "insert_symbol name symb c =
     (if map_of (symbols c) name \<noteq> None then Inl (Semantic (''duplicate symbol '' @ quoted name))
      else Inr (c\<lparr>symbols := symbols c @ [(name, symb)], symbols_in_order := symbols_in_order c @ [name]\<rparr>))"

definition insert_enum :: "string \<Rightarrow> parsed_enum \<Rightarrow> thorn_context \<Rightarrow> thorn_error + thorn_context" where
  "insert_enum modul ast c =
     insert_symbol (enum_name ast)
       \<lparr>module = modul, description = Enum (zip (enumerations ast) [0 ..< length (enumerations ast)])\<rparr> c"

text \<open>A name that has to be resolved; \<open>what\<close> is the description of the place it occurs in.\<close>

definition resolve :: "string \<Rightarrow> string \<Rightarrow> qualified_name \<Rightarrow> thorn_context \<Rightarrow> thorn_error + thorn_context \<times> string" where
  "resolve what modul q c =
     (case process_qualified_name modul q c of
        (c, None) \<Rightarrow> Inl (Semantic (what @ '' references $::'' @ last (name_elements q) @
          '', which was not defined when its definition was processed''))
      | (c, Some n) \<Rightarrow> Inr (c, n))"

fun union_members :: "string \<Rightarrow> union_member list \<Rightarrow> thorn_context \<Rightarrow> thorn_error + thorn_context \<times> union_description" where
  "union_members modul [] c = Inr (c, [])"
| "union_members modul (m # ms) c =
     (case resolve (''the definition of member'') modul (union_member_type m) c of
        Inl e \<Rightarrow> Inl e
      | Inr (c, n) \<Rightarrow>
          (case union_members modul ms c of
             Inl e \<Rightarrow> Inl e
           | Inr (c, ds) \<Rightarrow> Inr (c, (union_member_name m, n) # ds)))"

fun struct_descriptions :: "string \<Rightarrow> struct_member list \<Rightarrow> thorn_context \<Rightarrow> thorn_error + thorn_context \<times> struct_description" where
  "struct_descriptions modul [] c = Inr (c, [])"
| "struct_descriptions modul (m # ms) c =
     (case (case struct_member_type m of
              Named q \<Rightarrow> map_sum id (\<lambda>(c, n). (c, Type_name n)) (resolve (''the definition of member'') modul q c)
            | Union us \<Rightarrow> map_sum id (\<lambda>(c, ds). (c, Union_of ds)) (union_members modul us c)) of
        Inl e \<Rightarrow> Inl e
      | Inr (c, d) \<Rightarrow>
          (case struct_descriptions modul ms c of
             Inl e \<Rightarrow> Inl e
           | Inr (c, ds) \<Rightarrow> Inr (c, (struct_member_name m, d) # ds)))"

definition insert_struct :: "string \<Rightarrow> parsed_struct \<Rightarrow> thorn_context \<Rightarrow> thorn_error + thorn_context" where
  "insert_struct modul ast c =
     (case struct_descriptions modul (struct_members ast) c of
        Inl e \<Rightarrow> Inl e
      | Inr (c, ds) \<Rightarrow> insert_symbol (struct_name ast) \<lparr>module = modul, description = Struct ds\<rparr> c)"

definition insert_include :: "string \<Rightarrow> parsed_include \<Rightarrow> thorn_context \<Rightarrow> thorn_context" where
  "insert_include modul ast c = c\<lparr>module_includes := add_to modul (include_header ast) (module_includes c)\<rparr>"

section \<open>System calls\<close>

definition valid_permission :: "thorn_context \<Rightarrow> string \<Rightarrow> string \<Rightarrow> bool" where
  "valid_permission c ty perm \<longleftrightarrow>
     (case global_permissions c of None \<Rightarrow> False | Some ps \<Rightarrow> perm \<in> set ps) \<or>
     (case map_of (class_permissions c) ty of None \<Rightarrow> False | Some ps \<Rightarrow> perm \<in> set ps)"

fun check_permissions :: "thorn_context \<Rightarrow> string \<Rightarrow> string list \<Rightarrow> thorn_error + string list" where
  "check_permissions c ty [] = Inr []"
| "check_permissions c ty (p # ps) =
     (if valid_permission c ty p then map_sum id (\<lambda>rs. p # rs) (check_permissions c ty ps)
      else Inl (Semantic (''specifies a permission '' @ quoted p @
        '' which is not a valid permission for a kernel object of type '' @ quoted ty)))"

text \<open>
  One parameter. The flag \<open>has_token_with_permissions\<close> is computed before the permissions of the new token are
  filled in, as in the source.
\<close>

definition parameter_of :: "string \<Rightarrow> parameter \<Rightarrow> bool \<times> thorn_context \<Rightarrow>
    thorn_error + (bool \<times> thorn_context) \<times> parameter_description" where
  "parameter_of modul param = (\<lambda>(has_token_with_permissions, c).
     if token_permissions param \<noteq> None \<and> in_generated_scope (type_spec param) then
       Inl (Semantic ''defined as a token to a type in the generated scope, which is invalid'')
     else if param_in param \<or> param_out param then
       (case resolve ''the type of parameter'' modul (type_spec param) c of
          Inl e \<Rightarrow> Inl e
        | Inr (c, n) \<Rightarrow>
            Inr ((has_token_with_permissions, c),
                 Pointer \<lparr>pointer_in = param_in param, pointer_out = param_out param, pointer_deref_type = n\<rparr>))
     else
       (case token_permissions param of
          Some perms \<Rightarrow>
            let tdesc = \<lparr>required_permissions = [], token_deref_type = []\<rparr>;
                has_token_with_permissions = (has_token_with_permissions \<or> required_permissions tdesc \<noteq> []);
                ty = scoped (name_elements (type_spec param))
            in (case check_permissions c ty perms of
                  Inl e \<Rightarrow> Inl e
                | Inr ps \<Rightarrow>
                    Inr ((has_token_with_permissions, c), Handle \<lparr>required_permissions = ps, token_deref_type = ty\<rparr>))
        | None \<Rightarrow>
            (case resolve ''the type of parameter'' modul (type_spec param) c of
               Inl e \<Rightarrow> Inl e
             | Inr (c, n) \<Rightarrow> Inr ((has_token_with_permissions, c), Value n))))"

fun parameters_of :: "string \<Rightarrow> parameter list \<Rightarrow> bool \<times> thorn_context \<Rightarrow>
    thorn_error + (bool \<times> thorn_context) \<times> (string \<times> parameter_description) list" where
  "parameters_of modul [] st = Inr (st, [])"
| "parameters_of modul (p # ps) st =
     (case parameter_of modul p st of
        Inl e \<Rightarrow> Inl e
      | Inr (st, d) \<Rightarrow> map_sum id (\<lambda>(st, ds). (st, (param_name p, d) # ds)) (parameters_of modul ps st))"

definition return_type_of :: "string \<Rightarrow> qualified_name option \<Rightarrow> thorn_context \<Rightarrow> thorn_error + thorn_context \<times> string option" where
  "return_type_of modul rt c =
     (case rt of
        None \<Rightarrow> Inr (c, None)
      | Some q \<Rightarrow> map_sum id (\<lambda>(c, n). (c, Some n)) (resolve ''the return type of syscall'' modul q c))"

definition insert_syscall :: "string \<Rightarrow> parsed_syscall \<Rightarrow> thorn_context \<Rightarrow> thorn_error + thorn_context" where
  "insert_syscall modul ast c =
     (case arch_registers_for_args (arg_arch c) of
        None \<Rightarrow> Inl (Semantic ''unknown architecture'')
      | Some regs \<Rightarrow>
          (if length (parameters ast) > length regs then
             Inl (Semantic ''accepts more parameters than supposed'')
           else
             (case parameters_of modul (parameters ast) (False, c) of
                Inl e \<Rightarrow> Inl e
              | Inr ((has_token_with_permissions, c), ds) \<Rightarrow>
                  (case return_type_of modul (syscall_return ast) c of
                     Inl e \<Rightarrow> Inl e
                   | Inr (c, rt) \<Rightarrow>
                       if has_token_with_permissions \<and> rt \<noteq> Some (arg_scope c @ ''::result'') then
                         Inl (Semantic ''accepts a handle token parameter with specified permissions, but does not return the generated result type'')
                       else
                         map_sum id (\<lambda>c. c\<lparr>syscalls := syscalls c @ [syscall_name ast]\<rparr>)
                           (insert_symbol (syscall_name ast)
                              \<lparr>module = modul, description = Syscall
                                 \<lparr>implementation_scope = scoped (name_elements (syscall_scope ast)), desc_parameters = ds,
                                  desc_return_type = rt, desc_id = 0, desc_blocking = syscall_blocking ast\<rparr>\<rparr> c)))))"

section \<open>Permissions and whole modules\<close>

definition insert_permissions :: "string \<Rightarrow> token \<Rightarrow> permissions_definition \<Rightarrow> thorn_context \<Rightarrow> thorn_error + thorn_context" where
  "insert_permissions modul tok p c =
     (case object_type p of
        Some q \<Rightarrow>
          (case process_qualified_name modul q c of
             (c, None) \<Rightarrow> Inl (Semantic ''bad optional access'')
           | (c, Some ty) \<Rightarrow>
               if map_of (class_permissions c) ty \<noteq> None then
                 Inl (Report (tok_line tok) (tok_column tok) ''permissions enum specified more than once'')
               else Inr (c\<lparr>class_permissions := class_permissions c @ [(ty, permission_names p)]\<rparr>))
      | None \<Rightarrow>
          if global_permissions c \<noteq> None then
            Inl (Report (tok_line tok) (tok_column tok) ''global permissions enum specified more than once'')
          else Inr (c\<lparr>global_permissions := Some (permission_names p)\<rparr>))"

definition lift :: "thorn_error + 'a \<Rightarrow> 'a parse" where
  "lift r = Some r"

text \<open>One declaration, and the loop over all of them.\<close>

definition process_declaration :: "string \<Rightarrow> tokenizer \<times> thorn_context \<Rightarrow> (tokenizer \<times> thorn_context) parse" where
  "process_declaration modul = (\<lambda>(it, c).
     case cur_type it of
       permissions \<Rightarrow> andthen (parse_permissions it) (\<lambda>(p, it').
         andthen (lift (insert_permissions modul (current it) p c)) (\<lambda>c. ret (it', c)))
     | enum_t \<Rightarrow> andthen (parse_enum it) (\<lambda>(e, it). andthen (lift (insert_enum modul e c)) (\<lambda>c. ret (it, c)))
     | struct_t \<Rightarrow> andthen (parse_struct it) (\<lambda>(s, it). andthen (lift (insert_struct modul s c)) (\<lambda>c. ret (it, c)))
     | syscall \<Rightarrow> andthen (parse_syscall it) (\<lambda>(s, it). andthen (lift (insert_syscall modul s c)) (\<lambda>c. ret (it, c)))
     | include_t \<Rightarrow> andthen (parse_include it) (\<lambda>(i, it). ret (it, insert_include modul i c))
     | _ \<Rightarrow> Some (Inl (Report (tok_line (current it)) (tok_column (current it))
              (''expected declaration, got '' @ quoted (contents (current it))))))"

partial_function (option) process_loop :: "string \<Rightarrow> tokenizer \<times> thorn_context \<Rightarrow> (tokenizer \<times> thorn_context) parse" where
  "process_loop modul st =
     (if \<not> at_sentinel (fst st) then andthen (process_declaration modul st) (process_loop modul) else ret st)"

definition process :: "(string \<Rightarrow> string option) \<Rightarrow> string \<Rightarrow> thorn_context \<Rightarrow> thorn_context parse" where
  "process files filename c =
     andthen (lift (tokenize (files (filename @ ''.thorn'')))) (\<lambda>it.
       andthen (process_loop filename (it, c)) (\<lambda>(_, c). ret c))"

section \<open>Output\<close>

definition set_id :: "nat \<Rightarrow> description \<Rightarrow> description" where
  "set_id i d = (case d of Syscall sd \<Rightarrow> Syscall (sd\<lparr>desc_id := i\<rparr>) | _ \<Rightarrow> d)"

fun assign_ids :: "nat \<Rightarrow> string list \<Rightarrow> (string \<times> symbol) list \<Rightarrow> (string \<times> symbol) list" where
  "assign_ids i [] syms = syms"
| "assign_ids i (n # ns) syms =
     assign_ids (i + 1) ns
       (map (\<lambda>(k, s). if k = n then (k, s\<lparr>description := set_id i (description s)\<rparr>) else (k, s)) syms)"

text \<open>
  The bits of the permissions. For the permissions of an object type the source declares a counter and
  never increments it.
\<close>

definition global_bits :: "string list \<Rightarrow> permission_description list" where
  "global_bits ps = map (\<lambda>(p, i). \<lparr>perm_name = p, flag_bit = int i\<rparr>) (zip ps [0 ..< length ps])"

definition class_bits :: "string list \<Rightarrow> permission_description list" where
  "class_bits ps = (let i = 0 in map (\<lambda>p. \<lparr>perm_name = p, flag_bit = 64 + i\<rparr>) ps)"

definition known_permissions :: "thorn_context \<Rightarrow> permission_description list" where
  "known_permissions c =
     (case global_permissions c of None \<Rightarrow> [] | Some ps \<Rightarrow> global_bits ps) @
     concat (map (\<lambda>(_, ps). class_bits ps) (class_permissions c))"

definition thorn_output :: "(string list \<Rightarrow> string list) \<Rightarrow> thorn_context \<Rightarrow> thorn_context \<times> permission_description list \<times> (string \<times> symbol) list" where
  "thorn_output shuffle c =
     (let c = c\<lparr>syscalls := shuffle (syscalls c)\<rparr>;
          c = c\<lparr>symbols := assign_ids 0 (syscalls c) (symbols c)\<rparr>
      in (c, known_permissions c,
          map (\<lambda>n. (n, the (map_of (symbols c) n))) (symbols_in_order c)))"

end
