(* ===== verification/Thorn_Text.thy ===== *)
theory Thorn_Text
  imports Thorn_Context
begin

text \<open>
  Printing of system call descriptions, and the proof that the front end of \<open>thorn\<close> reads back what is
  printed: first that the lexer yields the printed tokens, then that the parser rebuilds the
  declarations from them.
\<close>

section \<open>Printed tokens\<close>

type_synonym lexeme = "token_type \<times> string"

definition word_char :: "char \<Rightarrow> bool" where
  "word_char c \<longleftrightarrow> isalnum c \<or> c = CHR ''_''"

definition is_word :: "string \<Rightarrow> bool" where
  "is_word w \<longleftrightarrow> w \<noteq> [] \<and> isalpha (hd w) \<and> list_all word_char w"

definition is_identifier :: "string \<Rightarrow> bool" where
  "is_identifier w \<longleftrightarrow> is_word w \<and> map_of keywords_table w = None"

definition is_header :: "string \<Rightarrow> bool" where
  "is_header w \<longleftrightarrow> CHR ''>'' \<notin> set w"

fun lexeme_ok :: "lexeme \<Rightarrow> bool" where
  "lexeme_ok (identifier_t, w) = is_identifier w"
| "lexeme_ok (header_name, w) = is_header w"
| "lexeme_ok (colon, w) = (w = '':'')"
| "lexeme_ok (scope, w) = (w = ''::'')"
| "lexeme_ok (arrow, w) = (w = ''->'')"
| "lexeme_ok (open_paren, w) = (w = ''('')"
| "lexeme_ok (close_paren, w) = (w = '')'')"
| "lexeme_ok (comma, w) = (w = '','')"
| "lexeme_ok (semicolon, w) = (w = '';'')"
| "lexeme_ok (dollar, w) = (w = ''$'')"
| "lexeme_ok (ty, w) = (map_of keywords_table w = Some ty)"

definition text_of :: "lexeme \<Rightarrow> string" where
  "text_of l = (if fst l = header_name then ''<'' @ snd l @ ''>'' else snd l)"

definition render :: "lexeme list \<Rightarrow> string" where
  "render ls = concat (map (\<lambda>l. text_of l @ '' '') ls)"

lemma render_Cons: "render (l # ls) = text_of l @ '' '' @ render ls"
  by (simp add: render_def)

section \<open>The lexer on printed tokens\<close>

text \<open>What the iterator will present, from its current token on.\<close>

fun yields :: "tokenizer \<Rightarrow> lexeme list \<Rightarrow> bool" where
  "yields t [] = eof t"
| "yields t ((ty, w) # ls) =
     (\<not> eof t \<and> cur_type t = ty \<and> contents (current t) = w \<and>
      (\<exists>cs. input t = '' '' @ cs \<and> cs = render ls) \<and> list_all lexeme_ok ls)"

lemma isspace_blank [simp]: "isspace (CHR '' '')"
  by (simp add: isspace_def)

lemma skip_space_blank:
  "input t = CHR '' '' # cs \<Longrightarrow> skip_space t = skip_space (t\<lparr>input := cs, column := column t + 1\<rparr>)"
  by (subst skip_space.simps) (simp add: peek_c_def get_c_def)

lemma skip_space_stop:
  "input t = c # cs \<Longrightarrow> \<not> isspace c \<Longrightarrow> skip_space t = t"
  by (subst skip_space.simps) (simp add: peek_c_def)

lemma skip_space_end: "input t = [] \<Longrightarrow> skip_space t = t\<lparr>eof := True\<rparr>"
  by (subst skip_space.simps) (simp add: peek_c_def)

lemma word_char_not_newline: "word_char c \<Longrightarrow> c \<noteq> CHR 10"
  by (auto simp: word_char_def isalnum_def isalpha_def isdigit_def)

lemma word_loop_word:
  assumes "list_all word_char w" "input t = w @ CHR '' '' # cs"
  shows "\<exists>t'. word_loop t = t' \<and> input t' = CHR '' '' # cs \<and> eof t' = eof t \<and>
    contents (current t') = contents (current t) @ w"
  using assms
proof (induction w arbitrary: t)
  case Nil
  then show ?case by (subst word_loop.simps) (simp add: peek_c_def isalnum_def isalpha_def isdigit_def)
next
  case (Cons c w)
  let ?t = "append_c t"
  have c: "isalnum c \<or> c = CHR ''_''" "c \<noteq> CHR 10" using Cons.prems word_char_not_newline by (auto simp: word_char_def)
  have t: "input ?t = w @ CHR '' '' # cs" "eof ?t = eof t" "contents (current ?t) = contents (current t) @ [c]"
    using Cons.prems c by (auto simp: append_c_def get_c_def)
  have "word_loop t = word_loop ?t"
    using Cons.prems c by (subst word_loop.simps) (auto simp: peek_c_def)
  with Cons.IH [of ?t] Cons.prems(1) t show ?case by simp
qed

lemma header_loop_header:
  assumes "is_header w" "input t = w @ CHR ''>'' # cs" "\<not> eof t"
  shows "\<exists>t'. header_loop t = Inr t' \<and> input t' = CHR ''>'' # cs \<and> \<not> eof t' \<and>
    contents (current t') = contents (current t) @ w"
  using assms
proof (induction w arbitrary: t)
  case Nil
  then show ?case by (subst header_loop.simps) (simp add: peek_c_def)
next
  case (Cons c w)
  let ?t = "append_c t"
  have c: "c \<noteq> CHR ''>''" using Cons.prems by (auto simp: is_header_def)
  have t: "input ?t = w @ CHR ''>'' # cs" "\<not> eof ?t" "contents (current ?t) = contents (current t) @ [c]" "is_header w"
    using Cons.prems c by (auto simp: append_c_def get_c_def is_header_def)
  have "header_loop t = header_loop ?t"
    using Cons.prems c by (subst header_loop.simps) (auto simp: peek_c_def)
  with Cons.IH [of ?t] t show ?case by simp
qed

definition lexed :: "lexeme \<Rightarrow> string \<Rightarrow> tokenizer \<Rightarrow> bool" where
  "lexed l cs t \<longleftrightarrow> input t = CHR '' '' # cs \<and> \<not> eof t \<and> cur_type t = fst l \<and> contents (current t) = snd l"

lemma isalpha_others:
  "isalpha c \<Longrightarrow> \<not> isspace c" "isalpha c \<Longrightarrow> c \<noteq> CHR '':''" "isalpha c \<Longrightarrow> c \<noteq> CHR ''-''" "isalpha c \<Longrightarrow> c \<noteq> CHR ''<''"
  "isalpha c \<Longrightarrow> symbol_types c = None" "isalpha c \<Longrightarrow> c \<noteq> CHR 10"
  by (auto simp: isalpha_def isspace_def symbol_types_def)

lemma generate_word:
  assumes w: "is_word w" and t: "input t = w @ CHR '' '' # cs" "\<not> eof t"
  shows "\<exists>t'. generate t = Inr t' \<and>
    lexed (case map_of keywords_table w of None \<Rightarrow> identifier_t | Some ty \<Rightarrow> ty, w) cs t'"
proof -
  from w obtain c v where cv: "w = c # v" "isalpha c" "list_all word_char v" by (cases w) (auto simp: is_word_def)
  let ?u = "t\<lparr>current := current t\<lparr>tok_line := line t, tok_column := column t, contents := []\<rparr>\<rparr>"
  let ?t = "append_c ?u"
  have t1: "input ?t = v @ CHR '' '' # cs" "eof ?t = eof t" "contents (current ?t) = [c]"
    using t(1) cv isalpha_others(6) [OF cv(2)] by (simp_all add: append_c_def get_c_def)
  from word_loop_word [OF cv(3) t1(1)] t1 obtain t' where t': "word_loop ?t = t'" "input t' = CHR '' '' # cs"
    "eof t' = eof t" "contents (current t') = w" by (auto simp: cv(1))
  have "skip_space t = t" using t cv isalpha_others(1) by (intro skip_space_stop) auto
  then have "generate t = Inr (set_type (case map_of keywords_table w of None \<Rightarrow> identifier_t | Some ty \<Rightarrow> ty) t')"
    using t cv isalpha_others(2-5) [OF cv(2)] t' by (simp add: generate_def peek_c_def)
  then show ?thesis using t' t(2) by (auto simp: lexed_def set_type_def cur_type_def)
qed

lemma keyword_word: "map_of keywords_table w = Some ty \<Longrightarrow> is_word w"
  by (auto simp: keywords_table_def is_word_def word_char_def isalnum_def isalpha_def split: if_splits)

lemma generate_symbol_char:
  assumes "symbol_types c = Some ty" and t: "input t = c # CHR '' '' # cs" "\<not> eof t"
  shows "\<exists>t'. generate t = Inr t' \<and> lexed (ty, [c]) cs t'"
proof -
  have c: "\<not> isspace c" "c \<noteq> CHR '':''" "c \<noteq> CHR ''-''" "c \<noteq> CHR ''<''" "c \<noteq> CHR 10"
    using assms(1) by (auto simp: symbol_types_def isspace_def split: if_splits)
  have "skip_space t = t" using t c by (intro skip_space_stop) auto
  with t c assms(1) show ?thesis
    by (simp add: generate_def peek_c_def append_c_def get_c_def lexed_def set_type_def cur_type_def)
qed

lemma generate_header:
  assumes w: "is_header w" and t: "input t = CHR ''<'' # w @ CHR ''>'' # CHR '' '' # cs" "\<not> eof t"
  shows "\<exists>t'. generate t = Inr t' \<and> lexed (header_name, w) cs t'"
proof -
  let ?u = "t\<lparr>current := current t\<lparr>tok_line := line t, tok_column := column t, contents := []\<rparr>\<rparr>"
  let ?t = "fst (get_c ?u)"
  have t1: "input ?t = w @ CHR ''>'' # CHR '' '' # cs" "\<not> eof ?t" "contents (current ?t) = []"
    using t by (simp_all add: get_c_def)
  from header_loop_header [OF w t1(1,2)] t1 obtain t' where t': "header_loop ?t = Inr t'" "input t' = CHR ''>'' # CHR '' '' # cs"
    "\<not> eof t'" "contents (current t') = w" by auto
  have "skip_space t = t" using t by (intro skip_space_stop) (auto simp: isspace_def)
  then have "generate t = Inr (fst (get_c (set_type header_name t')))"
    using t t' by (simp add: generate_def peek_c_def)
  then show ?thesis using t' by (auto simp: lexed_def set_type_def cur_type_def get_c_def)
qed

lemma generate_punctuation:
  assumes "input t = w @ CHR '' '' # cs" "\<not> eof t" "(w, ty) \<in> {('':'', colon), (''::'', scope), (''->'', arrow)}"
  shows "\<exists>t'. generate t = Inr t' \<and> lexed (ty, w) cs t'"
proof -
  have "skip_space t = t"
    using assms by (intro skip_space_stop [of _ "hd w" "tl w @ CHR '' '' # cs"]) (auto simp: isspace_def)
  with assms show ?thesis
    by (auto simp: generate_def peek_c_def append_c_def get_c_def lexed_def set_type_def cur_type_def)
qed

lemma generate_lexeme:
  assumes "lexeme_ok l" "input t = text_of l @ CHR '' '' # cs" "\<not> eof t"
  shows "\<exists>t'. generate t = Inr t' \<and> lexed l cs t'"
proof -
  obtain ty w where l: "l = (ty, w)" by (cases l)
  show ?thesis
  proof (cases "map_of keywords_table w = Some ty")
    case True
    then have "ty \<noteq> header_name" by (auto simp: keywords_table_def split: if_splits)
    with True generate_word [OF keyword_word [OF True], of t cs] assms l show ?thesis by (simp add: text_of_def)
  next
    case False
    with assms l show ?thesis
      using generate_word [of w t cs] generate_header [of w t cs] generate_symbol_char [of _ ty t cs]
        generate_punctuation [of t w cs ty]
      by (cases ty) (auto simp: text_of_def is_identifier_def symbol_types_def)
  qed
qed

lemma generate_blank:
  "input t = CHR '' '' # cs \<Longrightarrow> generate t = generate (t\<lparr>input := cs, column := column t + 1\<rparr>)"
  by (simp add: generate_def skip_space_blank)

lemma lexed_yields: "lexed l (render ls) t \<Longrightarrow> list_all lexeme_ok ls \<Longrightarrow> yields t (l # ls)"
  by (cases l) (auto simp: lexed_def)

lemma generate_yields:
  assumes "list_all lexeme_ok ls" "input t = render ls" "\<not> eof t"
  shows "\<exists>t'. generate t = Inr t' \<and> yields t' ls"
proof (cases ls)
  case Nil
  with assms show ?thesis by (auto simp: generate_def render_def skip_space_end)
next
  case (Cons l ls')
  with assms generate_lexeme [of l t "render ls'"] show ?thesis
    by (auto simp: render_Cons intro: lexed_yields)
qed

lemma advance_yields:
  assumes "yields t (l # ls)"
  shows "\<exists>t'. generate t = Inr t' \<and> yields t' ls"
proof -
  obtain ty w where "l = (ty, w)" by (cases l)
  with assms have t: "input t = CHR '' '' # render ls" "\<not> eof t" "list_all lexeme_ok ls" by auto
  then have "generate t = generate (t\<lparr>input := render ls, column := column t + 1\<rparr>)"
    by (subst generate_blank) auto
  with generate_yields [OF t(3), of "t\<lparr>input := render ls, column := column t + 1\<rparr>"] t(2) show ?thesis
    by simp
qed

lemma tokenize_yields:
  "list_all lexeme_ok ls \<Longrightarrow> \<exists>t. tokenize (Some (render ls)) = Inr t \<and> yields t ls"
  unfolding tokenize_def option.case by (rule generate_yields) auto

section \<open>The parser on the tokens of the iterator\<close>

lemma yields_type: "yields t ((ty, w) # ls) \<Longrightarrow> cur_type t = ty"
  by simp

lemma expect_yields:
  assumes "yields t ((ty, w) # ls)"
  obtains t' where "expect ty t = ret (w, t')" "yields t' ls"
proof -
  from advance_yields [OF assms] obtain t' where "generate t = Inr t'" "yields t' ls"
    by blast
  with assms that show thesis by (auto simp: expect_def advance_def ret_def)
qed

text \<open>A parse function that reads a syntax tree \<open>x\<close> from the tokens \<open>ls\<close>, whatever follows.\<close>

definition reads :: "(tokenizer \<Rightarrow> ('a \<times> tokenizer) parse) \<Rightarrow> (lexeme list \<Rightarrow> bool) \<Rightarrow> lexeme list \<Rightarrow> 'a \<Rightarrow> bool" where
  "reads p follow ls x \<longleftrightarrow>
     (\<forall>t rest. yields t (ls @ rest) \<longrightarrow> follow rest \<longrightarrow> (\<exists>t'. p t = ret (x, t') \<and> yields t' rest))"

lemma readsI:
  assumes "\<And>t rest. yields t (ls @ rest) \<Longrightarrow> follow rest \<Longrightarrow> \<exists>t'. p t = ret (x, t') \<and> yields t' rest"
  shows "reads p follow ls x"
  using assms by (simp add: reads_def)

lemma readsE:
  assumes "reads p follow ls x" "yields t (ls @ rest)" "follow rest"
  obtains t' where "p t = ret (x, t')" "yields t' rest"
  using assms by (auto simp: reads_def)

abbreviation anything :: "lexeme list \<Rightarrow> bool" where
  "anything \<equiv> \<lambda>_. True"

text \<open>What follows does not start with a token of the given types.\<close>

definition unless :: "token_type set \<Rightarrow> lexeme list \<Rightarrow> bool" where
  "unless tys rest \<longleftrightarrow> rest \<noteq> [] \<and> fst (hd rest) \<notin> tys"

lemma unless_Cons [simp]: "unless tys (l # ls) \<longleftrightarrow> fst l \<notin> tys"
  by (simp add: unless_def)

lemma reads_expect: "reads (expect ty) anything [(ty, w)] w"
proof (rule readsI)
  fix t rest
  assume "yields t ([(ty, w)] @ rest)"
  then have "yields t ((ty, w) # rest)" by simp
  then show "\<exists>t'. expect ty t = ret (w, t') \<and> yields t' rest" by (rule expect_yields) blast
qed

lemma reads_seq:
  assumes "reads p f1 ls1 x" and "\<And>rest. f rest \<Longrightarrow> f1 (ls2 @ rest)" and "reads (q x) f ls2 y"
  shows "reads (\<lambda>t. andthen (p t) (\<lambda>(a, t). q a t)) f (ls1 @ ls2) y"
proof (rule readsI)
  fix t rest
  assume y: "yields t ((ls1 @ ls2) @ rest)" and f: "f rest"
  from y have "yields t (ls1 @ ls2 @ rest)" by simp
  from readsE [OF assms(1) this assms(2) [OF f]] obtain t1 where t1: "p t = ret (x, t1)" "yields t1 (ls2 @ rest)" .
  from readsE [OF assms(3) t1(2) f] obtain t2 where "q x t1 = ret (y, t2)" "yields t2 rest" .
  with t1(1) have "andthen (p t) (\<lambda>(a, t). q a t) = ret (y, t2) \<and> yields t2 rest" by simp
  then show "\<exists>t'. andthen (p t) (\<lambda>(a, t). q a t) = ret (y, t') \<and> yields t' rest" by blast
qed

lemma reads_ret: "reads (\<lambda>t. ret (x, t)) f [] x"
  by (rule readsI) auto

definition starts :: "token_type \<Rightarrow> lexeme list \<Rightarrow> bool" where
  "starts ty rest \<longleftrightarrow> rest \<noteq> [] \<and> fst (hd rest) = ty"

lemma starts_Cons [simp]: "starts ty (l # ls) \<longleftrightarrow> fst l = ty"
  by (simp add: starts_def)

lemma starts_unless: "starts ty ls \<Longrightarrow> ty \<notin> tys \<Longrightarrow> unless tys ls"
  by (simp add: starts_def unless_def)

lemma yields_starts: "yields t ls \<Longrightarrow> starts ty ls \<Longrightarrow> cur_type t = ty"
  by (cases ls) (auto simp: starts_def)

lemma yields_unless: "yields t ls \<Longrightarrow> unless tys ls \<Longrightarrow> cur_type t \<notin> tys"
  by (cases ls) (auto simp: unless_def)

lemma reads_if_yes:
  assumes "reads p f ls x" and "\<And>rest. f rest \<Longrightarrow> starts ty (ls @ rest)"
  shows "reads (\<lambda>t. if cur_type t = ty then p t else q t) f ls x"
proof (rule readsI)
  fix t rest
  assume y: "yields t (ls @ rest)" and f: "f rest"
  then have "cur_type t = ty" using yields_starts assms(2) by blast
  with readsE [OF assms(1) y f] show "\<exists>t'. (if cur_type t = ty then p t else q t) = ret (x, t') \<and> yields t' rest" by auto
qed

lemma reads_if_no:
  assumes "reads q f ls x" and "\<And>rest. f rest \<Longrightarrow> unless {ty} (ls @ rest)"
  shows "reads (\<lambda>t. if cur_type t = ty then p t else q t) f ls x"
proof (rule readsI)
  fix t rest
  assume y: "yields t (ls @ rest)" and f: "f rest"
  then have "cur_type t \<noteq> ty" using yields_unless assms(2) by blast
  with readsE [OF assms(1) y f] show "\<exists>t'. (if cur_type t = ty then p t else q t) = ret (x, t') \<and> yields t' rest" by auto
qed

lemma reads_weaken: "reads p f ls x \<Longrightarrow> (\<And>rest. g rest \<Longrightarrow> f rest) \<Longrightarrow> reads p g ls x"
  by (simp add: reads_def)

lemma if_neq_swap: "(if a \<noteq> b then x else y) = (if a = b then y else x)"
  by simp

section \<open>Printing\<close>

abbreviation ident :: "string \<Rightarrow> lexeme" where "ident w \<equiv> (identifier_t, w)"

text \<open>The rest of a list in parentheses, and a whole list.\<close>

fun print_more :: "('a \<Rightarrow> lexeme list) \<Rightarrow> 'a list \<Rightarrow> lexeme list" where
  "print_more f [] = []"
| "print_more f (x # xs) = [(comma, '','')] @ f x @ print_more f xs"

definition print_list :: "('a \<Rightarrow> lexeme list) \<Rightarrow> 'a list \<Rightarrow> lexeme list" where
  "print_list f xs = [(open_paren, ''('')] @ f (hd xs) @ print_more f (tl xs) @ [(close_paren, '')'')] @ []"

fun print_scopes :: "string list \<Rightarrow> lexeme list" where
  "print_scopes [] = []"
| "print_scopes (n # ns) = [(scope, ''::'')] @ [ident n] @ print_scopes ns"

definition print_qualified_name :: "qualified_name \<Rightarrow> lexeme list" where
  "print_qualified_name q =
     (if in_generated_scope q then [(dollar, ''$'')] @ [(scope, ''::'')] @ [] else []) @
     [ident (hd (name_elements q))] @ print_scopes (tl (name_elements q)) @ []"

definition print_permissions :: "permissions_definition \<Rightarrow> lexeme list" where
  "print_permissions p =
     [(permissions, ''permissions'')] @
     (case object_type p of None \<Rightarrow> [] | Some q \<Rightarrow> [(for_t, ''for'')] @ print_qualified_name q @ []) @
     print_list (\<lambda>n. [ident n]) (permission_names p) @ [(semicolon, '';'')] @ []"

definition print_directions :: "bool \<Rightarrow> bool \<Rightarrow> lexeme list" where
  "print_directions i ou = (if i then [(direction, ''in'')] else []) @ (if ou then [(direction, ''out'')] else [])"

definition print_parameter :: "parameter \<Rightarrow> lexeme list" where
  "print_parameter p =
     [ident (param_name p)] @ [(colon, '':'')] @ print_directions (param_in p) (param_out p) @
     (if param_in p \<or> param_out p then [(ptr, ''ptr'')] @ [] else []) @
     (case token_permissions p of None \<Rightarrow> []
        | Some ps \<Rightarrow> [(token_t, ''token'')] @ print_list (\<lambda>n. [ident n]) ps @ []) @
     print_qualified_name (type_spec p) @ []"

definition print_syscall :: "parsed_syscall \<Rightarrow> lexeme list" where
  "print_syscall s =
     [(syscall, ''syscall'')] @ [(open_paren, ''('')] @ print_qualified_name (syscall_scope s) @
     (if syscall_blocking s then [(comma, '','')] @ [(blocking, ''blocking'')] @ [] else []) @
     [(close_paren, '')'')] @ [ident (syscall_name s)] @ print_list print_parameter (parameters s) @
     (case syscall_return s of None \<Rightarrow> [] | Some q \<Rightarrow> [(arrow, ''->'')] @ print_qualified_name q @ []) @
     [(semicolon, '';'')] @ []"

definition print_enum :: "parsed_enum \<Rightarrow> lexeme list" where
  "print_enum e =
     [(enum_t, ''enum'')] @ [ident (enum_name e)] @ print_list (\<lambda>n. [ident n]) (enumerations e) @ [(semicolon, '';'')] @ []"

definition print_union_member :: "union_member \<Rightarrow> lexeme list" where
  "print_union_member m = [ident (union_member_name m)] @ [(colon, '':'')] @ print_qualified_name (union_member_type m) @ []"

definition print_struct_member :: "struct_member \<Rightarrow> lexeme list" where
  "print_struct_member m =
     [ident (struct_member_name m)] @ [(colon, '':'')] @
     (case struct_member_type m of
        Named q \<Rightarrow> print_qualified_name q @ []
      | Union us \<Rightarrow> ([(union_t, ''union'')] @ print_list print_union_member us) @ [])"

text \<open>Members are separated by commas, without one after the last.\<close>

fun print_members :: "struct_member list \<Rightarrow> lexeme list" where
  "print_members [] = []"
| "print_members [m] = print_struct_member m"
| "print_members (m # ms) = print_struct_member m @ [(comma, '','')] @ print_members ms"

definition print_struct :: "parsed_struct \<Rightarrow> lexeme list" where
  "print_struct s =
     [(struct_t, ''struct'')] @ [ident (struct_name s)] @ [(open_paren, ''('')] @ print_members (struct_members s) @
     [(close_paren, '')'')] @ [(semicolon, '';'')] @ []"

definition print_include :: "parsed_include \<Rightarrow> lexeme list" where
  "print_include i = [(include_t, ''include'')] @ [(header_name, include_header i)] @ [(semicolon, '';'')] @ []"

section \<open>Reading back\<close>

named_theorems reads_rules \<open>which tokens a parse function reads\<close>

lemma reads_expect' [reads_rules]: "reads (\<lambda>t. expect ty t) anything [(ty, w)] w"
  using reads_expect by simp

lemma reads_name_loop: "reads (name_loop acc) (unless {scope}) (print_scopes ns) (acc @ ns)"
proof (induction ns arbitrary: acc)
  case Nil
  show ?case
    by (subst name_loop.simps, unfold print_scopes.simps append_Nil2, rule reads_if_no [OF reads_ret]) simp
next
  case (Cons n ns)
  have "reads (\<lambda>t. andthen (expect scope t) (\<lambda>(_, t). andthen (expect identifier_t t) (\<lambda>(n, t). name_loop (acc @ [n]) t)))
      (unless {scope}) ([(scope, ''::'')] @ [ident n] @ print_scopes ns) (acc @ n # ns)"
    by (rule reads_seq [OF reads_expect], simp, rule reads_seq [OF reads_expect], simp)
      (use Cons.IH [of "acc @ [n]"] in simp)
  then show ?case
    unfolding name_loop.simps [of acc] print_scopes.simps by (rule reads_if_yes) simp
qed

lemma reads_comma_loop:
  assumes "\<And>x. x \<in> set xs \<Longrightarrow> reads item (unless {scope}) (f x) x"
  shows "reads (comma_loop item acc) (starts close_paren) (print_more f xs) (acc @ xs)"
  using assms
proof (induction xs arbitrary: acc)
  case Nil
  show ?case
    unfolding comma_loop.simps [of item acc] if_neq_swap print_more.simps append_Nil2
    by (rule reads_if_yes [OF reads_ret]) simp
next
  case (Cons x xs)
  have u: "unless {scope} (print_more f xs @ rest)" if "starts close_paren rest" for rest
    using that by (cases xs) (auto intro: starts_unless)
  have "reads (\<lambda>t. andthen (expect comma t) (\<lambda>(_, t). andthen (item t) (\<lambda>(x, t). comma_loop item (acc @ [x]) t)))
      (starts close_paren) ([(comma, '','')] @ f x @ print_more f xs) (acc @ x # xs)"
    using Cons.IH [of "acc @ [x]"] Cons.prems u
    by (intro reads_seq [OF reads_expect] reads_seq [of item "unless {scope}" "f x" x]) auto
  then show ?case
    unfolding comma_loop.simps [of item acc] if_neq_swap print_more.simps by (rule reads_if_no) simp
qed

lemma reads_list:
  assumes "\<And>x. x \<in> set xs \<Longrightarrow> reads item (unless {scope}) (f x) x" and "xs \<noteq> []"
  shows "reads (parse_list item) anything (print_list f xs) xs"
proof -
  obtain y ys where xs: "xs = y # ys" using assms(2) by (cases xs) auto
  have u: "unless {scope} (print_more f ys @ [(close_paren, '')'')] @ rest)" for rest
    by (cases ys) auto
  show ?thesis
    unfolding parse_list_def print_list_def xs list.sel
    by (rule reads_seq [OF reads_expect], simp,
        rule reads_seq [of item "unless {scope}" "f y" y], use assms xs in simp, use u in simp,
        rule reads_seq [OF reads_comma_loop], use assms xs in simp, simp,
        rule reads_seq [OF reads_expect], simp, simp, rule reads_ret)
qed

definition name_ok :: "qualified_name \<Rightarrow> bool" where
  "name_ok q \<longleftrightarrow> name_elements q \<noteq> [] \<and> list_all is_identifier (name_elements q) \<and>
     (in_generated_scope q \<longrightarrow> length (name_elements q) = 1)"

lemma reads_qualified_name:
  assumes "name_ok q"
  shows "reads parse_qualified_name (unless {scope}) (print_qualified_name q) q"
proof -
  obtain n ns where n: "name_elements q = n # ns" using assms by (cases "name_elements q") (auto simp: name_ok_def)
  have one: "\<not> (in_generated_scope q \<and> length (n # ns) \<noteq> 1)" using assms n by (auto simp: name_ok_def)
  have g: "reads (\<lambda>t. if cur_type t = dollar then andthen (expect dollar t) (\<lambda>(_, t). andthen (expect scope t) (\<lambda>(_, t). ret (True, t)))
              else ret (False, t)) (starts identifier_t)
      (if in_generated_scope q then [(dollar, ''$'')] @ [(scope, ''::'')] @ [] else []) (in_generated_scope q)"
  proof (cases "in_generated_scope q")
    case True
    have "reads (\<lambda>t. andthen (expect dollar t) (\<lambda>(_, t). andthen (expect scope t) (\<lambda>(_, t). ret (True, t))))
      (starts identifier_t) ([(dollar, ''$'')] @ [(scope, ''::'')] @ []) True"
      by (rule reads_seq [OF reads_expect], simp, rule reads_seq [OF reads_expect], simp, rule reads_ret)
    with True show ?thesis by (intro reads_if_yes) auto
  next
    case False
    have "reads (\<lambda>t. ret (False, t)) (starts identifier_t) [] False" by (rule reads_ret)
    with False show ?thesis by (intro reads_if_no) (auto intro: starts_unless)
  qed
  have q: "\<lparr>in_generated_scope = in_generated_scope q, name_elements = n # ns\<rparr> = q" using n by (cases q) simp
  show ?thesis
    unfolding parse_qualified_name_def print_qualified_name_def n list.sel
    by (rule reads_seq [OF g], simp, rule reads_seq [OF reads_expect], simp, rule reads_seq [OF reads_name_loop], simp)
      (simp only: append.simps if_not_P [OF one] q reads_ret)
qed

lemmas expect_step = reads_seq [OF reads_expect TrueI]

lemma reads_done: "x = y \<Longrightarrow> reads (\<lambda>t. ret (x, t)) f [] y"
  by (simp add: reads_ret)

lemma reads_last: "x = y \<Longrightarrow> reads (\<lambda>t. andthen (expect ty t) (\<lambda>(_, t). ret (x, t))) f ([(ty, w)] @ []) y"
  by (rule expect_step) (rule reads_done)

lemma print_name_starts [simp]:
  "unless {scope, open_paren, close_paren, direction, token_t, comma, union_t} (print_qualified_name q @ rest)"
  "unless {direction} (print_qualified_name q @ rest)" "unless {token_t} (print_qualified_name q @ rest)"
  "unless {union_t} (print_qualified_name q @ rest)"
  by (auto simp: print_qualified_name_def)

lemma reads_identifiers: "xs \<noteq> [] \<Longrightarrow> reads (parse_list (expect identifier_t)) anything (print_list (\<lambda>n. [ident n]) xs) xs"
  by (rule reads_list [OF reads_weaken [OF reads_expect]]) auto

lemma print_list_starts [simp]: "starts open_paren (print_list f xs @ rest)"
  by (simp add: print_list_def)

lemma reads_direction_loop:
  "reads (direction_loop False False) (unless {direction}) (print_directions i ou) (i, ou)"
proof -
  have stop: "reads (direction_loop a b) (unless {direction}) [] (a, b)" for a b
    unfolding direction_loop.simps [of a b] by (rule reads_if_no [OF reads_ret]) simp
  have step: "reads (direction_loop a b) (unless {direction}) ([(direction, w)] @ ls) r"
    if "reads (direction_loop (a \<or> w = ''in'') (b \<or> w = ''out'')) (unless {direction}) ls r" for a b w ls r
    unfolding direction_loop.simps [of a b] by (rule reads_if_yes, rule expect_step, rule that) simp
  show ?thesis
    using stop step [OF stop, of False False "''in''"] step [OF stop, of False False "''out''"]
      step [OF step [OF stop], of False False "''in''" "''out''"]
    by (cases i; cases ou) (simp_all add: print_directions_def)
qed

definition permissions_ok :: "permissions_definition \<Rightarrow> bool" where
  "permissions_ok p \<longleftrightarrow> permission_names p \<noteq> [] \<and> list_all is_identifier (permission_names p) \<and>
     (case object_type p of None \<Rightarrow> True | Some q \<Rightarrow> name_ok q)"

lemma reads_permissions:
  assumes "permissions_ok p"
  shows "reads parse_permissions anything (print_permissions p) p"
proof -
  have o: "reads (\<lambda>t. if cur_type t \<noteq> open_paren then andthen (expect for_t t) (\<lambda>(_, t).
        andthen (parse_qualified_name t) (\<lambda>(q, t). ret (Some q, t))) else ret (None, t)) (starts open_paren)
      (case object_type p of None \<Rightarrow> [] | Some q \<Rightarrow> [(for_t, ''for'')] @ print_qualified_name q @ []) (object_type p)"
  proof (cases "object_type p")
    case None
    then show ?thesis unfolding if_neq_swap by (simp add: reads_if_yes [OF reads_ret])
  next
    case (Some q)
    with assms have q: "name_ok q" by (simp add: permissions_ok_def)
    show ?thesis unfolding if_neq_swap Some option.case
      by (rule reads_if_no, rule expect_step, rule reads_seq [OF reads_qualified_name [OF q]])
        (auto intro: starts_unless reads_ret)
  qed
  have n: "permission_names p \<noteq> []" using assms by (simp add: permissions_ok_def)
  show ?thesis
    unfolding parse_permissions_def print_permissions_def
    by (rule expect_step, rule reads_seq [OF o], simp, rule reads_seq [OF reads_identifiers [OF n] TrueI], rule reads_last) simp
qed

definition parameter_ok :: "parameter \<Rightarrow> bool" where
  "parameter_ok p \<longleftrightarrow> is_identifier (param_name p) \<and> name_ok (type_spec p) \<and>
     (case token_permissions p of None \<Rightarrow> True | Some ps \<Rightarrow> ps \<noteq> [] \<and> list_all is_identifier ps)"

lemma reads_parameter:
  assumes "parameter_ok p"
  shows "reads parse_parameter (unless {scope}) (print_parameter p) p"
proof -
  define T where "T = (case token_permissions p of None \<Rightarrow> []
        | Some ps \<Rightarrow> [(token_t, ''token'')] @ print_list (\<lambda>n. [ident n]) ps @ [])"
  define P where "P = (if param_in p \<or> param_out p then [(ptr, ''ptr'')] @ [] else [])"
  have pt: "reads (\<lambda>t. if param_in p \<or> param_out p then andthen (expect ptr t) (\<lambda>(_, t). ret ((), t)) else ret ((), t)) anything P ()"
    by (cases "param_in p \<or> param_out p") (auto simp: P_def reads_ret intro: reads_last [simplified])
  have tk: "reads (\<lambda>t. if cur_type t = token_t then andthen (expect token_t t) (\<lambda>(_, t).
        andthen (parse_list (expect identifier_t) t) (\<lambda>(ps, t). ret (Some ps, t))) else ret (None, t))
      (unless {token_t}) T (token_permissions p)"
  proof (cases "token_permissions p")
    case None
    then show ?thesis by (simp add: T_def reads_if_no [OF reads_ret])
  next
    case (Some ps)
    with assms have "ps \<noteq> []" by (simp add: parameter_ok_def)
    with Some show ?thesis unfolding T_def Some option.case
      by (intro reads_if_yes expect_step reads_seq [OF reads_identifiers TrueI] reads_ret) auto
  qed
  have u: "unless {direction} (P @ T @ print_qualified_name (type_spec p) @ rest)" for rest
    by (auto simp: P_def T_def split: option.splits)
  have q: "name_ok (type_spec p)" using assms by (simp add: parameter_ok_def)
  show ?thesis
    unfolding parse_parameter_def print_parameter_def T_def [symmetric] P_def [symmetric]
    by (rule expect_step, rule expect_step, rule reads_seq [OF reads_direction_loop], use u in simp, unfold prod.case,
        rule reads_seq [OF pt TrueI], rule reads_seq [OF tk], simp, rule reads_seq [OF reads_qualified_name [OF q]], simp,
        rule reads_done) simp
qed

definition syscall_ok :: "parsed_syscall \<Rightarrow> bool" where
  "syscall_ok s \<longleftrightarrow> name_ok (syscall_scope s) \<and> is_identifier (syscall_name s) \<and>
     parameters s \<noteq> [] \<and> list_all parameter_ok (parameters s) \<and>
     (case syscall_return s of None \<Rightarrow> True | Some q \<Rightarrow> name_ok q)"

lemma reads_syscall:
  assumes "syscall_ok s"
  shows "reads parse_syscall anything (print_syscall s) s"
proof -
  define B where "B = (if syscall_blocking s then [(comma, '','')] @ [(blocking, ''blocking'')] @ [] else [])"
  define R where "R = (case syscall_return s of None \<Rightarrow> [] | Some q \<Rightarrow> [(arrow, ''->'')] @ print_qualified_name q @ [])"
  have b: "reads (\<lambda>t. if cur_type t = comma then andthen (expect comma t) (\<lambda>(_, t).
        andthen (expect blocking t) (\<lambda>(_, t). ret (True, t))) else ret (False, t)) (starts close_paren) B (syscall_blocking s)"
  proof (cases "syscall_blocking s")
    case True
    then show ?thesis by (auto simp: B_def intro!: reads_if_yes expect_step [simplified] reads_ret)
  next
    case False
    then show ?thesis by (auto simp: B_def intro!: reads_if_no reads_ret intro: starts_unless)
  qed
  have r: "reads (\<lambda>t. if cur_type t = arrow then andthen (expect arrow t) (\<lambda>(_, t).
        andthen (parse_qualified_name t) (\<lambda>(q, t). ret (Some q, t))) else ret (None, t)) (starts semicolon) R (syscall_return s)"
  proof (cases "syscall_return s")
    case None
    then show ?thesis by (auto simp: R_def intro!: reads_if_no reads_ret intro: starts_unless)
  next
    case (Some q)
    with assms have q: "name_ok q" by (simp add: syscall_ok_def)
    show ?thesis unfolding R_def Some option.case
      by (rule reads_if_yes, rule expect_step, rule reads_seq [OF reads_qualified_name [OF q]])
        (auto intro: starts_unless reads_ret)
  qed
  have q: "name_ok (syscall_scope s)" and ps: "parameters s \<noteq> []" "\<And>p. p \<in> set (parameters s) \<Longrightarrow> parameter_ok p"
    using assms by (auto simp: syscall_ok_def list_all_iff)
  have u: "unless {scope} (B @ [(close_paren, '')'')] @ rest)" for rest by (simp add: B_def)
  show ?thesis
    unfolding parse_syscall_def print_syscall_def B_def [symmetric] R_def [symmetric]
    by (rule expect_step, rule expect_step, rule reads_seq [OF reads_qualified_name [OF q]], use u in simp,
        rule reads_seq [OF b], simp, rule expect_step, rule expect_step,
        rule reads_seq [OF reads_list [OF reads_parameter [OF ps(2)] ps(1)] TrueI], assumption, rule reads_seq [OF r], simp,
        rule reads_last) simp
qed

definition enum_ok :: "parsed_enum \<Rightarrow> bool" where
  "enum_ok e \<longleftrightarrow> is_identifier (enum_name e) \<and> enumerations e \<noteq> [] \<and> list_all is_identifier (enumerations e)"

lemma reads_enum:
  assumes "enum_ok e"
  shows "reads parse_enum anything (print_enum e) e"
proof -
  have n: "enumerations e \<noteq> []" using assms by (simp add: enum_ok_def)
  show ?thesis
    unfolding parse_enum_def print_enum_def
    by (rule expect_step, rule expect_step, rule reads_seq [OF reads_identifiers [OF n] TrueI], rule reads_last) simp
qed

lemma reads_include: "reads parse_include anything (print_include i) i"
  unfolding parse_include_def print_include_def
  by (rule expect_step, rule expect_step, rule reads_last) simp

definition union_member_ok :: "union_member \<Rightarrow> bool" where
  "union_member_ok m \<longleftrightarrow> is_identifier (union_member_name m) \<and> name_ok (union_member_type m)"

definition struct_member_ok :: "struct_member \<Rightarrow> bool" where
  "struct_member_ok m \<longleftrightarrow> is_identifier (struct_member_name m) \<and>
     (case struct_member_type m of Named q \<Rightarrow> name_ok q | Union us \<Rightarrow> us \<noteq> [] \<and> list_all union_member_ok us)"

lemma reads_union_member: "union_member_ok m \<Longrightarrow> reads parse_union_member (unless {scope}) (print_union_member m) m"
  unfolding parse_union_member_def print_union_member_def union_member_ok_def
  by (rule expect_step, rule expect_step, rule reads_seq [OF reads_qualified_name]) (auto intro: reads_done)

lemma reads_struct_member:
  assumes "struct_member_ok m"
  shows "reads parse_struct_member (unless {scope}) (print_struct_member m) m"
proof (cases "struct_member_type m")
  case (Named q)
  with assms have q: "name_ok q" by (simp add: struct_member_ok_def)
  show ?thesis
    unfolding parse_struct_member_def print_struct_member_def Named member_type.case
    by (rule expect_step, rule expect_step, rule reads_if_no, rule reads_seq [OF reads_qualified_name [OF q]], simp)
      (auto intro!: reads_done simp: Named [symmetric])
next
  case (Union us)
  with assms have us: "us \<noteq> []" "\<And>u. u \<in> set us \<Longrightarrow> union_member_ok u" by (auto simp: struct_member_ok_def list_all_iff)
  have "reads parse_union anything ([(union_t, ''union'')] @ print_list print_union_member us) us"
    unfolding parse_union_def by (rule expect_step, rule reads_list [OF reads_union_member]) (use us in auto)
  then show ?thesis
    unfolding parse_struct_member_def print_struct_member_def Union member_type.case
    by (intro expect_step reads_if_yes reads_seq [OF _ TrueI]) (auto intro!: reads_done simp: Union [symmetric])
qed

lemma print_struct_member_starts [simp]: "unless {close_paren} (print_struct_member m @ rest)"
  by (simp add: print_struct_member_def)

lemma print_members_starts: "unless {close_paren} (print_members (m # ms) @ rest)"
  by (cases ms) auto

lemma reads_struct_loop:
  assumes "list_all struct_member_ok ms"
  shows "reads (struct_loop acc) (starts close_paren) (print_members ms) (acc @ ms)"
  using assms
proof (induction ms arbitrary: acc rule: print_members.induct)
  case 1
  show ?case unfolding struct_loop.simps [of acc] if_neq_swap by (simp add: reads_if_yes [OF reads_ret])
next
  case (2 m)
  have end': "reads (struct_loop (acc @ [m])) (starts close_paren) [] (acc @ [m])"
    unfolding struct_loop.simps [of "acc @ [m]"] if_neq_swap by (simp add: reads_if_yes [OF reads_ret])
  have n: "reads (\<lambda>t. if cur_type t = close_paren then ret ((), t) else andthen (expect comma t) (\<lambda>(_, t). ret ((), t)))
      (starts close_paren) [] ()"
    by (simp add: reads_if_yes [OF reads_ret])
  have m: "struct_member_ok m" using "2.prems" by simp
  have "reads (struct_loop acc) (starts close_paren) (print_struct_member m @ [] @ []) (acc @ [m])"
    unfolding struct_loop.simps [of acc] if_neq_swap
    by (rule reads_if_no, rule reads_seq [OF reads_struct_member [OF m]], simp add: starts_unless,
        rule reads_seq [OF n], simp, rule end') simp
  then show ?case by simp
next
  case (3 m m' ms)
  have c: "reads (\<lambda>t. andthen (expect comma t) (\<lambda>(_, t). ret ((), t))) anything ([(comma, '','')] @ []) ()"
    by (rule reads_last) simp
  have "reads (struct_loop acc) (starts close_paren) (print_struct_member m @ ([(comma, '','')] @ []) @ print_members (m' # ms)) (acc @ m # m' # ms)"
    unfolding struct_loop.simps [of acc] if_neq_swap
    by (rule reads_if_no, rule reads_seq [OF reads_struct_member], use "3.prems" in simp, simp,
        rule reads_seq [OF reads_if_no [OF c] TrueI])
      (use "3.IH" [of "acc @ [m]"] "3.prems" in auto)
  then show ?case by simp
qed

definition struct_ok :: "parsed_struct \<Rightarrow> bool" where
  "struct_ok s \<longleftrightarrow> is_identifier (struct_name s) \<and> list_all struct_member_ok (struct_members s)"

lemma reads_struct:
  assumes "struct_ok s"
  shows "reads parse_struct anything (print_struct s) s"
proof -
  have ms: "list_all struct_member_ok (struct_members s)" using assms by (simp add: struct_ok_def)
  show ?thesis
    unfolding parse_struct_def print_struct_def
    by (rule expect_step, rule expect_step, rule expect_step, rule reads_seq [OF reads_struct_loop [OF ms]], simp,
        rule expect_step, rule reads_last) simp
qed

end
