(* ===== verification/Thorn_Properties.thy ===== *)
theory Thorn_Properties
  imports Thorn_Text "HOL-Library.Multiset"
begin

text \<open>
  The properties of \<open>thorn\<close>: a printed module is processed as the sequence of its declarations; the symbol
  table never has two symbols of one name; every system call gets its own number; and three places
  where the code does not do what it means to.
\<close>

section \<open>Modules\<close>

datatype decl =
    Perms permissions_definition | Enumeration parsed_enum | Structure parsed_struct | Call parsed_syscall
  | Include parsed_include

fun print_decl :: "decl \<Rightarrow> lexeme list" where
  "print_decl (Perms p) = print_permissions p"
| "print_decl (Enumeration e) = print_enum e"
| "print_decl (Structure s) = print_struct s"
| "print_decl (Call s) = print_syscall s"
| "print_decl (Include i) = print_include i"

fun decl_ok :: "decl \<Rightarrow> bool" where
  "decl_ok (Perms p) = permissions_ok p"
| "decl_ok (Enumeration e) = enum_ok e"
| "decl_ok (Structure s) = struct_ok s"
| "decl_ok (Call s) = syscall_ok s"
| "decl_ok (Include i) = is_header (include_header i)"

text \<open>What a declaration adds to the context; \<open>tok\<close> gives the position in an error message.\<close>

fun insert_decl :: "string \<Rightarrow> token \<Rightarrow> decl \<Rightarrow> thorn_context \<Rightarrow> thorn_error + thorn_context" where
  "insert_decl modul tok (Perms p) c = insert_permissions modul tok p c"
| "insert_decl modul tok (Enumeration e) c = insert_enum modul e c"
| "insert_decl modul tok (Structure s) c = insert_struct modul s c"
| "insert_decl modul tok (Call s) c = insert_syscall modul s c"
| "insert_decl modul tok (Include i) c = Inr (insert_include modul i c)"

fun insert_decls :: "string \<Rightarrow> decl list \<Rightarrow> thorn_context \<Rightarrow> thorn_error + thorn_context" where
  "insert_decls modul [] c = Inr c"
| "insert_decls modul (d # ds) c =
     (case insert_decl modul default_token d c of
        Inl e \<Rightarrow> Inl e
      | Inr c \<Rightarrow> insert_decls modul ds c)"

definition print_module :: "decl list \<Rightarrow> string" where
  "print_module ds = render (concat (map print_decl ds))"

subsection \<open>Printed tokens are well formed\<close>

lemma lexemes_more: "\<forall>x \<in> set xs. list_all lexeme_ok (f x) \<Longrightarrow> list_all lexeme_ok (print_more f xs)"
  by (induction xs) auto

lemma lexemes_list: "xs \<noteq> [] \<Longrightarrow> \<forall>x \<in> set xs. list_all lexeme_ok (f x) \<Longrightarrow> list_all lexeme_ok (print_list f xs)"
  by (cases xs) (auto simp: print_list_def lexemes_more)

lemma lexemes_scopes: "list_all is_identifier ns \<Longrightarrow> list_all lexeme_ok (print_scopes ns)"
  by (induction ns) auto

lemma lexemes_name: "name_ok q \<Longrightarrow> list_all lexeme_ok (print_qualified_name q)"
  by (cases "name_elements q") (auto simp: name_ok_def print_qualified_name_def lexemes_scopes)

lemma lexemes_identifiers: "xs \<noteq> [] \<Longrightarrow> list_all is_identifier xs \<Longrightarrow> list_all lexeme_ok (print_list (\<lambda>n. [ident n]) xs)"
  by (rule lexemes_list) (auto simp: list_all_iff)

lemma keyword_lexemes [simp]:
  "lexeme_ok (permissions, ''permissions'')" "lexeme_ok (for_t, ''for'')" "lexeme_ok (enum_t, ''enum'')"
  "lexeme_ok (struct_t, ''struct'')" "lexeme_ok (union_t, ''union'')" "lexeme_ok (syscall, ''syscall'')"
  "lexeme_ok (blocking, ''blocking'')" "lexeme_ok (token_t, ''token'')" "lexeme_ok (ptr, ''ptr'')"
  "lexeme_ok (direction, ''in'')" "lexeme_ok (direction, ''out'')" "lexeme_ok (include_t, ''include'')"
  by (simp_all add: keywords_table_def)

lemma lexemes_parameter: "parameter_ok p \<Longrightarrow> list_all lexeme_ok (print_parameter p)"
  by (auto simp: parameter_ok_def print_parameter_def print_directions_def lexemes_name lexemes_identifiers
      simp del: lexeme_ok.simps(11-) split: option.splits)

lemma lexemes_struct_member: "struct_member_ok m \<Longrightarrow> list_all lexeme_ok (print_struct_member m)"
  by (auto simp: struct_member_ok_def print_struct_member_def union_member_ok_def print_union_member_def list_all_iff [of union_member_ok]
      lexemes_name intro!: lexemes_list simp del: lexeme_ok.simps(11-) split: member_type.splits)

lemma lexemes_members: "list_all struct_member_ok ms \<Longrightarrow> list_all lexeme_ok (print_members ms)"
  by (induction ms rule: print_members.induct) (auto simp: lexemes_struct_member)

lemma lexemes_decl: "decl_ok d \<Longrightarrow> list_all lexeme_ok (print_decl d)"
  by (cases d) (auto simp: print_permissions_def permissions_ok_def print_enum_def enum_ok_def print_struct_def struct_ok_def
      print_syscall_def syscall_ok_def print_include_def lexemes_name lexemes_identifiers lexemes_members lexemes_parameter
      list_all_iff [of parameter_ok] intro!: lexemes_list simp del: lexeme_ok.simps(11-) split: option.splits)

subsection \<open>Processing a printed module\<close>

lemma cur_type_decl:
  assumes "yields t (print_decl d @ rest)"
  shows "cur_type t = (case d of Perms _ \<Rightarrow> permissions | Enumeration _ \<Rightarrow> enum_t | Structure _ \<Rightarrow> struct_t
    | Call _ \<Rightarrow> syscall | Include _ \<Rightarrow> include_t)" and "\<not> eof t"
  using assms by (cases d; simp add: print_permissions_def print_enum_def print_struct_def print_syscall_def print_include_def)+

lemma process_decl_reads:
  assumes "decl_ok d" "yields it (print_decl d @ rest)"
  shows "\<exists>it'. process_declaration modul (it, c) = andthen (lift (insert_decl modul (current it) d c)) (\<lambda>c. ret (it', c)) \<and>
    yields it' rest"
proof (cases d)
  case (Perms p)
  with readsE [OF reads_permissions, of p it rest] assms obtain it' where
    "parse_permissions it = ret (p, it')" "yields it' rest" by auto
  with cur_type_decl(1) [OF assms(2)] Perms show ?thesis by (auto simp: process_declaration_def)
next
  case (Enumeration e)
  with readsE [OF reads_enum, of e it rest] assms obtain it' where
    "parse_enum it = ret (e, it')" "yields it' rest" by auto
  with cur_type_decl(1) [OF assms(2)] Enumeration show ?thesis by (auto simp: process_declaration_def)
next
  case (Structure s)
  with readsE [OF reads_struct, of s it rest] assms obtain it' where
    "parse_struct it = ret (s, it')" "yields it' rest" by auto
  with cur_type_decl(1) [OF assms(2)] Structure show ?thesis by (auto simp: process_declaration_def)
next
  case (Call s)
  with readsE [OF reads_syscall, of s it rest] assms obtain it' where
    "parse_syscall it = ret (s, it')" "yields it' rest" by auto
  with cur_type_decl(1) [OF assms(2)] Call show ?thesis by (auto simp: process_declaration_def)
next
  case (Include i)
  with readsE [OF reads_include, of it i rest] assms obtain it' where
    "parse_include it = ret (i, it')" "yields it' rest" by auto
  with cur_type_decl(1) [OF assms(2)] Include show ?thesis by (auto simp: process_declaration_def lift_def)
qed

text \<open>Two results that agree except for the position in an error message.\<close>

fun same_result :: "thorn_error + 'a \<Rightarrow> thorn_error + 'a \<Rightarrow> bool" where
  "same_result (Inr a) r = (r = Inr a)"
| "same_result (Inl _) r = (\<exists>e. r = Inl e)"

lemma insert_decl_position: "same_result (insert_decl modul tok d c) (insert_decl modul tok' d c)"
  by (cases d; cases "insert_decl modul tok d c") (auto simp: insert_permissions_def split: option.splits prod.splits if_splits)

lemma process_loop_reads:
  assumes "list_all decl_ok ds" "yields it (concat (map print_decl ds))"
  shows "\<exists>r. process_loop modul (it, c) = Some r \<and> same_result (insert_decls modul ds c) (map_sum id snd r)"
  using assms
proof (induction ds arbitrary: it c)
  case Nil
  then show ?case by (subst process_loop.simps) (simp add: at_sentinel_def ret_def)
next
  case (Cons d ds)
  let ?rest = "concat (map print_decl ds)"
  from Cons.prems have y: "decl_ok d" "yields it (print_decl d @ ?rest)" by auto
  from process_decl_reads [OF y, of modul c] obtain it' where
    p: "process_declaration modul (it, c) = andthen (lift (insert_decl modul (current it) d c)) (\<lambda>c. ret (it', c))"
    "yields it' ?rest" by blast
  have l: "process_loop modul (it, c) = andthen (process_declaration modul (it, c)) (process_loop modul)"
    using cur_type_decl(2) [OF y(2)] by (subst process_loop.simps) (simp add: at_sentinel_def)
  show ?case
  proof (cases "insert_decl modul default_token d c")
    case (Inl e)
    with insert_decl_position [of modul default_token d c "current it"] obtain e' where "insert_decl modul (current it) d c = Inl e'"
      by auto
    with Inl l p(1) show ?thesis by (simp add: lift_def)
  next
    case (Inr c')
    with insert_decl_position [of modul default_token d c "current it"] have "insert_decl modul (current it) d c = Inr c'" by simp
    with Inr l p Cons.IH [of it' c'] Cons.prems(1) show ?thesis by (simp add: lift_def)
  qed
qed

lemma yields_module:
  assumes "list_all decl_ok ds"
  shows "\<exists>t. tokenize (Some (print_module ds)) = Inr t \<and> yields t (concat (map print_decl ds))"
proof -
  have "list_all lexeme_ok (concat (map print_decl ds))"
    using assms by (induction ds) (auto simp: lexemes_decl)
  then show ?thesis unfolding print_module_def by (rule tokenize_yields)
qed

section \<open>The symbol table\<close>

definition is_syscall :: "symbol \<Rightarrow> bool" where
  "is_syscall s \<longleftrightarrow> (case description s of Syscall _ \<Rightarrow> True | _ \<Rightarrow> False)"

definition table_ok :: "thorn_context \<Rightarrow> bool" where
  "table_ok c \<longleftrightarrow> symbols_in_order c = map fst (symbols c) \<and> distinct (symbols_in_order c) \<and>
     syscalls c = map fst (filter (\<lambda>(_, s). is_syscall s) (symbols c))"

definition same_table :: "thorn_context \<Rightarrow> thorn_context \<Rightarrow> bool" where
  "same_table c c' \<longleftrightarrow> symbols c' = symbols c \<and> symbols_in_order c' = symbols_in_order c \<and> syscalls c' = syscalls c \<and>
     arg_scope c' = arg_scope c \<and> arg_arch c' = arg_arch c"

lemma same_table_refl [simp]: "same_table c c"
  by (simp add: same_table_def)

lemma same_table_trans: "same_table a b \<Longrightarrow> same_table b c \<Longrightarrow> same_table a c"
  by (simp add: same_table_def)

lemma table_ok_same: "same_table c c' \<Longrightarrow> table_ok c' = table_ok c"
  by (simp add: same_table_def table_ok_def)

lemma process_name_same: "process_qualified_name modul q c = (c', n) \<Longrightarrow> same_table c c'"
  by (auto simp: process_qualified_name_def same_table_def Let_def split: option.splits if_splits)

lemma resolve_same: "resolve w modul q c = Inr (c', n) \<Longrightarrow> same_table c c'"
  by (auto simp: resolve_def dest: process_name_same split: prod.splits option.splits)

lemma union_members_same: "union_members modul ms c = Inr (c', ds) \<Longrightarrow> same_table c c'"
proof (induction modul ms c arbitrary: c' ds rule: union_members.induct)
  case (2 modul m ms c)
  from "2.prems" obtain c1 n ds' where r: "resolve (''the definition of member'') modul (union_member_type m) c = Inr (c1, n)"
    "union_members modul ms c1 = Inr (c', ds')" by (auto split: sum.splits)
  from "2.IH" [OF r(1) refl r(2)] resolve_same [OF r(1)] show ?case by (rule same_table_trans [rotated])
qed simp

lemma map_sum_Inr: "map_sum id f r = Inr y \<longleftrightarrow> (\<exists>x. r = Inr x \<and> y = f x)"
  by (cases r) auto

lemma struct_descriptions_same: "struct_descriptions modul ms c = Inr (c', ds) \<Longrightarrow> same_table c c'"
proof (induction modul ms c arbitrary: c' ds rule: struct_descriptions.induct)
  case (2 modul m ms c)
  from "2.prems" obtain c1 d ds' where "(case struct_member_type m of
              Named q \<Rightarrow> map_sum id (\<lambda>(c, n). (c, Type_name n)) (resolve (''the definition of member'') modul q c)
            | Union us \<Rightarrow> map_sum id (\<lambda>(c, ds). (c, Union_of ds)) (union_members modul us c)) = Inr (c1, d)"
    and c': "struct_descriptions modul ms c1 = Inr (c', ds')" by (auto split: sum.splits)
  moreover from this have "same_table c c1"
    by (auto simp: map_sum_Inr dest: resolve_same union_members_same split: member_type.splits)
  ultimately show ?case using "2.IH" same_table_trans by fastforce
qed simp

lemma parameter_of_same: "parameter_of modul p (b, c) = Inr ((b', c'), d) \<Longrightarrow> same_table c c' \<and> b' = b"
  by (auto simp: parameter_of_def Let_def dest: resolve_same split: if_splits option.splits sum.splits)

lemma parameters_of_same: "parameters_of modul ps (b, c) = Inr ((b', c'), ds) \<Longrightarrow> same_table c c' \<and> b' = b"
proof (induction ps arbitrary: b c ds)
  case (Cons p ps)
  then obtain b1 c1 d ds' where p: "parameter_of modul p (b, c) = Inr ((b1, c1), d)"
    "parameters_of modul ps (b1, c1) = Inr ((b', c'), ds')" by (auto simp: map_sum_Inr split: sum.splits)
  with Cons.IH [OF p(2)] parameter_of_same [OF p(1)] show ?case by (auto intro: same_table_trans)
qed simp

lemma return_type_same: "return_type_of modul rt c = Inr (c', n) \<Longrightarrow> same_table c c'"
  by (auto simp: return_type_of_def map_sum_Inr dest: resolve_same split: option.splits)

lemma insert_symbol_ok:
  assumes "insert_symbol n s c = Inr c'" "table_ok c"
  shows "table_ok (if is_syscall s then c'\<lparr>syscalls := syscalls c' @ [n]\<rparr> else c')" and "syscalls c' = syscalls c"
  using assms
  by (auto simp: insert_symbol_def table_ok_def map_of_eq_None_iff split: if_splits)

lemma insert_decl_ok:
  assumes "insert_decl modul tok d c = Inr c'" "table_ok c"
  shows "table_ok c'"
proof (cases d)
  case (Perms p)
  with assms show ?thesis
    by (auto simp: insert_permissions_def table_ok_def dest!: process_name_same
        simp: same_table_def split: option.splits if_splits prod.splits)
next
  case (Enumeration e)
  with assms insert_symbol_ok(1) [of "enum_name e" _ c c'] show ?thesis
    by (fastforce simp: insert_enum_def is_syscall_def)
next
  case (Structure s)
  with assms obtain c1 ds where "struct_descriptions modul (struct_members s) c = Inr (c1, ds)"
    "insert_symbol (struct_name s) \<lparr>module = modul, description = Struct ds\<rparr> c1 = Inr c'"
    by (auto simp: insert_struct_def split: sum.splits)
  with assms(2) insert_symbol_ok(1) [of "struct_name s" _ c1 c'] struct_descriptions_same table_ok_same show ?thesis
    by (fastforce simp: is_syscall_def)
next
  case (Call s)
  with assms obtain b c1 ds c2 rt d c3 where p: "parameters_of modul (parameters s) (False, c) = Inr ((b, c1), ds)"
    "return_type_of modul (syscall_return s) c1 = Inr (c2, rt)"
    "insert_symbol (syscall_name s) \<lparr>module = modul, description = Syscall d\<rparr> c2 = Inr c3"
    "c' = c3\<lparr>syscalls := syscalls c3 @ [syscall_name s]\<rparr>"
    by (auto simp: insert_syscall_def map_sum_Inr split: option.splits sum.splits if_splits)
  from p(1,2) have "same_table c c2" using parameters_of_same return_type_same same_table_trans by blast
  with assms(2) have "table_ok c2" by (simp add: table_ok_same)
  with insert_symbol_ok(1) [OF p(3)] p(4) show ?thesis by (simp add: is_syscall_def)
next
  case (Include i)
  with assms show ?thesis by (auto simp: insert_include_def table_ok_def)
qed

lemma insert_decls_ok: "insert_decls modul ds c = Inr c' \<Longrightarrow> table_ok c \<Longrightarrow> table_ok c'"
  by (induction modul ds c rule: insert_decls.induct) (auto dest: insert_decl_ok split: sum.splits)

lemma andthen_InrE:
  assumes "andthen m f = Some (Inr y)"
  obtains x where "m = Some (Inr x)" "f x = Some (Inr y)"
  using assms by (cases m; cases "the m") (auto simp: andthen_def)

lemma process_declaration_ok:
  assumes "process_declaration modul (it, c) = Some (Inr (it', c'))" "table_ok c"
  shows "table_ok c'"
proof -
  have "\<exists>d. insert_decl modul (current it) d c = Inr c'"
  proof (cases "cur_type it")
    case permissions
    with assms(1) obtain p where "insert_permissions modul (current it) p c = Inr c'"
      by (auto simp: process_declaration_def lift_def ret_def elim!: andthen_InrE)
    then show ?thesis by (intro exI [of _ "Perms p"]) simp
  next
    case enum_t
    with assms(1) obtain e where "insert_enum modul e c = Inr c'"
      by (auto simp: process_declaration_def lift_def ret_def elim!: andthen_InrE)
    then show ?thesis by (intro exI [of _ "Enumeration e"]) simp
  next
    case struct_t
    with assms(1) obtain s where "insert_struct modul s c = Inr c'"
      by (auto simp: process_declaration_def lift_def ret_def elim!: andthen_InrE)
    then show ?thesis by (intro exI [of _ "Structure s"]) simp
  next
    case syscall
    with assms(1) obtain s where "insert_syscall modul s c = Inr c'"
      by (auto simp: process_declaration_def lift_def ret_def elim!: andthen_InrE)
    then show ?thesis by (intro exI [of _ "Call s"]) simp
  next
    case include_t
    with assms(1) obtain i where "insert_include modul i c = c'"
      by (auto simp: process_declaration_def lift_def ret_def elim!: andthen_InrE)
    then show ?thesis by (intro exI [of _ "Include i"]) simp
  qed (use assms(1) in \<open>simp_all add: process_declaration_def\<close>)
  with assms(2) insert_decl_ok show ?thesis by blast
qed

lemma process_loop_ok:
  assumes "process_loop modul st = Some r"
  shows "table_ok (snd st) \<longrightarrow> (case r of Inl _ \<Rightarrow> True | Inr (_, c) \<Rightarrow> table_ok c)"
proof (rule process_loop.raw_induct [OF _ assms])
  fix loop :: "string \<Rightarrow> tokenizer \<times> thorn_context \<Rightarrow> (tokenizer \<times> thorn_context) parse" and modul st r
  assume IH: "\<And>modul st r. loop modul st = Some r \<Longrightarrow> table_ok (snd st) \<longrightarrow> (case r of Inl _ \<Rightarrow> True | Inr (_, c) \<Rightarrow> table_ok c)"
    and body: "(if \<not> at_sentinel (fst st) then andthen (process_declaration modul st) (loop modul) else ret st) = Some r"
  show "table_ok (snd st) \<longrightarrow> (case r of Inl _ \<Rightarrow> True | Inr (_, c) \<Rightarrow> table_ok c)"
  proof (cases "at_sentinel (fst st)")
    case True
    with body show ?thesis by (auto simp: ret_def)
  next
    case False
    obtain it c where st: "st = (it, c)" by (cases st)
    from False body have r: "andthen (process_declaration modul st) (loop modul) = Some r" by simp
    show ?thesis
    proof (cases r)
      case (Inr y)
      with r obtain it' c' where p: "process_declaration modul (it, c) = Some (Inr (it', c'))" "loop modul (it', c') = Some (Inr y)"
        by (auto simp: st elim!: andthen_InrE)
      with process_declaration_ok [OF p(1)] IH [OF p(2)] Inr st show ?thesis by simp
    qed simp
  qed
qed

lemma map_of_update:
  "map_of (map (\<lambda>(k, s). if k = n then (k, f s) else (k, s)) xs) k = (if k = n then map_option f (map_of xs k) else map_of xs k)"
  by (induction xs) auto

lemma assign_ids_other: "k \<notin> set ns \<Longrightarrow> map_of (assign_ids i ns syms) k = map_of syms k"
  by (induction i ns syms rule: assign_ids.induct) (auto simp: map_of_update)

lemma assign_ids_nth:
  "distinct ns \<Longrightarrow> j < length ns \<Longrightarrow>
   map_of (assign_ids i ns syms) (ns ! j) = map_option (\<lambda>s. s\<lparr>description := set_id (i + j) (description s)\<rparr>) (map_of syms (ns ! j))"
proof (induction i ns syms arbitrary: j rule: assign_ids.induct)
  case (2 i n ns syms)
  show ?case
  proof (cases j)
    case 0
    with "2.prems" show ?thesis by (simp add: assign_ids_other map_of_update)
  next
    case (Suc j')
    with "2.prems" have "ns ! j' \<noteq> n" by auto
    with Suc "2.prems" "2.IH" [of j'] show ?thesis by (simp add: map_of_update)
  qed
qed simp

lemma assign_ids_keys: "map fst (assign_ids i ns syms) = map fst syms"
  by (induction i ns syms rule: assign_ids.induct) (auto simp: comp_def split_def if_distrib)

lemma map_the_map_of: "distinct (map fst xs) \<Longrightarrow> map (\<lambda>n. (n, the (map_of xs n))) (map fst xs) = xs"
proof (induction xs)
  case (Cons x xs)
  moreover from Cons.prems have "map (\<lambda>n. (n, the (map_of (x # xs) n))) (map fst xs) = map (\<lambda>n. (n, the (map_of xs n))) (map fst xs)"
    by (intro map_cong) (force intro: rev_image_eqI)+
  ultimately show ?case by simp
qed simp

section \<open>Parsing at the end of the file\<close>

lemma skip_space_all: "list_all isspace (input t) \<Longrightarrow> eof (skip_space t) \<and> input (skip_space t) = [] \<and> current (skip_space t) = current t"
proof (induction "input t" arbitrary: t)
  case Nil
  then show ?case using skip_space_end [of t] by simp
next
  case (Cons c cs)
  from Cons.hyps(2) [symmetric] Cons.prems have "skip_space t = skip_space (fst (get_c t))"
    by (subst skip_space.simps) (simp add: peek_c_def)
  moreover from Cons.hyps(2) [symmetric] Cons.prems have "input (fst (get_c t)) = cs" "current (fst (get_c t)) = current t" "list_all isspace cs"
    by (simp_all add: get_c_def)
  ultimately show ?case using Cons.hyps(1) [of "fst (get_c t)"] by simp
qed

lemma direction_loop_end:
  assumes "direction_loop a b t = Some r"
  shows "\<not> (cur_type t = direction \<and> list_all isspace (input t))"
proof (rule direction_loop.raw_induct [OF _ assms])
  fix loop :: "bool \<Rightarrow> bool \<Rightarrow> tokenizer \<Rightarrow> ((bool \<times> bool) \<times> tokenizer) parse" and a b t r
  assume IH: "\<And>a b t r. loop a b t = Some r \<Longrightarrow> \<not> (cur_type t = direction \<and> list_all isspace (input t))"
    and body: "(if cur_type t = direction then andthen (expect direction t) (\<lambda>(c, t). loop (a \<or> c = ''in'') (b \<or> c = ''out'') t)
      else ret ((a, b), t)) = Some r"
  show "\<not> (cur_type t = direction \<and> list_all isspace (input t))"
  proof
    assume t: "cur_type t = direction \<and> list_all isspace (input t)"
    let ?t = "skip_space t"
    have s: "eof ?t" "input ?t = []" "current ?t = current t"
      using skip_space_all [of t] t by auto
    with t have "expect direction t = ret (contents (current t), ?t)"
      by (simp add: expect_def advance_def generate_def ret_def)
    with body t have "loop (a \<or> contents (current t) = ''in'') (b \<or> contents (current t) = ''out'') ?t = Some r" by simp
    from IH [OF this] s t show False by (simp add: cur_type_def)
  qed
qed

definition hangs :: "(tokenizer \<Rightarrow> 'a parse) \<Rightarrow> lexeme list \<Rightarrow> bool" where
  "hangs p ls \<longleftrightarrow> (\<forall>t. yields t ls \<longrightarrow> p t = None)"

lemma hangs_direction: "hangs (direction_loop a b) [(direction, w)]"
proof -
  have "direction_loop a b t = None" if "yields t [(direction, w)]" for t
    using that direction_loop_end [of a b t] by (cases "direction_loop a b t") (auto simp: render_def)
  then show ?thesis by (simp add: hangs_def)
qed

lemma hangs_first: "hangs p ls \<Longrightarrow> hangs (\<lambda>t. andthen (p t) f) ls"
  by (simp add: hangs_def)

lemma hangs_seq:
  assumes "reads p f ls1 x" "f ls2" "hangs (q x) ls2"
  shows "hangs (\<lambda>t. andthen (p t) (\<lambda>(a, t). q a t)) (ls1 @ ls2)"
proof -
  have "andthen (p t) (\<lambda>(a, t). q a t) = None" if "yields t (ls1 @ ls2)" for t
  proof -
    from readsE [OF assms(1) that assms(2)] obtain t' where "p t = ret (x, t')" "yields t' ls2" .
    with assms(3) show ?thesis by (simp add: hangs_def)
  qed
  then show ?thesis by (simp add: hangs_def)
qed

lemmas hangs_expect = hangs_seq [OF reads_expect TrueI]

lemma hangs_parameter: "hangs parse_parameter ([ident p] @ [(colon, '':'')] @ [(direction, w)])"
  unfolding parse_parameter_def by (intro hangs_expect hangs_first hangs_direction)

lemma hangs_list: "hangs item ls \<Longrightarrow> hangs (parse_list item) ([(open_paren, ''('')] @ ls)"
  unfolding parse_list_def by (intro hangs_expect hangs_first)

text \<open>A file that ends within the first parameter of a system call, after its direction.\<close>

definition truncated_syscall :: "qualified_name \<Rightarrow> string \<Rightarrow> string \<Rightarrow> string \<Rightarrow> lexeme list" where
  "truncated_syscall q n p w =
     [(syscall, ''syscall'')] @ [(open_paren, ''('')] @ print_qualified_name q @ [] @ [(close_paren, '')'')] @ [ident n] @
     [(open_paren, ''('')] @ [ident p] @ [(colon, '':'')] @ [(direction, w)]"

lemma hangs_syscall:
  assumes "name_ok q"
  shows "hangs parse_syscall (truncated_syscall q n p w)"
proof -
  have b: "reads (\<lambda>t. if cur_type t = comma then andthen (expect comma t) (\<lambda>(_, t).
        andthen (expect blocking t) (\<lambda>(_, t). ret (True, t))) else ret (False, t)) (starts close_paren) [] False"
    by (auto intro!: reads_if_no reads_ret intro: starts_unless)
  show ?thesis
    unfolding parse_syscall_def truncated_syscall_def
    by (rule hangs_expect, rule hangs_expect, rule hangs_seq [OF reads_qualified_name [OF assms]], simp,
        rule hangs_seq [OF b], simp, rule hangs_expect, rule hangs_expect, rule hangs_first, rule hangs_list, rule hangs_parameter)
qed

lemma truncated_lexemes:
  assumes "name_ok q" "is_identifier n" "is_identifier p" "w \<in> {''in'', ''out''}"
  shows "list_all lexeme_ok (truncated_syscall q n p w)"
  using assms by (auto simp: truncated_syscall_def lexemes_name keywords_table_def)

lemma cur_type_truncated: "yields it (truncated_syscall q n p w) \<Longrightarrow> cur_type it = syscall \<and> \<not> eof it"
  by (simp add: truncated_syscall_def)

lemma process_module:
  assumes "list_all decl_ok ds" "files (f @ ''.thorn'') = Some (print_module ds)"
  shows "case insert_decls f ds c of
           Inr c' \<Rightarrow> process files f c = Some (Inr c')
         | Inl _ \<Rightarrow> (\<exists>e. process files f c = Some (Inl e))"
proof -
  from yields_module [OF assms(1)] obtain t where t: "tokenize (Some (print_module ds)) = Inr t"
    "yields t (concat (map print_decl ds))" by blast
  from process_loop_reads [OF assms(1) t(2), of f c] obtain r where r: "process_loop f (t, c) = Some r"
    "same_result (insert_decls f ds c) (map_sum id snd r)" by blast
  show ?thesis
    using t(1) r assms(2) by (cases r; cases "insert_decls f ds c") (auto simp: process_def lift_def ret_def)
qed

definition example_module :: "decl list" where
  "example_module =
     [Perms \<lparr>object_type = None, permission_names = [''read'', ''write'']\<rparr>,
      Enumeration \<lparr>enum_name = ''result'', enumerations = [''ok'', ''bad'']\<rparr>,
      Call \<lparr>syscall_scope = \<lparr>in_generated_scope = False, name_elements = [''kernel'', ''vmo'']\<rparr>, syscall_blocking = False,
            syscall_name = ''create'',
            parameters = [\<lparr>param_name = ''len'', param_in = False, param_out = True, token_permissions = None,
                           type_spec = \<lparr>in_generated_scope = False, name_elements = [''size'']\<rparr>\<rparr>],
            syscall_return = Some \<lparr>in_generated_scope = True, name_elements = [''result'']\<rparr>\<rparr>]"

lemma example_module_ok: "list_all decl_ok example_module"
  by code_simp

lemma example_module_inserts: "case insert_decls ''meta'' example_module (empty_context ''rose'' ''amd64'') of
    Inl _ \<Rightarrow> False | Inr c \<Rightarrow> syscalls c = [''create''] \<and> symbols_in_order c = [''result'', ''create'']"
  by code_simp

lemma example_module_processed:
  "\<exists>c. process (\<lambda>_. Some (print_module example_module)) ''meta'' (empty_context ''rose'' ''amd64'') = Some (Inr c) \<and>
       syscalls c = [''create''] \<and> symbols_in_order c = [''result'', ''create'']"
  using process_module [OF example_module_ok, of "\<lambda>_. Some (print_module example_module)" "''meta''" "empty_context ''rose'' ''amd64''"]
    example_module_inserts
  by (auto split: sum.splits)

lemma process_ok:
  assumes "process files f c = Some (Inr c')" "table_ok c"
  shows "table_ok c'"
proof -
  from assms(1) obtain t it where "process_loop f (t, c) = Some (Inr (it, c'))"
    by (auto simp: process_def lift_def ret_def elim!: andthen_InrE)
  from process_loop_ok [OF this] assms(2) show ?thesis by simp
qed

lemma syscall_symbol:
  assumes "table_ok c" "n \<in> set (syscalls c)"
  shows "\<exists>s d. map_of (symbols c) n = Some s \<and> description s = Syscall d"
proof -
  from assms obtain s where "(n, s) \<in> set (symbols c)" "is_syscall s" by (auto simp: table_ok_def)
  moreover from assms(1) have "distinct (map fst (symbols c))" by (metis table_ok_def)
  ultimately show ?thesis by (auto simp: is_syscall_def split: description.splits)
qed

lemma output_symbols:
  assumes "table_ok c" "thorn_output shuffle c = (c', perms, syms)"
  shows "syscalls c' = shuffle (syscalls c)" "syms = assign_ids 0 (shuffle (syscalls c)) (symbols c)"
proof -
  let ?syms = "assign_ids 0 (shuffle (syscalls c)) (symbols c)"
  have "map fst ?syms = symbols_in_order c" "distinct (symbols_in_order c)"
    using assms(1) unfolding assign_ids_keys table_ok_def by metis+
  with map_the_map_of [of ?syms] have "map (\<lambda>n. (n, the (map_of ?syms n))) (symbols_in_order c) = ?syms" by simp
  with assms(2) show "syscalls c' = shuffle (syscalls c)" "syms = ?syms" by (auto simp: thorn_output_def Let_def)
qed

lemma map_sum_Inl: "map_sum id f r = Inl e \<longleftrightarrow> r = Inl e"
  by (cases r) auto

lemma resolve_error: "resolve (k # w) modul q c = Inl (Semantic m) \<Longrightarrow> hd m = k"
  by (auto simp: resolve_def split: prod.splits option.splits)

lemma check_permissions_error: "check_permissions c ty ps = Inl (Semantic m) \<Longrightarrow> hd m = CHR ''s''"
  by (induction c ty ps rule: check_permissions.induct) (auto simp: map_sum_Inl split: if_splits)

lemma parameter_of_error: "parameter_of modul p (b, c) = Inl (Semantic m) \<Longrightarrow> hd m \<noteq> CHR ''a''"
  by (auto simp: parameter_of_def Let_def dest: resolve_error check_permissions_error split: if_splits option.splits sum.splits)

lemma parameters_of_error: "parameters_of modul ps (b, c) = Inl (Semantic m) \<Longrightarrow> hd m \<noteq> CHR ''a''"
proof (induction ps arbitrary: b c)
  case (Cons p ps)
  show ?case
  proof (cases "parameter_of modul p (b, c)")
    case (Inl e)
    with Cons.prems parameter_of_error show ?thesis by simp
  next
    case (Inr r)
    obtain b' c' d where "r = ((b', c'), d)" by (cases r) auto
    with Inr Cons.prems Cons.IH [of b' c'] show ?thesis by (simp add: map_sum_Inl)
  qed
qed simp

lemma table_ok_empty: "table_ok (empty_context sc arch)"
  by (simp add: table_ok_def empty_context_def)

section \<open>Properties\<close>

text \<open>
  C20. Reading back what is printed. For every well-formed list of declarations, processing a file
  that contains their text ends, and has the effect of inserting the declarations into the context
  one after another: the same context when every insertion succeeds, an error as soon as one fails.
  Lexer and parser lose nothing and add nothing.
\<close>

theorem process_printed_module:
  assumes "list_all decl_ok ds" "files (f @ ''.thorn'') = Some (print_module ds)"
  shows "case insert_decls f ds c of
           Inr c' \<Rightarrow> process files f c = Some (Inr c')
         | Inl _ \<Rightarrow> (\<exists>e. process files f c = Some (Inl e))"
  using assms by (rule process_module)

theorem process_printed_module_witness:
  "\<exists>c. process (\<lambda>_. Some (print_module example_module)) ''meta'' (empty_context ''rose'' ''amd64'') = Some (Inr c) \<and>
       syscalls c = [''create''] \<and> symbols_in_order c = [''result'', ''create'']"
  using process_printed_module [OF example_module_ok, of "\<lambda>_. Some (print_module example_module)" "''meta''" "empty_context ''rose'' ''amd64''"]
    example_module_inserts
  by (auto split: sum.splits)

text \<open>
  C21. The symbol table. Whatever a file contains, if processing it returns a context then the order
  list of that context enumerates the keys of the symbol table without repetition, and its list of
  system calls is exactly the names bound to system call descriptions, provided that was so before.
\<close>

theorem process_keeps_table:
  assumes "process files f c = Some (Inr c')" "table_ok c"
  shows "table_ok c'"
  by (rule process_ok [OF assms])

theorem process_keeps_table_witness:
  "\<exists>c. process (\<lambda>_. Some (print_module example_module)) ''meta'' (empty_context ''rose'' ''amd64'') = Some (Inr c) \<and>
       syscalls c = [''create''] \<and> table_ok c"
  using example_module_processed process_keeps_table [OF _ table_ok_empty] by blast

text \<open>
  C30. System call numbers. For a context that was filled by processing any file from the empty one,
  and a shuffle that permutes, the output gives the system call at position \<open>i\<close> of the shuffled
  list the number \<open>i\<close>; so the numbers are \<open>0, \<dots>, n - 1\<close>, each used once. The symbols come out in
  the order they were declared in.
\<close>

theorem output_numbers_syscalls:
  assumes "process files f (empty_context sc arch) = Some (Inr c)" "\<And>xs. mset (shuffle xs) = mset xs"
    and "thorn_output shuffle c = (c', perms, syms)"
  shows "mset (syscalls c') = mset (syscalls c) \<and> map fst syms = symbols_in_order c \<and>
     (\<forall>i < length (syscalls c'). \<exists>s d. map_of syms (syscalls c' ! i) = Some s \<and> description s = Syscall d \<and> desc_id d = i)"
proof -
  have ok: "table_ok c" using process_ok [OF assms(1) table_ok_empty] .
  note o = output_symbols [OF ok assms(3)]
  have d: "distinct (syscalls c')"
  proof -
    have "distinct (syscalls c)" using ok by (auto simp: table_ok_def distinct_map_filter)
    with o(1) mset_eq_imp_distinct_iff [OF assms(2)] show ?thesis by simp
  qed
  have "\<exists>s d. map_of syms (syscalls c' ! i) = Some s \<and> description s = Syscall d \<and> desc_id d = i" if "i < length (syscalls c')" for i
  proof -
    from that have "syscalls c' ! i \<in> set (syscalls c)" using o(1) mset_eq_setD [OF assms(2)] nth_mem by metis
    with syscall_symbol [OF ok] assign_ids_nth [OF d that, of 0 "symbols c"] o show ?thesis by (fastforce simp: set_id_def)
  qed
  with o ok assms(2) show ?thesis by (auto simp: assign_ids_keys table_ok_def)
qed

lemma example_module_output:
  assumes "syscalls c = [''create'']"
  obtains c' perms syms where "thorn_output rev c = (c', perms, syms)" "syscalls c' = [''create'']"
  using assms that by (auto simp: thorn_output_def Let_def)

theorem output_numbers_syscalls_witness:
  "\<exists>c c' perms syms s d. process (\<lambda>_. Some (print_module example_module)) ''meta'' (empty_context ''rose'' ''amd64'') = Some (Inr c) \<and>
     thorn_output rev c = (c', perms, syms) \<and> map_of syms ''create'' = Some s \<and> description s = Syscall d \<and> desc_id d = 0"
proof -
  from example_module_processed obtain c where
    c: "process (\<lambda>_. Some (print_module example_module)) ''meta'' (empty_context ''rose'' ''amd64'') = Some (Inr c)" "syscalls c = [''create'']"
    by blast
  from example_module_output [OF c(2)] obtain c' perms syms where
    o: "thorn_output rev c = (c', perms, syms)" "syscalls c' = [''create'']" .
  from output_numbers_syscalls [OF c(1) _ o(1)] o(2) have "\<exists>s d. map_of syms ''create'' = Some s \<and> description s = Syscall d \<and> desc_id d = 0"
    by simp
  with c(1) o(1) show ?thesis by blast
qed

text \<open>
  Permission bits. Every permission declared for an object type is given bit 64, however many
  there are and whatever the type, because the counter of the loop is never incremented. The global
  permissions, in contrast, get their positions.
\<close>

lemma class_permissions_share_bit:
  assumes "(ty, ps) \<in> set (class_permissions c)" "p \<in> set ps" "global_permissions c = Some gs" "i < length gs"
  shows "\<lparr>perm_name = p, flag_bit = 64\<rparr> \<in> set (known_permissions c) \<and>
         \<lparr>perm_name = gs ! i, flag_bit = int i\<rparr> \<in> set (known_permissions c)"
proof
  show "\<lparr>perm_name = p, flag_bit = 64\<rparr> \<in> set (known_permissions c)"
    using assms(1,2) by (force simp: known_permissions_def class_bits_def)
  have "(gs ! i, i) \<in> set (zip gs [0 ..< length gs])" using assms(4) by (auto simp: in_set_zip intro!: exI [of _ i])
  with assms(3) show "\<lparr>perm_name = gs ! i, flag_bit = int i\<rparr> \<in> set (known_permissions c)"
    by (force simp: known_permissions_def global_bits_def)
qed

definition two_permissions :: thorn_context where
  "two_permissions = (empty_context ''rose'' ''amd64'')
     \<lparr>class_permissions := [(''kernel::vmo'', [''map_read'', ''map_write''])], global_permissions := Some [''read'']\<rparr>"

lemma class_permissions_share_bit_witness:
  "\<lparr>perm_name = ''map_read'', flag_bit = 64\<rparr> \<in> set (known_permissions two_permissions) \<and>
   \<lparr>perm_name = ''map_write'', flag_bit = 64\<rparr> \<in> set (known_permissions two_permissions)"
  using class_permissions_share_bit [of "''kernel::vmo''" "[''map_read'', ''map_write'']" two_permissions "''map_read''" "[''read'']" 0]
    class_permissions_share_bit [of "''kernel::vmo''" "[''map_read'', ''map_write'']" two_permissions "''map_write''" "[''read'']" 0]
  by (simp add: two_permissions_def)

text \<open>
  A check that never fires. The generator is meant to refuse a system call that takes a handle
  with required permissions but does not return the generated result type. The flag of that check
  is computed from a description that is still empty, so no declaration is ever refused for it.
\<close>

lemma result_type_check_is_dead:
  "insert_syscall modul s c \<noteq>
     Inl (Semantic ''accepts a handle token parameter with specified permissions, but does not return the generated result type'')"
proof -
  let ?m = "''accepts a handle token parameter with specified permissions, but does not return the generated result type''"
  have "parameters_of modul (parameters s) (False, c) \<noteq> Inl (Semantic ?m)"
    using parameters_of_error [of modul "parameters s" False c ?m] by auto
  moreover have "return_type_of modul (syscall_return s) c' \<noteq> Inl (Semantic ?m)" for c'
    by (auto simp: return_type_of_def map_sum_Inl dest: resolve_error split: option.splits)
  ultimately show ?thesis
    by (auto simp: insert_syscall_def insert_symbol_def dest: parameters_of_same split: option.splits sum.splits if_splits)
qed

text \<open>
  C31. A file that ends after the direction of a parameter. The loop over the directions advances
  the iterator until the token is no direction; at the end of the file the iterator keeps its last
  token, so that processing such a file never ends.
\<close>

theorem truncated_parameter_diverges:
  assumes "name_ok q" "is_identifier n" "is_identifier p" "w \<in> {''in'', ''out''}"
    and "files (f @ ''.thorn'') = Some (render (truncated_syscall q n p w))"
  shows "process files f c = None"
proof -
  from tokenize_yields [OF truncated_lexemes [OF assms(1-4)]] obtain t where
    t: "tokenize (Some (render (truncated_syscall q n p w))) = Inr t" "yields t (truncated_syscall q n p w)" by blast
  with hangs_syscall [OF assms(1)] have "parse_syscall t = None" by (simp add: hangs_def)
  with cur_type_truncated [OF t(2)] have "process_loop f (t, c) = None"
    by (subst process_loop.simps) (simp add: at_sentinel_def process_declaration_def)
  with t(1) assms(5) show ?thesis by (simp add: process_def lift_def ret_def)
qed

theorem truncated_parameter_diverges_witness: "process (\<lambda>_. Some ''syscall ( a ) f ( x : in '') ''meta'' (empty_context ''rose'' ''amd64'') = None"
proof -
  have "render (truncated_syscall \<lparr>in_generated_scope = False, name_elements = [''a'']\<rparr> ''f'' ''x'' ''in'') = ''syscall ( a ) f ( x : in ''"
    by code_simp
  moreover have "name_ok \<lparr>in_generated_scope = False, name_elements = [''a'']\<rparr>" "is_identifier ''f''" "is_identifier ''x''"
    by code_simp+
  ultimately show ?thesis
    using truncated_parameter_diverges [of "\<lparr>in_generated_scope = False, name_elements = [''a'']\<rparr>" "''f''" "''x''" "''in''"
      "\<lambda>_. Some ''syscall ( a ) f ( x : in ''" "''meta''" "empty_context ''rose'' ''amd64''"] by simp
qed

end
