(* ===== verification/Rosestd_Strings.thy ===== *)
theory Rosestd_Strings
  imports Kernel_Prelude
begin

text \<open>
  Character strings of the runtime library: \<open>char_traits\<close> and \<open>string_view\<close>
  (\<open>libraries/rosestd/include/__char_traits\<close>, \<open>string_view\<close>) and the conversions between integers
  and text (\<open>libraries/rosestd/include/charconv\<close>). A view is represented by the characters it shows;
  nothing modelled here writes to them. A position is an offset from the first character of the
  range, an access outside of an array is \<^const>\<open>None\<close>.
\<close>

section \<open>Character traits\<close>

definition traits_eq :: "char \<Rightarrow> char \<Rightarrow> bool" where
  "traits_eq c1 c2 \<longleftrightarrow> c1 = c2"

text \<open>\<open>char\<close> is signed.\<close>

definition traits_lt :: "char \<Rightarrow> char \<Rightarrow> bool" where
  "traits_lt c1 c2 \<longleftrightarrow> sint (of_char c1 :: 8 word) < sint (of_char c2 :: 8 word)"

fun traits_compare :: "string \<Rightarrow> string \<Rightarrow> nat \<Rightarrow> int" where
  "traits_compare (c1 # s1) (c2 # s2) (Suc n) =
     (if traits_eq c1 c2 then traits_compare s1 s2 n
      else if traits_lt c1 c2 then -1
      else 1)"
| "traits_compare s1 s2 n = 0"

section \<open>String views\<close>

definition sv_compare :: "string \<Rightarrow> string \<Rightarrow> int" where
  "sv_compare this s =
     (let rlen = (if length this < length s then length this else length s);
          traits_result = traits_compare this s rlen
      in if traits_result = 0 then of_bool (length this \<noteq> 0) - of_bool (length s \<noteq> 0)
         else traits_result)"

definition sv_eq :: "string \<Rightarrow> string \<Rightarrow> bool" where
  "sv_eq lhs rhs \<longleftrightarrow> sv_compare lhs rhs = 0"

text \<open>Equality as the kernel sees it: one string is a prefix of the other, and both or none are empty.\<close>

lemma traits_compare_take: "traits_compare s1 s2 n = 0 \<longleftrightarrow> take (min n (min (length s1) (length s2))) s1 = take (min n (min (length s1) (length s2))) s2"
  by (induction s1 s2 n rule: traits_compare.induct) (auto simp: traits_eq_def)

lemma sv_eq_iff: "sv_eq a b \<longleftrightarrow> (a = [] \<longleftrightarrow> b = []) \<and> take (min (length a) (length b)) a = take (min (length a) (length b)) b"
proof -
  have m: "(if length a < length b then length a else length b) = min (length a) (length b)" by simp
  have "sv_eq a b \<longleftrightarrow> traits_compare a b (min (length a) (length b)) = 0 \<and> (of_bool (a \<noteq> []) - of_bool (b \<noteq> []) = (0 :: int))"
    unfolding sv_eq_def sv_compare_def Let_def m by simp
  then show ?thesis by (auto simp: traits_compare_take)
qed

lemma sv_eq_refl [simp]: "sv_eq a a"
  by (simp add: sv_eq_iff)

lemma sv_eq_same_length: "length a = length b \<Longrightarrow> sv_eq a b \<longleftrightarrow> a = b"
  by (auto simp: sv_eq_iff)

section \<open>Integers from text\<close>

datatype errc = Success | Invalid_argument | Result_out_of_range | Value_too_large

definition to_value :: "char \<Rightarrow> int" where
  "to_value c =
     (let n = sint (of_char c :: 8 word)
      in if 48 \<le> n \<and> n \<le> 57 then n - 48
         else if 97 \<le> n \<and> n \<le> 122 then n - 97 + 10
         else if 65 \<le> n \<and> n \<le> 90 then n - 65 + 10
         else -1)"

record from_chars_result =
  from_ptr :: nat
  from_ec :: errc
  from_value :: "u64 option"

text \<open>
  The instance for unsigned 64-bit integers. \<open>valid\<close> is set to false before the loop and
  never assigned again; the out parameter is only written on success.
\<close>

fun from_chars_loop :: "int \<Rightarrow> bool \<Rightarrow> u64 \<Rightarrow> nat \<Rightarrow> string \<Rightarrow> from_chars_result" where
  "from_chars_loop base valid temp first [] = \<lparr>from_ptr = first, from_ec = Success, from_value = Some temp\<rparr>"
| "from_chars_loop base valid temp first (ch # rest) =
     (let c = to_value ch
      in if c = -1 \<or> c \<ge> base then
           if \<not> valid then \<lparr>from_ptr = first, from_ec = Invalid_argument, from_value = None\<rparr>
           else \<lparr>from_ptr = first, from_ec = Success, from_value = Some temp\<rparr>
         else if temp > (-1) div 10 + of_bool (c \<noteq> 0) then
           \<lparr>from_ptr = first, from_ec = Result_out_of_range, from_value = None\<rparr>
         else from_chars_loop base valid (temp * word_of_int base + word_of_int c) (first + 1) rest)"

definition from_chars :: "string \<Rightarrow> int \<Rightarrow> from_chars_result" where
  "from_chars s base =
     (if s = [] then \<lparr>from_ptr = 0, from_ec = Invalid_argument, from_value = None\<rparr>
      else from_chars_loop base False 0 0 s)"

section \<open>Integers to text\<close>

definition digits :: string where
  "digits = ''0123456789abcdefghijklmnopqrstuvwxyz'' @ [CHR 0x00]"

text \<open>
  The loop fills a buffer of 128 characters from its end; \<open>room\<close> is what is left of it. Writing
  before the buffer, dividing by zero and indexing past the table of digits are \<^const>\<open>None\<close>.
\<close>

fun to_chars_loop :: "nat \<Rightarrow> u64 \<Rightarrow> u64 \<Rightarrow> string \<Rightarrow> string option" where
  "to_chars_loop room base v acc =
     (if v = 0 then Some acc
      else if base = 0 \<or> unat (v mod base) \<ge> length digits then None
      else case room of
             0 \<Rightarrow> None
           | Suc room \<Rightarrow> to_chars_loop room base (v div base) (digits ! unat (v mod base) # acc))"

declare to_chars_loop.simps [simp del]

record to_chars_result =
  to_written :: string
  to_ptr :: nat
  to_ec :: errc

text \<open>\<open>cap\<close> is the size of the output range; the result has the characters written from its start.\<close>

definition to_chars :: "nat \<Rightarrow> u64 \<Rightarrow> u64 \<Rightarrow> to_chars_result option" where
  "to_chars cap v base =
     (if cap = 0 then Some \<lparr>to_written = [], to_ptr = 0, to_ec = Value_too_large\<rparr>
      else if v = 0 then Some \<lparr>to_written = ''0'', to_ptr = 1, to_ec = Success\<rparr>
      else map_option (\<lambda>it.
             if length it > cap then \<lparr>to_written = [], to_ptr = cap, to_ec = Value_too_large\<rparr>
             else \<lparr>to_written = it, to_ptr = length it, to_ec = Success\<rparr>)
           (to_chars_loop 128 base v []))"

text \<open>The number a string of digits denotes.\<close>

definition digit_value :: "string \<Rightarrow> nat \<Rightarrow> nat" where
  "digit_value s b = foldl (\<lambda>acc c. acc * b + nat (to_value c)) 0 s"

definition digit_string :: "string \<Rightarrow> nat \<Rightarrow> bool" where
  "digit_string s b \<longleftrightarrow> (\<forall>c \<in> set s. 0 \<le> to_value c \<and> to_value c < int b)"

section \<open>Reading digits\<close>

abbreviation value_from :: "nat \<Rightarrow> nat \<Rightarrow> string \<Rightarrow> nat" where
  "value_from b \<equiv> foldl (\<lambda>acc c. acc * b + nat (to_value c))"

lemma word_of_nat_eq_int: "0 \<le> i \<Longrightarrow> (of_nat (nat i) :: u64) = word_of_int i"
  by (metis of_int_of_nat_eq nat_0_le)

lemma max_div_10: "unat ((-1 :: u64) div 10) = (2 ^ 64 - 1) div 10"
  by simp

lemma from_chars_loop_digits:
  assumes "digit_string s b" "\<And>i. i < length s \<Longrightarrow> value_from b t (take i s) \<le> (2 ^ 64 - 1) div 10"
  shows "from_chars_loop (int b) valid (of_nat t) k s =
    \<lparr>from_ptr = k + length s, from_ec = Success, from_value = Some (of_nat (value_from b t s))\<rparr>"
  using assms
proof (induction s arbitrary: t k)
  case (Cons c s)
  let ?c = "to_value c" and ?m = "(-1 :: u64) div 10"
  from Cons.prems(1) have c: "0 \<le> ?c" "?c < int b" by (simp_all add: digit_string_def)
  from Cons.prems(2) [of 0] have t: "t \<le> (2 ^ 64 - 1) div 10" by simp
  have "\<not> of_nat t > ?m + of_bool (?c \<noteq> 0)"
  proof -
    from t have "unat (of_nat t :: u64) = t" by (intro unat_of_nat_64) simp
    with t have "(of_nat t :: u64) \<le> ?m" by (simp add: word_le_nat_alt max_div_10)
    moreover have "?m \<le> ?m + of_bool (?c \<noteq> 0)" by simp
    ultimately show ?thesis by (meson not_less order_trans)
  qed
  moreover have "of_nat t * word_of_int (int b) + word_of_int ?c = (of_nat (t * b + nat ?c) :: u64)"
    using c(1) by (simp add: word_of_nat_eq_int)
  moreover have "value_from b (t * b + nat ?c) (take i s) \<le> (2 ^ 64 - 1) div 10" if "i < length s" for i
    using Cons.prems(2) [of "Suc i"] that by simp
  moreover have "digit_string s b" using Cons.prems(1) by (simp add: digit_string_def)
  ultimately show ?case using c Cons.IH [of "t * b + nat ?c" "k + 1"] by (simp add: Let_def)
qed simp

lemma value_from_grows: "1 \<le> b \<Longrightarrow> t \<le> value_from b t s"
proof (induction s arbitrary: t)
  case (Cons c s)
  then have "t \<le> t * b" by simp
  then have "t \<le> t * b + nat (to_value c)" by linarith
  also have "\<dots> \<le> value_from b (t * b + nat (to_value c)) s" by (rule Cons.IH [OF Cons.prems])
  finally show ?case by simp
qed simp

lemma from_chars_digits:
  assumes "digit_string s b" "s \<noteq> []" "1 \<le> b" "digit_value (butlast s) b \<le> (2 ^ 64 - 1) div 10"
  shows "from_chars s (int b) = \<lparr>from_ptr = length s, from_ec = Success, from_value = Some (of_nat (digit_value s b))\<rparr>"
proof -
  have "value_from b 0 (take i s) \<le> (2 ^ 64 - 1) div 10" if "i < length s" for i
  proof -
    from that have "take i (butlast s) = take i s" by (simp add: take_butlast)
    then have "butlast s = take i s @ drop i (butlast s)" by (metis append_take_drop_id)
    then have "digit_value (butlast s) b = value_from b (value_from b 0 (take i s)) (drop i (butlast s))"
      by (metis digit_value_def foldl_append)
    with value_from_grows [OF assms(3), of "value_from b 0 (take i s)" "drop i (butlast s)"] assms(4) show ?thesis by simp
  qed
  from from_chars_loop_digits [OF assms(1), of 0 False 0] this assms(2) show ?thesis
    by (simp add: from_chars_def digit_value_def)
qed

section \<open>Writing digits\<close>

lemma to_value_digits: "i < 36 \<Longrightarrow> to_value (digits ! i) = int i"
proof -
  have "\<forall>i \<in> set [0 ..< 36]. to_value (digits ! i) = int i" by code_simp
  then show "i < 36 \<Longrightarrow> to_value (digits ! i) = int i" by simp
qed

lemma to_chars_loop_digits:
  assumes "2 \<le> b" "b \<le> 36" "unat v < b ^ k" "k \<le> room"
  shows "\<exists>ds. to_chars_loop room (of_nat b) v acc = Some (ds @ acc) \<and> digit_string ds b \<and> digit_value ds b = unat v \<and>
    length ds \<le> k \<and> (v \<noteq> 0 \<longrightarrow> ds \<noteq> [])"
  using assms
proof (induction k arbitrary: v acc room)
  case 0
  then have "v = 0" by (simp add: unat_eq_zero)
  then show ?case by (auto simp: to_chars_loop.simps digit_string_def digit_value_def)
next
  case (Suc k)
  show ?case
  proof (cases "v = 0")
    case True
    then show ?thesis by (auto simp: to_chars_loop.simps digit_string_def digit_value_def)
  next
    case False
    from Suc.prems(4) obtain room' where room: "room = Suc room'" "k \<le> room'" by (cases room) auto
    from Suc.prems have b: "unat (of_nat b :: u64) = b" by (intro unat_of_nat_64) simp
    let ?d = "unat v mod b"
    have d: "unat (v mod of_nat b) = ?d" "unat (v div of_nat b) = unat v div b" by (simp_all add: unat_mod unat_div b)
    have "?d < b" using Suc.prems by simp
    have "unat (v div of_nat b) < b ^ k" using Suc.prems by (simp add: d less_mult_imp_div_less mult.commute)
    from Suc.IH [OF Suc.prems(1,2) this room(2)] obtain ds where ds:
      "to_chars_loop room' (of_nat b) (v div of_nat b) (digits ! ?d # acc) = Some (ds @ digits ! ?d # acc)"
      "digit_string ds b" "digit_value ds b = unat v div b" "length ds \<le> k" by (auto simp: d)
    have "of_nat b \<noteq> (0 :: u64)" using b Suc.prems(1) by (metis not_numeral_le_zero unat_0)
    moreover have "length digits = 37" by (simp add: digits_def)
    ultimately have "to_chars_loop room (of_nat b) v acc = Some ((ds @ [digits ! ?d]) @ acc)"
      using False ds(1) room(1) \<open>?d < b\<close> Suc.prems(2) by (simp add: to_chars_loop.simps [of "Suc room'"] d)
    moreover have "to_value (digits ! ?d) = int ?d" using \<open>?d < b\<close> Suc.prems(2) by (intro to_value_digits) simp
    ultimately show ?thesis
      using ds(2-4) \<open>?d < b\<close> by (intro exI [of _ "ds @ [digits ! ?d]"]) (auto simp: digit_string_def digit_value_def)
  qed
qed

lemma digit_value_butlast:
  assumes "digit_string s b" "s \<noteq> []" "0 < b"
  shows "digit_value (butlast s) b = digit_value s b div b"
proof -
  from assms(2) obtain t c where s: "s = t @ [c]" by (metis rev_exhaust)
  with assms have "nat (to_value c) < b" by (simp add: digit_string_def nat_less_iff)
  with assms(3) show ?thesis by (simp add: s digit_value_def)
qed

lemma to_chars_digits:
  assumes "2 \<le> b" "b \<le> 36" "64 \<le> cap"
  shows "\<exists>r. to_chars cap v (of_nat b) = Some r \<and> to_ec r = Success \<and> to_ptr r = length (to_written r) \<and>
    to_written r \<noteq> [] \<and> digit_string (to_written r) b \<and> digit_value (to_written r) b = unat v"
proof (cases "v = 0")
  case True
  have "to_value (CHR ''0'') = 0" by code_simp
  with assms True show ?thesis by (auto simp: to_chars_def digit_string_def digit_value_def)
next
  case False
  have "(2 :: nat) ^ 64 \<le> b ^ 64" using assms(1) by (intro power_mono) auto
  with unsigned_less [of v, where ?'a = nat] have "unat v < b ^ 64" by simp
  from to_chars_loop_digits [OF assms(1,2) this, of 128 "[]"] False assms(3) obtain ds where
    "to_chars_loop 128 (of_nat b) v [] = Some ds" "digit_string ds b" "digit_value ds b = unat v" "length ds \<le> 64" "ds \<noteq> []" by auto
  with assms(3) False show ?thesis by (auto simp: to_chars_def)
qed

section \<open>Properties\<close>

text \<open>
  C32. Reading back a printed number. In every base from 2 to 36, printing an unsigned 64-bit number
  into a buffer of at least 64 characters succeeds, and parsing the characters written gives the
  number back and consumes all of them, as long as the number without its last digit is at most a
  tenth of the largest number. In base 10 that is every number; in base 16 the overflow check is
  too strict for the largest ones.
\<close>

theorem to_chars_from_chars:
  assumes "2 \<le> b" "b \<le> 36" "64 \<le> cap" "unat v div b \<le> (2 ^ 64 - 1) div 10"
  shows "\<exists>r. to_chars cap v (of_nat b) = Some r \<and> to_ec r = Success \<and>
    from_chars (to_written r) (int b) = \<lparr>from_ptr = to_ptr r, from_ec = Success, from_value = Some v\<rparr>"
proof -
  from to_chars_digits [OF assms(1-3)] obtain r where r: "to_chars cap v (of_nat b) = Some r" "to_ec r = Success"
    "to_ptr r = length (to_written r)" "to_written r \<noteq> []" "digit_string (to_written r) b" "digit_value (to_written r) b = unat v"
    by blast
  with digit_value_butlast [OF r(5,4)] assms from_chars_digits [OF r(5,4)] show ?thesis by auto
qed

theorem to_chars_from_chars_witness:
  "(\<exists>r. to_chars 64 0xffffffffffffffff 10 = Some r \<and> to_ec r = Success \<and>
      from_chars (to_written r) 10 = \<lparr>from_ptr = to_ptr r, from_ec = Success, from_value = Some 0xffffffffffffffff\<rparr>) \<and>
   (\<exists>r. to_chars 64 0xdeadbeef 16 = Some r \<and> to_ec r = Success \<and>
      from_chars (to_written r) 16 = \<lparr>from_ptr = to_ptr r, from_ec = Success, from_value = Some 0xdeadbeef\<rparr>)"
  using to_chars_from_chars [of 10 64 "0xffffffffffffffff"] to_chars_from_chars [of 16 64 "0xdeadbeef"] by simp

text \<open>The check lets a number that does not fit pass, and the result wraps around.\<close>

lemma from_chars_wraps: "from_chars ''18446744073709551616'' 10 = \<lparr>from_ptr = 20, from_ec = Success, from_value = Some 0\<rparr>"
  by code_simp

text \<open>A character that is no digit makes the whole number invalid, also behind digits.\<close>

lemma from_chars_trailing: "from_chars ''12;'' 10 = \<lparr>from_ptr = 2, from_ec = Invalid_argument, from_value = None\<rparr>"
  by code_simp

end
