(* ===== verification/Cpio.thy ===== *)
theory Cpio
  imports Rosestd_Strings "HOL-Library.Sublist"
begin

text \<open>
  The reader of the initial file system, an archive in the format of \<open>cpio\<close>
  (\<open>libraries/archive/src/cpio.cpp\<close>). The archive is a range of memory between two addresses; an
  entry is a header of 110 characters, the name and the contents, both padded to four bytes. The
  arithmetic on addresses wraps around as it does in the code. A search that never ends is
  \<^const>\<open>None\<close>.
\<close>

section \<open>Memory\<close>

type_synonym chars_memory = "addr \<Rightarrow> char"

definition chars_at :: "chars_memory \<Rightarrow> addr \<Rightarrow> nat \<Rightarrow> string" where
  "chars_at m p n = map (\<lambda>i. m (p + of_nat i)) [0 ..< n]"

text \<open>A string view into the archive.\<close>

record view =
  view_data :: addr
  view_size :: u64

definition view_chars :: "chars_memory \<Rightarrow> view \<Rightarrow> string" where
  "view_chars m v = chars_at m (view_data v) (unat (view_size v))"

section \<open>Headers\<close>

record cpio_header =
  magic :: string
  inode :: string
  mode :: string
  uid :: string
  gid :: string
  nlink :: string
  mtime :: string
  filesize :: string
  devmajor :: string
  devminor :: string
  rdevmajor :: string
  rdevminor :: string
  namesize :: string
  check :: string

definition header_size :: u64 where
  "header_size = 110"

definition header_at :: "chars_memory \<Rightarrow> addr \<Rightarrow> cpio_header" where
  "header_at m p =
     \<lparr>magic = chars_at m p 6, inode = chars_at m (p + 6) 8, mode = chars_at m (p + 14) 8, uid = chars_at m (p + 22) 8,
      gid = chars_at m (p + 30) 8, nlink = chars_at m (p + 38) 8, mtime = chars_at m (p + 46) 8, filesize = chars_at m (p + 54) 8,
      devmajor = chars_at m (p + 62) 8, devminor = chars_at m (p + 70) 8, rdevmajor = chars_at m (p + 78) 8,
      rdevminor = chars_at m (p + 86) 8, namesize = chars_at m (p + 94) 8, check = chars_at m (p + 102) 8\<rparr>"

record header =
  hdr :: addr
  hdr_namesize :: u64
  hdr_name_padding :: u64
  hdr_filesize :: u64
  hdr_file_padding :: u64
  hdr_mode :: u64

definition is_file :: "header \<Rightarrow> bool" where
  "is_file h \<longleftrightarrow> hdr_mode h AND 0x8000 = 0x8000"

definition filename :: "header \<Rightarrow> view" where
  "filename h = \<lparr>view_data = hdr h + header_size, view_size = hdr_namesize h\<rparr>"

definition file_contents :: "header \<Rightarrow> view" where
  "file_contents h = \<lparr>view_data = hdr h + header_size + hdr_namesize h + hdr_name_padding h, view_size = hdr_filesize h\<rparr>"

section \<open>Entries\<close>

record get_entry_result =
  entry :: "header option"
  entry_error :: string
  header_base :: addr

definition no_entry :: "string \<Rightarrow> addr \<Rightarrow> get_entry_result" where
  "no_entry message base = \<lparr>entry = None, entry_error = message, header_base = base\<rparr>"

definition hex_field :: "string \<Rightarrow> u64 option" where
  "hex_field s =
     (let result = from_chars s 16
      in if from_ec result \<noteq> Success \<or> from_ptr result \<noteq> length s then None else from_value result)"

definition get_entry :: "chars_memory \<Rightarrow> addr \<Rightarrow> addr \<Rightarrow> get_entry_result" where
  "get_entry m base limit =
     (if base + header_size \<ge> limit then no_entry ''end of entry would be past the limit of the archive'' base
      else
        let h = header_at m base
        in if \<not> sv_eq (magic h) ''070701'' then no_entry ''magic did not match'' base
           else
             case hex_field (mode h) of
               None \<Rightarrow> no_entry ''failed to parse file mode'' base
             | Some md \<Rightarrow>
                 (case hex_field (namesize h) of
                    None \<Rightarrow> no_entry ''failed to parse namesize'' base
                  | Some ns \<Rightarrow>
                      (case hex_field (filesize h) of
                         None \<Rightarrow> no_entry ''failed to parse filesize'' base
                       | Some fs \<Rightarrow>
                           let np = (4 - (header_size + ns) mod 4) mod 4;
                               fp = (4 - fs mod 4) mod 4
                           in if base + header_size + ns + np + fs + fp \<ge> limit then
                                no_entry ''end of file would be past the limit of the archive'' base
                              else
                                \<lparr>entry = Some \<lparr>hdr = base, hdr_namesize = ns, hdr_name_padding = np, hdr_filesize = fs,
                                               hdr_file_padding = fp, hdr_mode = md\<rparr>,
                                 entry_error = [], header_base = nullptr\<rparr>)))"

definition next_address :: "header \<Rightarrow> addr" where
  "next_address h = hdr h + header_size + hdr_namesize h + hdr_name_padding h + hdr_filesize h + hdr_file_padding h"

definition next_entry :: "chars_memory \<Rightarrow> addr \<Rightarrow> header \<Rightarrow> get_entry_result" where
  "next_entry m limit h = get_entry m (next_address h) limit"

section \<open>The archive\<close>

record cpio =
  cpio_size :: nat
  cpio_base :: addr
  cpio_limit :: addr

record try_cpio_result =
  archive :: "cpio option"
  error_message :: string
  header_offset :: addr

definition trailer :: string where
  "trailer = ''TRAILER!!!''"

partial_function (option) try_cpio_loop ::
    "chars_memory \<Rightarrow> addr \<Rightarrow> addr \<Rightarrow> nat \<Rightarrow> get_entry_result \<Rightarrow> (nat + try_cpio_result) option" where
  "try_cpio_loop m base limit size0 result =
     (case entry result of
        None \<Rightarrow> Some (Inr \<lparr>archive = None, error_message = entry_error result, header_offset = header_base result - base\<rparr>)
      | Some h \<Rightarrow>
          let size1 = (if is_file h then size0 + 1 else size0)
          in if sv_eq (view_chars m (filename h)) trailer then Some (Inl size1)
             else try_cpio_loop m base limit size1 (next_entry m limit h))"

definition try_cpio :: "chars_memory \<Rightarrow> addr \<Rightarrow> u64 \<Rightarrow> try_cpio_result option" where
  "try_cpio m base len =
     map_option (\<lambda>r. case r of
         Inr e \<Rightarrow> e
       | Inl n \<Rightarrow> \<lparr>archive = Some \<lparr>cpio_size = n, cpio_base = base, cpio_limit = base + len\<rparr>, error_message = [], header_offset = 0\<rparr>)
       (try_cpio_loop m base (base + len) 0 (get_entry m base (base + len)))"

partial_function (option) lookup_loop ::
    "chars_memory \<Rightarrow> addr \<Rightarrow> string \<Rightarrow> get_entry_result \<Rightarrow> view option option" where
  "lookup_loop m limit key result =
     (case entry result of
        None \<Rightarrow> Some None
      | Some h \<Rightarrow>
          if is_file h \<and> sv_eq (view_chars m (filename h)) key then Some (Some (file_contents h))
          else if sv_eq (view_chars m (filename h)) trailer then Some None
          else lookup_loop m limit key (next_entry m limit h))"

definition cpio_lookup :: "chars_memory \<Rightarrow> cpio \<Rightarrow> string \<Rightarrow> view option option" where
  "cpio_lookup m a key = lookup_loop m (cpio_limit a) key (get_entry m (cpio_base a) (cpio_limit a))"

section \<open>Bounds of the fields\<close>

lemma to_value_nonneg: "to_value c \<noteq> -1 \<Longrightarrow> 0 \<le> to_value c"
  by (auto simp: to_value_def Let_def split: if_splits)

lemma from_chars_loop_bound:
  assumes "from_chars_loop 16 False t k s = \<lparr>from_ptr = p, from_ec = Success, from_value = Some v\<rparr>"
    and "(unat t + 1) * 16 ^ length s \<le> 2 ^ 64"
  shows "unat v < (unat t + 1) * 16 ^ length s"
  using assms
proof (induction s arbitrary: t k)
  case (Cons ch s)
  let ?c = "to_value ch"
  from Cons.prems(1) have c: "?c \<noteq> -1" "?c < 16"
    and l: "from_chars_loop 16 False (t * 16 + word_of_int ?c) (k + 1) s = \<lparr>from_ptr = p, from_ec = Success, from_value = Some v\<rparr>"
    by (auto simp: Let_def split: if_splits)
  define n where "n = nat ?c"
  have n: "n < 16" "word_of_int ?c = (of_nat n :: u64)"
    using c to_value_nonneg [OF c(1)] by (auto simp: n_def nat_less_iff word_of_nat_eq_int)
  have "(unat t + 1) * 16 * 16 ^ length s \<le> 2 ^ 64" using Cons.prems(2) by (simp add: algebra_simps)
  moreover have "(unat t + 1) * 16 \<le> (unat t + 1) * 16 * 16 ^ length s" by simp
  ultimately have le: "(unat t + 1) * 16 \<le> 2 ^ 64" by linarith
  have u: "unat (t * 16 + of_nat n) = unat t * 16 + n"
  proof -
    have "unat t * 16 + n < 2 ^ 64" using le n(1) by simp
    moreover have "t * 16 + of_nat n = of_nat (unat t * 16 + n)" by simp
    ultimately show ?thesis by (simp only: unat_of_nat_64)
  qed
  have "(unat (t * 16 + of_nat n) + 1) * 16 ^ length s \<le> (unat t + 1) * 16 * 16 ^ length s"
    unfolding u using n(1) by (intro mult_right_mono) auto
  moreover from this Cons.prems(2) have "(unat (t * 16 + of_nat n) + 1) * 16 ^ length s \<le> 2 ^ 64" by (simp add: algebra_simps)
  with Cons.IH [of "t * 16 + of_nat n" "k + 1"] l have "unat v < (unat (t * 16 + of_nat n) + 1) * 16 ^ length s" by (simp add: n(2))
  ultimately show ?case by (simp add: algebra_simps)
qed auto

lemma hex_field_bound:
  assumes "hex_field s = Some v" "length s = 8"
  shows "unat v < 2 ^ 32"
proof -
  from assms obtain p where "from_chars_loop 16 False 0 0 s = \<lparr>from_ptr = p, from_ec = Success, from_value = Some v\<rparr>"
    by (cases "from_chars s 16") (auto simp: hex_field_def Let_def from_chars_def split: if_splits)
  from from_chars_loop_bound [OF this] assms(2) show ?thesis by simp
qed

lemma length_chars_at [simp]: "length (chars_at m p n) = n"
  by (simp add: chars_at_def)

section \<open>Every search ends inside the archive\<close>

definition entry_length :: "header \<Rightarrow> nat" where
  "entry_length h = 110 + unat (hdr_namesize h) + unat (hdr_name_padding h) + unat (hdr_filesize h) + unat (hdr_file_padding h)"

lemma next_address_length: "next_address h = hdr h + of_nat (entry_length h)"
  by (simp add: next_address_def entry_length_def header_size_def algebra_simps)

text \<open>The archive does not reach into the last 16 GiB of the address space.\<close>

definition below_top :: "addr \<Rightarrow> bool" where
  "below_top limit \<longleftrightarrow> unat limit + 2 ^ 34 \<le> 2 ^ 64"

lemma unat_mod_4: "unat ((w :: u64) mod 4) < 4"
  by (simp add: unat_mod)

lemma get_entry_some:
  assumes "entry (get_entry m base limit) = Some h"
  shows "hdr h = base" "next_address h < limit" "unat (hdr_namesize h) < 2 ^ 32" "unat (hdr_filesize h) < 2 ^ 32"
    "unat (hdr_name_padding h) < 4" "unat (hdr_file_padding h) < 4"
proof -
  from assms obtain md ns fs where
    f: "hex_field (namesize (header_at m base)) = Some ns" "hex_field (filesize (header_at m base)) = Some fs"
    "h = \<lparr>hdr = base, hdr_namesize = ns, hdr_name_padding = (4 - (header_size + ns) mod 4) mod 4, hdr_filesize = fs,
          hdr_file_padding = (4 - fs mod 4) mod 4, hdr_mode = md\<rparr>" "next_address h < limit"
    by (auto simp: get_entry_def no_entry_def Let_def next_address_def not_le split: if_splits option.splits)
  moreover have "unat ns < 2 ^ 32" by (rule hex_field_bound [OF f(1)]) (simp add: header_at_def)
  moreover have "unat fs < 2 ^ 32" by (rule hex_field_bound [OF f(2)]) (simp add: header_at_def)
  ultimately show "hdr h = base" "next_address h < limit" "unat (hdr_namesize h) < 2 ^ 32" "unat (hdr_filesize h) < 2 ^ 32"
    "unat (hdr_name_padding h) < 4" "unat (hdr_file_padding h) < 4"
    by (simp_all only: header.simps unat_mod_4)
qed

lemma get_entry_bounds:
  assumes "entry (get_entry m base limit) = Some h" "base \<le> limit" "below_top limit"
  shows "unat (next_address h) = unat base + entry_length h" "unat base + entry_length h < unat limit"
proof -
  note e = get_entry_some [OF assms(1)]
  from e have "entry_length h < 2 ^ 34" by (simp add: entry_length_def)
  with assms(2,3) have "unat base + entry_length h < 2 ^ 64" by (simp add: below_top_def word_le_nat_alt)
  then show *: "unat (next_address h) = unat base + entry_length h"
    by (simp only: next_address_length e(1) unat_plus_less)
  with e(2) show "unat base + entry_length h < unat limit" by (simp add: word_less_nat_alt)
qed

lemma contents_in_entry:
  assumes "entry (get_entry m base limit) = Some h" "base \<le> limit" "below_top limit"
  shows "unat base < unat (view_data (file_contents h))"
    "unat (view_data (file_contents h)) + unat (view_size (file_contents h)) \<le> unat base + entry_length h"
proof -
  note e = get_entry_some [OF assms(1)] and b = get_entry_bounds [OF assms]
  define k where "k = 110 + unat (hdr_namesize h) + unat (hdr_name_padding h)"
  have "view_data (file_contents h) = base + of_nat k"
    by (simp add: file_contents_def e(1) k_def header_size_def algebra_simps)
  moreover have "unat base + k < 2 ^ 64" using b(2) unsigned_less [of limit, where ?'a = nat] by (simp add: k_def entry_length_def)
  ultimately have "unat (view_data (file_contents h)) = unat base + k" by (simp add: unat_plus_less)
  then show "unat base < unat (view_data (file_contents h))"
    "unat (view_data (file_contents h)) + unat (view_size (file_contents h)) \<le> unat base + entry_length h"
    by (simp_all add: k_def entry_length_def file_contents_def)
qed

text \<open>Induction over the entries of an archive: the next entry starts behind the current one.\<close>

lemma entries_induct [consumes 2, case_names entry]:
  assumes "base \<le> limit" "below_top limit"
    and step: "\<And>base. base \<le> limit \<Longrightarrow>
      (\<And>h. entry (get_entry m base limit) = Some h \<Longrightarrow> base < next_address h \<Longrightarrow> P (next_address h)) \<Longrightarrow> P base"
  shows "P base"
  using assms(1)
proof (induction "unat limit - unat base" arbitrary: base rule: less_induct)
  case less
  show ?case
  proof (rule step [OF less.prems])
    fix h
    assume h: "entry (get_entry m base limit) = Some h" and n: "base < next_address h"
    note b = get_entry_bounds [OF h less.prems assms(2)]
    then have "next_address h \<le> limit" by (simp add: word_le_nat_alt)
    moreover have "unat limit - unat (next_address h) < unat limit - unat base"
      using b by (simp add: entry_length_def)
    ultimately show "P (next_address h)" using less.hyps by blast
  qed
qed

lemma next_address_greater:
  assumes "entry (get_entry m base limit) = Some h" "base \<le> limit" "below_top limit"
  shows "base < next_address h"
  using get_entry_bounds [OF assms] by (simp add: word_less_nat_alt entry_length_def)

lemma lookup_loop_inside:
  assumes "base \<le> limit" "below_top limit"
  shows "\<exists>r. lookup_loop m limit key (get_entry m base limit) = Some r \<and>
    (\<forall>v. r = Some v \<longrightarrow> unat base < unat (view_data v) \<and> unat (view_data v) + unat (view_size v) < unat limit)"
  using assms
proof (induction rule: entries_induct [where m = m])
  case (entry base)
  show ?case
  proof (cases "entry (get_entry m base limit)")
    case None
    then show ?thesis by (simp add: lookup_loop.simps)
  next
    case (Some h)
    note c = contents_in_entry [OF Some entry.hyps assms(2)] get_entry_bounds(2) [OF Some entry.hyps assms(2)]
    note n = next_address_greater [OF Some entry.hyps assms(2)]
    from entry.IH [OF Some n] obtain r where r: "lookup_loop m limit key (next_entry m limit h) = Some r"
      "\<forall>v. r = Some v \<longrightarrow> unat (next_address h) < unat (view_data v) \<and> unat (view_data v) + unat (view_size v) < unat limit"
      by (auto simp: next_entry_def)
    with n have "\<forall>v. r = Some v \<longrightarrow> unat base < unat (view_data v) \<and> unat (view_data v) + unat (view_size v) < unat limit"
      by (auto simp: word_less_nat_alt)
    with r(1) c Some show ?thesis by (subst lookup_loop.simps) auto
  qed
qed

lemma try_cpio_loop_returns:
  assumes "base \<le> limit" "below_top limit"
  shows "\<exists>r. try_cpio_loop m base0 limit k (get_entry m base limit) = Some r"
  using assms
proof (induction arbitrary: k rule: entries_induct [where m = m])
  case (entry base)
  show ?case
  proof (cases "entry (get_entry m base limit)")
    case None
    then show ?thesis by (simp add: try_cpio_loop.simps)
  next
    case (Some h)
    from entry.IH [OF Some next_address_greater [OF Some entry.hyps assms(2)]] show ?thesis
      by (subst try_cpio_loop.simps) (auto simp: Some Let_def next_entry_def)
  qed
qed

section \<open>Archives\<close>

text \<open>The reference: the characters of an archive in the \<open>newc\<close> format.\<close>

record cpio_file =
  f_name :: string
  f_mode :: nat
  f_data :: string
  f_inode :: string
  f_owner :: string
  f_device :: string
  f_check :: string

fun hex :: "nat \<Rightarrow> nat \<Rightarrow> string" where
  "hex 0 n = []"
| "hex (Suc k) n = hex k (n div 16) @ [digits ! (n mod 16)]"

definition nul :: char where
  "nul = CHR 0x00"

definition pad4 :: "nat \<Rightarrow> string" where
  "pad4 n = replicate ((4 - n mod 4) mod 4) nul"

definition file_header :: "cpio_file \<Rightarrow> string" where
  "file_header f = ''070701'' @ f_inode f @ hex 8 (f_mode f) @ f_owner f @ hex 8 (length (f_data f)) @ f_device f @
     hex 8 (length (f_name f) + 1) @ f_check f"

definition file_image :: "cpio_file \<Rightarrow> string" where
  "file_image f = file_header f @ f_name f @ [nul] @ pad4 (110 + length (f_name f) + 1) @ f_data f @ pad4 (length (f_data f))"

text \<open>The kind of a file in its mode: fifos, character devices, directories, block devices, regular files, links and sockets.\<close>

definition file_type :: "cpio_file \<Rightarrow> u64" where
  "file_type f = of_nat (f_mode f) AND 0xF000"

definition regular :: "cpio_file \<Rightarrow> bool" where
  "regular f \<longleftrightarrow> file_type f = 0x8000"

definition file_types :: "u64 list" where
  "file_types = [0, 0x1000, 0x2000, 0x4000, 0x6000, 0x8000]"

text \<open>
  A file of a well-formed archive. It is not a symbolic link (0xA000) and not a socket (0xC000), which the test of the
  code for a regular file, a single bit of the mode, takes for one.
\<close>

definition file_ok :: "cpio_file \<Rightarrow> bool" where
  "file_ok f \<longleftrightarrow> length (f_inode f) = 8 \<and> length (f_owner f) = 32 \<and> length (f_device f) = 32 \<and> length (f_check f) = 8 \<and>
     f_mode f < 2 ^ 32 \<and> length (f_data f) < 2 ^ 32 \<and> length (f_name f) + 1 < 2 ^ 32 \<and> nul \<notin> set (f_name f) \<and>
     file_type f \<in> set file_types"

definition trailer_file :: cpio_file where
  "trailer_file = \<lparr>f_name = trailer, f_mode = 0, f_data = [], f_inode = replicate 8 (CHR ''0''), f_owner = replicate 32 (CHR ''0''),
     f_device = replicate 32 (CHR ''0''), f_check = replicate 8 (CHR ''0'')\<rparr>"

definition cpio_image :: "cpio_file list \<Rightarrow> string" where
  "cpio_image fs = concat (map file_image fs) @ file_image trailer_file"

lemma regular_bit:
  assumes "file_ok f" shows "(of_nat (f_mode f) :: u64) AND 0x8000 = 0x8000 \<longleftrightarrow> regular f"
proof -
  have "(of_nat (f_mode f) :: u64) AND 0x8000 = file_type f AND 0x8000" by (simp add: file_type_def and.assoc)
  with assms show ?thesis by (auto simp: file_ok_def file_types_def regular_def)
qed

text \<open>Memory that holds the given characters from an address on.\<close>

definition holds_chars :: "chars_memory \<Rightarrow> addr \<Rightarrow> string \<Rightarrow> bool" where
  "holds_chars m p s \<longleftrightarrow> chars_at m p (length s) = s"

lemma chars_at_append: "chars_at m p (a + b) = chars_at m p a @ chars_at m (p + of_nat a) b"
proof (rule nth_equalityI)
  fix i
  assume i: "i < length (chars_at m p (a + b))"
  show "chars_at m p (a + b) ! i = (chars_at m p a @ chars_at m (p + of_nat a) b) ! i"
  proof (cases "i < a")
    case False
    with i obtain j where "i = a + j" "j < b" by (auto simp: not_less le_iff_add)
    then show ?thesis by (simp add: chars_at_def nth_append algebra_simps)
  qed (use i in \<open>simp add: chars_at_def nth_append\<close>)
qed simp

lemma archive_holds_append: "holds_chars m p (s @ t) \<longleftrightarrow> holds_chars m p s \<and> holds_chars m (p + of_nat (length s)) t"
  by (simp add: holds_chars_def chars_at_append)

lemma length_hex [simp]: "length (hex k n) = k"
  by (induction k n rule: hex.induct) auto

lemma hex_digits: "digit_string (hex k n) 16 \<and> digit_value (hex k n) 16 = n mod 16 ^ k"
proof (induction k n rule: hex.induct)
  case (2 k n)
  have "to_value (digits ! (n mod 16)) = int (n mod 16)" by (intro to_value_digits) simp
  moreover have "n div 16 mod 16 ^ k * 16 + n mod 16 = n mod (16 * 16 ^ k)"
    by (simp add: mod_mult2_eq mult.commute)
  ultimately show ?case using 2 by (auto simp: digit_string_def digit_value_def)
qed (simp add: digit_string_def digit_value_def)

lemma hex_field_hex:
  assumes "n < 2 ^ 32"
  shows "hex_field (hex 8 n) = Some (of_nat n)"
proof -
  have v: "digit_value (hex 8 n) 16 = n" using hex_digits [of 8 n] assms by simp
  have ne: "hex 8 n \<noteq> []" by (metis length_hex list.size(3) zero_neq_numeral)
  with digit_value_butlast [of "hex 8 n" 16] hex_digits [of 8 n] v have "digit_value (butlast (hex 8 n)) 16 = n div 16" by simp
  also have "\<dots> \<le> (2 ^ 64 - 1) div 10" using assms by simp
  finally have "digit_value (butlast (hex 8 n)) 16 \<le> (2 ^ 64 - 1) div 10" .
  with from_chars_digits [of "hex 8 n" 16] hex_digits [of 8 n] v ne show ?thesis
    by (simp add: hex_field_def)
qed

lemma pad_word:
  assumes "k < 2 ^ 64"
  shows "(4 - (of_nat k :: u64) mod 4) mod 4 = of_nat ((4 - k mod 4) mod 4)"
proof -
  have m: "unat ((of_nat k :: u64) mod 4) = k mod 4" using assms by (simp add: unat_mod unat_of_nat_64)
  then have "(of_nat k :: u64) mod 4 \<le> 4" by (simp add: word_le_nat_alt)
  then have "unat (4 - (of_nat k :: u64) mod 4) = 4 - k mod 4" using m by (simp add: unat_sub)
  then have "unat ((4 - (of_nat k :: u64) mod 4) mod 4) = (4 - k mod 4) mod 4" by (simp add: unat_mod)
  then have "of_nat (unat ((4 - (of_nat k :: u64) mod 4) mod 4)) = (of_nat ((4 - k mod 4) mod 4) :: u64)" by (rule arg_cong)
  then show ?thesis by simp
qed


definition pad_length :: "nat \<Rightarrow> nat" where
  "pad_length n = (4 - n mod 4) mod 4"

lemma length_pad4 [simp]: "length (pad4 n) = pad_length n"
  by (simp add: pad4_def pad_length_def)

lemma pad_length_less: "pad_length n < 4"
  by (simp add: pad_length_def)

text \<open>The header that the code finds for a file at an address.\<close>

definition header_of :: "addr \<Rightarrow> cpio_file \<Rightarrow> header" where
  "header_of p f = \<lparr>hdr = p, hdr_namesize = of_nat (length (f_name f) + 1), hdr_name_padding = of_nat (pad_length (110 + length (f_name f) + 1)),
     hdr_filesize = of_nat (length (f_data f)), hdr_file_padding = of_nat (pad_length (length (f_data f))), hdr_mode = of_nat (f_mode f)\<rparr>"

lemma length_file_header: "file_ok f \<Longrightarrow> length (file_header f) = 110"
  by (simp add: file_ok_def file_header_def)

lemma length_file_image:
  "file_ok f \<Longrightarrow> length (file_image f) =
     110 + (length (f_name f) + 1) + pad_length (110 + length (f_name f) + 1) + length (f_data f) + pad_length (length (f_data f))"
  by (simp add: file_image_def length_file_header)

lemma next_address_header: "file_ok f \<Longrightarrow> next_address (header_of p f) = p + of_nat (length (file_image f))"
  by (simp add: next_address_def header_of_def header_size_def length_file_image algebra_simps)

lemma header_fields:
  assumes "file_ok f" "holds_chars m p (file_header f)"
  shows "magic (header_at m p) = ''070701''" "mode (header_at m p) = hex 8 (f_mode f)"
    "filesize (header_at m p) = hex 8 (length (f_data f))" "namesize (header_at m p) = hex 8 (length (f_name f) + 1)"
proof -
  note h = assms(2) [unfolded file_header_def archive_holds_append]
  have l: "length (f_inode f) = 8" "length (f_owner f) = 32" "length (f_device f) = 32" using assms(1) by (auto simp: file_ok_def)
  from h have "holds_chars m p ''070701''" "holds_chars m (p + 14) (hex 8 (f_mode f))"
    "holds_chars m (p + 54) (hex 8 (length (f_data f)))" "holds_chars m (p + 94) (hex 8 (length (f_name f) + 1))"
    by (simp_all add: l add.assoc)
  moreover have "length ''070701'' = 6" by simp
  ultimately show "magic (header_at m p) = ''070701''" "mode (header_at m p) = hex 8 (f_mode f)"
    "filesize (header_at m p) = hex 8 (length (f_data f))" "namesize (header_at m p) = hex 8 (length (f_name f) + 1)"
    unfolding header_at_def holds_chars_def by (simp_all only: cpio_header.simps length_hex)
qed

lemma get_entry_fields:
  assumes "\<not> base + header_size \<ge> limit" "magic (header_at m base) = ''070701''" "hex_field (mode (header_at m base)) = Some md"
    "hex_field (namesize (header_at m base)) = Some ns" "hex_field (filesize (header_at m base)) = Some fs"
    "h = \<lparr>hdr = base, hdr_namesize = ns, hdr_name_padding = (4 - (header_size + ns) mod 4) mod 4, hdr_filesize = fs,
          hdr_file_padding = (4 - fs mod 4) mod 4, hdr_mode = md\<rparr>" "\<not> next_address h \<ge> limit"
  shows "entry (get_entry m base limit) = Some h"
  using assms by (simp add: get_entry_def Let_def next_address_def)

lemma get_entry_image:
  assumes f: "file_ok f" and h: "holds_chars m p (file_image f)" and l: "p + of_nat (length (file_image f)) < limit"
    and n: "unat p + length (file_image f) < 2 ^ 64"
  shows "entry (get_entry m p limit) = Some (header_of p f)"
proof -
  from h have "holds_chars m p (file_header f)" by (simp add: file_image_def archive_holds_append)
  note hd = header_fields [OF f this]
  have b: "f_mode f < 2 ^ 32" "length (f_data f) < 2 ^ 32" "length (f_name f) + 1 < 2 ^ 32" using f by (auto simp: file_ok_def)
  have "unat (p + 110) = unat p + 110" using n unat_plus_less [of p 110] by (simp add: length_file_image [OF f])
  moreover have "unat (p + of_nat (length (file_image f))) = unat p + length (file_image f)" using n by (rule unat_plus_less)
  ultimately have "p + header_size \<le> p + of_nat (length (file_image f))"
    by (simp add: word_le_nat_alt header_size_def length_file_image [OF f])
  with l have 1: "\<not> limit \<le> p + header_size" by simp
  have k: "header_size + of_nat (length (f_name f) + 1) = (of_nat (110 + length (f_name f) + 1) :: u64)"
    by (simp add: header_size_def)
  have np: "(4 - (header_size + of_nat (length (f_name f) + 1)) mod 4) mod 4 = (of_nat (pad_length (110 + length (f_name f) + 1)) :: u64)"
    unfolding pad_length_def k using b by (intro pad_word) simp
  have fp: "(4 - of_nat (length (f_data f)) mod 4) mod 4 = (of_nat (pad_length (length (f_data f))) :: u64)"
    unfolding pad_length_def using b by (intro pad_word) simp
  have 2: "header_of p f = \<lparr>hdr = p, hdr_namesize = of_nat (length (f_name f) + 1),
      hdr_name_padding = (4 - (header_size + of_nat (length (f_name f) + 1)) mod 4) mod 4, hdr_filesize = of_nat (length (f_data f)),
      hdr_file_padding = (4 - of_nat (length (f_data f)) mod 4) mod 4, hdr_mode = of_nat (f_mode f)\<rparr>"
    by (simp only: header_of_def np fp)
  show ?thesis
    by (rule get_entry_fields [OF 1 hd(1) _ _ _ 2])
      (use b l next_address_header [OF f, of p] in \<open>simp_all only: hd hex_field_hex not_le\<close>)
qed

lemma file_ok_trailer: "file_ok trailer_file"
  by (simp add: file_ok_def trailer_file_def trailer_def nul_def file_type_def file_types_def)

lemma views_image:
  assumes f: "file_ok f" and h: "holds_chars m p (file_image f)"
  shows "view_chars m (filename (header_of p f)) = f_name f @ [nul]"
    and "view_chars m (file_contents (header_of p f)) = f_data f"
    and "is_file (header_of p f) = regular f"
proof -
  have b: "length (f_data f) < 2 ^ 64" "length (f_name f) + 1 < 2 ^ 64" using f by (auto simp: file_ok_def)
  have "file_image f = file_header f @ (f_name f @ [nul]) @ pad4 (110 + length (f_name f) + 1) @ f_data f @ pad4 (length (f_data f))"
    by (simp add: file_image_def)
  note h = h [unfolded this archive_holds_append length_append length_pad4 length_file_header [OF f]]
  have "view_chars m (filename (header_of p f)) = chars_at m (p + of_nat 110) (length (f_name f) + 1)"
    unfolding view_chars_def filename_def header_of_def view.simps header.simps unat_of_nat_64 [OF b(2)] by (simp add: header_size_def)
  with h show "view_chars m (filename (header_of p f)) = f_name f @ [nul]"
    using chars_at_append [of m "p + 110" "length (f_name f)" 1] by (simp add: holds_chars_def)
  have "view_chars m (file_contents (header_of p f)) =
      chars_at m (p + of_nat 110 + of_nat (length (f_name f) + length [nul]) + of_nat (pad_length (110 + length (f_name f) + 1))) (length (f_data f))"
    unfolding view_chars_def file_contents_def header_of_def view.simps header.simps unat_of_nat_64 [OF b(1)] by (simp add: header_size_def)
  with h show "view_chars m (file_contents (header_of p f)) = f_data f" by (simp add: holds_chars_def)
  show "is_file (header_of p f) = regular f" using regular_bit [OF f] by (simp add: is_file_def header_of_def)
qed

lemma sv_eq_name:
  assumes "key \<noteq> []" "nul \<notin> set key"
  shows "sv_eq (n @ [nul]) key \<longleftrightarrow> prefix key n"
proof (cases "length key \<le> length n")
  case True
  then have "sv_eq (n @ [nul]) key \<longleftrightarrow> take (length key) n = key" using assms(1) by (auto simp: sv_eq_iff min_def)
  then show ?thesis by (metis append_eq_conv_conj prefix_def take_is_prefix)
next
  case False
  then have "sv_eq (n @ [nul]) key \<longleftrightarrow> n @ [nul] = take (Suc (length n)) key" using assms(1) by (auto simp: sv_eq_iff min_def)
  with assms(2) have "\<not> sv_eq (n @ [nul]) key" by (metis in_set_conv_decomp in_set_takeD append.assoc)
  with False show ?thesis by (auto dest: prefix_length_le)
qed

text \<open>What a search for a name finds: the first regular file whose name starts with it.\<close>

definition found :: "cpio_file list \<Rightarrow> string \<Rightarrow> string option" where
  "found fs key = map_option f_data (find (\<lambda>f. regular f \<and> prefix key (f_name f)) fs)"

definition files_ok :: "cpio_file list \<Rightarrow> bool" where
  "files_ok fs \<longleftrightarrow> list_all (\<lambda>f. file_ok f \<and> \<not> prefix trailer (f_name f)) fs"

lemma trailer_key: "trailer \<noteq> []" "nul \<notin> set trailer"
  by (simp_all add: trailer_def nul_def)

text \<open>The first entry of an image, and where the rest of it is.\<close>

lemma image_entry:
  assumes "file_ok f" "holds_chars m p (file_image f @ rest)" "unat p + length (file_image f @ rest) < unat limit"
  shows "entry (get_entry m p limit) = Some (header_of p f)"
    and "holds_chars m (next_address (header_of p f)) rest"
    and "unat (next_address (header_of p f)) + length rest < unat limit"
    and "holds_chars m p (file_image f)"
proof -
  from assms(3) have n: "unat p + length (file_image f) < 2 ^ 64" using unsigned_less [of limit, where ?'a = nat] by simp
  note u = unat_plus_less [OF n]
  from u assms(3) have l: "p + of_nat (length (file_image f)) < limit" by (simp add: word_less_nat_alt)
  from assms(2) show h: "holds_chars m p (file_image f)" by (simp add: archive_holds_append)
  show "entry (get_entry m p limit) = Some (header_of p f)" by (rule get_entry_image [OF assms(1) h l n])
  show "holds_chars m (next_address (header_of p f)) rest" "unat (next_address (header_of p f)) + length rest < unat limit"
    using assms(2,3) u by (simp_all add: next_address_header [OF assms(1)] archive_holds_append)
qed

lemma lookup_loop_image:
  assumes "files_ok fs" "holds_chars m p (cpio_image fs)" "unat p + length (cpio_image fs) < unat limit" "key \<noteq> []" "nul \<notin> set key"
  shows "\<exists>r. lookup_loop m limit key (get_entry m p limit) = Some r \<and> map_option (view_chars m) r = found fs key"
  using assms
proof (induction fs arbitrary: p)
  case Nil
  then have "holds_chars m p (file_image trailer_file @ [])" "unat p + length (file_image trailer_file @ []) < unat limit"
    by (simp_all add: cpio_image_def)
  note e = image_entry [OF file_ok_trailer this]
  have "\<not> regular trailer_file" "f_name trailer_file = trailer" by (simp_all add: regular_def file_type_def trailer_file_def)
  then show ?case
    using e(1) views_image [OF file_ok_trailer e(4)]
    by (subst lookup_loop.simps) (simp add: found_def sv_eq_name [OF trailer_key])
next
  case (Cons f fs)
  then have f: "file_ok f" "\<not> prefix trailer (f_name f)" "files_ok fs" by (simp_all add: files_ok_def)
  from Cons.prems have "holds_chars m p (file_image f @ cpio_image fs)" "unat p + length (file_image f @ cpio_image fs) < unat limit"
    by (simp_all add: cpio_image_def)
  note e = image_entry [OF f(1) this]
  note v = views_image [OF f(1) e(4)]
  from Cons.IH [OF f(3) e(2,3) Cons.prems(4,5)] obtain r where
    r: "lookup_loop m limit key (next_entry m limit (header_of p f)) = Some r" "map_option (view_chars m) r = found fs key"
    by (auto simp: next_entry_def)
  show ?case
  proof (cases "regular f \<and> prefix key (f_name f)")
    case True
    then show ?thesis using e(1) v Cons.prems(4,5) by (subst lookup_loop.simps) (simp add: found_def sv_eq_name)
  next
    case False
    then show ?thesis
      using e(1) v r Cons.prems(4,5) f(2) by (subst lookup_loop.simps) (auto simp: found_def sv_eq_name sv_eq_name [OF trailer_key])
  qed
qed

lemma try_cpio_loop_image:
  assumes "files_ok fs" "holds_chars m p (cpio_image fs)" "unat p + length (cpio_image fs) < unat limit"
  shows "try_cpio_loop m base limit k (get_entry m p limit) = Some (Inl (k + length (filter regular fs)))"
  using assms
proof (induction fs arbitrary: p k)
  case Nil
  then have "holds_chars m p (file_image trailer_file @ [])" "unat p + length (file_image trailer_file @ []) < unat limit"
    by (simp_all add: cpio_image_def)
  note e = image_entry [OF file_ok_trailer this]
  have "\<not> regular trailer_file" "f_name trailer_file = trailer" by (simp_all add: regular_def file_type_def trailer_file_def)
  then show ?case
    using e(1) views_image [OF file_ok_trailer e(4)]
    by (subst try_cpio_loop.simps) (simp add: sv_eq_name [OF trailer_key])
next
  case (Cons f fs)
  then have f: "file_ok f" "\<not> prefix trailer (f_name f)" "files_ok fs" by (simp_all add: files_ok_def)
  from Cons.prems have "holds_chars m p (file_image f @ cpio_image fs)" "unat p + length (file_image f @ cpio_image fs) < unat limit"
    by (simp_all add: cpio_image_def)
  note e = image_entry [OF f(1) this]
  from views_image [OF f(1) e(4)] Cons.IH [OF f(3) e(2,3)] e(1) f(2) show ?case
    by (subst try_cpio_loop.simps) (simp add: Let_def next_entry_def sv_eq_name [OF trailer_key])
qed

section \<open>Properties\<close>

text \<open>Memory into which a string has been loaded.\<close>

definition loaded :: "addr \<Rightarrow> string \<Rightarrow> chars_memory" where
  "loaded base s = (\<lambda>a. let i = unat (a - base) in if i < length s then s ! i else nul)"

lemma holds_loaded: "length s < 2 ^ 64 \<Longrightarrow> holds_chars (loaded base s) base s"
  unfolding holds_chars_def chars_at_def loaded_def Let_def
  by (rule nth_equalityI) (auto simp: unat_of_nat take_bit_nat_eq_self)

text \<open>
  C33. Archives. For memory that holds an archive of well-formed files, among them no symbolic link
  and no socket, followed by at least one
  more byte, \<open>try_cpio\<close> accepts it and counts its regular files, and a search for a name returns
  exactly the contents of the first regular file whose name starts with the name searched for.
  The names of files include their terminating zero in the archive; that a search for the bare
  name succeeds at all is due to \<open>string_view\<close> comparing only up to the length of the shorter
  string, and so a search for a prefix of a name succeeds as well.
\<close>

theorem cpio_finds_files:
  assumes "files_ok fs" "holds_chars m base (cpio_image fs)" "length (cpio_image fs) < unat len" "unat base + unat len < 2 ^ 64"
    and "key \<noteq> []" "nul \<notin> set key"
  shows "\<exists>a r. try_cpio m base len = Some \<lparr>archive = Some a, error_message = [], header_offset = 0\<rparr> \<and>
    cpio_size a = length (filter regular fs) \<and> cpio_lookup m a key = Some r \<and> map_option (view_chars m) r = found fs key"
proof -
  have "unat (base + len) = unat base + unat len" using assms(4) unat_plus_less [of base "unat len"] by simp
  with assms(3) have l: "unat base + length (cpio_image fs) < unat (base + len)" by simp
  from try_cpio_loop_image [OF assms(1,2) l] lookup_loop_image [OF assms(1,2) l assms(5,6)] show ?thesis
    by (auto simp: try_cpio_def cpio_lookup_def)
qed

definition example_files :: "cpio_file list" where
  "example_files = [trailer_file\<lparr>f_name := ''boot.cfg'', f_mode := 0x81a4, f_data := ''a=b''\<rparr>,
                    trailer_file\<lparr>f_name := ''boot'', f_mode := 0x41ed\<rparr>,
                    trailer_file\<lparr>f_name := ''boot'', f_mode := 0x81a4, f_data := ''xyz''\<rparr>]"

theorem cpio_finds_files_witness:
  "\<exists>a r. try_cpio (loaded 0x1000 (cpio_image example_files)) 0x1000 1024 = Some \<lparr>archive = Some a, error_message = [], header_offset = 0\<rparr> \<and>
    cpio_size a = 2 \<and> cpio_lookup (loaded 0x1000 (cpio_image example_files)) a ''boot'' = Some r \<and>
    map_option (view_chars (loaded 0x1000 (cpio_image example_files))) r = Some ''a=b''"
proof -
  have "files_ok example_files" by (simp add: files_ok_def file_ok_def example_files_def trailer_file_def trailer_def nul_def file_type_def file_types_def)
  moreover have l: "length (cpio_image example_files) < unat (1024 :: u64)"
    by (simp add: cpio_image_def file_image_def file_header_def example_files_def trailer_file_def trailer_def pad_length_def)
  moreover have "holds_chars (loaded 0x1000 (cpio_image example_files)) 0x1000 (cpio_image example_files)"
    using l by (intro holds_loaded) simp
  moreover have "length (filter regular example_files) = 2" "found example_files ''boot'' = Some ''a=b''"
    by (simp_all add: example_files_def regular_def file_type_def trailer_file_def found_def)
  moreover have "nul \<notin> set ''boot''" by code_simp
  ultimately show ?thesis
    using cpio_finds_files [of example_files "loaded 0x1000 (cpio_image example_files)" "0x1000" 1024 "''boot''"] by simp
qed

text \<open>A symbolic link, which is not a regular file, counts as one and is returned with the path it has as its contents.\<close>

lemma link_taken_for_file:
  "is_file (header_of p f) \<and> \<not> regular f" if "f_mode f = 0xa1ff"
  using that by (simp add: is_file_def regular_def file_type_def header_of_def)

text \<open>
  C34. Any contents. Whatever the memory between the base and the limit of an archive contains,
  opening it and searching it end, and a string view that a search returns lies between the two
  addresses. The archive must not reach into the last 16 GiB of the address space, where the
  arithmetic on addresses could wrap around.
\<close>

theorem cpio_stays_inside:
  assumes "cpio_base a \<le> cpio_limit a" "below_top (cpio_limit a)"
  shows "(\<exists>t. try_cpio m (cpio_base a) (cpio_limit a - cpio_base a) = Some t) \<and>
    (\<exists>r. cpio_lookup m a key = Some r \<and>
       (\<forall>v. r = Some v \<longrightarrow> unat (cpio_base a) < unat (view_data v) \<and> unat (view_data v) + unat (view_size v) < unat (cpio_limit a)))"
  using lookup_loop_inside [OF assms] try_cpio_loop_returns [OF assms] by (auto simp: try_cpio_def cpio_lookup_def)

theorem cpio_stays_inside_witness:
  "(\<exists>t. try_cpio (\<lambda>_. CHR ''0'') 0x1000 0x1000 = Some t) \<and>
    (\<exists>r. cpio_lookup (\<lambda>_. CHR ''0'') \<lparr>cpio_size = 0, cpio_base = 0x1000, cpio_limit = 0x2000\<rparr> ''x'' = Some r \<and>
       (\<forall>v. r = Some v \<longrightarrow> 0x1000 < unat (view_data v) \<and> unat (view_data v) + unat (view_size v) < 0x2000))"
  using cpio_stays_inside [of "\<lparr>cpio_size = 0, cpio_base = 0x1000, cpio_limit = 0x2000\<rparr>" "\<lambda>_. CHR ''0''" "''x''"]
  by (simp add: below_top_def)

end
