(* ===== verification/Rosestd_Memory.thy ===== *)
theory Rosestd_Memory
  imports Kernel_Prelude
begin

text \<open>
  The memory functions of the runtime library (\<open>libraries/rosestd/src/cstring.cpp\<close>) over a memory of
  bytes. \<open>memcpy\<close> copies in units of one, two, four or eight bytes, whichever divides both
  addresses and the length; a unit is loaded as a whole before it is stored. The reference is the
  copy of single bytes.
\<close>

section \<open>Loads and stores\<close>

type_synonym u8 = "8 word"
type_synonym bytes = "addr \<Rightarrow> u8"

definition load_bytes :: "bytes \<Rightarrow> addr \<Rightarrow> nat \<Rightarrow> u8 list" where
  "load_bytes m p n = map (\<lambda>i. m (p + of_nat i)) [0 ..< n]"

definition store_bytes :: "addr \<Rightarrow> u8 list \<Rightarrow> bytes \<Rightarrow> bytes" where
  "store_bytes p bs m = (\<lambda>a. if unat (a - p) < length bs then bs ! unat (a - p) else m a)"

section \<open>Copying\<close>

fun memcpy_loop :: "nat \<Rightarrow> nat \<Rightarrow> addr \<Rightarrow> addr \<Rightarrow> bytes \<Rightarrow> bytes" where
  "memcpy_loop w 0 s1 s2 m = m"
| "memcpy_loop w (Suc n) s1 s2 m =
     memcpy_loop w n (s1 + of_nat w) (s2 + of_nat w) (store_bytes s1 (load_bytes m s2 w) m)"

definition memcpy_repr :: "nat \<Rightarrow> addr \<Rightarrow> addr \<Rightarrow> u64 \<Rightarrow> bytes \<Rightarrow> addr \<times> bytes" where
  "memcpy_repr w s1 s2 n m = (s1, memcpy_loop w (unat n div w) s1 s2 m)"

text \<open>\<open>__builtin_ffsll\<close>: one more than the number of the lowest bit that is set, or zero.\<close>

definition ffsll :: "u64 \<Rightarrow> nat" where
  "ffsll x = (if x = 0 then 0 else length (takeWhile (\<lambda>i. \<not> bit x i) [0 ..< 64]) + 1)"

definition memcpy :: "addr \<Rightarrow> addr \<Rightarrow> u64 \<Rightarrow> bytes \<Rightarrow> addr \<times> bytes" where
  "memcpy s1 s2 n m =
     (let common = s1 OR s2 OR n;
          ffs = ffsll common
      in if ffs = 1 then memcpy_repr 1 s1 s2 n m
         else if ffs = 2 then memcpy_repr 2 s1 s2 n m
         else if ffs = 3 then memcpy_repr 4 s1 s2 n m
         else memcpy_repr 8 s1 s2 n m)"

section \<open>The other functions\<close>

fun memcmp_loop :: "bytes \<Rightarrow> addr \<Rightarrow> addr \<Rightarrow> nat \<Rightarrow> int" where
  "memcmp_loop m s1 s2 0 = 0"
| "memcmp_loop m s1 s2 (Suc n) =
     (if m s1 \<noteq> m s2 then uint (m s1) - uint (m s2) else memcmp_loop m (s1 + 1) (s2 + 1) n)"

definition memcmp :: "bytes \<Rightarrow> addr \<Rightarrow> addr \<Rightarrow> u64 \<Rightarrow> int" where
  "memcmp m s1 s2 n = memcmp_loop m s1 s2 (unat n)"

definition memchr :: "bytes \<Rightarrow> addr \<Rightarrow> int \<Rightarrow> u64 \<Rightarrow> addr" where
  "memchr m s c n =
     (case filter (\<lambda>i. m (s + of_nat i) = word_of_int c) [0 ..< unat n] of
        [] \<Rightarrow> nullptr
      | i # _ \<Rightarrow> s + of_nat i)"

fun memset_loop :: "u8 \<Rightarrow> addr \<Rightarrow> nat \<Rightarrow> bytes \<Rightarrow> bytes" where
  "memset_loop c s 0 m = m"
| "memset_loop c s (Suc n) m = memset_loop c (s + 1) n (m(s := c))"

definition memset :: "addr \<Rightarrow> int \<Rightarrow> u64 \<Rightarrow> bytes \<Rightarrow> addr \<times> bytes" where
  "memset s c n m = (s, memset_loop (word_of_int c) s (unat n) m)"

text \<open>The pointer is advanced also past the terminating zero. Without one the loop does not end.\<close>

partial_function (option) strlen_loop :: "bytes \<Rightarrow> addr \<Rightarrow> addr option" where
  "strlen_loop m s = (if m s \<noteq> 0 then strlen_loop m (s + 1) else Some (s + 1))"

definition strlen :: "bytes \<Rightarrow> addr \<Rightarrow> u64 option" where
  "strlen m start = map_option (\<lambda>s. s - start) (strlen_loop m start)"

partial_function (option) traits_length_loop :: "bytes \<Rightarrow> addr \<Rightarrow> u64 \<Rightarrow> u64 option" where
  "traits_length_loop m s r = (if m s \<noteq> 0 then traits_length_loop m (s + 1) (r + 1) else Some r)"

definition traits_length :: "bytes \<Rightarrow> addr \<Rightarrow> u64 option" where
  "traits_length m s = traits_length_loop m s 0"

section \<open>Copying in units is copying bytes\<close>

definition copied :: "addr \<Rightarrow> addr \<Rightarrow> nat \<Rightarrow> bytes \<Rightarrow> bytes" where
  "copied s1 s2 n m = (\<lambda>a. if unat (a - s1) < n then m (s2 + (a - s1)) else m a)"

definition apart :: "addr \<Rightarrow> addr \<Rightarrow> nat \<Rightarrow> bool" where
  "apart s1 s2 n \<longleftrightarrow> (\<forall>i < n. \<forall>j < n. s1 + of_nat i \<noteq> s2 + of_nat j)"

lemma store_load: "store_bytes s1 (load_bytes m s2 w) m = copied s1 s2 w m"
  by (rule ext) (simp add: store_bytes_def load_bytes_def copied_def)

lemma apartD: "apart s1 s2 n \<Longrightarrow> i < n \<Longrightarrow> j < n \<Longrightarrow> s1 + of_nat i \<noteq> s2 + of_nat j"
  by (simp add: apart_def)

lemma unat_diff_shift:
  assumes "w + n \<le> 2 ^ 64"
  shows "unat (a - (s + of_nat w) :: u64) < n \<longleftrightarrow> w \<le> unat (a - s) \<and> unat (a - s) < w + n"
proof (cases "n = 0")
  case False
  with assms have w: "unat (of_nat w :: u64) = w" by (intro unat_of_nat_64) simp
  have e: "a - (s + of_nat w) = (a - s) - of_nat w" by simp
  show ?thesis
  proof (cases "w \<le> unat (a - s)")
    case True
    then have "unat ((a - s) - of_nat w) = unat (a - s) - w" using w by (simp add: unat_sub word_le_nat_alt)
    with True show ?thesis unfolding e by linarith
  next
    case False
    then have "unat ((a - s) - of_nat w) = unat (a - s) + 2 ^ 64 - w" using w by (simp add: unat_sub_if')
    with False assms show ?thesis unfolding e by linarith
  qed
qed simp

lemma memcpy_loop_copied:
  assumes "apart s1 s2 (k * w)" "k * w \<le> 2 ^ 64"
  shows "memcpy_loop w k s1 s2 m = copied s1 s2 (k * w) m"
  using assms
proof (induction k arbitrary: s1 s2 m)
  case (Suc k)
  let ?s1 = "s1 + of_nat w" and ?s2 = "s2 + of_nat w"
  have "apart ?s1 ?s2 (k * w)" unfolding apart_def
  proof (intro allI impI)
    fix i j
    assume "i < k * w" "j < k * w"
    with apartD [OF Suc.prems(1), of "w + i" "w + j"] show "?s1 + of_nat i \<noteq> ?s2 + of_nat j" by (simp add: add.assoc)
  qed
  with Suc have IH: "memcpy_loop w (Suc k) s1 s2 m = copied ?s1 ?s2 (k * w) (copied s1 s2 w m)" by (simp add: store_load)
  show ?case unfolding IH
  proof (rule ext)
    fix a
    have s: "unat (a - ?s1) < k * w \<longleftrightarrow> w \<le> unat (a - s1) \<and> unat (a - s1) < w + k * w"
      using Suc.prems(2) by (intro unat_diff_shift) simp
    have x: "copied s1 s2 w m (s2 + (a - s1)) = m (s2 + (a - s1))" if "unat (a - s1) < w + k * w"
    proof -
      have "\<not> unat (s2 + (a - s1) - s1) < w"
      proof
        assume "unat (s2 + (a - s1) - s1) < w"
        with apartD [OF Suc.prems(1), of "unat (s2 + (a - s1) - s1)" "unat (a - s1)"] that show False by simp
      qed
      then show ?thesis by (simp add: copied_def)
    qed
    show "copied ?s1 ?s2 (k * w) (copied s1 s2 w m) a = copied s1 s2 (Suc k * w) m a"
    proof -
      have e: "?s2 + (a - ?s1) = s2 + (a - s1)" by simp
      have "copied ?s1 ?s2 (k * w) (copied s1 s2 w m) a =
          (if unat (a - ?s1) < k * w then copied s1 s2 w m (s2 + (a - s1)) else copied s1 s2 w m a)"
        unfolding copied_def [of ?s1] e ..
      also have "\<dots> = (if unat (a - s1) < w + k * w then m (s2 + (a - s1)) else m a)"
        using s x by (auto simp: copied_def [of s1 s2 w m, THEN fun_cong])
      finally show ?thesis by (simp add: copied_def)
    qed
  qed
qed (simp add: copied_def)

lemma ffsll_low_bits:
  assumes "x \<noteq> 0" "i + 1 < ffsll x"
  shows "\<not> bit x i"
proof -
  let ?l = "takeWhile (\<lambda>i. \<not> bit x i) [0 ..< 64]"
  from assms have i: "i < length ?l" by (simp add: ffsll_def)
  then have "?l ! i = i" by (metis takeWhile_nth length_takeWhile_le length_upt nth_upt add_0 diff_zero less_le_trans)
  with i show ?thesis by (metis nth_mem set_takeWhileD)
qed

lemma unit_divides:
  assumes "x OR n \<noteq> 0 \<Longrightarrow> k + 1 \<le> ffsll (x OR n)"
  shows "2 ^ k dvd unat n"
proof (cases "x OR n = 0")
  case True
  then have "n = 0" by (simp add: or_eq_0_iff)
  then show ?thesis by simp
next
  case False
  have "take_bit k n = 0"
  proof (rule bit_eqI)
    fix i
    show "bit (take_bit k n) i = bit 0 i"
      using ffsll_low_bits [OF False, of i] assms [OF False] by (auto simp: bit_simps)
  qed
  then have "unat n mod 2 ^ k = 0" by (metis take_bit_eq_mod unsigned_0 unsigned_take_bit_eq)
  then show ?thesis by presburger
qed

lemma memcpy_repr_copied:
  assumes "w dvd unat n" "apart s1 s2 (unat n)"
  shows "memcpy_repr w s1 s2 n m = (s1, copied s1 s2 (unat n) m)"
proof -
  have "unat n div w * w = unat n" using assms(1) by simp
  moreover have "unat n \<le> 2 ^ 64" using unsigned_less [of n, where ?'a = nat] by simp
  ultimately show ?thesis using memcpy_loop_copied [of s1 s2 "unat n div w" w m] assms(2) by (simp add: memcpy_repr_def)
qed

lemma strlen_loop_zero:
  assumes "\<And>i. i < n \<Longrightarrow> m (s + of_nat i) \<noteq> 0" "m (s + of_nat n) = 0"
  shows "strlen_loop m s = Some (s + of_nat n + 1) \<and> traits_length_loop m s r = Some (r + of_nat n)"
  using assms
proof (induction n arbitrary: s r)
  case 0
  then show ?case by (simp add: strlen_loop.simps traits_length_loop.simps)
next
  case (Suc n)
  have "m (s + 1 + of_nat i) \<noteq> 0" if "i < n" for i using Suc.prems(1) [of "Suc i"] that by (simp add: algebra_simps)
  moreover have "m (s + 1 + of_nat n) = 0" using Suc.prems(2) by (simp add: algebra_simps)
  ultimately have "strlen_loop m (s + 1) = Some (s + 1 + of_nat n + 1) \<and> traits_length_loop m (s + 1) (r + 1) = Some (r + 1 + of_nat n)"
    by (intro Suc.IH) auto
  moreover have "m s \<noteq> 0" using Suc.prems(1) [of 0] by simp
  ultimately show ?case
    by (subst strlen_loop.simps, subst traits_length_loop.simps) (simp add: algebra_simps)
qed

section \<open>Properties\<close>

text \<open>
  \<open>memcpy\<close>. For two ranges that do not overlap, the copy in units of the size that divides both
  addresses and the length has exactly the effect of copying every byte: the destination range is
  a copy of the source range, all other memory is as it was, and the destination is returned.
\<close>

lemma memcpy_copies:
  assumes "apart s1 s2 (unat n)"
  shows "memcpy s1 s2 n m = (s1, copied s1 s2 (unat n) m)"
proof -
  let ?x = "s1 OR s2"
  have d: "2 ^ k dvd unat n" if "?x OR n \<noteq> 0 \<Longrightarrow> k + 1 \<le> ffsll (?x OR n)" for k
    using that by (rule unit_divides)
  consider "ffsll (?x OR n) = 1" | "ffsll (?x OR n) = 2" | "ffsll (?x OR n) = 3" | "4 \<le> ffsll (?x OR n) \<or> ?x OR n = 0"
  proof -
    have "?x OR n = 0 \<or> 1 \<le> ffsll (?x OR n)" by (auto simp: ffsll_def)
    then show thesis using that by linarith
  qed
  then show ?thesis
  proof cases
    case 1
    then show ?thesis using memcpy_repr_copied [OF _ assms, of 1] by (simp add: memcpy_def or.assoc)
  next
    case 2
    then show ?thesis using memcpy_repr_copied [OF _ assms, of 2] d [of 1] by (simp add: memcpy_def or.assoc)
  next
    case 3
    then show ?thesis using memcpy_repr_copied [OF _ assms, of 4] d [of 2] by (simp add: memcpy_def or.assoc)
  next
    case 4
    then have "8 dvd unat n" using d [of 3] by auto
    moreover from 4 have "ffsll (?x OR n) \<notin> {1, 2, 3}" by (auto simp: ffsll_def)
    ultimately show ?thesis using memcpy_repr_copied [OF _ assms, of 8] by (auto simp: memcpy_def or.assoc Let_def)
  qed
qed

lemma apart_example: "apart 0x1000 0x2000 12"
proof -
  have "\<forall>i \<in> set [0 ..< 12]. \<forall>j \<in> set [0 ..< 12]. (0x1000 + of_nat i :: u64) \<noteq> 0x2000 + of_nat j" by code_simp
  then show ?thesis by (simp add: apart_def)
qed

lemma memcpy_copies_example:
  "memcpy 0x1000 0x2000 12 (\<lambda>a. ucast a) = (0x1000, copied 0x1000 0x2000 12 (\<lambda>a. ucast a))"
  using memcpy_copies [of "0x1000" "0x2000" 12] apart_example by simp

text \<open>
  \<open>strlen\<close> counts the terminating zero: for a string of \<open>n\<close> characters it returns \<open>n + 1\<close>, where
  \<open>char_traits::length\<close> returns \<open>n\<close>.
\<close>

lemma strlen_counts_zero:
  assumes "\<And>i. i < n \<Longrightarrow> m (s + of_nat i) \<noteq> 0" "m (s + of_nat n) = 0"
  shows "strlen m s = Some (of_nat n + 1)" "traits_length m s = Some (of_nat n)"
  using strlen_loop_zero [of n m s 0] assms by (simp_all add: strlen_def traits_length_def algebra_simps)

end
