(* ===== verification/Elf.thy ===== *)
theory Elf
  imports Rosestd_Memory
begin

text \<open>
  The ELF library (\<open>libraries/elf\<close>): the file format of executables and shared objects
  (\<open>include/elf/types.h\<close>), the views of an image (\<open>include/elf/elf.h\<close>), the parser and the
  relocations (\<open>src/elf.cpp\<close>). An image is a range of memory; the structures are read from it at the
  offsets that the ABI gives to the members, multi-byte values with the low byte first. Arithmetic is
  that of the code: sizes and addresses wrap around at 64 bits, and the product of two 16-bit values
  is a 32-bit integer that is extended with its sign.
\<close>

section \<open>Words in memory\<close>

type_synonym u16 = "16 word"
type_synonym u32 = "32 word"

definition read16 :: "bytes \<Rightarrow> addr \<Rightarrow> u16" where
  "read16 m p = ucast (m p) OR push_bit 8 (ucast (m (p + 1)))"

definition read32 :: "bytes \<Rightarrow> addr \<Rightarrow> u32" where
  "read32 m p = ucast (read16 m p) OR push_bit 16 (ucast (read16 m (p + 2)))"

definition read64 :: "bytes \<Rightarrow> addr \<Rightarrow> u64" where
  "read64 m p = ucast (read32 m p) OR push_bit 32 (ucast (read32 m (p + 4)))"

definition bytes64 :: "u64 \<Rightarrow> u8 list" where
  "bytes64 v = map (\<lambda>i. ucast (drop_bit (8 * i) v)) [0 ..< 8]"

definition write64 :: "addr \<Rightarrow> u64 \<Rightarrow> bytes \<Rightarrow> bytes" where
  "write64 p v m = store_bytes p (bytes64 v) m"

section \<open>The file format\<close>

datatype os_abi =
    Sysv | Hpux | Netbsd | Linux | Hurd | Solaris | Aix | Irix | Freebsd | Tru64 | Novell_modesto | Openbsd | Openvms | Standalone

definition os_abis :: "(u8 \<times> os_abi) list" where
  "os_abis = [(0, Sysv), (1, Hpux), (2, Netbsd), (3, Linux), (4, Hurd), (6, Solaris), (7, Aix), (8, Irix), (9, Freebsd),
     (0xa, Tru64), (0xb, Novell_modesto), (0xc, Openbsd), (0xd, Openvms), (255, Standalone)]"

definition class_64 :: u8 where "class_64 = 2"
definition data_lsb :: u8 where "data_lsb = 1"

datatype header_type = None_type | Relocatable | Executable | Shared_object | Core_file

definition header_types :: "(u16 \<times> header_type) list" where
  "header_types = [(0, None_type), (1, Relocatable), (2, Executable), (3, Shared_object), (4, Core_file)]"

definition machine_amd64 :: u16 where "machine_amd64 = 0x3e"

record elf_header =
  eh_ident :: "u8 list"
  eh_type :: u16
  eh_machine :: u16
  eh_version :: u32
  eh_entry :: addr
  eh_phoff :: u64
  eh_shoff :: u64
  eh_flags :: u32
  eh_ehsize :: u16
  eh_phentsize :: u16
  eh_phnum :: u16
  eh_shentsize :: u16
  eh_shnum :: u16
  eh_shstrndx :: u16

definition elf_header_at :: "bytes \<Rightarrow> addr \<Rightarrow> elf_header" where
  "elf_header_at m p =
     \<lparr>eh_ident = load_bytes m p 16, eh_type = read16 m (p + 16), eh_machine = read16 m (p + 18), eh_version = read32 m (p + 20),
      eh_entry = read64 m (p + 24), eh_phoff = read64 m (p + 32), eh_shoff = read64 m (p + 40), eh_flags = read32 m (p + 48),
      eh_ehsize = read16 m (p + 52), eh_phentsize = read16 m (p + 54), eh_phnum = read16 m (p + 56), eh_shentsize = read16 m (p + 58),
      eh_shnum = read16 m (p + 60), eh_shstrndx = read16 m (p + 62)\<rparr>"

datatype section_type =
    Null_section | Progbits | Symtab_section | Strtab_section | Rela_section | Hash_section | Dynamic_section | Note_section
  | Nobits | Rel_section | Shlib_section | Dynsym | Init_array_section | Fini_array_section | Preinit_array_section
  | Gnu_hash_section | Amd64_unwind

definition section_types :: "(u32 \<times> section_type) list" where
  "section_types = [(0, Null_section), (1, Progbits), (2, Symtab_section), (3, Strtab_section), (4, Rela_section), (5, Hash_section),
     (6, Dynamic_section), (7, Note_section), (8, Nobits), (9, Rel_section), (10, Shlib_section), (11, Dynsym),
     (14, Init_array_section), (15, Fini_array_section), (16, Preinit_array_section), (0x6ffffff6, Gnu_hash_section),
     (0x70000001, Amd64_unwind)]"

record section_header =
  sh_name :: u32
  sh_type :: u32
  sh_flags :: u64
  sh_addr :: addr
  sh_offset :: u64
  sh_size :: u64
  sh_link :: u32
  sh_info :: u32
  sh_addralign :: u64
  sh_entsize :: u64

definition section_at :: "bytes \<Rightarrow> addr \<Rightarrow> section_header" where
  "section_at m p =
     \<lparr>sh_name = read32 m p, sh_type = read32 m (p + 4), sh_flags = read64 m (p + 8), sh_addr = read64 m (p + 16),
      sh_offset = read64 m (p + 24), sh_size = read64 m (p + 32), sh_link = read32 m (p + 40), sh_info = read32 m (p + 44),
      sh_addralign = read64 m (p + 48), sh_entsize = read64 m (p + 56)\<rparr>"

record elf_symbol =
  st_name :: u32
  st_info :: u8
  st_other :: u8
  st_shndx :: u16
  st_value :: addr
  st_size :: u64

definition symbol_size :: u64 where "symbol_size = 24"

definition symbol_at :: "bytes \<Rightarrow> addr \<Rightarrow> elf_symbol" where
  "symbol_at m p =
     \<lparr>st_name = read32 m p, st_info = m (p + 4), st_other = m (p + 5), st_shndx = read16 m (p + 6), st_value = read64 m (p + 8),
      st_size = read64 m (p + 16)\<rparr>"

record rel =
  r_offset :: addr
  r_info :: u64

record rela = rel +
  r_addend :: u64

definition rel_size :: u64 where "rel_size = 16"
definition rela_size :: u64 where "rela_size = 24"

definition rel_at :: "bytes \<Rightarrow> addr \<Rightarrow> rel" where
  "rel_at m p = \<lparr>r_offset = read64 m p, r_info = read64 m (p + 8)\<rparr>"

definition rela_at :: "bytes \<Rightarrow> addr \<Rightarrow> rela" where
  "rela_at m p = \<lparr>r_offset = read64 m p, r_info = read64 m (p + 8), r_addend = read64 m (p + 16)\<rparr>"

definition rsym :: "u64 \<Rightarrow> u64" where
  "rsym info = drop_bit 32 info"

definition rtype :: "u64 \<Rightarrow> u64" where
  "rtype info = info AND 0xffffffff"

definition rinfo :: "u64 \<Rightarrow> u64 \<Rightarrow> u64" where
  "rinfo symbol_index ty = push_bit 32 symbol_index + (ty AND 0xfffffffff)"

datatype segment_type =
    Null_segment | Load_segment | Dynamic_segment | Interp_segment | Note_segment | Shlib_segment | Phdr_segment
  | Gnu_eh_frame | Gnu_stack | Gnu_relro

definition segment_types :: "(u32 \<times> segment_type) list" where
  "segment_types = [(0, Null_segment), (1, Load_segment), (2, Dynamic_segment), (3, Interp_segment), (4, Note_segment),
     (5, Shlib_segment), (6, Phdr_segment), (0x6474e550, Gnu_eh_frame), (0x6474e551, Gnu_stack), (0x6474e552, Gnu_relro)]"

record program_header =
  p_type :: u32
  p_flags :: u32
  p_offset :: u64
  p_vaddr :: addr
  p_paddr :: addr
  p_filesz :: u64
  p_memsz :: u64
  p_align :: u64

definition program_header_at :: "bytes \<Rightarrow> addr \<Rightarrow> program_header" where
  "program_header_at m p =
     \<lparr>p_type = read32 m p, p_flags = read32 m (p + 4), p_offset = read64 m (p + 8), p_vaddr = read64 m (p + 16),
      p_paddr = read64 m (p + 24), p_filesz = read64 m (p + 32), p_memsz = read64 m (p + 40), p_align = read64 m (p + 48)\<rparr>"

datatype dynamic_tag =
    Null_tag | Needed | Pltrel_size | Pltgot | Hash_tag | Strtab | Symtab | Rela | Rela_size | Rela_entry_size | Str_size
  | Sym_entry_size | Init | Fini | Soname | Rpath | Symbolic | Rel | Rel_size | Rel_entry_size | Pltrel | Debug | Textrel | Jmprel
  | Bind_now | Init_array | Fini_array | Init_array_size | Fini_array_size | Runpath | Flags | Encoding | Preinit_array
  | Preinit_array_size | Gnu_hash | Rela_count | Flags_1

definition dynamic_tags :: "(u64 \<times> dynamic_tag) list" where
  "dynamic_tags =
     zip (map of_nat [0 ..< 34])
       [Null_tag, Needed, Pltrel_size, Pltgot, Hash_tag, Strtab, Symtab, Rela, Rela_size, Rela_entry_size, Str_size, Sym_entry_size,
        Init, Fini, Soname, Rpath, Symbolic, Rel, Rel_size, Rel_entry_size, Pltrel, Debug, Textrel, Jmprel, Bind_now, Init_array,
        Fini_array, Init_array_size, Fini_array_size, Runpath, Flags, Encoding, Preinit_array, Preinit_array_size] @
     [(0x6ffffef5, Gnu_hash), (0x6ffffff9, Rela_count), (0x6ffffffb, Flags_1)]"

record dynamic_entry =
  d_tag :: u64
  d_val :: u64

definition dynamic_entry_size :: u64 where "dynamic_entry_size = 16"

definition dynamic_entry_at :: "bytes \<Rightarrow> addr \<Rightarrow> dynamic_entry" where
  "dynamic_entry_at m p = \<lparr>d_tag = read64 m p, d_val = read64 m (p + 8)\<rparr>"

text \<open>The hash function of symbol names, over the characters before the terminating zero.\<close>

definition hash_step :: "u8 \<Rightarrow> u64 \<Rightarrow> u64" where
  "hash_step c h =
     (let h = push_bit 4 h + ucast c;
          g = h AND 0xf0000000;
          h = (if g \<noteq> 0 then h XOR drop_bit 24 g else h)
      in h AND 0x0fffffff)"

definition elf_hash :: "u8 list \<Rightarrow> u64" where
  "elf_hash name = fold hash_step (takeWhile (\<lambda>c. c \<noteq> 0) name) 0"

section \<open>Images\<close>

datatype relocation_ptr = Rel_ptr addr | Rela_ptr addr

record function_table_descriptor =
  fd_offset :: u64
  fd_byte_size :: u64

record elf_image =
  img_header :: addr
  img_dynamic_base :: addr
  img_dynamic_count :: u64
  img_strtab :: addr
  img_relocations :: relocation_ptr
  img_relocations_count :: u64
  img_symtab :: addr
  img_symtab_size :: u64
  img_preinit :: "function_table_descriptor option"
  img_init :: "function_table_descriptor option"
  img_fini :: "function_table_descriptor option"

definition new_image :: "addr \<Rightarrow> elf_image" where
  "new_image header =
     \<lparr>img_header = header, img_dynamic_base = nullptr, img_dynamic_count = 0, img_strtab = nullptr, img_relocations = Rel_ptr nullptr,
      img_relocations_count = 0, img_symtab = nullptr, img_symtab_size = 0, img_preinit = None, img_init = None, img_fini = None\<rparr>"

text \<open>The ranges over the tables of an image: the address of the table, the size of an entry, and the indices.\<close>

record table =
  tab_base :: addr
  tab_entry_size :: u64
  tab_begin :: u64
  tab_end :: u64

definition entry_at :: "table \<Rightarrow> u64 \<Rightarrow> addr" where
  "entry_at t i = tab_base t + i * tab_entry_size t"

definition sections :: "bytes \<Rightarrow> elf_image \<Rightarrow> table" where
  "sections m img =
     (let h = elf_header_at m (img_header img)
      in \<lparr>tab_base = img_header img + eh_shoff h, tab_entry_size = ucast (eh_shentsize h), tab_begin = 1, tab_end = ucast (eh_shnum h)\<rparr>)"

definition program_headers :: "bytes \<Rightarrow> elf_image \<Rightarrow> table" where
  "program_headers m img =
     (let h = elf_header_at m (img_header img)
      in \<lparr>tab_base = img_header img + eh_phoff h, tab_entry_size = ucast (eh_phentsize h), tab_begin = 0, tab_end = ucast (eh_phnum h)\<rparr>)"

definition dynamic_entries :: "elf_image \<Rightarrow> table" where
  "dynamic_entries img =
     \<lparr>tab_base = img_dynamic_base img, tab_entry_size = dynamic_entry_size, tab_begin = 0, tab_end = img_dynamic_count img\<rparr>"

definition symbols_table :: "elf_image \<Rightarrow> table" where
  "symbols_table img =
     \<lparr>tab_base = img_symtab img, tab_entry_size = symbol_size, tab_begin = 1, tab_end = img_symtab_size img\<rparr>"

definition relocations_table :: "elf_image \<Rightarrow> table" where
  "relocations_table img =
     (case img_relocations img of
        Rel_ptr p \<Rightarrow> \<lparr>tab_base = p, tab_entry_size = rel_size, tab_begin = 0, tab_end = img_relocations_count img\<rparr>
      | Rela_ptr p \<Rightarrow> \<lparr>tab_base = p, tab_entry_size = rela_size, tab_begin = 0, tab_end = img_relocations_count img\<rparr>)"

definition get_os_abi_description :: "bytes \<Rightarrow> elf_image \<Rightarrow> string" where
  "get_os_abi_description m img =
     (case map_of os_abis (eh_ident (elf_header_at m (img_header img)) ! 7) of
        Some Sysv \<Rightarrow> ''System V'' | Some Hpux \<Rightarrow> ''HP-UX'' | Some Netbsd \<Rightarrow> ''NetBSD'' | Some Linux \<Rightarrow> ''Linux''
      | Some Hurd \<Rightarrow> ''Hurd'' | Some Solaris \<Rightarrow> ''Solaris'' | Some Aix \<Rightarrow> ''AIX'' | Some Irix \<Rightarrow> ''IRIX''
      | Some Freebsd \<Rightarrow> ''FreeBSD'' | Some Tru64 \<Rightarrow> ''Tru64'' | Some Novell_modesto \<Rightarrow> ''Novell Modesto''
      | Some Openbsd \<Rightarrow> ''OpenBSD'' | Some Openvms \<Rightarrow> ''OpenVMS'' | Some Standalone \<Rightarrow> ''standalone''
      | None \<Rightarrow> ''<unknown>'')"

definition get_type_description :: "bytes \<Rightarrow> elf_image \<Rightarrow> string" where
  "get_type_description m img =
     (case map_of header_types (eh_type (elf_header_at m (img_header img))) of
        Some None_type \<Rightarrow> ''none'' | Some Relocatable \<Rightarrow> ''relocatable file'' | Some Executable \<Rightarrow> ''executable file''
      | Some Shared_object \<Rightarrow> ''shared object''
      | _ \<Rightarrow> ''<unknown>'')"

definition get_abi_version :: "bytes \<Rightarrow> elf_image \<Rightarrow> int" where
  "get_abi_version m img = uint (eh_ident (elf_header_at m (img_header img)) ! 8)"

definition get_entry_point :: "bytes \<Rightarrow> elf_image \<Rightarrow> addr" where
  "get_entry_point m img = eh_entry (elf_header_at m (img_header img))"

section \<open>Parsing\<close>

type_synonym parse_error = "string \<times> u64"

text \<open>The checks of the header.\<close>

definition table_bytes :: "u16 \<Rightarrow> u16 \<Rightarrow> u64" where
  "table_bytes entry_size entries = scast (ucast entry_size * ucast entries :: u32)"

definition check_header :: "elf_header \<Rightarrow> u64 \<Rightarrow> parse_error option" where
  "check_header h len =
     (if take 4 (eh_ident h) \<noteq> [0x7f, 0x45, 0x4c, 0x46] then Some (''image does not have a valid header magic number'', 0)
      else if eh_ident h ! 4 \<noteq> class_64 then Some (''only Elf64 files are supported'', 0)
      else if eh_ident h ! 5 \<noteq> data_lsb then Some (''only little-endian files are supported'', 0)
      else if map_of header_types (eh_type h) \<noteq> Some Executable \<and> map_of header_types (eh_type h) \<noteq> Some Shared_object then
        Some (''only executable files and shared objects are supported'', 0)
      else if eh_machine h \<noteq> machine_amd64 then Some (''only AMD64 files are supported'', 0)
      else if eh_version h \<noteq> 1 then Some (''only version 1 ELF files are supported'', 0)
      else if eh_phoff h + table_bytes (eh_phentsize h) (eh_phnum h) > len then
        Some (''the program header table extends beyond the image limit'', 0)
      else if eh_shoff h + table_bytes (eh_shentsize h) (eh_shnum h) > len then
        Some (''the section header table extends beyond the image limit'', 0)
      else None)"

text \<open>The loop over the program headers, which looks for the dynamic segment.\<close>

fun scan_segments :: "program_header list \<Rightarrow> program_header option \<Rightarrow> parse_error + program_header option" where
  "scan_segments [] dynamic = Inr dynamic"
| "scan_segments (ph # phs) dynamic =
     (case map_of segment_types (p_type ph) of
        Some Load_segment \<Rightarrow> scan_segments phs dynamic
      | Some Dynamic_segment \<Rightarrow>
          if dynamic = None then scan_segments phs (Some ph)
          else Inl (''found more than one DYNAMIC segment'', p_offset ph)
      | Some Note_segment \<Rightarrow> scan_segments phs dynamic
      | Some Phdr_segment \<Rightarrow> scan_segments phs dynamic
      | Some Gnu_stack \<Rightarrow> scan_segments phs dynamic
      | Some Gnu_relro \<Rightarrow> scan_segments phs dynamic
      | _ \<Rightarrow> Inl (''unsupported program header type'', p_offset ph))"

definition program_header_list :: "bytes \<Rightarrow> elf_image \<Rightarrow> program_header list" where
  "program_header_list m img =
     (let t = program_headers m img
      in map (\<lambda>i. program_header_at m (entry_at t (of_nat i))) [unat (tab_begin t) ..< unat (tab_end t)])"

text \<open>The variables of the loop over the dynamic entries. \<open>preinit\<close>, \<open>fini\<close> and their sizes are never assigned.\<close>

record dynamic_state =
  dyn_image :: elf_image
  dyn_count :: u64
  preinit :: "u64 option"
  preinit_size :: "u64 option"
  init :: "u64 option"
  init_size :: "u64 option"
  fini :: "u64 option"
  fini_size :: "u64 option"

text \<open>One entry: the error, or whether it is the last one, and the new state.\<close>

definition dynamic_step :: "addr \<Rightarrow> addr \<Rightarrow> dynamic_entry \<Rightarrow> dynamic_state \<Rightarrow> parse_error + bool \<times> dynamic_state" where
  "dynamic_step base dynamic_next e d =
     (case map_of dynamic_tags (d_tag e) of
        Some Null_tag \<Rightarrow> Inr (True, d)
      | Some Needed \<Rightarrow> Inr (False, d)
      | Some Strtab \<Rightarrow> Inr (False, d\<lparr>dyn_image := dyn_image d\<lparr>img_strtab := base + d_val e\<rparr>\<rparr>)
      | Some Symtab \<Rightarrow> Inr (False, d\<lparr>dyn_image := dyn_image d\<lparr>img_symtab := base + d_val e\<rparr>\<rparr>)
      | Some Rela \<Rightarrow> Inr (False, d\<lparr>dyn_image := dyn_image d\<lparr>img_relocations := Rela_ptr (base + d_val e)\<rparr>\<rparr>)
      | Some Rela_size \<Rightarrow> Inr (False, d\<lparr>dyn_image := dyn_image d\<lparr>img_relocations_count := d_val e div rela_size\<rparr>\<rparr>)
      | Some Rela_entry_size \<Rightarrow> if d_val e \<noteq> rela_size then Inl (''unsupported RELA value'', 0) else Inr (False, d)
      | Some Str_size \<Rightarrow> Inr (False, d)
      | Some Sym_entry_size \<Rightarrow> if d_val e \<noteq> symbol_size then Inl (''unsupported SYMENT value'', 0) else Inr (False, d)
      | Some Soname \<Rightarrow> Inr (False, d)
      | Some Debug \<Rightarrow> Inr (False, d)
      | Some Bind_now \<Rightarrow> Inr (False, d)
      | Some Init_array \<Rightarrow> Inr (False, d\<lparr>init := Some (d_val e)\<rparr>)
      | Some Init_array_size \<Rightarrow> Inr (False, d\<lparr>init_size := Some (d_val e)\<rparr>)
      | Some Flags \<Rightarrow> Inr (False, d)
      | Some Gnu_hash \<Rightarrow> Inr (False, d)
      | Some Rela_count \<Rightarrow> Inr (False, d)
      | Some Flags_1 \<Rightarrow> Inr (False, d)
      | _ \<Rightarrow> Inl (''unsupported DYNAMIC entry tag'', dynamic_next - base))"

partial_function (option) dynamic_loop ::
    "bytes \<Rightarrow> addr \<Rightarrow> addr \<Rightarrow> dynamic_state \<Rightarrow> (parse_error + dynamic_state) option" where
  "dynamic_loop m base dynamic_next d =
     (case dynamic_step base dynamic_next (dynamic_entry_at m dynamic_next) d of
        Inl e \<Rightarrow> Some (Inl e)
      | Inr r \<Rightarrow>
          if fst r then Some (Inr (snd r))
          else dynamic_loop m base (dynamic_next + dynamic_entry_size) (snd r\<lparr>dyn_count := dyn_count (snd r) + 1\<rparr>))"

definition check_pair :: "'a option \<Rightarrow> 'a option \<Rightarrow> string \<Rightarrow> parse_error option" where
  "check_pair ptr len name =
     (if ptr \<noteq> None \<and> len = None then
        Some (name @ '' DYNAMIC entry present without '' @ name @ ''_SIZE DYANMIC entry'', 0)
      else if ptr = None \<and> len \<noteq> None then
        Some (name @ ''_SIZE DYNAMIC entry present without '' @ name @ '' DYANMIC entry'', 0)
      else None)"

definition descriptor :: "u64 option \<Rightarrow> u64 option \<Rightarrow> function_table_descriptor option" where
  "descriptor ptr len = map_option (\<lambda>p. \<lparr>fd_offset = p, fd_byte_size = the len\<rparr>) ptr"

definition finish_dynamic :: "dynamic_state \<Rightarrow> parse_error + elf_image" where
  "finish_dynamic d =
     (case check_pair (preinit d) (preinit_size d) ''PREINIT'' of
        Some e \<Rightarrow> Inl e
      | None \<Rightarrow>
          (case check_pair (init d) (init_size d) ''INIT'' of
             Some e \<Rightarrow> Inl e
           | None \<Rightarrow>
               (case check_pair (fini d) (fini_size d) ''FINI'' of
                  Some e \<Rightarrow> Inl e
                | None \<Rightarrow>
                    Inr (dyn_image d\<lparr>img_preinit := descriptor (preinit d) (preinit_size d), img_init := descriptor (init d) (init_size d),
                         img_fini := descriptor (fini d) (fini_size d), img_dynamic_count := dyn_count d\<rparr>))))"

definition parse_dynamic :: "bytes \<Rightarrow> addr \<Rightarrow> program_header option \<Rightarrow> elf_image \<Rightarrow> (parse_error + elf_image) option" where
  "parse_dynamic m base dynamic img =
     (case dynamic of
        None \<Rightarrow> Some (Inr img)
      | Some ph \<Rightarrow>
          let img = img\<lparr>img_dynamic_base := base + p_offset ph\<rparr>
          in map_option (\<lambda>r. case r of Inl e \<Rightarrow> Inl e | Inr d \<Rightarrow> finish_dynamic d)
               (dynamic_loop m base (img_dynamic_base img)
                  \<lparr>dyn_image = img, dyn_count = 0, preinit = None, preinit_size = None, init = None, init_size = None, fini = None,
                   fini_size = None\<rparr>))"

text \<open>One section, and the loop over all of them; the first index is 1.\<close>

definition section_step :: "addr \<Rightarrow> u64 \<Rightarrow> section_header \<Rightarrow> elf_image \<Rightarrow> parse_error + elf_image" where
  "section_step base len s img =
     (if sh_offset s + sh_size s > len then Inl (''a section extends beyond the image limit'', sh_offset s)
      else
        case map_of section_types (sh_type s) of
          Some Progbits \<Rightarrow> Inr img
        | Some Symtab_section \<Rightarrow> Inr img
        | Some Strtab_section \<Rightarrow> Inr img
        | Some Rela_section \<Rightarrow> Inr img
        | Some Hash_section \<Rightarrow> Inl (''binaries containing .hash are not supported; use .gnu.hash instead'', sh_offset s)
        | Some Dynamic_section \<Rightarrow> Inr img
        | Some Note_section \<Rightarrow> Inr img
        | Some Nobits \<Rightarrow> Inr img
        | Some Dynsym \<Rightarrow>
            if base + sh_offset s = img_symtab img then Inr (img\<lparr>img_symtab_size := sh_size s div symbol_size\<rparr>) else Inr img
        | Some Init_array_section \<Rightarrow> Inr img
        | Some Gnu_hash_section \<Rightarrow> Inr img
        | _ \<Rightarrow> Inl (''unsupported section type'', sh_offset s))"

partial_function (option) section_loop ::
    "bytes \<Rightarrow> addr \<Rightarrow> u64 \<Rightarrow> table \<Rightarrow> u64 \<Rightarrow> elf_image \<Rightarrow> (parse_error + elf_image) option" where
  "section_loop m base len t i img =
     (if i = tab_end t then Some (Inr img)
      else case section_step base len (section_at m (entry_at t i)) img of
             Inl e \<Rightarrow> Some (Inl e)
           | Inr img \<Rightarrow> section_loop m base len t (i + 1) img)"

definition check_symtab :: "elf_image \<Rightarrow> parse_error + elf_image" where
  "check_symtab img =
     (if img_symtab img \<noteq> nullptr \<and> img_symtab_size img = 0 then Inl (''found a SYMTAB, but not its corresponding section'', 0)
      else Inr img)"

definition try_parse :: "bytes \<Rightarrow> addr \<Rightarrow> u64 \<Rightarrow> (parse_error + elf_image) option" where
  "try_parse m base len =
     (if len < 64 then Some (Inl (''image is smaller than the size of an elf header'', 0))
      else
        case check_header (elf_header_at m base) len of
          Some e \<Rightarrow> Some (Inl e)
        | None \<Rightarrow>
            let img = new_image base
            in case scan_segments (program_header_list m img) None of
                 Inl e \<Rightarrow> Some (Inl e)
               | Inr dynamic \<Rightarrow>
                   Option.bind (parse_dynamic m base dynamic img) (\<lambda>r. case r of
                       Inl e \<Rightarrow> Some (Inl e)
                     | Inr img \<Rightarrow>
                         map_option (\<lambda>r. case r of Inl e \<Rightarrow> Inl e | Inr img \<Rightarrow> check_symtab img)
                           (section_loop m base len (sections m img) (tab_begin (sections m img)) img)))"

section \<open>Names\<close>

text \<open>A string view of the characters up to a zero.\<close>

definition c_string :: "bytes \<Rightarrow> addr \<Rightarrow> u8 list option" where
  "c_string m p = map_option (\<lambda>n. load_bytes m p (unat n)) (traits_length m p)"

definition name_in :: "bytes \<Rightarrow> addr \<Rightarrow> elf_symbol \<Rightarrow> u8 list option" where
  "name_in m strtab s = (if st_name s \<noteq> 0 then c_string m (strtab + ucast (st_name s)) else Some [])"

definition is_defined :: "elf_symbol \<Rightarrow> bool" where
  "is_defined s \<longleftrightarrow> st_value s \<noteq> 0"

definition needed_name :: "bytes \<Rightarrow> elf_image \<Rightarrow> dynamic_entry \<Rightarrow> u8 list option" where
  "needed_name m img e =
     (if map_of dynamic_tags (d_tag e) \<noteq> Some Needed then Some (map of_char ''<not a NEEDED entry>'')
      else c_string m (img_strtab img + d_val e))"

section \<open>Relocations\<close>

datatype reloc_type =
    R_NONE | R_64 | R_PC32 | R_GOT32 | R_PLT32 | R_COPY | R_GLOB_DAT | R_JUMP_SLOT | R_RELATIVE | R_GOTPCREL | R_32 | R_32S | R_16
  | R_PC16 | R_8 | R_PC8 | R_DTPMOD64 | R_DTPOFF64 | R_TPOFF64 | R_TLSGD | R_TLSLD | R_DTPOFF32 | R_GOTTPOFF | R_TPOFF32 | R_PC64
  | R_GOTOFF64 | R_GOTPC32 | R_SIZE32 | R_SIZE64 | R_GOTPC32_TLSDESC | R_TLSDESC_CALL | R_TLSDESC | R_IRELATIVE

definition reloc_types :: "(u64 \<times> reloc_type) list" where
  "reloc_types =
     zip (map of_nat [0 ..< 27])
       [R_NONE, R_64, R_PC32, R_GOT32, R_PLT32, R_COPY, R_GLOB_DAT, R_JUMP_SLOT, R_RELATIVE, R_GOTPCREL, R_32, R_32S, R_16, R_PC16,
        R_8, R_PC8, R_DTPMOD64, R_DTPOFF64, R_TPOFF64, R_TLSGD, R_TLSLD, R_DTPOFF32, R_GOTTPOFF, R_TPOFF32, R_PC64, R_GOTOFF64,
        R_GOTPC32] @
     [(32, R_SIZE32), (33, R_SIZE64), (34, R_GOTPC32_TLSDESC), (35, R_TLSDESC_CALL), (36, R_TLSDESC), (37, R_IRELATIVE)]"

record relocation =
  reloc_entry :: relocation_ptr
  reloc_symtab :: addr
  reloc_strtab :: addr

definition relocation_at :: "elf_image \<Rightarrow> u64 \<Rightarrow> relocation" where
  "relocation_at img i =
     \<lparr>reloc_entry = (case img_relocations img of
                       Rel_ptr p \<Rightarrow> Rel_ptr (p + i * rel_size)
                     | Rela_ptr p \<Rightarrow> Rela_ptr (p + i * rela_size)),
      reloc_symtab = img_symtab img, reloc_strtab = img_strtab img\<rparr>"

definition rel_to_rela :: "rel \<Rightarrow> rela" where
  "rel_to_rela r = \<lparr>r_offset = r_offset r, r_info = r_info r, r_addend = 0\<rparr>"

definition entry_of :: "bytes \<Rightarrow> relocation \<Rightarrow> rela" where
  "entry_of m r = (case reloc_entry r of Rel_ptr p \<Rightarrow> rel_to_rela (rel_at m p) | Rela_ptr p \<Rightarrow> rela_at m p)"

definition relocation_offset :: "bytes \<Rightarrow> relocation \<Rightarrow> u64" where
  "relocation_offset m r = (case reloc_entry r of Rel_ptr p \<Rightarrow> r_offset (rel_at m p) | Rela_ptr p \<Rightarrow> r_offset (rela_at m p))"

definition needs_symbol :: "bytes \<Rightarrow> relocation \<Rightarrow> bool" where
  "needs_symbol m r \<longleftrightarrow> map_of reloc_types (rtype (r_info (entry_of m r))) \<noteq> Some R_RELATIVE"

definition relocation_symbol_name :: "bytes \<Rightarrow> relocation \<Rightarrow> u8 list option" where
  "relocation_symbol_name m r =
     (let symbol_index = rsym (case reloc_entry r of Rel_ptr p \<Rightarrow> r_info (rel_at m p) | Rela_ptr p \<Rightarrow> r_info (rela_at m p))
      in name_in m (reloc_strtab r) (symbol_at m (reloc_symtab r + symbol_index * symbol_size)))"

record calculate_and_write_result =
  target_address :: addr
  relocation_value :: u64

text \<open>The memory after the relocation is part of the result. An unknown type is an illegal instruction, \<^const>\<open>None\<close>.\<close>

definition calculate_and_write ::
    "relocation \<Rightarrow> u64 \<Rightarrow> u64 \<Rightarrow> u64 \<Rightarrow> addr \<Rightarrow> bytes \<Rightarrow> (calculate_and_write_result \<times> bytes) option" where
  "calculate_and_write r symbol_value image_vbase segment_vaddr segment_base m =
     (let rl = entry_of m r;
          target = image_vbase + segment_vaddr + r_offset rl;
          place = segment_base + r_offset rl - segment_vaddr
      in case map_of reloc_types (rtype (r_info rl)) of
           Some R_GLOB_DAT \<Rightarrow>
             Some (\<lparr>target_address = target, relocation_value = symbol_value\<rparr>, write64 place symbol_value m)
         | Some R_RELATIVE \<Rightarrow>
             Some (\<lparr>target_address = target, relocation_value = image_vbase + r_addend rl\<rparr>,
                   write64 place (image_vbase + r_addend rl) m)
         | _ \<Rightarrow> None)"

section \<open>Reading back what is written\<close>

lemma bit_read16: "bit (read16 m p) n \<longleftrightarrow> n < 16 \<and> (if n < 8 then bit (m p) n else bit (m (p + 1)) (n - 8))"
  using bit_imp_le_length [of "m p" n] by (auto simp: read16_def bit_simps)

lemma bit_read32: "bit (read32 m p) n \<longleftrightarrow> n < 32 \<and> (if n < 16 then bit (read16 m p) n else bit (read16 m (p + 2)) (n - 16))"
  using bit_imp_le_length [of "read16 m p" n] by (auto simp: read32_def bit_simps)

lemma bit_read64: "bit (read64 m p) n \<longleftrightarrow> n < 64 \<and> (if n < 32 then bit (read32 m p) n else bit (read32 m (p + 4)) (n - 32))"
  using bit_imp_le_length [of "read32 m p" n] by (auto simp: read64_def bit_simps)

lemma bit_read64_byte:
  assumes "n < 64"
  shows "bit (read64 m p) n = bit (m (p + of_nat (n div 8))) (n mod 8)"
proof -
  obtain r where r: "n = 8 * (n div 8) + r" "r < 8" "n mod 8 = r" by (metis mod_less_divisor mult_div_mod_eq zero_less_numeral)
  from assms have "n div 8 \<in> {0, 1, 2, 3, 4, 5, 6, 7}" by auto
  moreover have "bit (read64 m p) (8 * q + r) = bit (m (p + of_nat q)) r" if "q \<in> {0, 1, 2, 3, 4, 5, 6, 7}" for q
    using that \<open>r < 8\<close> by (elim insertE emptyE; simp only:; simp add: bit_read64 bit_read32 bit_read16 add.assoc)
  ultimately show ?thesis by (metis r(1) r(3))
qed

lemma write64_at: "k < 8 \<Longrightarrow> write64 p v m (p + of_nat k) = ucast (drop_bit (8 * k) v)"
  by (simp add: write64_def store_bytes_def bytes64_def unat_of_nat_64)

lemma read64_write64: "read64 (write64 p v m) p = v"
proof (rule bit_eqI)
  fix n
  have w: "bit (write64 p v m (p + of_nat k)) j = bit v (8 * k + j)" if "k < 8" "j < 8" for k j
    using that by (simp add: write64_at bit_simps)
  show "bit (read64 (write64 p v m) p) n = bit v n"
  proof (cases "n < 64")
    case False
    then show ?thesis using bit_imp_le_length [of v n] by (auto simp: bit_read64)
  next
    case True
    have "bit (read64 (write64 p v m) p) n = bit (write64 p v m (p + of_nat (n div 8))) (n mod 8)"
      using True by (intro bit_read64_byte)
    also have "\<dots> = bit v n" using w [of "n div 8" "n mod 8"] True by simp
    finally show ?thesis .
  qed
qed

lemma write64_other: "8 \<le> unat (a - p) \<Longrightarrow> write64 p v m a = m a"
  by (simp add: write64_def store_bytes_def bytes64_def)

section \<open>Accepted images\<close>

text \<open>
  What is required of an image, by the numbers of the format. A range of \<open>n\<close> bytes is inside an image of a length if its end, as
  a number, does not lie behind it.
\<close>

definition valid_header :: "elf_header \<Rightarrow> bool" where
  "valid_header h \<longleftrightarrow> take 4 (eh_ident h) = [0x7f, 0x45, 0x4c, 0x46] \<and> eh_ident h ! 4 = 2 \<and> eh_ident h ! 5 = 1 \<and>
     (eh_type h = 2 \<or> eh_type h = 3) \<and> eh_machine h = 0x3e \<and> eh_version h = 1"

definition range_inside :: "u64 \<Rightarrow> nat \<Rightarrow> u64 \<Rightarrow> bool" where
  "range_inside start n len \<longleftrightarrow> unat start + n \<le> unat len"

definition no_wrap :: "u64 \<Rightarrow> nat \<Rightarrow> bool" where
  "no_wrap start n \<longleftrightarrow> unat start + n < 2 ^ 64"

definition supported_segment :: "program_header \<Rightarrow> bool" where
  "supported_segment ph \<longleftrightarrow> p_type ph \<in> {1, 2, 4, 6, 0x6474e551, 0x6474e552}"

definition is_dynamic :: "program_header \<Rightarrow> bool" where
  "is_dynamic ph \<longleftrightarrow> p_type ph = 2"

lemma segment_type_iff:
  "map_of segment_types (p_type ph) \<in> Some ` {Load_segment, Dynamic_segment, Note_segment, Phdr_segment, Gnu_stack, Gnu_relro} \<longleftrightarrow> supported_segment ph"
  "map_of segment_types (p_type ph) = Some Dynamic_segment \<longleftrightarrow> is_dynamic ph"
  by (auto simp: segment_types_def supported_segment_def is_dynamic_def split: if_splits)

lemma range_inside_sum:
  assumes "start + of_nat n \<le> len" "no_wrap start n"
  shows "range_inside start n len"
  using assms unat_plus_less [of start n] by (simp add: range_inside_def no_wrap_def word_le_nat_alt)

lemma check_header_valid: "check_header h len = None \<Longrightarrow> valid_header h"
  by (auto simp: check_header_def valid_header_def class_64_def data_lsb_def machine_amd64_def header_types_def split: if_splits)

lemma sint_of_nat_u32: "n < 2 ^ 31 \<Longrightarrow> sint (of_nat n :: u32) = int n"
  by (simp add: signed_of_nat signed_take_bit_int_eq_self)

lemma table_bytes_eq:
  assumes "unat entry_size * unat entries < 2 ^ 31"
  shows "table_bytes entry_size entries = of_nat (unat entry_size * unat entries)"
proof -
  have "(ucast entry_size * ucast entries :: u32) = of_nat (unat entry_size * unat entries)"
    by (simp add: unsigned_of_nat of_nat_mult)
  moreover have "sint (of_nat (unat entry_size * unat entries) :: u32) = int (unat entry_size * unat entries)"
    using assms by (rule sint_of_nat_u32)
  ultimately show ?thesis unfolding table_bytes_def scast_eq by (metis of_int_of_nat_eq)
qed

lemma check_header_tables:
  assumes "check_header h len = None"
  shows "unat (eh_phentsize h) * unat (eh_phnum h) < 2 ^ 31 \<Longrightarrow> no_wrap (eh_phoff h) (unat (eh_phentsize h) * unat (eh_phnum h)) \<Longrightarrow>
      range_inside (eh_phoff h) (unat (eh_phentsize h) * unat (eh_phnum h)) len"
    and "unat (eh_shentsize h) * unat (eh_shnum h) < 2 ^ 31 \<Longrightarrow> no_wrap (eh_shoff h) (unat (eh_shentsize h) * unat (eh_shnum h)) \<Longrightarrow>
      range_inside (eh_shoff h) (unat (eh_shentsize h) * unat (eh_shnum h)) len"
proof -
  have "eh_phoff h + table_bytes (eh_phentsize h) (eh_phnum h) \<le> len" "eh_shoff h + table_bytes (eh_shentsize h) (eh_shnum h) \<le> len"
    using assms by (auto simp: check_header_def split: if_splits)
  then show "unat (eh_phentsize h) * unat (eh_phnum h) < 2 ^ 31 \<Longrightarrow> no_wrap (eh_phoff h) (unat (eh_phentsize h) * unat (eh_phnum h)) \<Longrightarrow>
      range_inside (eh_phoff h) (unat (eh_phentsize h) * unat (eh_phnum h)) len"
    "unat (eh_shentsize h) * unat (eh_shnum h) < 2 ^ 31 \<Longrightarrow> no_wrap (eh_shoff h) (unat (eh_shentsize h) * unat (eh_shnum h)) \<Longrightarrow>
      range_inside (eh_shoff h) (unat (eh_shentsize h) * unat (eh_shnum h)) len"
    by (simp_all add: table_bytes_eq range_inside_sum del: of_nat_mult)
qed

lemma scan_segments_result:
  assumes "scan_segments phs d = Inr r"
  shows "(\<forall>ph \<in> set phs. supported_segment ph) \<and> length (filter is_dynamic phs) + (if d = None then 0 else 1) \<le> 1 \<and>
    r = (if d = None then find is_dynamic phs else d)"
  using assms
proof (induction phs d rule: scan_segments.induct)
  case (2 ph phs d)
  show ?case
  proof (cases "map_of segment_types (p_type ph)")
    case None
    with "2.prems" show ?thesis by simp
  next
    case (Some ty)
    with 2 show ?thesis by (cases ty) (simp_all add: segment_type_iff [symmetric] split: if_splits)
  qed
qed simp

definition supported_section :: "section_header \<Rightarrow> bool" where
  "supported_section s \<longleftrightarrow> sh_type s \<in> {1, 2, 3, 4, 6, 7, 8, 11, 14, 0x6ffffff6}"

lemma section_type_iff:
  "map_of section_types (sh_type s) \<in> Some ` {Progbits, Symtab_section, Strtab_section, Rela_section, Dynamic_section, Note_section, Nobits, Dynsym,
      Init_array_section, Gnu_hash_section} \<longleftrightarrow> supported_section s"
  by (auto simp: section_types_def supported_section_def split: if_splits)

lemma section_step_result:
  assumes "section_step base len s img = Inr img'"
  shows "sh_offset s + sh_size s \<le> len" "supported_section s" "img_header img' = img_header img" "img_symtab img' = img_symtab img"
  using assms by (auto simp: section_step_def section_type_iff [symmetric] split: if_splits option.splits section_type.splits)

definition section_fits :: "u64 \<Rightarrow> section_header \<Rightarrow> bool" where
  "section_fits len s \<longleftrightarrow> supported_section s \<and>
     (no_wrap (sh_offset s) (unat (sh_size s)) \<longrightarrow> range_inside (sh_offset s) (unat (sh_size s)) len)"

lemma section_loop_result:
  assumes "section_loop m base len t i img = Some (Inr img')" "i \<le> tab_end t"
  shows "(\<forall>j. i \<le> j \<and> j < tab_end t \<longrightarrow> section_fits len (section_at m (entry_at t j))) \<and>
    img_header img' = img_header img \<and> img_symtab img' = img_symtab img"
  using assms
proof (induction "unat (tab_end t) - unat i" arbitrary: i img rule: less_induct)
  case less
  show ?case
  proof (cases "i = tab_end t")
    case True
    with less.prems show ?thesis by (auto simp: section_loop.simps)
  next
    case False
    with less.prems obtain img1 where s: "section_step base len (section_at m (entry_at t i)) img = Inr img1"
      "section_loop m base len t (i + 1) img1 = Some (Inr img')"
      by (subst (asm) section_loop.simps) (auto split: sum.splits)
    from False less.prems(2) have lt: "i < tab_end t" by simp
    then have u: "unat (i + 1) = unat i + 1" using unsigned_less [of "tab_end t", where ?'a = nat]
      by (intro unat_add_one) (simp add: word_less_nat_alt)
    from lt have "unat (tab_end t) - unat (i + 1) < unat (tab_end t) - unat i" "i + 1 \<le> tab_end t"
      using u by (simp_all add: word_less_nat_alt word_le_nat_alt)
    from less.hyps [OF this(1) s(2) this(2)] section_step_result [OF s(1)] have
      "\<forall>j. i + 1 \<le> j \<and> j < tab_end t \<longrightarrow> section_fits len (section_at m (entry_at t j))"
      "img_header img' = img_header img" "img_symtab img' = img_symtab img" "section_fits len (section_at m (entry_at t i))"
      by (simp_all add: section_fits_def range_inside_sum)
    moreover have "j = i \<or> i + 1 \<le> j" if "i \<le> j" for j
      using that u by (auto simp: word_le_nat_alt word_unat_eq_iff)
    ultimately show ?thesis by blast
  qed
qed

lemma dynamic_step_header:
  "dynamic_step base p e d = Inr (b, d') \<Longrightarrow> img_header (dyn_image d') = img_header (dyn_image d)"
  by (auto simp: dynamic_step_def split: option.splits dynamic_tag.splits if_splits)

lemma dynamic_loop_header:
  assumes "dynamic_loop m base p d = Some r"
  shows "\<forall>d'. r = Inr d' \<longrightarrow> img_header (dyn_image d') = img_header (dyn_image d)"
proof (rule dynamic_loop.raw_induct [OF _ assms])
  fix loop :: "bytes \<Rightarrow> addr \<Rightarrow> addr \<Rightarrow> dynamic_state \<Rightarrow> (parse_error + dynamic_state) option" and m base p d r
  assume IH: "\<And>m base p d r. loop m base p d = Some r \<Longrightarrow> \<forall>d'. r = Inr d' \<longrightarrow> img_header (dyn_image d') = img_header (dyn_image d)"
    and body: "(case dynamic_step base p (dynamic_entry_at m p) d of
        Inl e \<Rightarrow> Some (Inl e)
      | Inr r \<Rightarrow>
          if fst r then Some (Inr (snd r))
          else loop m base (p + dynamic_entry_size) (snd r\<lparr>dyn_count := dyn_count (snd r) + 1\<rparr>)) = Some r"
  show "\<forall>d'. r = Inr d' \<longrightarrow> img_header (dyn_image d') = img_header (dyn_image d)"
  proof (cases "dynamic_step base p (dynamic_entry_at m p) d")
    case (Inr s)
    obtain b d1 where "s = (b, d1)" by (cases s)
    with Inr have h: "img_header (dyn_image d1) = img_header (dyn_image d)" by (simp add: dynamic_step_header)
    show ?thesis
    proof (cases b)
      case True
      with Inr \<open>s = (b, d1)\<close> body h show ?thesis by auto
    next
      case False
      have "loop m base (p + dynamic_entry_size) (d1\<lparr>dyn_count := dyn_count d1 + 1\<rparr>) = Some r"
        using body unfolding Inr \<open>s = (b, d1)\<close> by (simp add: False)
      moreover have "dyn_image (d1\<lparr>dyn_count := dyn_count d1 + 1\<rparr>) = dyn_image d1" by simp
      ultimately show ?thesis using IH h by metis
    qed
  qed (use body in auto)
qed

lemma finish_dynamic_header: "finish_dynamic d = Inr img \<Longrightarrow> img_header img = img_header (dyn_image d)"
  unfolding finish_dynamic_def by (auto split: option.split_asm)

lemma parse_dynamic_header:
  assumes "parse_dynamic m base dyn img = Some (Inr img')"
  shows "img_header img' = img_header img"
proof (cases dyn)
  case None
  with assms show ?thesis by (simp add: parse_dynamic_def)
next
  case (Some ph)
  let ?img = "img\<lparr>img_dynamic_base := base + p_offset ph\<rparr>"
  from assms Some obtain r where r: "dynamic_loop m base (base + p_offset ph)
      \<lparr>dyn_image = ?img, dyn_count = 0, preinit = None, preinit_size = None, init = None, init_size = None, fini = None,
       fini_size = None\<rparr> = Some r" "(case r of Inl e \<Rightarrow> Inl e | Inr d \<Rightarrow> finish_dynamic d) = Inr img'"
    by (auto simp: parse_dynamic_def Let_def)
  then show ?thesis
    using dynamic_loop_header [OF r(1)] finish_dynamic_header by (cases r) auto
qed

lemma ucast16_eq_0: "(ucast (w :: u16) :: u64) = 0 \<longleftrightarrow> w = 0"
proof
  assume "(ucast w :: u64) = 0"
  then have "unat (ucast w :: u64) = 0" by simp
  moreover have "unat (ucast w :: u64) = unat w"
    using unsigned_less [of w, where ?'a = nat] by (simp add: unsigned_ucast_eq take_bit_nat_eq_self)
  ultimately show "w = 0" by (simp add: unat_eq_zero)
qed simp

lemma try_parse_cases:
  assumes "try_parse m base len = Some (Inr img)"
  obtains dyn img1 r where "64 \<le> len" "check_header (elf_header_at m base) len = None"
    "scan_segments (program_header_list m (new_image base)) None = Inr dyn" "parse_dynamic m base dyn (new_image base) = Some (Inr img1)"
    "section_loop m base len (sections m img1) 1 img1 = Some r" "(case r of Inl e \<Rightarrow> Inl e | Inr img \<Rightarrow> check_symtab img) = Inr img"
proof -
  have l: "\<not> len < 64" using assms by (auto simp: try_parse_def)
  with assms have c: "check_header (elf_header_at m base) len = None"
    by (cases "check_header (elf_header_at m base) len") (auto simp: try_parse_def)
  obtain dyn where d: "scan_segments (program_header_list m (new_image base)) None = Inr dyn"
    using assms l c by (cases "scan_segments (program_header_list m (new_image base)) None") (auto simp: try_parse_def Let_def)
  obtain r0 where r0: "parse_dynamic m base dyn (new_image base) = Some r0"
    using assms l c d by (cases "parse_dynamic m base dyn (new_image base)") (auto simp: try_parse_def Let_def)
  obtain img1 where i: "r0 = Inr img1"
    using assms l c d r0 by (cases r0) (auto simp: try_parse_def Let_def)
  have t: "tab_begin (sections m img1) = 1" by (simp add: sections_def Let_def)
  from assms l c d r0 i t obtain r where "section_loop m base len (sections m img1) 1 img1 = Some r"
    "(case r of Inl e \<Rightarrow> Inl e | Inr img \<Rightarrow> check_symtab img) = Inr img"
    by (auto simp: try_parse_def Let_def)
  moreover have "64 \<le> len" using l by simp
  ultimately show thesis using that c d r0 i by blast
qed

section \<open>Properties\<close>

text \<open>
  C35. Accepted images. If \<open>try_parse\<close> accepts a range of memory of the given length as an image, then
  it is not shorter than a header, and the header is that of a 64-bit little-endian executable or shared object of
  version 1 for AMD64; every program header is of a supported type and at most one of them is
  dynamic; every section from number 1 on is of a supported type; the two tables and the sections end within the
  image, unless their end lies behind the last 64-bit address, where the sums that the code compares wrap around, or
  the size of a table does not fit a signed 32-bit number; and there is a size for the symbol table if there is one.
  The tables of the image are those its header names. The count of section headers must not be zero: the loop over the
  sections starts behind its end then.
\<close>

theorem try_parse_accepts:
  assumes "try_parse m base len = Some (Inr img)" "eh_shnum (elf_header_at m base) \<noteq> 0" and "h = elf_header_at m base"
  shows "64 \<le> len \<and> img_header img = base \<and> valid_header h \<and>
    (\<forall>ph \<in> set (program_header_list m img). supported_segment ph) \<and>
    length (filter is_dynamic (program_header_list m img)) \<le> 1 \<and>
    (\<forall>j. 1 \<le> j \<and> j < tab_end (sections m img) \<longrightarrow> section_fits len (section_at m (entry_at (sections m img) j))) \<and>
    (unat (eh_phentsize h) * unat (eh_phnum h) < 2 ^ 31 \<and> no_wrap (eh_phoff h) (unat (eh_phentsize h) * unat (eh_phnum h)) \<longrightarrow>
      range_inside (eh_phoff h) (unat (eh_phentsize h) * unat (eh_phnum h)) len) \<and>
    (unat (eh_shentsize h) * unat (eh_shnum h) < 2 ^ 31 \<and> no_wrap (eh_shoff h) (unat (eh_shentsize h) * unat (eh_shnum h)) \<longrightarrow>
      range_inside (eh_shoff h) (unat (eh_shentsize h) * unat (eh_shnum h)) len) \<and>
    (img_symtab img \<noteq> nullptr \<longrightarrow> img_symtab_size img \<noteq> 0)"
proof -
  obtain dyn img1 r where p: "64 \<le> len" "check_header (elf_header_at m base) len = None"
    "scan_segments (program_header_list m (new_image base)) None = Inr dyn" "parse_dynamic m base dyn (new_image base) = Some (Inr img1)"
    "section_loop m base len (sections m img1) 1 img1 = Some r" "(case r of Inl e \<Rightarrow> Inl e | Inr img \<Rightarrow> check_symtab img) = Inr img"
    by (rule try_parse_cases [OF assms(1)])
  from p(6) have r: "r = Inr img" "img_symtab img \<noteq> nullptr \<longrightarrow> img_symtab_size img \<noteq> 0"
    by (auto simp: check_symtab_def split: sum.splits if_splits)
  have h1: "img_header img1 = base" using parse_dynamic_header [OF p(4)] by (simp add: new_image_def)
  have "tab_end (sections m img1) \<noteq> 0" using assms(2) h1 by (simp add: sections_def Let_def ucast16_eq_0)
  then have "1 \<le> tab_end (sections m img1)" by (simp add: word_le_nat_alt unat_gt_0 Suc_le_eq)
  from section_loop_result [OF _ this] p(5) r(1) have s:
    "\<forall>j. 1 \<le> j \<and> j < tab_end (sections m img1) \<longrightarrow> section_fits len (section_at m (entry_at (sections m img1) j))"
    "img_header img = img_header img1" by auto
  have "sections m img = sections m img1" "program_header_list m img = program_header_list m (new_image base)"
    using s(2) h1 by (simp_all add: sections_def program_header_list_def program_headers_def new_image_def)
  with p(1) s h1 r(2) scan_segments_result [OF p(3)] check_header_valid [OF p(2)] check_header_tables [OF p(2)] show ?thesis
    unfolding assms(3) by simp
qed

text \<open>An image of one segment and one section.\<close>

definition tiny_image :: bytes where
  "tiny_image a =
     (if a < 0x1010 then (if a < 0x1006 then [0x7f, 0x45, 0x4c, 0x46, 2, 1] ! unat (a - 0x1000) else 0)
      else if a < 0x1020 then ((\<lambda>_. 0)(0x1010 := 2, 0x1012 := 0x3e, 0x1014 := 1)) a
      else if a < 0x1030 then ((\<lambda>_. 0)(0x1020 := 0x40, 0x1028 := 0x78)) a
      else if a < 0x1040 then ((\<lambda>_. 0)(0x1036 := 0x38, 0x1038 := 1, 0x103a := 0x40, 0x103c := 2)) a
      else ((\<lambda>_. 0)(0x1040 := 1, 0x10bc := 1, 0x10d0 := 0x40, 0x10d8 := 0x10)) a)"

lemma tiny_image_header: "elf_header_at tiny_image 0x1000 =
    \<lparr>eh_ident = [0x7f, 0x45, 0x4c, 0x46, 2, 1, 0, 0, 0, 0, 0, 0, 0, 0, 0, 0], eh_type = 2, eh_machine = 0x3e, eh_version = 1,
     eh_entry = 0, eh_phoff = 0x40, eh_shoff = 0x78, eh_flags = 0, eh_ehsize = 0, eh_phentsize = 0x38, eh_phnum = 1, eh_shentsize = 0x40,
     eh_shnum = 2, eh_shstrndx = 0\<rparr>"
proof -
  have "load_bytes tiny_image 0x1000 16 = [0x7f, 0x45, 0x4c, 0x46, 2, 1, 0, 0, 0, 0, 0, 0, 0, 0, 0, 0]"
    by (simp add: load_bytes_def tiny_image_def upt_rec)
  moreover have "read16 tiny_image 0x1010 = 2" "read16 tiny_image 0x1012 = 0x3e" "read32 tiny_image 0x1014 = 1" "read64 tiny_image 0x1018 = 0"
    by (simp_all add: read64_def read32_def read16_def tiny_image_def)
  moreover have "read64 tiny_image 0x1020 = 0x40" "read64 tiny_image 0x1028 = 0x78" "read32 tiny_image 0x1030 = 0" "read16 tiny_image 0x1034 = 0"
    by (simp_all add: read64_def read32_def read16_def tiny_image_def)
  moreover have "read16 tiny_image 0x1036 = 0x38" "read16 tiny_image 0x1038 = 1" "read16 tiny_image 0x103a = 0x40" "read16 tiny_image 0x103c = 2"
      "read16 tiny_image 0x103e = 0"
    by (simp_all add: read16_def tiny_image_def)
  ultimately show ?thesis by (simp add: elf_header_at_def)
qed

lemma tiny_image_tables:
  "p_type (program_header_at tiny_image 0x1040) = 1" "sh_type (section_at tiny_image 0x10b8) = 1"
  "sh_offset (section_at tiny_image 0x10b8) = 0x40" "sh_size (section_at tiny_image 0x10b8) = 0x10"
proof -
  have "read32 tiny_image 0x1040 = 1" "read32 tiny_image 0x10bc = 1" "read64 tiny_image 0x10d0 = 0x40" "read64 tiny_image 0x10d8 = 0x10"
    by (simp_all add: read64_def read32_def read16_def tiny_image_def)
  then show "p_type (program_header_at tiny_image 0x1040) = 1" "sh_type (section_at tiny_image 0x10b8) = 1"
    "sh_offset (section_at tiny_image 0x10b8) = 0x40" "sh_size (section_at tiny_image 0x10b8) = 0x10"
    by (simp_all add: program_header_at_def section_at_def)
qed

lemma tiny_image_parses: "try_parse tiny_image 0x1000 0xf8 = Some (Inr (new_image 0x1000))"
proof -
  have "check_header (elf_header_at tiny_image 0x1000) 0xf8 = None"
    unfolding tiny_image_header
    by (simp add: check_header_def class_64_def data_lsb_def header_types_def machine_amd64_def table_bytes_def)
  moreover have "program_header_list tiny_image (new_image 0x1000) = [program_header_at tiny_image 0x1040]"
    by (simp add: program_header_list_def program_headers_def new_image_def tiny_image_header entry_at_def Let_def)
  moreover have "sections tiny_image (new_image 0x1000) = \<lparr>tab_base = 0x1078, tab_entry_size = 0x40, tab_begin = 1, tab_end = 2\<rparr>"
    by (simp add: sections_def new_image_def tiny_image_header Let_def)
  ultimately show ?thesis
    by (simp add: try_parse_def parse_dynamic_def section_loop.simps entry_at_def section_step_def tiny_image_tables segment_types_def section_types_def
      check_symtab_def new_image_def)
qed

theorem try_parse_accepts_witness:
  "try_parse tiny_image 0x1000 0xf8 = Some (Inr (new_image 0x1000)) \<and> eh_shnum (elf_header_at tiny_image 0x1000) \<noteq> 0 \<and>
   valid_header (elf_header_at tiny_image 0x1000) \<and> section_fits 0xf8 (section_at tiny_image 0x10b8)"
proof -
  have "eh_shnum (elf_header_at tiny_image 0x1000) \<noteq> 0" by (simp add: tiny_image_header)
  note image = try_parse_accepts [OF tiny_image_parses this refl]
  moreover have "section_fits 0xf8 (section_at tiny_image 0x10b8)"
    using image by (auto simp: sections_def new_image_def tiny_image_header Let_def entry_at_def dest!: spec [of _ 1])
  ultimately show ?thesis using tiny_image_parses by (simp add: tiny_image_header)
qed

text \<open>A section whose end wraps around passes the test.\<close>

lemma section_end_wraps:
  "section_step base 64 (s\<lparr>sh_type := 1, sh_offset := - 1, sh_size := 2\<rparr>) img = Inr img \<and>
   \<not> range_inside (sh_offset (s\<lparr>sh_type := 1, sh_offset := - 1, sh_size := 2\<rparr>)) 2 64"
  by (simp add: section_step_def section_types_def range_inside_def unsigned_minus_1_eq_mask mask_eq_exp_minus_1)

text \<open>
  C36. Relocations. When a relocation is applied, the 64-bit word at its place in the segment is the
  value reported: the value of the symbol if the relocation needs one, the base of the image plus the
  addend otherwise. No other byte of memory changes.
\<close>

theorem relocation_applied:
  assumes "calculate_and_write r symbol_value image_vbase segment_vaddr segment_base m = Some (res, m')"
  shows "read64 m' (segment_base + r_offset (entry_of m r) - segment_vaddr) = relocation_value res \<and>
    relocation_value res = (if needs_symbol m r then symbol_value else image_vbase + r_addend (entry_of m r)) \<and>
    (\<forall>a. 8 \<le> unat (a - (segment_base + r_offset (entry_of m r) - segment_vaddr)) \<longrightarrow> m' a = m a)"
proof (cases "map_of reloc_types (rtype (r_info (entry_of m r)))")
  case None
  with assms show ?thesis by (simp add: calculate_and_write_def Let_def)
next
  case (Some ty)
  with assms show ?thesis
    by (cases ty) (auto simp: calculate_and_write_def Let_def needs_symbol_def read64_write64 write64_other)
qed

definition relative_memory :: bytes where
  "relative_memory = (\<lambda>_. 0)(0x1000 := 0x20, 0x1008 := 8, 0x1010 := 0x40)"

theorem relocation_applied_witness:
  "\<exists>res m'. calculate_and_write \<lparr>reloc_entry = Rela_ptr 0x1000, reloc_symtab = 0, reloc_strtab = 0\<rparr> 0 0x400000 0 0x5000 relative_memory
     = Some (res, m') \<and> read64 m' 0x5020 = 0x400040"
proof -
  let ?r = "\<lparr>reloc_entry = Rela_ptr 0x1000, reloc_symtab = 0, reloc_strtab = 0\<rparr>"
  have e: "entry_of relative_memory ?r = \<lparr>r_offset = 0x20, r_info = 8, r_addend = 0x40\<rparr>"
    by (simp add: entry_of_def rela_at_def read64_def read32_def read16_def relative_memory_def)
  have "map_of reloc_types (rtype 8) = Some R_RELATIVE" by code_simp
  then obtain res m' where "calculate_and_write ?r 0 0x400000 0 0x5000 relative_memory = Some (res, m')" "\<not> needs_symbol relative_memory ?r"
    by (simp add: calculate_and_write_def e Let_def needs_symbol_def)
  with relocation_applied [OF this(1)] show ?thesis by (auto simp: e)
qed

end
