(* ===== verification/Rosestd_Locks.thy ===== *)
theory Rosestd_Locks
  imports Kernel_Prelude "HOL-Library.Multiset"
begin

text \<open>
  The locks of the runtime library (\<open>libraries/rosestd/include/mutex\<close> and \<open>shared_mutex\<close>) under every
  interleaving of any number of threads. Each operation on the atomic word is one step; a thread is
  where its code is between two such steps. A compare-and-exchange that fails, spuriously or not,
  leaves everything as it was, and the loop around it tries again.
\<close>

section \<open>The atomic operations\<close>

definition mutex_cas :: "bool \<Rightarrow> bool \<times> bool" where
  "mutex_cas lock = (if lock = False then (True, True) else (False, lock))"

definition mutex_store :: "bool \<Rightarrow> bool" where
  "mutex_store lock = False"

definition unique_mask :: u64 where
  "unique_mask = push_bit (8 * 8 - 1) 1"

definition shared_mutex_cas :: "u64 \<Rightarrow> bool \<times> u64" where
  "shared_mutex_cas w = (if w = 0 then (True, unique_mask) else (False, w))"

definition shared_mutex_xor :: "u64 \<Rightarrow> u64" where
  "shared_mutex_xor w = w XOR unique_mask"

definition shared_mutex_add :: "u64 \<Rightarrow> u64 \<times> u64" where
  "shared_mutex_add w = (w, w + 1)"

definition shared_mutex_sub :: "u64 \<Rightarrow> u64" where
  "shared_mutex_sub w = w - 1"

definition has_unique :: "u64 \<Rightarrow> bool" where
  "has_unique w \<longleftrightarrow> w AND unique_mask \<noteq> 0"

section \<open>The mutex\<close>

datatype mutex_pc = M_outside | M_inside

record mutex_state =
  mutex_lock :: bool
  mutex_threads :: "mutex_pc list"

inductive mutex_step :: "mutex_state \<Rightarrow> mutex_state \<Rightarrow> bool" where
  lock: "mutex_step s \<lparr>mutex_lock = new, mutex_threads = (mutex_threads s)[t := if ok then M_inside else M_outside]\<rparr>"
    if "t < length (mutex_threads s)" "mutex_threads s ! t = M_outside" "mutex_cas (mutex_lock s) = (ok, new)"
| unlock: "mutex_step s \<lparr>mutex_lock = mutex_store (mutex_lock s), mutex_threads = (mutex_threads s)[t := M_outside]\<rparr>"
    if "t < length (mutex_threads s)" "mutex_threads s ! t = M_inside"

definition mutex_init :: "nat \<Rightarrow> mutex_state" where
  "mutex_init n = \<lparr>mutex_lock = False, mutex_threads = replicate n M_outside\<rparr>"

section \<open>The shared mutex\<close>

text \<open>
  Outside; holding the lock alone; in the loop of \<open>lock_shared\<close>; holding it with others; in
  \<open>try_lock_shared\<close>, about to take its increment back.
\<close>

datatype shared_pc = Outside | Unique | Waiting | Shared | Backing_off

record shared_state =
  shared_lock_word :: u64
  shared_threads :: "shared_pc list"

inductive shared_step :: "shared_state \<Rightarrow> shared_state \<Rightarrow> bool" where
  lock: "shared_step s \<lparr>shared_lock_word = new, shared_threads = (shared_threads s)[t := if ok then Unique else Outside]\<rparr>"
    if "t < length (shared_threads s)" "shared_threads s ! t = Outside" "shared_mutex_cas (shared_lock_word s) = (ok, new)"
| unlock: "shared_step s \<lparr>shared_lock_word = shared_mutex_xor (shared_lock_word s), shared_threads = (shared_threads s)[t := Outside]\<rparr>"
    if "t < length (shared_threads s)" "shared_threads s ! t = Unique"
| lock_shared: "shared_step s \<lparr>shared_lock_word = new, shared_threads = (shared_threads s)[t := if has_unique old then Waiting else Shared]\<rparr>"
    if "t < length (shared_threads s)" "shared_threads s ! t = Outside" "shared_mutex_add (shared_lock_word s) = (old, new)"
| poll: "shared_step s (s\<lparr>shared_threads := (shared_threads s)[t := if has_unique (shared_lock_word s) then Waiting else Shared]\<rparr>)"
    if "t < length (shared_threads s)" "shared_threads s ! t = Waiting"
| try_lock_shared: "shared_step s \<lparr>shared_lock_word = new, shared_threads = (shared_threads s)[t := if has_unique old then Backing_off else Shared]\<rparr>"
    if "t < length (shared_threads s)" "shared_threads s ! t = Outside" "shared_mutex_add (shared_lock_word s) = (old, new)"
| back_off: "shared_step s \<lparr>shared_lock_word = shared_mutex_sub (shared_lock_word s), shared_threads = (shared_threads s)[t := Outside]\<rparr>"
    if "t < length (shared_threads s)" "shared_threads s ! t = Backing_off"
| unlock_shared: "shared_step s \<lparr>shared_lock_word = shared_mutex_sub (shared_lock_word s), shared_threads = (shared_threads s)[t := Outside]\<rparr>"
    if "t < length (shared_threads s)" "shared_threads s ! t = Shared"

definition shared_init :: "nat \<Rightarrow> shared_state" where
  "shared_init n = \<lparr>shared_lock_word = 0, shared_threads = replicate n Outside\<rparr>"

section \<open>Counting threads\<close>

lemma count_update:
  "t < length xs \<Longrightarrow> count (mset (xs[t := x])) y + of_bool (xs ! t = y) = count (mset xs) y + of_bool (x = y)"
proof -
  assume t: "t < length xs"
  then have m: "add_mset (xs ! t) (mset (xs[t := x])) = add_mset x (mset xs)"
    by (simp add: mset_update)
  have "count (add_mset (xs ! t) (mset (xs[t := x]))) y = count (add_mset x (mset xs)) y" by (simp only: m)
  then show ?thesis by auto
qed

definition holders :: "shared_pc \<Rightarrow> shared_state \<Rightarrow> nat" where
  "holders p s = count (mset (shared_threads s)) p"

definition readers :: "shared_state \<Rightarrow> nat" where
  "readers s = holders Waiting s + holders Shared s + holders Backing_off s"

text \<open>The word counts the readers and has the highest bit set for a writer; a writer excludes the readers that hold the lock.\<close>

definition shared_inv :: "nat \<Rightarrow> shared_state \<Rightarrow> bool" where
  "shared_inv n s \<longleftrightarrow> length (shared_threads s) = n \<and> unat (shared_lock_word s) = 2 ^ 63 * holders Unique s + readers s \<and>
     holders Unique s \<le> 1 \<and> (0 < holders Unique s \<longrightarrow> holders Shared s = 0)"

lemma holders_update:
  assumes "t < length (shared_threads s)" "shared_threads s' = (shared_threads s)[t := x]"
  shows "holders p s' + of_bool (shared_threads s ! t = p) = holders p s + of_bool (x = p)"
  using count_update [OF assms(1), of x p] assms(2) by (simp add: holders_def)

lemma holders_total:
  "holders Outside s + holders Unique s + readers s = length (shared_threads s)"
proof -
  have "count (mset xs) Outside + count (mset xs) Unique + count (mset xs) Waiting + count (mset xs) Shared + count (mset xs) Backing_off = length xs"
    for xs :: "shared_pc list"
  proof (induction xs)
    case (Cons x xs)
    then show ?case by (cases x) simp_all
  qed simp
  from this [of "shared_threads s"] show ?thesis by (simp add: holders_def readers_def)
qed

lemma bit_63_iff: "bit (w :: u64) 63 \<longleftrightarrow> 2 ^ 63 \<le> unat w"
proof -
  have "bit w 63 \<longleftrightarrow> odd (unat w div 2 ^ 63)" 
    by (simp only: bit_iff_odd [of "unat w", symmetric] bit_unsigned_iff possible_bit_nat simp_thms)
  also have "\<dots> \<longleftrightarrow> 2 ^ 63 \<le> unat w"
  proof (cases "2 ^ 63 \<le> unat w")
    case True
    then have "unat w div 2 ^ 63 = 1" using unsigned_less [of w, where ?'a = nat] by (intro div_nat_eqI) auto
    with True show ?thesis by simp
  next
    case False
    then show ?thesis by simp
  qed
  finally show ?thesis .
qed

lemma bit_unique_mask: "bit unique_mask n \<longleftrightarrow> n = 63"
proof -
  have "bit (push_bit 63 (1 :: u64)) n \<longleftrightarrow> 63 \<le> n \<and> n < 64 \<and> n - 63 = 0"
    by (simp only: bit_push_bit_iff possible_bit_word bit_1_iff len_bit0 len_num1 mult_1_right num_double semiring_norm) auto
  then show ?thesis unfolding unique_mask_def by auto
qed

lemma has_unique_iff: "has_unique w \<longleftrightarrow> 2 ^ 63 \<le> unat w"
proof -
  have "bit (w AND unique_mask) 63 \<longleftrightarrow> bit w 63" by (simp add: bit_and_iff bit_unique_mask)
  moreover have "w AND unique_mask = 0" if "\<not> bit w 63"
    by (rule bit_eqI) (use that in \<open>auto simp: bit_and_iff bit_unique_mask\<close>)
  ultimately show ?thesis unfolding has_unique_def bit_63_iff [symmetric] by (metis bit_0_eq bot_apply bot_bool_def)
qed

lemma unat_xor_mask:
  assumes "2 ^ 63 \<le> unat w"
  shows "unat (shared_mutex_xor w) = unat w - 2 ^ 63"
proof -
  have "shared_mutex_xor w = take_bit 63 w"
  proof (rule bit_eqI)
    fix n
    show "bit (shared_mutex_xor w) n = bit (take_bit 63 w) n"
      using assms [folded bit_63_iff] bit_imp_le_length [of w n]
      by (cases "n = 63") (auto simp: shared_mutex_xor_def bit_unique_mask bit_xor_iff bit_take_bit_iff)
  qed
  then have "unat (shared_mutex_xor w) = unat (take_bit 63 w)" by (rule arg_cong)
  also have "\<dots> = unat w mod 2 ^ 63" by (simp only: unsigned_take_bit_eq) (simp only: take_bit_eq_mod)
  also have "\<dots> = unat w - 2 ^ 63"
    using assms unsigned_less [of w, where ?'a = nat] by (simp add: le_mod_geq)
  finally show ?thesis .
qed

section \<open>Mutual exclusion\<close>

lemma holders_self: "t < length (shared_threads s) \<Longrightarrow> shared_threads s ! t = p \<Longrightarrow> 0 < holders p s"
  by (auto simp: holders_def count_greater_zero_iff)

text \<open>A step that moves thread \<open>t\<close> from \<open>p\<close> to \<open>x\<close> keeps the invariant if the word changes accordingly.\<close>

definition reads_lock :: "shared_pc \<Rightarrow> nat" where
  "reads_lock p = of_bool (p \<in> {Waiting, Shared, Backing_off})"

lemma shared_inv_move:
  assumes "shared_inv n s" "t < length (shared_threads s)" "shared_threads s ! t = p" "shared_threads s' = (shared_threads s)[t := x]"
    and "unat (shared_lock_word s') + 2 ^ 63 * of_bool (p = Unique) + reads_lock p =
         unat (shared_lock_word s) + 2 ^ 63 * of_bool (x = Unique) + reads_lock x"
    and "x = Unique \<Longrightarrow> holders Unique s = 0 \<and> holders Shared s = 0" "x = Shared \<Longrightarrow> holders Unique s = 0" "p \<noteq> x"
  shows "shared_inv n s'"
proof -
  have h: "holders q s' + of_bool (p = q) = holders q s + of_bool (x = q)" for q
    using holders_update [OF assms(2,4)] assms(3) by simp
  have "0 < holders p s" using holders_self [OF assms(2,3)] .
  with h [of Unique] h [of Waiting] h [of Shared] h [of Backing_off] assms(1,4-8) show ?thesis
    by (cases p; cases x) (simp_all add: shared_inv_def readers_def reads_lock_def)
qed

lemma shared_word_less:
  assumes "shared_inv n s" "n < 2 ^ 63" "t < length (shared_threads s)" "shared_threads s ! t = Outside"
  shows "unat (shared_lock_word s) + 1 < 2 ^ 64"
proof -
  have "readers s < n" "holders Unique s \<le> 1" using holders_total [of s] holders_self [OF assms(3,4)] assms(1) by (auto simp: shared_inv_def)
  moreover have "2 ^ 63 * k \<le> (2 ^ 63 :: nat)" if "k \<le> 1" for k :: nat using that by simp
  moreover have "unat (shared_lock_word s) = 2 ^ 63 * holders Unique s + readers s" using assms(1) by (simp add: shared_inv_def)
  ultimately have "unat (shared_lock_word s) + 1 \<le> 2 ^ 63 + n" by (metis Suc_eq_plus1 Suc_leI add_mono add_Suc_right)
  with assms(2) show ?thesis by simp
qed

lemma unique_word:
  assumes "shared_inv n s" "n < 2 ^ 63"
  shows "has_unique (shared_lock_word s) \<longleftrightarrow> holders Unique s = 1"
proof -
  have "readers s \<le> n" using holders_total [of s] assms(1) by (auto simp: shared_inv_def)
  with assms show ?thesis by (cases "holders Unique s") (auto simp: has_unique_iff shared_inv_def)
qed

lemma unat_dec: "0 < unat (w :: u64) \<Longrightarrow> unat (w - 1) = unat w - 1"
  by (rule unat_minus_one) auto

lemma shared_inv_same: "shared_inv n s \<Longrightarrow> shared_threads s ! t = p \<Longrightarrow> shared_inv n \<lparr>shared_lock_word = shared_lock_word s, shared_threads = (shared_threads s)[t := p]\<rparr>"
  by (metis list_update_id shared_state.surjective unit.exhaust)

lemma shared_inv_step:
  assumes "shared_step s s'" "shared_inv n s" "n < 2 ^ 63"
  shows "shared_inv n s'"
  using assms(1)
proof cases
  case (lock t ok new)
  show ?thesis
  proof (cases ok)
    case True
    with lock have w: "shared_lock_word s = 0" "new = unique_mask" by (auto simp: shared_mutex_cas_def split: if_splits)
    have "unat unique_mask = 2 ^ 63" by (simp add: unique_mask_def)
    moreover from w(1) assms(2) have "holders Unique s = 0" "holders Shared s = 0" by (simp_all add: shared_inv_def readers_def)
    ultimately show ?thesis
      using lock w True by (intro shared_inv_move [OF assms(2) lock(2,3), of _ Unique]) (simp_all add: reads_lock_def)
  next
    case False
    with lock have "new = shared_lock_word s" by (auto simp: shared_mutex_cas_def split: if_splits)
    with lock False shared_inv_same [OF assms(2) lock(3)] show ?thesis by simp
  qed
next
  case (unlock t)
  then have "holders Unique s = 1" using assms(2) holders_self [of t s Unique] by (simp add: shared_inv_def)
  then have "2 ^ 63 \<le> unat (shared_lock_word s)" using assms(2) by (simp add: shared_inv_def)
  with unlock show ?thesis
    by (intro shared_inv_move [OF assms(2) unlock(2,3), of _ Outside]) (simp_all add: reads_lock_def unat_xor_mask)
next
  case (lock_shared t old new)
  from shared_word_less [OF assms(2,3) lock_shared(2,3)] have "unat (shared_lock_word s + 1) = unat (shared_lock_word s) + 1"
    by (rule unat_add_one)
  with lock_shared show ?thesis
    using unique_word [OF assms(2,3)] assms(2)
    by (intro shared_inv_move [OF assms(2) lock_shared(2,3) ]) (auto simp: reads_lock_def shared_mutex_add_def shared_inv_def split: if_splits)
next
  case (poll t)
  show ?thesis
  proof (cases "has_unique (shared_lock_word s)")
    case True
    with poll shared_inv_same [OF assms(2) poll(3)] show ?thesis by (cases s) simp
  next
    case False
    with poll show ?thesis
      using unique_word [OF assms(2,3)] assms(2)
      by (intro shared_inv_move [OF assms(2) poll(2,3), of _ Shared]) (auto simp: reads_lock_def shared_inv_def)
  qed
next
  case (try_lock_shared t old new)
  from shared_word_less [OF assms(2,3) try_lock_shared(2,3)] have "unat (shared_lock_word s + 1) = unat (shared_lock_word s) + 1"
    by (rule unat_add_one)
  with try_lock_shared show ?thesis
    using unique_word [OF assms(2,3)] assms(2)
    by (intro shared_inv_move [OF assms(2) try_lock_shared(2,3)]) (auto simp: reads_lock_def shared_mutex_add_def shared_inv_def split: if_splits)
next
  case (back_off t)
  then have "0 < unat (shared_lock_word s)" using assms(2) holders_self [of t s Backing_off] by (simp add: shared_inv_def readers_def)
  with back_off show ?thesis
    by (intro shared_inv_move [OF assms(2) back_off(2,3), of _ Outside]) (simp_all add: reads_lock_def shared_mutex_sub_def unat_dec)
next
  case (unlock_shared t)
  then have "0 < unat (shared_lock_word s)" using assms(2) holders_self [of t s Shared] by (simp add: shared_inv_def readers_def)
  with unlock_shared show ?thesis
    by (intro shared_inv_move [OF assms(2) unlock_shared(2,3), of _ Outside]) (simp_all add: reads_lock_def shared_mutex_sub_def unat_dec)
qed

lemma shared_inv_init: "shared_inv n (shared_init n)"
  by (simp add: shared_inv_def shared_init_def holders_def readers_def)

lemma shared_inv_reachable:
  assumes "shared_step\<^sup>*\<^sup>* (shared_init n) s" "n < 2 ^ 63"
  shows "shared_inv n s"
  using assms(1) by (induction rule: rtranclp_induct) (auto intro: shared_inv_init shared_inv_step assms(2))

subsection \<open>The plain mutex\<close>

definition mutex_inv :: "mutex_state \<Rightarrow> bool" where
  "mutex_inv s \<longleftrightarrow> count (mset (mutex_threads s)) M_inside = of_bool (mutex_lock s)"

lemma mutex_inv_step:
  assumes "mutex_step s s'" "mutex_inv s"
  shows "mutex_inv s'"
  using assms(1)
proof cases
  case (lock t ok new)
  with count_update [OF lock(2), of "if ok then M_inside else M_outside" M_inside] assms(2) show ?thesis
    by (auto simp: mutex_inv_def mutex_cas_def split: if_splits)
next
  case (unlock t)
  then have "0 < count (mset (mutex_threads s)) M_inside" by (metis count_greater_zero_iff nth_mem set_mset_mset)
  with unlock count_update [OF unlock(2), of M_outside M_inside] assms(2) show ?thesis
    by (auto simp: mutex_inv_def mutex_store_def split: if_splits)
qed

lemma mutex_inv_reachable:
  assumes "mutex_step\<^sup>*\<^sup>* (mutex_init n) s"
  shows "mutex_inv s"
  using assms
proof (induction rule: rtranclp_induct)
  case base
  show ?case by (simp add: mutex_inv_def mutex_init_def)
qed (rule mutex_inv_step)

section \<open>Lock objects\<close>

text \<open>
  The move assignment of \<open>shared_lock\<close> gives up a lock it owns with \<open>unlock\<close>, the operation for a
  lock that is held alone: the highest bit of the word is set for good.
\<close>

definition shared_lock_assign :: "bool \<Rightarrow> u64 \<Rightarrow> u64" where
  "shared_lock_assign owns w = (if owns then shared_mutex_xor w else w)"

lemma shared_lock_assign_blocks: "has_unique (shared_lock_assign True 1) \<and> \<not> fst (shared_mutex_cas (shared_lock_assign True 1))"
  by (simp add: shared_lock_assign_def shared_mutex_xor_def unique_mask_def has_unique_def shared_mutex_cas_def)

section \<open>Properties\<close>

text \<open>
  C19. Mutual exclusion. However many threads, fewer than \<open>2\<^sup>6\<^sup>3\<close>, and however their steps interleave, at
  most one thread holds a shared mutex alone, and then no thread holds it with others; and the word
  of the mutex is never zero while any thread holds it.
\<close>

theorem shared_mutex_excludes:
  assumes "shared_step\<^sup>*\<^sup>* (shared_init n) s" "n < 2 ^ 63"
  shows "holders Unique s \<le> 1 \<and> (0 < holders Unique s \<longrightarrow> holders Shared s = 0) \<and>
    (0 < holders Unique s + holders Shared s \<longrightarrow> shared_lock_word s \<noteq> 0)"
  using shared_inv_reachable [OF assms] by (auto simp: shared_inv_def readers_def)

lemma two_threads: "shared_step\<^sup>*\<^sup>* (shared_init 2) \<lparr>shared_lock_word = 2 ^ 63 + 1, shared_threads = [Unique, Waiting]\<rparr>"
proof -
  let ?s = "\<lparr>shared_lock_word = 2 ^ 63, shared_threads = [Unique, Outside]\<rparr>"
  have u: "unique_mask = 2 ^ 63" by (simp add: unique_mask_def)
  have "shared_step (shared_init 2) ?s"
    using shared_step.lock [of 0 "shared_init 2" True "2 ^ 63"] by (simp add: shared_init_def shared_mutex_cas_def u numeral_2_eq_2)
  moreover have "shared_step ?s \<lparr>shared_lock_word = 2 ^ 63 + 1, shared_threads = [Unique, Waiting]\<rparr>"
    using shared_step.lock_shared [of 1 ?s "2 ^ 63" "2 ^ 63 + 1"] by (simp add: shared_mutex_add_def has_unique_def u)
  ultimately show ?thesis by (meson rtranclp.rtrancl_into_rtrancl rtranclp.rtrancl_refl)
qed

theorem shared_mutex_excludes_witness:
  "shared_step\<^sup>*\<^sup>* (shared_init 2) \<lparr>shared_lock_word = 2 ^ 63 + 1, shared_threads = [Unique, Waiting]\<rparr> \<and>
   holders Shared \<lparr>shared_lock_word = 2 ^ 63 + 1, shared_threads = [Unique, Waiting]\<rparr> = 0"
  using shared_mutex_excludes [OF two_threads] two_threads by (simp add: holders_def)

end
