(* ===== verification/Avl_Client.thy ===== *)
theory Avl_Client
  imports Avl_Properties
begin

text \<open>
  What the classes that keep their elements in an \<open>avl_tree\<close> by a key share: a process keeps its handles
  by token (\<open>kernel/scheduler/process.h\<close>), a sparse memory object its pages by offset
  (\<open>kernel/memory/vmo.h\<close>). Their comparators compare keys; such a tree is a finite map from keys to
  elements, and the operations of the tree are the operations of the map. The last section is the
  lifetime of the elements: \<open>std::make_unique\<close> before an insertion, the end of the owning pointer after an
  erasure.
\<close>

section \<open>Trees ordered by a key\<close>

abbreviation key_less :: "('a \<Rightarrow> 'k :: linorder) \<Rightarrow> 'a \<Rightarrow> 'a \<Rightarrow> bool" where
  "key_less key x y \<equiv> key x < key y"

definition tree_index :: "('a \<Rightarrow> 'k) \<Rightarrow> 'a avl_tree \<Rightarrow> addr list \<Rightarrow> 'k \<rightharpoonup> addr" where
  "tree_index key s xs = map_of (map (\<lambda>a. (key (val s a), a)) xs)"

definition find_by_key :: "('a \<Rightarrow> 'k :: linorder) \<Rightarrow> 'a avl_tree \<Rightarrow> 'k \<Rightarrow> addr option" where
  "find_by_key key = avl_find (\<lambda>k x. k < key x) (\<lambda>x k. key x < k)"

lemma transp_key_less: "transp (key_less key)"
  by (auto simp: transp_def)

lemma key_cls_eq_0: "key_cls (\<lambda>k x. k < key x) (\<lambda>x k. key x < k) k s a = 0 \<longleftrightarrow> key (val s a) = (k :: 'k :: linorder)"
  by (auto simp: key_cls_def cls_def)

lemma key_cls_sorted:
  assumes "represents (key_less key) s xs"
  shows "sorted (map (key_cls (\<lambda>k x. k < key x) (\<lambda>x k. key x < k) (k :: 'k :: linorder) s) xs)"
  unfolding sorted_map
  by (rule sorted_wrt_mono_rel [of xs "\<lambda>a b. key (val s a) < key (val s b)"])
    (use assms in \<open>auto simp: represents_def key_cls_def cls_def\<close>)

lemma represents_keys_distinct:
  assumes "represents (key_less key) s xs"
  shows "distinct (map (\<lambda>a. key (val s a)) xs)"
proof -
  from assms have "sorted_wrt (<) (map (\<lambda>a. key (val s a)) xs)" by (simp add: represents_def sorted_wrt_map)
  then show ?thesis by (simp add: strict_sorted_iff)
qed

lemma tree_index_Some:
  assumes "represents (key_less key) s xs"
  shows "tree_index key s xs k = Some a \<longleftrightarrow> a \<in> set xs \<and> key (val s a) = k"
proof -
  have "distinct (map fst (map (\<lambda>a. (key (val s a), a)) xs))"
    using represents_keys_distinct [OF assms] by (simp add: comp_def)
  from map_of_eq_Some_iff [OF this] show ?thesis by (auto simp: tree_index_def)
qed

lemma tree_index_None: "tree_index key s xs k = None \<longleftrightarrow> (\<forall>a \<in> set xs. key (val s a) \<noteq> k)"
  by (simp add: tree_index_def map_of_eq_None_iff image_iff) metis

lemma tree_index_cong: "(\<And>a. a \<in> set xs \<Longrightarrow> val s' a = val s a) \<Longrightarrow> tree_index key s' xs = tree_index key s xs"
  by (simp add: tree_index_def cong: map_cong)

lemma find_by_key_index:
  assumes r: "represents (key_less key) s xs"
  shows "find_by_key key s k = Some (case tree_index key s xs k of None \<Rightarrow> nullptr | Some a \<Rightarrow> a)"
proof -
  from find_refines [OF r key_cls_sorted [OF r], of k] obtain a where a:
    "find_by_key key s k = Some a"
    "a \<noteq> 0 \<and> a \<in> set xs \<and> key (val s a) = k \<or> a = 0 \<and> (\<forall>b \<in> set xs. key (val s b) \<noteq> k)"
    unfolding find_by_key_def key_cls_eq_0 by metis
  then show ?thesis
    using tree_index_Some [OF r, of k a] tree_index_None [of key s xs k] by auto
qed

text \<open>The map after an insertion and after an erasure.\<close>

lemma tree_index_insert:
  assumes "\<forall>a \<in> set (ys @ zs). key (val s a) \<noteq> key (val s e)"
  shows "tree_index key s (ys @ e # zs) = (tree_index key s (ys @ zs))(key (val s e) \<mapsto> e)"
proof -
  have "map_of (map (\<lambda>a. (key (val s a), a)) ys) (key (val s e)) = None"
    using assms by (auto simp: map_of_eq_None_iff)
  then show ?thesis by (auto simp: tree_index_def map_add_def fun_eq_iff split: option.splits)
qed

lemma tree_index_erase:
  assumes "represents (key_less key) s (ys @ a # zs)"
  shows "tree_index key s (ys @ zs) = (tree_index key s (ys @ a # zs))(key (val s a) := None)"
proof -
  have "\<forall>b \<in> set (ys @ zs). key (val s b) \<noteq> key (val s a)"
    using represents_keys_distinct [OF assms] by (simp add: image_iff ball_Un) metis
  then have "tree_index key s (ys @ zs) (key (val s a)) = None" by (simp add: tree_index_None)
  moreover have "tree_index key s (ys @ a # zs) = (tree_index key s (ys @ zs))(key (val s a) \<mapsto> a)"
    using \<open>\<forall>b \<in> set (ys @ zs). key (val s b) \<noteq> key (val s a)\<close> by (rule tree_index_insert)
  ultimately show ?thesis by (simp add: fun_upd_idem)
qed

section \<open>The lifetime of elements\<close>

text \<open>A new element: the links are null, its members are \<open>v\<close>.\<close>

definition new_element :: "'a avl_tree \<Rightarrow> addr \<Rightarrow> 'a \<Rightarrow> 'a avl_tree" where
  "new_element s e v =
     s\<lparr>valid := (valid s)(e := True), prev := (prev s)(e := nullptr), nxt := (nxt s)(e := nullptr),
       tree_parent := (tree_parent s)(e := nullptr), val := (val s)(e := v)\<rparr>"

definition free_element :: "'a avl_tree \<Rightarrow> addr \<Rightarrow> 'a avl_tree" where
  "free_element s e = s\<lparr>valid := (valid s)(e := False)\<rparr>"

text \<open>What the code relies on of the allocator: the address is unused and aligned.\<close>

definition unused :: "'a avl_tree \<Rightarrow> addr \<Rightarrow> bool" where
  "unused s e \<longleftrightarrow> e \<noteq> nullptr \<and> aligned8 e \<and> \<not> valid s e"

lemma tree_at_accessible: "tree_at V P N T q t \<Longrightarrow> a \<in> set (addrs t) \<Longrightarrow> V a \<and> a \<noteq> nullptr"
  by (induction t arbitrary: q) (auto simp: good_addr_def)

lemma represents_valid: "represents cmp s xs \<Longrightarrow> a \<in> set xs \<Longrightarrow> accessible s a"
  by (auto simp: represents_def holds_def accessible_def dest: tree_at_accessible)

lemma tree_at_lifetime: "(\<And>a. a \<in> set (addrs t) \<Longrightarrow> W a = V a) \<Longrightarrow> tree_at W P N T q t = tree_at V P N T q t"
  by (induction t arbitrary: q) (auto simp: good_addr_def)

lemma represents_new_element:
  assumes r: "represents cmp s xs" and e: "unused s e"
  shows "represents cmp (new_element s e v) xs" "detached (new_element s e v) e" "e \<notin> set xs"
proof -
  show e': "e \<notin> set xs" using represents_valid [OF r] e by (auto simp: accessible_def unused_def)
  from r obtain t where t: "holds s [] t" "bal t" "addrs t = xs" by (auto simp: represents_def)
  then have "tree_at ((valid s)(e := True)) (prev s) (nxt s) (tree_parent s) 0 t"
    using e' by (subst tree_at_lifetime [where V = "valid s"]) (auto simp: holds_def)
  with t e' have "holds (new_element s e v) [] t" by (auto simp: holds_def new_element_def)
  then show "represents cmp (new_element s e v) xs"
    using r t e' by (auto simp: represents_def new_element_def intro: sorted_wrt_mono_rel [rotated])
  show "detached (new_element s e v) e"
    using e by (simp add: detached_def new_element_def unused_def good_addr_def)
qed

lemma represents_free_element:
  assumes r: "represents cmp s xs" and e: "e \<notin> set xs"
  shows "represents cmp (free_element s e) xs"
proof -
  from r obtain t where t: "holds s [] t" "bal t" "addrs t = xs" by (auto simp: represents_def)
  then have "tree_at ((valid s)(e := False)) (prev s) (nxt s) (tree_parent s) 0 t"
    using e by (subst tree_at_lifetime [where V = "valid s"]) (auto simp: holds_def)
  with t have "holds (free_element s e) [] t" by (auto simp: holds_def free_element_def)
  then show ?thesis using r t e by (auto simp: represents_def free_element_def)
qed

lemma insert_new_key:
  assumes r: "represents (key_less key) s xs" and e: "unused s e" and k: "tree_index key s xs (key v) = None"
  obtains s' xs' where "avl_insert (key_less key) (new_element s e v) e = Some (s', e, True)"
    "represents (key_less key) s' xs'" "tree_index key s' xs' = (tree_index key s xs)(key v \<mapsto> e)"
    "set xs' = insert e (set xs)" "valid s' = (valid s)(e := True)" "val s' = (val s)(e := v)"
proof -
  let ?s = "new_element s e v"
  note n = represents_new_element(1,2) [OF r e, where v = v] represents_new_element(3) [OF r e]
  have v: "val ?s e = v" "\<And>a. a \<in> set xs \<Longrightarrow> val ?s a = val s a" using n(3) by (auto simp: new_element_def)
  have k': "\<forall>a \<in> set xs. key (val s a) \<noteq> key v" using k by (simp add: tree_index_None)
  have "\<forall>a \<in> set xs. key_less key (val ?s e) (val ?s a) \<or> key_less key (val ?s a) (val ?s e)"
    using v k' by (auto simp: neq_iff)
  from insert_new [OF n(1) transp_key_less n(2,3) this] obtain s' ys zs where
    s': "avl_insert (key_less key) ?s e = Some (s', e, True)" "xs = ys @ zs"
      "represents (key_less key) s' (ys @ e # zs)" "same_outside (insert e (set xs)) ?s s'" .
  have val: "val s' = (val s)(e := v)" "valid s' = (valid s)(e := True)"
    using s'(4) by (auto simp: same_outside_def new_element_def)
  have "tree_index key s' (ys @ e # zs) = (tree_index key s' xs)(key v \<mapsto> e)"
    using tree_index_insert [of ys zs key s' e] k' n(3) s'(2) val by (metis fun_upd_apply)
  also have "tree_index key s' xs = tree_index key s xs" by (rule tree_index_cong) (use val n(3) in auto)
  finally have "tree_index key s' (ys @ e # zs) = (tree_index key s xs)(key v \<mapsto> e)" .
  with val s'(2) show thesis by (intro that [OF s'(1,3)]) auto
qed

lemma erase_key:
  assumes r: "represents (key_less key) s xs" and k: "tree_index key s xs k = Some a"
    and d: "\<not> root_needs_double_rotation s a"
  obtains s' b xs' where "avl_erase s a = Some (s', b)" "represents (key_less key) (free_element s' a) xs'"
    "tree_index key (free_element s' a) xs' = (tree_index key s xs)(k := None)"
    "set xs' = set xs - {a}" "valid s' = valid s" "val s' = val s"
proof -
  from k have a: "a \<in> set xs" "key (val s a) = k" by (auto simp: tree_index_Some [OF r])
  then obtain ys zs where xs: "xs = ys @ a # zs" by (auto simp: in_set_conv_decomp)
  from erase_refines [OF r xs] d obtain s' where s': "avl_erase s a = Some (s', first zs)"
      "represents (key_less key) s' (ys @ zs)" "same_outside (set xs) s s'"
    by metis
  have na: "a \<notin> set (ys @ zs)" using represents_distinct [OF r] xs by simp
  have v: "val s' = val s" "valid s' = valid s" using s'(3) by (auto simp: same_outside_def)
  have "tree_index key (free_element s' a) (ys @ zs) = (tree_index key s xs)(k := None)"
    using tree_index_erase [of key s ys a zs] r xs a tree_index_cong [of "ys @ zs" "free_element s' a" s key] v
    by (simp add: free_element_def)
  with that [OF s'(1) represents_free_element [OF s'(2) na]] na xs v show thesis by auto
qed

end
