(* ===== verification/Timers.thy ===== *)
theory Timers
  imports Heap_Properties Avl_Client Kernel_Result
begin

text \<open>
  Timers (\<open>kernel/time/time.h\<close>, \<open>time.cpp\<close>): pending events in a \<open>tree_heap\<close> by trigger time. A timer object
  is used by one core at a time. Times are in nanoseconds, as integers: the code's 64 bit counts cover 292 years.

  The pure virtual functions of the class are the hardware: \<open>clock n\<close> is what \<open>_update_now\<close> finds at the
  reading number \<open>n\<close>, and \<open>armed\<close> records the last call of \<open>_one_shot_after\<close>. A callback is a function
  pointer with its context; \<open>call\<close>, a parameter, is what running it does to the timer and to the rest of the
  kernel. \<open>fired\<close> records the descriptors whose callbacks have been run; no operation reads it.
\<close>

section \<open>Timer objects\<close>

record 'c descriptor =
  did :: u64
  trigger_time :: int
  callback :: 'c
  dvalid :: bool
  dcount :: u64           \<comment> \<open>\<open>intrusive_count\<close>\<close>

record 'c timer =
  theap :: "'c descriptor tree_heap"
  tnow :: int
  tlock :: bool
  next_id :: u64
  readings :: nat
  armed :: "int option"
  fired :: "addr list"

type_synonym ('c, 'e) world = "'c timer \<times> 'e"

datatype mode = One_shot | Periodic

definition descriptor_less :: "'c descriptor \<Rightarrow> 'c descriptor \<Rightarrow> bool" where
  "descriptor_less lhs rhs = (trigger_time lhs < trigger_time rhs)"

definition periodic_bit :: u64 where
  "periodic_bit = push_bit 63 1"

definition update_now :: "(nat \<Rightarrow> int) \<Rightarrow> 'c timer \<Rightarrow> 'c timer" where
  "update_now clock T = T\<lparr>tnow := clock (readings T), readings := Suc (readings T)\<rparr>"

definition timer_now :: "(nat \<Rightarrow> int) \<Rightarrow> 'c timer \<Rightarrow> ('c timer \<times> int) result" where
  "timer_now clock T =
     (if tlock T then Inl Deadlock else let T = update_now clock T in Inr (T, tnow T))"

text \<open>The members of a descriptor that is live.\<close>

definition modify_descriptor :: "'c timer \<Rightarrow> addr \<Rightarrow> ('c descriptor \<Rightarrow> 'c descriptor) \<Rightarrow> 'c timer" where
  "modify_descriptor T d f = T\<lparr>theap := (theap T)\<lparr>val := (val (theap T))(d := f (val (theap T) d))\<rparr>\<rparr>"

text \<open>The end of an owning pointer to a descriptor.\<close>

definition drop_descriptor :: "'c timer \<Rightarrow> addr \<Rightarrow> 'c timer" where
  "drop_descriptor T d =
     (let old = dcount (val (theap T) d);
          T = modify_descriptor T d (dcount_update (\<lambda>c. c - 1))
      in if old = 1 then T\<lparr>theap := (theap T)\<lparr>valid := (valid (theap T))(d := False)\<rparr>\<rparr> else T)"

section \<open>Running the expired events\<close>

text \<open>One round of the loop of \<open>_schedule_next\<close>, for a heap whose top has expired.\<close>

definition fire_top ::
    "(nat \<Rightarrow> int) \<Rightarrow> ('c \<Rightarrow> ('c, 'e) world \<Rightarrow> ('c, 'e) world result option) \<Rightarrow> ('c, 'e) world \<Rightarrow> ('c, 'e) world result option" where
  "fire_top clock call w = (case w of (T, env) \<Rightarrow>
     obnd (Some (deref (heap_pop descriptor_less (theap T)))) (\<lambda>(hp, desc).
     let T = T\<lparr>theap := hp, tlock := False\<rparr>
     in obnd (Some (deref (read_val hp desc))) (\<lambda>d.
        obnd (if dvalid d then call (callback d) (T\<lparr>fired := fired T @ [desc]\<rparr>, env) else Some (Inr (T, env))) (\<lambda>(T, env).
        if tlock T then Some (Inl Deadlock)
        else let T = update_now clock (T\<lparr>tlock := True\<rparr>)
             in if did (val (theap T) desc) AND periodic_bit \<noteq> 0
                then Some (Inl (Panic ''implement periodic timer events already''))
                else Some (Inr (drop_descriptor T desc, env))))))"

partial_function (option) fire_expired ::
    "(nat \<Rightarrow> int) \<Rightarrow> ('c \<Rightarrow> ('c, 'e) world \<Rightarrow> ('c, 'e) world result option) \<Rightarrow> ('c, 'e) world \<Rightarrow> ('c, 'e) world result option" where
  "fire_expired clock call w =
     (let top = peek (theap (fst w))
      in if top = nullptr then Some (Inr w)
         else case read_val (theap (fst w)) top of
                None \<Rightarrow> Some (Inl Fault)
              | Some d \<Rightarrow>
                  if trigger_time d > tnow (fst w) then Some (Inr w)
                  else do {
                    r \<leftarrow> fire_top clock call w;
                    case r of Inl e \<Rightarrow> Some (Inl e) | Inr w' \<Rightarrow> fire_expired clock call w'
                  })"

definition schedule_next ::
    "(nat \<Rightarrow> int) \<Rightarrow> ('c \<Rightarrow> ('c, 'e) world \<Rightarrow> ('c, 'e) world result option) \<Rightarrow> ('c, 'e) world \<Rightarrow> ('c, 'e) world result option" where
  "schedule_next clock call w = (case w of (T, env) \<Rightarrow>
     if tlock T then Some (Inl Deadlock)
     else
       do {
         r \<leftarrow> fire_expired clock call (update_now clock (T\<lparr>tlock := True\<rparr>), env);
         Some (bnd r (\<lambda>(T, env).
           let top = peek (theap T)
           in if top = nullptr then Inr (T\<lparr>tlock := False\<rparr>, env)
              else Inr (T\<lparr>armed := Some (trigger_time (val (theap T) top) - tnow T), tlock := False\<rparr>, env)))
       })"

definition timer_handle ::
    "(nat \<Rightarrow> int) \<Rightarrow> ('c \<Rightarrow> ('c, 'e) world \<Rightarrow> ('c, 'e) world result option) \<Rightarrow> ('c, 'e) world \<Rightarrow> ('c, 'e) world result option" where
  "timer_handle clock call self = schedule_next clock call self"

section \<open>New events\<close>

text \<open>
  \<open>_do\<close>: \<open>e\<close> is the address of the new descriptor. It is counted twice on the way, by the heap and by the
  event token that is returned.
\<close>

definition add_event ::
    "(nat \<Rightarrow> int) \<Rightarrow> 'c timer \<Rightarrow> int \<Rightarrow> 'c \<Rightarrow> mode \<Rightarrow> addr \<Rightarrow> 'c timer result" where
  "add_event clock T dur cb m e =
     (if tlock T then Inl Deadlock
      else
        let T = update_now clock T;
            T = T\<lparr>next_id := next_id T + 1\<rparr>;
            d = \<lparr>did = next_id T OR (if m = Periodic then periodic_bit else 0), trigger_time = tnow T + dur,
                 callback = cb, dvalid = True, dcount = 2\<rparr>;
            hp = (theap T)\<lparr>valid := (valid (theap T))(e := True), prev := (prev (theap T))(e := nullptr),
                 nxt := (nxt (theap T))(e := nullptr), tree_parent := (tree_parent (theap T))(e := nullptr),
                 val := (val (theap T))(e := d)\<rparr>
        in if next_id T AND periodic_bit \<noteq> 0 then Inl (Panic ''Somehow, timer IDs have been exhausted!'')
           else bnd (deref (heap_push descriptor_less hp e)) (\<lambda>hp. Inr (T\<lparr>theap := hp\<rparr>)))"

definition timer_do ::
    "(nat \<Rightarrow> int) \<Rightarrow> ('c \<Rightarrow> ('c, 'e) world \<Rightarrow> ('c, 'e) world result option) \<Rightarrow> ('c, 'e) world \<Rightarrow> int \<Rightarrow> 'c \<Rightarrow> mode \<Rightarrow> addr \<Rightarrow>
     (('c, 'e) world \<times> addr) result option" where
  "timer_do clock call w dur cb m e =
     (case add_event clock (fst w) dur cb m e of
        Inl err \<Rightarrow> Some (Inl err)
      | Inr T \<Rightarrow> do {
          r \<leftarrow> schedule_next clock call (T, snd w);
          Some (bnd r (\<lambda>w. Inr (w, e)))
        })"

definition timer_one_shot ::
    "(nat \<Rightarrow> int) \<Rightarrow> ('c \<Rightarrow> ('c, 'e) world \<Rightarrow> ('c, 'e) world result option) \<Rightarrow> ('c, 'e) world \<Rightarrow> int \<Rightarrow> 'c \<Rightarrow> addr \<Rightarrow>
     (('c, 'e) world \<times> addr) result option" where
  "timer_one_shot clock call w dur cb e = timer_do clock call w dur cb One_shot e"

text \<open>\<open>event_token::cancel\<close>: the token gives its count up with \<open>release(drop_count)\<close>.\<close>

definition event_cancel :: "'c timer \<Rightarrow> addr \<Rightarrow> 'c timer result" where
  "event_cancel T d =
     (if accessible (theap T) d
      then Inr (modify_descriptor T d (\<lambda>v. v\<lparr>dvalid := False, dcount := dcount v - 1\<rparr>))
      else Inl Fault)"

section \<open>The registered timers\<close>

text \<open>
  \<open>register_high_precision_timer\<close> and \<open>get_high_precision_timer\<close>; a timer is named by its address.
  \<open>per_core core\<close> stands for \<open>arch::timers::get_high_precision_timer_for\<close>.
\<close>

record timer_registry =
  hpt :: addr
  per_core_hpt_available :: bool

definition register_high_precision_timer :: "timer_registry \<Rightarrow> addr \<Rightarrow> timer_registry result" where
  "register_high_precision_timer R high_precision =
     (if hpt R \<noteq> nullptr
      then Inl (Panic ''Tried to register a high precision timer with another already registered!'')
      else Inr (R\<lparr>hpt := high_precision\<rparr>))"

definition get_high_precision_timer :: "timer_registry \<Rightarrow> (nat \<Rightarrow> addr) \<Rightarrow> nat \<Rightarrow> bool \<Rightarrow> addr result" where
  "get_high_precision_timer R per_core core main =
     (if \<not> main \<and> per_core_hpt_available R then Inr (per_core core)
      else if hpt R = nullptr then Inl (Panic ''Global high precision clock requested, but not registered!'')
      else Inr (hpt R))"

section \<open>The heap of pending events\<close>

lemma strict_weak_descriptor_less [simp]: "strict_weak descriptor_less"
  by (auto simp: strict_weak_def descriptor_less_def)

lemma heap_rep_top:
  assumes "heap_rep cmp s A" and "A \<noteq> {}"
  shows "peek s \<in> A \<and> peek s \<noteq> nullptr \<and> accessible s (peek s) \<and> (\<forall>y \<in> A. y \<noteq> peek s \<longrightarrow> \<not> cmp (val s y) (val s (peek s)))"
proof -
  from assms(1) obtain t where t: "heap_holds s [] t" "heap_ord cmp (val s) t" "set (addrs t) = A"
    by (auto simp: heap_rep_def)
  with assms(2) obtain l x r where "t = Node l x r" by (cases t) auto
  with t show ?thesis by (auto simp: heap_holds_def holds_def peek_def good_addr_def accessible_def)
qed

lemma heap_rep_valid: "heap_rep cmp s A \<Longrightarrow> a \<in> A \<Longrightarrow> accessible s a"
  using tree_at_good by (fastforce simp: heap_rep_def heap_holds_def holds_def accessible_def good_addr_def)

lemma heap_ord_cong: "(\<And>y. y \<in> set (addrs t) \<Longrightarrow> W y = V y) \<Longrightarrow> heap_ord cmp W t = heap_ord cmp V t"
  by (induction t) auto

lemma heap_rep_val:
  assumes "heap_rep cmp s A" and "\<And>y. y \<in> A \<Longrightarrow> W y = val s y"
  shows "heap_rep cmp (s\<lparr>val := W\<rparr>) A"
proof -
  from assms(1) obtain t where t: "heap_holds s [] t" "left_filled t (card A)" "heap_ord cmp (val s) t"
    "set (addrs t) = A" and sz: "size s = of_nat (card A)" by (auto simp: heap_rep_def)
  moreover have "heap_ord cmp W t" using t assms(2) heap_ord_cong [of t W "val s" cmp] by blast
  ultimately show ?thesis by (auto simp: heap_rep_def heap_holds_def holds_def)
qed

lemma drop_descriptor_rep:
  assumes "heap_rep descriptor_less (theap T) A" and "d \<notin> A"
  shows "heap_rep descriptor_less (theap (drop_descriptor T d)) A"
    and "y \<noteq> d \<Longrightarrow> val (theap (drop_descriptor T d)) y = val (theap T) y"
proof -
  let ?hp = "(theap T)\<lparr>val := (val (theap T))(d := dcount_update (\<lambda>c. c - 1) (val (theap T) d))\<rparr>"
  have "heap_rep descriptor_less ?hp A" by (rule heap_rep_val [OF assms(1)]) (use assms(2) in auto)
  with heap_rep_release [OF this assms(2)] show "heap_rep descriptor_less (theap (drop_descriptor T d)) A"
    by (simp add: drop_descriptor_def modify_descriptor_def Let_def)
  show "y \<noteq> d \<Longrightarrow> val (theap (drop_descriptor T d)) y = val (theap T) y"
    by (simp add: drop_descriptor_def modify_descriptor_def Let_def)
qed

lemma drop_descriptor_simps [simp]:
  "tnow (drop_descriptor T d) = tnow T" "tlock (drop_descriptor T d) = tlock T" "readings (drop_descriptor T d) = readings T"
  "armed (drop_descriptor T d) = armed T" "fired (drop_descriptor T d) = fired T"
  by (simp_all add: drop_descriptor_def modify_descriptor_def Let_def)

text \<open>Callbacks that leave the timer alone, and descriptors of one-shot events.\<close>

definition leaves_timer :: "('c \<Rightarrow> ('c, 'e) world \<Rightarrow> ('c, 'e) world result option) \<Rightarrow> bool" where
  "leaves_timer call \<longleftrightarrow> (\<forall>c T env. \<exists>env'. call c (T, env) = Some (Inr (T, env')))"

definition one_shots :: "'c timer \<Rightarrow> addr set \<Rightarrow> bool" where
  "one_shots T A \<longleftrightarrow> (\<forall>d \<in> A. did (val (theap T) d) AND periodic_bit = 0)"

definition earlier :: "'c timer \<Rightarrow> addr \<Rightarrow> addr \<Rightarrow> bool" where
  "earlier T a b \<longleftrightarrow> trigger_time (val (theap T) a) \<le> trigger_time (val (theap T) b)"

lemma fire_top_passive:
  assumes r: "heap_rep descriptor_less (theap T) A" "A \<noteq> {}" and p: "leaves_timer call" and o: "one_shots T A"
  obtains T' env' d where "fire_top clock call (T, env) = Some (Inr (T', env'))" "d \<in> A" "\<forall>y \<in> A. earlier T d y"
    "heap_rep descriptor_less (theap T') (A - {d})" "\<forall>y \<in> A - {d}. val (theap T') y = val (theap T) y"
    "tnow T' = clock (readings T)" "readings T' = Suc (readings T)" "tlock T'" "armed T' = armed T"
    "fired T' = fired T @ (if dvalid (val (theap T) d) then [d] else [])"
proof -
  from pop_refines [OF strict_weak_descriptor_less r] obtain hp d where
    hp: "heap_pop descriptor_less (theap T) = Some (hp, d)" "popped descriptor_less (theap T) A hp d" .
  from hp(2) have d: "d \<in> A" "\<forall>y \<in> A. earlier T d y" "heap_rep descriptor_less hp (A - {d})"
      "val hp = val (theap T)" "valid hp = valid (theap T)"
    by (auto simp: popped_def earlier_def descriptor_less_def same_outside_def not_less)
  have "accessible hp d" using heap_rep_valid [OF r(1) d(1)] d(5) by (simp add: accessible_def)
  let ?f = "fired T @ (if dvalid (val (theap T) d) then [d] else [])"
  let ?T = "T\<lparr>theap := hp, tlock := False, fired := ?f\<rparr>"
  obtain env' where "(if dvalid (val (theap T) d) then call (callback (val (theap T) d)) (T\<lparr>theap := hp, tlock := False, fired := fired T @ [d]\<rparr>, env)
      else Some (Inr (T\<lparr>theap := hp, tlock := False\<rparr>, env))) = Some (Inr (?T, env'))"
    using p unfolding leaves_timer_def by (cases "dvalid (val (theap T) d)") (simp_all, metis)
  then have "fire_top clock call (T, env) = Some (Inr (drop_descriptor (update_now clock (?T\<lparr>tlock := True\<rparr>)) d, env'))"
    using hp(1) \<open>accessible hp d\<close> d o
    by (cases "dvalid (val (theap T) d)") (simp_all add: fire_top_def reads_accessible one_shots_def update_now_def)
  moreover have "heap_rep descriptor_less (theap (update_now clock (?T\<lparr>tlock := True\<rparr>))) (A - {d})"
    using d(3) by (simp add: update_now_def)
  note drop_descriptor_rep [OF this, of d]
  ultimately show thesis using that d(1,2,4) by (simp add: update_now_def)
qed

lemma fire_expired_passive:
  assumes p: "leaves_timer call" and mono: "mono clock"
  shows "heap_rep descriptor_less (theap T) A \<Longrightarrow> one_shots T A \<Longrightarrow> tnow T \<le> clock (readings T) \<Longrightarrow> tlock T \<Longrightarrow>
    \<exists>T' env' B xs. fire_expired clock call (T, env) = Some (Inr (T', env')) \<and> heap_rep descriptor_less (theap T') B \<and> B \<subseteq> A \<and>
      (\<forall>y \<in> B. val (theap T') y = val (theap T) y \<and> tnow T' < trigger_time (val (theap T) y)) \<and>
      (\<forall>y \<in> A - B. trigger_time (val (theap T) y) \<le> tnow T') \<and> tnow T \<le> tnow T' \<and> tlock T' \<and> armed T' = armed T \<and>
      fired T' = fired T @ xs \<and> set xs = {y \<in> A - B. dvalid (val (theap T) y)} \<and> distinct xs \<and> sorted_wrt (earlier T) xs"
proof (induction "card A" arbitrary: A T env)
  case 0
  then have "A = {}" using heap_rep_bound(1) [OF 0(2)] by simp
  with 0 heap_rep_peek [OF 0(2)] show ?case
    by (intro exI [of _ T] exI [of _ env] exI [of _ "{}"] exI [of _ "[]"])
      (simp add: fire_expired.simps peek_def)
next
  case (Suc n)
  then have ne: "A \<noteq> {}" by auto
  let ?top = "peek (theap T)"
  note top = heap_rep_top [OF Suc.prems(1) ne]
  have least: "\<forall>y \<in> A. earlier T ?top y" using top by (auto simp: earlier_def descriptor_less_def not_less) 
  show ?case
  proof (cases "trigger_time (val (theap T) ?top) > tnow T")
    case True
    with top least Suc.prems show ?thesis
      by (intro exI [of _ T] exI [of _ env] exI [of _ A] exI [of _ "[]"])
        (auto simp: fire_expired.simps reads_accessible earlier_def)
  next
    case False
    obtain T1 env1 d where s: "fire_top clock call (T, env) = Some (Inr (T1, env1))" "d \<in> A" "\<forall>y \<in> A. earlier T d y"
        "heap_rep descriptor_less (theap T1) (A - {d})" "\<forall>y \<in> A - {d}. val (theap T1) y = val (theap T) y"
        "tnow T1 = clock (readings T)" "readings T1 = Suc (readings T)" "tlock T1" "armed T1 = armed T"
        "fired T1 = fired T @ (if dvalid (val (theap T) d) then [d] else [])"
      by (rule fire_top_passive [OF Suc.prems(1) ne p Suc.prems(2), of clock env])
    have "n = card (A - {d})" using Suc.hyps(2) s(2) heap_rep_bound(1) [OF Suc.prems(1)] by simp
    moreover have "one_shots T1 (A - {d})" using Suc.prems(2) s(5) by (auto simp: one_shots_def)
    moreover have "tnow T1 \<le> clock (readings T1)" using mono s(6,7) by (simp add: monoD)
    ultimately obtain T' env' B xs where
      I: "fire_expired clock call (T1, env1) = Some (Inr (T', env'))" "heap_rep descriptor_less (theap T') B" "B \<subseteq> A - {d}"
        "\<forall>y \<in> B. val (theap T') y = val (theap T1) y \<and> tnow T' < trigger_time (val (theap T1) y)"
        "\<forall>y \<in> (A - {d}) - B. trigger_time (val (theap T1) y) \<le> tnow T'" "tnow T1 \<le> tnow T'" "tlock T'" "armed T' = armed T1"
        "fired T' = fired T1 @ xs" "set xs = {y \<in> (A - {d}) - B. dvalid (val (theap T1) y)}" "distinct xs"
        "sorted_wrt (earlier T1) xs"
      using Suc.hyps(1) [of "A - {d}" T1 env1] s(4,8) by auto
    let ?first = "if dvalid (val (theap T) d) then [d] else []"
    have "fire_expired clock call (T, env) = Some (Inr (T', env'))"
      using top False s(1) I(1) by (subst fire_expired.simps) (simp add: reads_accessible)
    moreover have "trigger_time (val (theap T) d) \<le> tnow T'"
      using s(2,3,6) top False Suc.prems(3) I(6) by (auto simp: earlier_def)
    moreover have same: "val (theap T1) y = val (theap T) y" if "y \<in> set xs" for y using that I(10) s(5) by auto
    have "sorted_wrt (earlier T) xs"
      by (rule sorted_wrt_mono_rel [OF _ I(12)]) (simp add: earlier_def same)
    moreover have "sorted_wrt (earlier T) (?first @ xs)"
      using \<open>sorted_wrt (earlier T) xs\<close> I(10) s(3) by (auto simp: sorted_wrt_append)
    moreover have "set xs = {y \<in> A - {d} - B. dvalid (val (theap T) y)}" unfolding I(10) by (rule Collect_cong) (use s(5) in auto)
    then have "set (?first @ xs) = {y \<in> A - B. dvalid (val (theap T) y)}" "distinct (?first @ xs)"
      using I(3,11) s(2) by auto
    moreover have "\<forall>y \<in> B. val (theap T') y = val (theap T) y \<and> tnow T' < trigger_time (val (theap T) y)"
    proof
      fix y assume y: "y \<in> B"
      with I(3) s(5) have "val (theap T1) y = val (theap T) y" by blast
      with bspec [OF I(4) y] show "val (theap T') y = val (theap T) y \<and> tnow T' < trigger_time (val (theap T) y)" by simp
    qed
    moreover have "\<forall>y \<in> A - B. trigger_time (val (theap T) y) \<le> tnow T'"
      using I(5) s(5) \<open>trigger_time (val (theap T) d) \<le> tnow T'\<close> by auto
    moreover have "B \<subseteq> A" "tnow T \<le> tnow T'" "fired T' = fired T @ ?first @ xs" "armed T' = armed T"
      using I(3,6,8,9) s(6,9,10) Suc.prems(3) by auto
    ultimately show ?thesis using I(2,7) by blast
  qed
qed

section \<open>When no live event expires\<close>

text \<open>
  Cancelled events stay in the heap until they expire, and then no callback runs. \<open>quiet\<close> says that
  over the next \<open>k\<close> readings of the clock no event of \<open>A\<close> that is still valid expires.
\<close>

definition quiet :: "(nat \<Rightarrow> int) \<Rightarrow> 'c timer \<Rightarrow> nat \<Rightarrow> addr set \<Rightarrow> bool" where
  "quiet clock T k A \<longleftrightarrow> (\<forall>d \<in> A. dvalid (val (theap T) d) \<longrightarrow>
     (\<forall>i < k. clock (readings T + i) < trigger_time (val (theap T) d)))"

lemma fire_top_silent:
  assumes r: "heap_rep descriptor_less (theap T) A" "A \<noteq> {}" and o: "one_shots T A"
    and live: "\<forall>d \<in> A. dvalid (val (theap T) d) \<longrightarrow> tnow T < trigger_time (val (theap T) d)"
    and top: "trigger_time (val (theap T) (peek (theap T))) \<le> tnow T"
  obtains T' d where "fire_top clock call (T, env) = Some (Inr (T', env))" "d \<in> A" "\<not> dvalid (val (theap T) d)"
    "heap_rep descriptor_less (theap T') (A - {d})" "\<forall>y \<in> A - {d}. val (theap T') y = val (theap T) y"
    "tnow T' = clock (readings T)" "readings T' = Suc (readings T)" "tlock T'" "fired T' = fired T" "next_id T' = next_id T"
proof -
  from pop_refines [OF strict_weak_descriptor_less r] obtain hp d where
    hp: "heap_pop descriptor_less (theap T) = Some (hp, d)" "popped descriptor_less (theap T) A hp d" .
  from hp(2) have d: "d \<in> A" "heap_rep descriptor_less hp (A - {d})" "val hp = val (theap T)" "valid hp = valid (theap T)"
    by (auto simp: popped_def same_outside_def)
  have "peek (theap T) \<in> A" using heap_rep_top [OF r] by blast
  then have "trigger_time (val (theap T) d) \<le> tnow T"
    using hp(2) top by (fastforce simp: popped_def descriptor_less_def not_less)
  with live d(1) have nv: "\<not> dvalid (val (theap T) d)" by fastforce
  have "accessible hp d" using heap_rep_valid [OF r(1) d(1)] d(4) by (simp add: accessible_def)
  let ?T = "update_now clock (T\<lparr>theap := hp, tlock := True\<rparr>)"
  have "fire_top clock call (T, env) = Some (Inr (drop_descriptor ?T d, env))"
    using hp(1) \<open>accessible hp d\<close> d o nv
    by (simp add: fire_top_def reads_accessible one_shots_def update_now_def)
  moreover have "heap_rep descriptor_less (theap ?T) (A - {d})" using d(2) by (simp add: update_now_def)
  note drop_descriptor_rep [OF this, of d]
  moreover have "next_id (drop_descriptor ?T d) = next_id T"
    by (simp add: drop_descriptor_def modify_descriptor_def Let_def update_now_def)
  ultimately show thesis using that d(1,3) nv by (simp add: update_now_def)
qed

lemma fire_expired_quiet:
  "heap_rep descriptor_less (theap T) A \<Longrightarrow> one_shots T A \<Longrightarrow> tlock T \<Longrightarrow> quiet clock T (card A) A \<Longrightarrow>
   \<forall>d \<in> A. dvalid (val (theap T) d) \<longrightarrow> tnow T < trigger_time (val (theap T) d) \<Longrightarrow>
   \<exists>T' B. fire_expired clock call (T, env) = Some (Inr (T', env)) \<and> heap_rep descriptor_less (theap T') B \<and> B \<subseteq> A \<and>
     {d \<in> A. dvalid (val (theap T) d)} \<subseteq> B \<and> (\<forall>y \<in> B. val (theap T') y = val (theap T) y) \<and>
     tlock T' \<and> fired T' = fired T \<and> next_id T' = next_id T"
proof (induction "card A" arbitrary: A T)
  case 0
  then have "A = {}" using heap_rep_bound(1) [OF 0(2)] by simp
  with 0 heap_rep_peek [OF 0(2)] show ?case
    by (intro exI [of _ T] exI [of _ "{}"]) (simp add: fire_expired.simps peek_def)
next
  case (Suc n)
  then have ne: "A \<noteq> {}" by auto
  note top = heap_rep_top [OF Suc.prems(1) ne]
  show ?case
  proof (cases "trigger_time (val (theap T) (peek (theap T))) > tnow T")
    case True
    with top Suc.prems show ?thesis
      by (intro exI [of _ T] exI [of _ A]) (auto simp: fire_expired.simps reads_accessible)
  next
    case False
    then have "trigger_time (val (theap T) (peek (theap T))) \<le> tnow T" by simp
    from fire_top_silent [OF Suc.prems(1) ne Suc.prems(2,5) this, of clock call env] obtain T1 d where
      s: "fire_top clock call (T, env) = Some (Inr (T1, env))" "d \<in> A" "\<not> dvalid (val (theap T) d)"
        "heap_rep descriptor_less (theap T1) (A - {d})" "\<forall>y \<in> A - {d}. val (theap T1) y = val (theap T) y"
        "tnow T1 = clock (readings T)" "readings T1 = Suc (readings T)" "tlock T1" "fired T1 = fired T" "next_id T1 = next_id T" .
    have n: "n = card (A - {d})" using Suc.hyps(2) s(2) heap_rep_bound(1) [OF Suc.prems(1)] by simp
    have "one_shots T1 (A - {d})" using Suc.prems(2) s(5) by (auto simp: one_shots_def)
    moreover have "quiet clock T1 (card (A - {d})) (A - {d})"
      using Suc.prems(4) s(5,7) unfolding quiet_def Suc.hyps(2) [symmetric] n [symmetric] by fastforce
    moreover have "\<forall>d \<in> A - {d}. dvalid (val (theap T1) d) \<longrightarrow> tnow T1 < trigger_time (val (theap T1) d)"
      using Suc.prems(4) s(5,6) unfolding quiet_def Suc.hyps(2) [symmetric] by fastforce
    ultimately obtain T' B where I: "fire_expired clock call (T1, env) = Some (Inr (T', env))"
        "heap_rep descriptor_less (theap T') B" "B \<subseteq> A - {d}" "{y \<in> A - {d}. dvalid (val (theap T1) y)} \<subseteq> B"
        "\<forall>y \<in> B. val (theap T') y = val (theap T1) y" "tlock T'" "fired T' = fired T1" "next_id T' = next_id T1"
      using Suc.hyps(1) [OF n s(4) _ s(8)] by blast
    have "fire_expired clock call (T, env) = Some (Inr (T', env))"
      using top False s(1) I(1) by (subst fire_expired.simps) (simp add: reads_accessible)
    moreover have "{y \<in> A. dvalid (val (theap T) y)} \<subseteq> B"
    proof
      fix y assume y: "y \<in> {y \<in> A. dvalid (val (theap T) y)}"
      with s(3) have "y \<in> A - {d}" by auto
      with y s(5) I(4) show "y \<in> B" by auto
    qed
    moreover have "\<forall>y \<in> B. val (theap T') y = val (theap T) y" using I(3,5) s(5) by fastforce
    ultimately show ?thesis using I(2,3,6,7,8) s(9,10) by (intro exI [of _ T'] exI [of _ B]) auto
  qed
qed

text \<open>
  A new event is then queued and no callback runs; \<open>card A + 2\<close> readings are enough: one in \<open>_do\<close>, one at
  the start of \<open>_schedule_next\<close> and one for each event that is popped.
\<close>

lemma heap_rep_new_element:
  assumes "heap_rep cmp s A" and "e \<notin> A"
  shows "heap_rep cmp (s\<lparr>valid := (valid s)(e := True), prev := (prev s)(e := 0), nxt := (nxt s)(e := 0),
    tree_parent := (tree_parent s)(e := 0), val := (val s)(e := v)\<rparr>) A"
proof -
  from assms(1) obtain t where t: "heap_holds s [] t" "left_filled t (card A)" "heap_ord cmp (val s) t"
    "set (addrs t) = A" and sz: "size s = of_nat (card A)" by (auto simp: heap_rep_def)
  have "tree_at ((valid s)(e := True)) P N T q t = tree_at (valid s) P N T q t" for P N T q
    by (rule tree_at_lifetime) (use t(4) assms(2) in auto)
  then have "heap_holds (s\<lparr>valid := (valid s)(e := True), prev := (prev s)(e := 0), nxt := (nxt s)(e := 0),
      tree_parent := (tree_parent s)(e := 0), val := (val s)(e := v)\<rparr>) [] t"
    using t(1,4) assms(2) by (simp add: heap_holds_def holds_def)
  moreover have "heap_ord cmp ((val s)(e := v)) t = heap_ord cmp (val s) t"
    by (rule heap_ord_cong) (use t(4) assms(2) in auto)
  ultimately show ?thesis using t(2,3,4) sz by (auto simp: heap_rep_def)
qed

lemma add_event_rep:
  assumes r: "heap_rep descriptor_less (theap T) A" and l: "\<not> tlock T"
    and e: "e \<noteq> nullptr" "aligned8 e" "e \<notin> A" and i: "(next_id T + 1) AND periodic_bit = 0"
  obtains T' where "add_event clock T dur cb One_shot e = Inr T'" "heap_rep descriptor_less (theap T') (insert e A)"
    "\<forall>y \<in> A. val (theap T') y = val (theap T) y"
    "val (theap T') e = \<lparr>did = next_id T + 1, trigger_time = clock (readings T) + dur, callback = cb, dvalid = True, dcount = 2\<rparr>"
    "tnow T' = clock (readings T)" "readings T' = Suc (readings T)" "\<not> tlock T'" "fired T' = fired T" "next_id T' = next_id T + 1"
proof -
  let ?d = "\<lparr>did = next_id T + 1, trigger_time = clock (readings T) + dur, callback = cb, dvalid = True, dcount = 2\<rparr>"
  let ?hp = "(theap T)\<lparr>valid := (valid (theap T))(e := True), prev := (prev (theap T))(e := nullptr),
                 nxt := (nxt (theap T))(e := nullptr), tree_parent := (tree_parent (theap T))(e := nullptr),
                 val := (val (theap T))(e := ?d)\<rparr>"
  have "good_addr (valid ?hp) e" "A = {} \<Longrightarrow> detached ?hp e" using e by (simp_all add: good_addr_def detached_def)
  with push_refines [OF strict_weak_descriptor_less heap_rep_new_element [OF r e(3)]] e(3) obtain hp where
    hp: "heap_push descriptor_less ?hp e = Some hp" "heap_rep descriptor_less hp (insert e A)" "same_outside (insert e A) ?hp hp"
    by metis
  let ?T = "(update_now clock T)\<lparr>next_id := next_id T + 1, theap := hp\<rparr>"
  have "add_event clock T dur cb One_shot e = Inr ?T"
    using l i hp(1) by (simp add: add_event_def update_now_def Let_def)
  with hp e(3) l show thesis by (intro that [of ?T]) (auto simp: same_outside_def update_now_def)
qed

lemma one_shot_quiet:
  assumes r: "heap_rep descriptor_less (theap T) A" and l: "\<not> tlock T" and o: "one_shots T A"
    and e: "e \<noteq> nullptr" "aligned8 e" "e \<notin> A" and i: "(next_id T + 1) AND periodic_bit = 0"
    and q: "quiet clock T (card A + 3) A" and d: "\<forall>k < card A + 3. clock (readings T + k) < clock (readings T) + dur"
  obtains T' B where "timer_one_shot clock call (T, env) dur cb e = Some (Inr ((T', env), e))"
    "heap_rep descriptor_less (theap T') B" "e \<in> B" "B \<subseteq> insert e A" "{d \<in> A. dvalid (val (theap T) d)} \<subseteq> B"
    "\<forall>y \<in> B - {e}. val (theap T') y = val (theap T) y" "\<not> tlock T'" "fired T' = fired T" "next_id T' = next_id T + 1"
    "val (theap T') e = \<lparr>did = next_id T + 1, trigger_time = clock (readings T) + dur, callback = cb, dvalid = True, dcount = 2\<rparr>"
proof -
  obtain T1 where T1: "add_event clock T dur cb One_shot e = Inr T1" "heap_rep descriptor_less (theap T1) (insert e A)"
    "\<forall>y \<in> A. val (theap T1) y = val (theap T) y"
    "val (theap T1) e = \<lparr>did = next_id T + 1, trigger_time = clock (readings T) + dur, callback = cb, dvalid = True, dcount = 2\<rparr>"
    "tnow T1 = clock (readings T)" "readings T1 = Suc (readings T)" "\<not> tlock T1" "fired T1 = fired T" "next_id T1 = next_id T + 1"
    by (rule add_event_rep [OF r l e i, of clock dur cb])
  let ?A = "insert e A" and ?T = "update_now clock (T1\<lparr>tlock := True\<rparr>)"
  have live: "clock (readings T + k) < trigger_time (val (theap T1) y)"
    if "y \<in> ?A" "dvalid (val (theap T1) y)" "k < card A + 3" for y k
    using that q d T1(3,4) by (auto simp: quiet_def)
  have u: "theap ?T = theap T1" "tlock ?T" "tnow ?T = clock (readings T + 1)" "readings ?T = readings T + 2" "fired ?T = fired T"
      "next_id ?T = next_id T + 1"
    using T1(6,8,9) by (simp_all add: update_now_def)
  have c: "card ?A = card A + 1" using heap_rep_bound(1) [OF r] e(3) by simp
  have "clock (readings T + 2 + i) < trigger_time (val (theap T1) y)"
    if "y \<in> ?A" "dvalid (val (theap T1) y)" "i < card A + 1" for y i
    using live [of y "2 + i"] that by (simp add: add.assoc)
  then have "quiet clock ?T (card ?A) ?A" unfolding quiet_def u c by blast
  moreover have "\<forall>d \<in> ?A. dvalid (val (theap ?T) d) \<longrightarrow> tnow ?T < trigger_time (val (theap ?T) d)"
    unfolding u using live [of _ 1] by simp
  moreover have "one_shots ?T ?A" using o i T1(3,4) unfolding one_shots_def u by auto
  ultimately obtain T2 B where I: "fire_expired clock call (?T, env) = Some (Inr (T2, env))"
      "heap_rep descriptor_less (theap T2) B" "B \<subseteq> ?A" "{d \<in> ?A. dvalid (val (theap T1) d)} \<subseteq> B"
      "\<forall>y \<in> B. val (theap T2) y = val (theap T1) y" "tlock T2" "fired T2 = fired T" "next_id T2 = next_id T + 1"
    using fire_expired_quiet [of ?T ?A clock call env] T1(2) u(2) unfolding u(1,3-) by blast
  have e': "e \<in> B" using I(4) T1(4) by auto
  let ?T2 = "T2\<lparr>armed := Some (trigger_time (val (theap T2) (peek (theap T2))) - tnow T2), tlock := False\<rparr>"
  have "peek (theap T2) \<noteq> nullptr" using heap_rep_top [OF I(2)] e' by auto
  then have "timer_one_shot clock call (T, env) dur cb e = Some (Inr ((?T2, env), e))"
    using T1(1,7) I(1) by (simp add: timer_one_shot_def timer_do_def schedule_next_def)
  moreover have "{d \<in> A. dvalid (val (theap T) d)} \<subseteq> B" using I(4) T1(3) by auto
  moreover have "\<forall>y \<in> B - {e}. val (theap T2) y = val (theap T) y" using I(3,5) T1(3) by auto
  ultimately show thesis using I e' T1(4) by (intro that [of ?T2 B]) auto
qed

section \<open>Properties\<close>

text \<open>
  C12. Timer events fire once, in order and on time. With callbacks that leave the timer alone and a clock
  that does not go back, \<open>_schedule_next\<close> returns; it has run the callbacks of exactly the expired events
  that were not cancelled, each once, in the order of their trigger times; the events left have not
  expired; and the hardware is armed for the first of them.
\<close>

theorem events_fire_in_order:
  assumes "leaves_timer call" and "mono clock" and "heap_rep descriptor_less (theap T) A" and "one_shots T A" and "\<not> tlock T"
  shows "\<exists>T' env' B xs. schedule_next clock call (T, env) = Some (Inr (T', env')) \<and>
    heap_rep descriptor_less (theap T') B \<and> B = {d \<in> A. tnow T' < trigger_time (val (theap T) d)} \<and>
    fired T' = fired T @ xs \<and> distinct xs \<and> set xs = {d \<in> A - B. dvalid (val (theap T) d)} \<and>
    sorted_wrt (earlier T) xs \<and> \<not> tlock T' \<and>
    (if B = {} then armed T' = armed T
     else \<exists>d \<in> B. (\<forall>y \<in> B. earlier T d y) \<and> armed T' = Some (trigger_time (val (theap T) d) - tnow T'))"
proof -
  let ?T = "update_now clock (T\<lparr>tlock := True\<rparr>)"
  have e: "earlier ?T = earlier T" by (simp add: earlier_def update_now_def fun_eq_iff)
  have *: "theap ?T = theap T" "tlock ?T" "armed ?T = armed T" "fired ?T = fired T" "tnow ?T \<le> clock (readings ?T)"
    using assms(2) by (simp_all add: update_now_def monoD)
  from fire_expired_passive [OF assms(1,2), of ?T A env] obtain T' env' B xs where
    I: "fire_expired clock call (?T, env) = Some (Inr (T', env'))" "heap_rep descriptor_less (theap T') B" "B \<subseteq> A"
      "\<forall>y \<in> B. val (theap T') y = val (theap T) y \<and> tnow T' < trigger_time (val (theap T) y)"
      "\<forall>y \<in> A - B. trigger_time (val (theap T) y) \<le> tnow T'" "armed T' = armed T"
      "fired T' = fired T @ xs" "set xs = {y \<in> A - B. dvalid (val (theap T) y)}" "distinct xs" "sorted_wrt (earlier T) xs"
    unfolding e using assms(3,4) * by (auto simp: one_shots_def)
  have "d \<in> B \<longleftrightarrow> d \<in> A \<and> tnow T' < trigger_time (val (theap T) d)" for d
    using I(3) bspec [OF I(4), of d] bspec [OF I(5), of d] by (cases "d \<in> B") auto
  then have B: "B = {d \<in> A. tnow T' < trigger_time (val (theap T) d)}" by blast
  let ?top = "peek (theap T')"
  define T2 where "T2 = (if B = {} then T'\<lparr>tlock := False\<rparr>
    else T'\<lparr>armed := Some (trigger_time (val (theap T') ?top) - tnow T'), tlock := False\<rparr>)"
  have T2: "theap T2 = theap T'" "tnow T2 = tnow T'" "fired T2 = fired T'" "\<not> tlock T2" "B = {} \<Longrightarrow> armed T2 = armed T"
    using I(6) by (simp_all add: T2_def)
  have "?top = nullptr \<longleftrightarrow> B = {}" using heap_rep_peek [OF I(2)] by (simp add: peek_def)
  then have "schedule_next clock call (T, env) = Some (Inr (T2, env'))"
    using assms(5) I(1) by (simp add: schedule_next_def T2_def)
  moreover have "\<exists>d \<in> B. (\<forall>y \<in> B. earlier T d y) \<and> armed T2 = Some (trigger_time (val (theap T) d) - tnow T2)" if "B \<noteq> {}"
  proof (rule bexI [of _ ?top])
    note top = heap_rep_top [OF I(2) that]
    then show "?top \<in> B" by simp
    from top I(4) that show "(\<forall>y \<in> B. earlier T ?top y) \<and> armed T2 = Some (trigger_time (val (theap T) ?top) - tnow T2)"
      by (auto simp: earlier_def descriptor_less_def not_less T2_def)
  qed
  ultimately show ?thesis
    by (intro exI [of _ T2] exI [of _ env'] exI [of _ B] exI [of _ xs]) (simp add: T2 I(2,7,8,9,10) B [symmetric])
qed

text \<open>Two events, at the times 5 and 30; the clock reads 20.\<close>

definition two_events :: "unit timer" where
  "two_events = \<lparr>theap = \<lparr>valid = (\<lambda>p. p \<in> {8, 16}), prev = (\<lambda>p. if p = 8 then 16 else 0), nxt = (\<lambda>_. 0),
       tree_parent = (\<lambda>p. if p = 16 then 8 else 0),
       val = (\<lambda>p. \<lparr>did = 1, trigger_time = (if p = 8 then 5 else 30), callback = (), dvalid = True, dcount = 1\<rparr>), root = 8, size = 2\<rparr>,
     tnow = 0, tlock = False, next_id = 2, readings = 0, armed = None, fired = []\<rparr>"

lemma two_events_rep: "heap_rep descriptor_less (theap two_events) {8, 16}"
proof -
  have "heap_holds (theap two_events) [] (Node (Node Leaf (16, 0) Leaf) (8, 0) Leaf)"
    by (simp add: two_events_def heap_holds_def holds_def good_addr_def)
  then show ?thesis unfolding heap_rep_def
    by (intro conjI exI [of _ "Node (Node Leaf (16, 0) Leaf) (8, 0) Leaf"])
      (auto simp: two_events_def left_filled_def descriptor_less_def)
qed

theorem events_fire_in_order_witness:
  "\<exists>T' env' B xs. schedule_next (\<lambda>_. 20) (\<lambda>_ w. Some (Inr w)) (two_events, ()) = Some (Inr (T', env')) \<and>
    heap_rep descriptor_less (theap T') B \<and> B = {d \<in> {8, 16}. tnow T' < trigger_time (val (theap two_events) d)} \<and>
    fired T' = fired two_events @ xs \<and> distinct xs \<and> set xs = {d \<in> {8, 16} - B. dvalid (val (theap two_events) d)} \<and>
    sorted_wrt (earlier two_events) xs \<and> \<not> tlock T' \<and>
    (if B = {} then armed T' = armed two_events
     else \<exists>d \<in> B. (\<forall>y \<in> B. earlier two_events d y) \<and> armed T' = Some (trigger_time (val (theap two_events) d) - tnow T'))"
  by (rule events_fire_in_order [OF _ _ two_events_rep])
    (simp_all add: leaves_timer_def mono_def one_shots_def two_events_def periodic_bit_def)

end
