(* ===== verification/Scheduler.thy ===== *)
theory Scheduler
  imports Timers
begin

text \<open>
  The scheduler (\<open>kernel/scheduler/types.h\<close>, \<open>types.cpp\<close>, \<open>scheduler.cpp\<close>). Every core has an \<open>instance\<close>
  with a heap of the threads that are ready, by timestamp, the thread it runs, and an idle thread; one
  \<open>aggregate\<close> spreads new threads over the instances. Threads move between heaps, mailboxes and cores with
  the links they carry, so the thread objects are in one store and a heap is a root and a size over it.

  Instances are named by the number of their core. Parameters, in a record: the readings of the high
  precision timer and of the preemption timer of each core, and the addresses the allocator returns for timer
  descriptors. \<open>me\<close> is the core the code runs on.
\<close>

section \<open>Threads, instances and cores\<close>

record thread =
  timestamp :: int
  thread_vas :: addr         \<comment> \<open>\<open>get_container()->get_vas()\<close>\<close>

record scheduler_instance =
  iroot :: addr              \<comment> \<open>\<open>_threads\<close>\<close>
  isize :: u64
  ilock :: bool
  idle_thread :: addr
  current_thread :: addr
  preemption_token :: "(nat \<times> addr) option"   \<comment> \<open>the core whose timer has the event, and its descriptor\<close>

record sched =
  tstore :: "thread store"
  inst :: "nat \<Rightarrow> scheduler_instance"
  cls_thread :: "nat \<Rightarrow> addr"        \<comment> \<open>\<open>current_thread\<close> of the core local storage\<close>
  loaded_vas :: "nat \<Rightarrow> addr"
  ptimer :: "nat \<Rightarrow> nat timer"
  ipis :: "nat list"
  hreads :: nat
  allocs :: nat

record hardware =
  hclock :: "nat \<Rightarrow> int"
  pclock :: "nat \<Rightarrow> nat \<Rightarrow> int"
  alloc :: "nat \<Rightarrow> addr"

definition thread_less :: "thread \<Rightarrow> thread \<Rightarrow> bool" where
  "thread_less lhs rhs = (timestamp lhs < timestamp rhs)"

definition queue_of :: "sched \<Rightarrow> nat \<Rightarrow> thread tree_heap" where
  "queue_of w i = \<lparr>valid = valid (tstore w), prev = prev (tstore w), nxt = nxt (tstore w), tree_parent = tree_parent (tstore w),
     val = val (tstore w), root = iroot (inst w i), size = isize (inst w i)\<rparr>"

definition modify_inst :: "sched \<Rightarrow> nat \<Rightarrow> (scheduler_instance \<Rightarrow> scheduler_instance) \<Rightarrow> sched" where
  "modify_inst w i f = w\<lparr>inst := (inst w)(i := f (inst w i))\<rparr>"

definition put_queue :: "sched \<Rightarrow> nat \<Rightarrow> thread tree_heap \<Rightarrow> sched" where
  "put_queue w i h = modify_inst
     (w\<lparr>tstore := \<lparr>valid = valid h, prev = prev h, nxt = nxt h, tree_parent = tree_parent h, val = val h\<rparr>\<rparr>)
     i (\<lambda>x. x\<lparr>iroot := root h, isize := size h\<rparr>)"

definition push_thread :: "sched \<Rightarrow> nat \<Rightarrow> addr \<Rightarrow> sched result" where
  "push_thread w i t = bnd (deref (heap_push thread_less (queue_of w i) t)) (\<lambda>h. Inr (put_queue w i h))"

definition pop_thread :: "sched \<Rightarrow> nat \<Rightarrow> (sched \<times> addr) result" where
  "pop_thread w i = bnd (deref (heap_pop thread_less (queue_of w i))) (\<lambda>(h, t). Inr (put_queue w i h, t))"

text \<open>\<open>t->timestamp = time::get_high_precision_timer().now()\<close>.\<close>

definition stamp :: "hardware \<Rightarrow> sched \<Rightarrow> addr \<Rightarrow> sched result" where
  "stamp hw w t =
     (if accessible (tstore w) t
      then Inr (w\<lparr>tstore := (tstore w)\<lparr>val := (val (tstore w))(t := (val (tstore w) t)\<lparr>timestamp := hclock hw (hreads w)\<rparr>)\<rparr>,
                  hreads := Suc (hreads w)\<rparr>)
      else Inl Fault)"

section \<open>Preemption\<close>

definition cancel_token :: "sched \<Rightarrow> nat \<Rightarrow> sched result" where
  "cancel_token w i = (case preemption_token (inst w i) of
       None \<Rightarrow> Inr w
     | Some (c, d) \<Rightarrow> bnd (event_cancel (ptimer w c) d) (\<lambda>T.
         Inr (modify_inst (w\<lparr>ptimer := (ptimer w)(c := T)\<rparr>) i (preemption_token_update (\<lambda>_. None)))))"

definition time_slice :: int where
  "time_slice = 1000000000 div 100"

text \<open>
  \<open>_setup_preemption\<close>; \<open>call\<close> runs the callback of a timer event, which is the preemption of the instance
  in its context.
\<close>

definition setup_preemption ::
    "hardware \<Rightarrow> nat \<Rightarrow> (nat \<Rightarrow> (nat, sched) world \<Rightarrow> (nat, sched) world result option) \<Rightarrow> sched \<Rightarrow> nat \<Rightarrow> sched result option" where
  "setup_preemption hw me call w i =
     (let w = (if me \<noteq> i then w\<lparr>ipis := ipis w @ [i]\<rparr> else w)
      in if isize (inst w i) \<noteq> 0
         then obnd (Some (cancel_token w i)) (\<lambda>w.
              let e = alloc hw (allocs w);
                  w = w\<lparr>allocs := Suc (allocs w)\<rparr>
              in obnd (timer_one_shot (pclock hw me) call (ptimer w me, w) time_slice i e) (\<lambda>((T, w), token).
                 Some (Inr (modify_inst (w\<lparr>ptimer := (ptimer w)(me := T)\<rparr>) i
                   (preemption_token_update (\<lambda>_. Some (me, token)))))))
         else Some (Inr w))"

definition next_thread :: "sched \<Rightarrow> nat \<Rightarrow> sched result" where
  "next_thread w i =
     (if isize (inst w i) \<noteq> 0
      then bnd (pop_thread w i) (\<lambda>(w, t). Inr (modify_inst w i (current_thread_update (\<lambda>_. t))))
      else Inr (modify_inst w i (\<lambda>x. x\<lparr>current_thread := idle_thread x\<rparr>)))"

definition requeue_current :: "hardware \<Rightarrow> sched \<Rightarrow> nat \<Rightarrow> sched result" where
  "requeue_current hw w i =
     (let t = current_thread (inst w i)
      in if t \<noteq> nullptr \<and> t \<noteq> idle_thread (inst w i)
         then bnd (stamp hw w t) (\<lambda>w. push_thread (modify_inst w i (current_thread_update (\<lambda>_. nullptr))) i t)
         else Inr w)"

definition switch_to_current :: "nat \<Rightarrow> sched \<Rightarrow> nat \<Rightarrow> sched result" where
  "switch_to_current me w i =
     (let new_thread = current_thread (inst w i);
          old_thread = cls_thread w me;
          w = w\<lparr>cls_thread := (cls_thread w)(me := new_thread)\<rparr>
      in bnd (deref (read_val (tstore w) old_thread)) (\<lambda>old.
         bnd (deref (read_val (tstore w) new_thread)) (\<lambda>new.
         Inr (if thread_vas old \<noteq> thread_vas new
              then w\<lparr>loaded_vas := (loaded_vas w)(me := thread_vas new)\<rparr> else w))))"

definition reschedule ::
    "hardware \<Rightarrow> nat \<Rightarrow> (nat \<Rightarrow> (nat, sched) world \<Rightarrow> (nat, sched) world result option) \<Rightarrow> sched \<Rightarrow> nat \<Rightarrow> sched result option" where
  "reschedule hw me call w i =
     (if me \<noteq> i then Some (Inl (Panic ''_reschedule called on a scheduler instance not of the current core!''))
      else
        obnd (Some (requeue_current hw w i)) (\<lambda>w.
        obnd (Some (next_thread w i)) (\<lambda>w.
        obnd (Some (switch_to_current me w i)) (\<lambda>w.
        setup_preemption hw me call w i))))"

text \<open>Taking and leaving the lock of an instance.\<close>

abbreviation set_ilock :: "sched \<Rightarrow> nat \<Rightarrow> bool \<Rightarrow> sched" where
  "set_ilock w i b \<equiv> modify_inst w i (ilock_update (\<lambda>_. b))"

text \<open>
  The callback of a preemption event. It can run while another callback runs, because a timer runs what has
  expired whenever an event is added: \<open>n\<close> bounds the nesting. See \<open>locked_preempt\<close> below for
  why one level is enough.
\<close>

fun preempt :: "hardware \<Rightarrow> nat \<Rightarrow> nat \<Rightarrow> nat \<Rightarrow> (nat, sched) world \<Rightarrow> (nat, sched) world result option" where
  "preempt hw me 0 c (T, w) =
     (if ilock (inst w c) then Some (Inl Deadlock)
      else if me \<noteq> c then Some (Inl (Panic ''_reschedule called on a scheduler instance not of the current core!''))
      else Some (Inl Fault))"
| "preempt hw me (Suc n) c (T, w) =
     (if ilock (inst w c) then Some (Inl Deadlock)
      else
        obnd (reschedule hw me (preempt hw me n) (set_ilock (w\<lparr>ptimer := (ptimer w)(me := T)\<rparr>) c True) c) (\<lambda>w.
        Some (Inr (ptimer w me, set_ilock w c False))))"

definition callback_depth :: nat where
  "callback_depth = 2"

abbreviation run_callback :: "hardware \<Rightarrow> nat \<Rightarrow> nat \<Rightarrow> (nat, sched) world \<Rightarrow> (nat, sched) world result option" where
  "run_callback hw me \<equiv> preempt hw me callback_depth"

section \<open>The operations of an instance\<close>

definition instance_schedule :: "hardware \<Rightarrow> nat \<Rightarrow> bool \<Rightarrow> sched \<Rightarrow> nat \<Rightarrow> addr \<Rightarrow> sched result option" where
  "instance_schedule hw me interrupts_disabled w i t =
     (if \<not> interrupts_disabled then Some (Inl (Panic ''scheduler::schedule called with interrupts enabled (it's meant to only be called in interrupt or syscall handlers)!''))
      else if ilock (inst w i) then Some (Inl Deadlock)
      else if current_thread (inst w i) = t then Some (Inl (Panic ''rescheduling the current thread!''))
      else
        obnd (Some (push_thread (set_ilock w i True) i t)) (\<lambda>w.
        obnd (setup_preemption hw me (run_callback hw me) w i) (\<lambda>w.
        Some (Inr (set_ilock w i False)))))"

definition instance_deschedule :: "hardware \<Rightarrow> nat \<Rightarrow> sched \<Rightarrow> nat \<Rightarrow> (sched \<times> addr) result option" where
  "instance_deschedule hw me w i =
     (if ilock (inst w i) then Some (Inl Deadlock)
      else
        let w = set_ilock w i True;
            ret = current_thread (inst w i);
            w = modify_inst w i (current_thread_update (\<lambda>_. nullptr))
        in obnd (Some (stamp hw w ret)) (\<lambda>w.
           obnd (reschedule hw me (run_callback hw me) w i) (\<lambda>w.
           Some (Inr (set_ilock w i False, ret)))))"

definition scheduling_trigger :: "hardware \<Rightarrow> nat \<Rightarrow> sched \<Rightarrow> nat \<Rightarrow> sched result option" where
  "scheduling_trigger hw me w i =
     (if ilock (inst w i) then Some (Inl Deadlock)
      else
        obnd (setup_preemption hw me (run_callback hw me) (set_ilock w i True) i) (\<lambda>w.
        Some (Inr (set_ilock w i False))))"

text \<open>The interrupt of the preemption timer of the core.\<close>

definition preemption_interrupt :: "hardware \<Rightarrow> nat \<Rightarrow> sched \<Rightarrow> sched result option" where
  "preemption_interrupt hw me w =
     obnd (timer_handle (pclock hw me) (run_callback hw me) (ptimer w me, w)) (\<lambda>(T, w).
     Some (Inr (w\<lparr>ptimer := (ptimer w)(me := T)\<rparr>)))"

definition get_idle_thread :: "sched \<Rightarrow> nat \<Rightarrow> addr" where
  "get_idle_thread w i = idle_thread (inst w i)"

definition get_current_thread :: "sched \<Rightarrow> nat \<Rightarrow> addr" where
  "get_current_thread w i = current_thread (inst w i)"

section \<open>The aggregate\<close>

text \<open>The children are linked through \<open>_next_sibling\<close>; the model has them as a list, in that order.\<close>

record aggregate =
  children :: "nat list"
  alock :: bool

definition add_child :: "aggregate \<Rightarrow> nat \<Rightarrow> aggregate result" where
  "add_child a child = (if alock a then Inl Deadlock else Inr (a\<lparr>children := children a @ [child]\<rparr>))"

definition instance_average_load :: "sched \<Rightarrow> nat \<Rightarrow> u64 result" where
  "instance_average_load w i = (if ilock (inst w i) then Inl Deadlock else Inr (isize (inst w i) * 100))"

fun total_load :: "sched \<Rightarrow> nat list \<Rightarrow> u64 \<Rightarrow> u64 \<Rightarrow> (u64 \<times> u64) result" where
  "total_load w [] child_count total_al = Inr (child_count, total_al)"
| "total_load w (c # cs) child_count total_al =
     bnd (instance_average_load w c) (\<lambda>al. total_load w cs (child_count + 1) (total_al + al))"

definition aggregate_average_load :: "sched \<Rightarrow> aggregate \<Rightarrow> u64 result" where
  "aggregate_average_load w a =
     (if alock a then Inl Deadlock
      else bnd (total_load w (children a) 0 0) (\<lambda>(child_count, total_al).
        if child_count = 0 then Inl Fault else Inr (total_al div child_count)))"

fun lowest_load :: "sched \<Rightarrow> nat list \<Rightarrow> nat option \<Rightarrow> u64 \<Rightarrow> nat option result" where
  "lowest_load w [] lowest lowest_al = Inr lowest"
| "lowest_load w (c # cs) lowest lowest_al =
     bnd (instance_average_load w c) (\<lambda>al.
       if al < lowest_al then lowest_load w cs (Some c) al else lowest_load w cs lowest lowest_al)"

definition aggregate_schedule :: "hardware \<Rightarrow> nat \<Rightarrow> bool \<Rightarrow> sched \<Rightarrow> aggregate \<Rightarrow> addr \<Rightarrow> sched result option" where
  "aggregate_schedule hw me interrupts_disabled w a t =
     (if alock a then Some (Inl Deadlock)
      else
        obnd (Some (lowest_load w (children a) None (- 1))) (\<lambda>lowest.
        case lowest of
          None \<Rightarrow> Some (Inl (Panic ''didn't find any candidate children schedulers''))
        | Some i \<Rightarrow> instance_schedule hw me interrupts_disabled w i t))"

text \<open>\<open>instance::initialize\<close> for a core, with the new idle thread at \<open>t\<close>.\<close>

definition instance_initialize :: "sched \<Rightarrow> aggregate \<Rightarrow> nat \<Rightarrow> addr \<Rightarrow> thread \<Rightarrow> (sched \<times> aggregate) result" where
  "instance_initialize w a i t v =
     bnd (add_child a i) (\<lambda>a.
       let w = w\<lparr>tstore := (tstore w)\<lparr>valid := (valid (tstore w))(t := True), prev := (prev (tstore w))(t := nullptr),
             nxt := (nxt (tstore w))(t := nullptr), tree_parent := (tree_parent (tstore w))(t := nullptr),
             val := (val (tstore w))(t := v)\<rparr>\<rparr>
       in Inr (modify_inst w i (\<lambda>x. x\<lparr>idle_thread := t, current_thread := t\<rparr>), a))"

text \<open>The loop of \<open>scheduler::initialize\<close> over the cores; \<open>idle i\<close> is the address of the idle thread of core \<open>i\<close>.\<close>

fun initialize_cores :: "(nat \<Rightarrow> addr) \<Rightarrow> thread \<Rightarrow> nat list \<Rightarrow> sched \<Rightarrow> aggregate \<Rightarrow> (sched \<times> aggregate) result" where
  "initialize_cores idle v [] w a = Inr (w, a)"
| "initialize_cores idle v (i # is) w a =
     bnd (instance_initialize w a i (idle i) v) (\<lambda>(w, a).
     initialize_cores idle v is (w\<lparr>cls_thread := (cls_thread w)(i := get_idle_thread w i)\<rparr>) a)"

definition scheduler_initialize :: "(nat \<Rightarrow> addr) \<Rightarrow> thread \<Rightarrow> nat \<Rightarrow> sched \<Rightarrow> aggregate \<Rightarrow> (sched \<times> aggregate) result" where
  "scheduler_initialize idle v core_count w a = initialize_cores idle v [0..<core_count] w a"

end
