(* ===== verification/Scheduler_Properties.thy ===== *)
theory Scheduler_Properties
  imports Scheduler
begin

text \<open>
  What the scheduler does: a new thread goes to an instance with the least load; a switch keeps all
  threads and runs one that has waited longest; and the one way a switch can hang, when the timer falls
  behind by a whole time slice between two readings.
\<close>

section \<open>Nested callbacks\<close>

text \<open>
  While an instance is locked by the code of its own core, a callback that runs on that core ends in a
  deadlock or in a panic, whatever the bound on the nesting: the bound is never reached.
\<close>

lemma locked_preempt:
  "ilock (inst w me) \<Longrightarrow> preempt hw me n c (T, w) = Some (Inl (if ilock (inst w c) then Deadlock
     else Panic ''_reschedule called on a scheduler instance not of the current core!''))"
  by (cases n) (auto simp: reschedule_def)

section \<open>The ready threads of an instance\<close>

definition ready :: "sched \<Rightarrow> nat \<Rightarrow> addr set \<Rightarrow> bool" where
  "ready w i Q \<longleftrightarrow> heap_rep thread_less (queue_of w i) Q"

lemma strict_weak_thread_less [simp]: "strict_weak thread_less"
  by (auto simp: strict_weak_def thread_less_def)

lemma modify_inst_simps [simp]:
  "inst (modify_inst w i f) = (inst w)(i := f (inst w i))" "tstore (modify_inst w i f) = tstore w"
  "cls_thread (modify_inst w i f) = cls_thread w" "loaded_vas (modify_inst w i f) = loaded_vas w"
  "ptimer (modify_inst w i f) = ptimer w" "ipis (modify_inst w i f) = ipis w" "hreads (modify_inst w i f) = hreads w"
  "allocs (modify_inst w i f) = allocs w"
  by (simp_all add: modify_inst_def)

lemma put_queue_simps [simp]:
  "inst (put_queue w i h) = (inst w)(i := (inst w i)\<lparr>iroot := root h, isize := size h\<rparr>)"
  "valid (tstore (put_queue w i h)) = valid h" "val (tstore (put_queue w i h)) = val h"
  "cls_thread (put_queue w i h) = cls_thread w" "loaded_vas (put_queue w i h) = loaded_vas w"
  "ptimer (put_queue w i h) = ptimer w" "ipis (put_queue w i h) = ipis w" "hreads (put_queue w i h) = hreads w"
  "allocs (put_queue w i h) = allocs w"
  by (simp_all add: put_queue_def)

lemma queue_of_put [simp]: "queue_of (put_queue w i h) i = h"
  by (simp add: queue_of_def put_queue_def)

lemma queue_of_simps [simp]:
  "valid (queue_of w i) = valid (tstore w)" "val (queue_of w i) = val (tstore w)" "prev (queue_of w i) = prev (tstore w)"
  "nxt (queue_of w i) = nxt (tstore w)" "tree_parent (queue_of w i) = tree_parent (tstore w)"
  "root (queue_of w i) = iroot (inst w i)" "size (queue_of w i) = isize (inst w i)"
  by (simp_all add: queue_of_def)

lemma queue_of_cong:
  "tstore w' = tstore w \<Longrightarrow> iroot (inst w' i) = iroot (inst w i) \<Longrightarrow> isize (inst w' i) = isize (inst w i) \<Longrightarrow>
   queue_of w' i = queue_of w i"
  by (simp add: queue_of_def)

lemma ready_cong:
  "tstore w' = tstore w \<Longrightarrow> iroot (inst w' i) = iroot (inst w i) \<Longrightarrow> isize (inst w' i) = isize (inst w i) \<Longrightarrow>
   ready w' i Q \<longleftrightarrow> ready w i Q"
  by (simp add: ready_def queue_of_cong [of w' w])

lemma ready_size: "ready w i Q \<Longrightarrow> isize (inst w i) = 0 \<longleftrightarrow> Q = {}"
proof -
  assume "ready w i Q"
  then have r: "heap_rep thread_less (queue_of w i) Q" by (simp add: ready_def)
  then have "isize (inst w i) = of_nat (card Q)" by (simp add: heap_rep_def queue_of_def)
  with heap_rep_bound(1,2) [OF r] of_nat_u64_eq [of "card Q" 0] show ?thesis by simp
qed

definition fresh_thread :: "sched \<Rightarrow> addr \<Rightarrow> bool" where
  "fresh_thread w t \<longleftrightarrow> prev (tstore w) t = nullptr \<and> nxt (tstore w) t = nullptr \<and> tree_parent (tstore w) t = nullptr"

lemma push_thread_ready:
  assumes q: "ready w i Q" and t: "good_addr (valid (tstore w)) t" "t \<notin> Q" and e: "Q = {} \<Longrightarrow> fresh_thread w t"
  obtains h where "push_thread w i t = Inr (put_queue w i h)" "ready (put_queue w i h) i (insert t Q)"
    "valid h = valid (tstore w)" "val h = val (tstore w)"
proof -
  have "good_addr (valid (queue_of w i)) t" "Q = {} \<Longrightarrow> detached (queue_of w i) t"
    using t e by (simp_all add: detached_def fresh_thread_def)
  from push_refines [OF strict_weak_thread_less q [unfolded ready_def] this(1) t(2) this(2)] obtain h where
    h: "heap_push thread_less (queue_of w i) t = Some h" "heap_rep thread_less h (insert t Q)" "same_outside (insert t Q) (queue_of w i) h" .
  show thesis
    by (rule that [of h]) (use h in \<open>simp_all add: push_thread_def ready_def same_outside_def\<close>)
qed

lemma pop_thread_ready:
  assumes q: "ready w i Q" "Q \<noteq> {}"
  obtains h t where "pop_thread w i = Inr (put_queue w i h, t)" "ready (put_queue w i h) i (Q - {t})" "t \<in> Q"
    "\<forall>y \<in> Q. timestamp (val (tstore w) t) \<le> timestamp (val (tstore w) y)" "valid h = valid (tstore w)" "val h = val (tstore w)"
proof -
  from pop_refines [OF strict_weak_thread_less q(1) [unfolded ready_def] q(2)] obtain h t where
    h: "heap_pop thread_less (queue_of w i) = Some (h, t)" "popped thread_less (queue_of w i) Q h t" .
  show thesis
    by (rule that [of h t])
      (use h in \<open>simp_all add: pop_thread_def ready_def popped_def same_outside_def thread_less_def not_less\<close>)
qed

definition stamped :: "hardware \<Rightarrow> sched \<Rightarrow> addr \<Rightarrow> sched" where
  "stamped hw w t = w\<lparr>tstore := (tstore w)\<lparr>val := (val (tstore w))(t := (val (tstore w) t)\<lparr>timestamp := hclock hw (hreads w)\<rparr>)\<rparr>,
     hreads := Suc (hreads w)\<rparr>"

lemma stamped_simps [simp]:
  "inst (stamped hw w t) = inst w" "valid (tstore (stamped hw w t)) = valid (tstore w)"
  "prev (tstore (stamped hw w t)) = prev (tstore w)" "nxt (tstore (stamped hw w t)) = nxt (tstore w)"
  "tree_parent (tstore (stamped hw w t)) = tree_parent (tstore w)" "ptimer (stamped hw w t) = ptimer w"
  "val (tstore (stamped hw w t)) = (val (tstore w))(t := (val (tstore w) t)\<lparr>timestamp := hclock hw (hreads w)\<rparr>)"
  "cls_thread (stamped hw w t) = cls_thread w" "loaded_vas (stamped hw w t) = loaded_vas w" "allocs (stamped hw w t) = allocs w"
  "ipis (stamped hw w t) = ipis w"
  by (simp_all add: stamped_def)

lemma stamp_accessible: "accessible (tstore w) t \<Longrightarrow> stamp hw w t = Inr (stamped hw w t)"
  by (simp add: stamp_def stamped_def)

lemma ready_stamped:
  assumes q: "ready w i Q" and t: "t \<notin> Q"
  shows "ready (stamped hw w t) i Q"
proof -
  have "queue_of (stamped hw w t) i =
      (queue_of w i)\<lparr>val := (val (queue_of w i))(t := (val (tstore w) t)\<lparr>timestamp := hclock hw (hreads w)\<rparr>)\<rparr>"
    by (simp add: queue_of_def stamped_def)
  moreover have "heap_rep thread_less ((queue_of w i)\<lparr>val := (val (queue_of w i))(t := (val (tstore w) t)\<lparr>timestamp := hclock hw (hreads w)\<rparr>)\<rparr>) Q"
    by (rule heap_rep_val) (use q t in \<open>auto simp: ready_def\<close>)
  ultimately show ?thesis unfolding ready_def by (simp only:)
qed

section \<open>Setting the preemption up\<close>

text \<open>
  The preemption timer of a core can take an event: it is not locked, has a new address and an identifier
  for it, no other live event of it is due within the readings it takes, and these readings do not span a
  whole time slice.
\<close>

definition timer_ready :: "hardware \<Rightarrow> nat \<Rightarrow> sched \<Rightarrow> addr set \<Rightarrow> bool" where
  "timer_ready hw me w D \<longleftrightarrow> (let T = ptimer w me; e = alloc hw (allocs w) in
     heap_rep descriptor_less (theap T) D \<and> \<not> tlock T \<and> one_shots T D \<and> e \<noteq> nullptr \<and> aligned8 e \<and> e \<notin> D \<and>
     (next_id T + 1) AND periodic_bit = 0 \<and> quiet (pclock hw me) T (card D + 3) D \<and>
     (\<forall>k < card D + 3. pclock hw me (readings T + k) < pclock hw me (readings T) + time_slice))"

definition token_live :: "sched \<Rightarrow> nat \<Rightarrow> bool" where
  "token_live w i \<longleftrightarrow> (case preemption_token (inst w i) of None \<Rightarrow> True | Some (c, d) \<Rightarrow> accessible (theap (ptimer w c)) d)"

lemma heap_rep_equiv:
  assumes "heap_rep cmp s A" and "\<And>x y. cmp (W x) (W y) = cmp (val s x) (val s y)"
  shows "heap_rep cmp (s\<lparr>val := W\<rparr>) A"
proof -
  from assms(1) obtain t where t: "heap_holds s [] t" "left_filled t (card A)" "heap_ord cmp (val s) t"
    "set (addrs t) = A" and sz: "size s = of_nat (card A)" by (auto simp: heap_rep_def)
  moreover have "heap_ord cmp W t" using t(3) by (induction t) (auto simp: assms(2))
  ultimately show ?thesis by (auto simp: heap_rep_def heap_holds_def holds_def)
qed

lemma heap_rep_modify_descriptor:
  assumes "heap_rep descriptor_less (theap T) D" and "\<And>v. trigger_time (f v) = trigger_time v"
  shows "heap_rep descriptor_less (theap (modify_descriptor T d f)) D"
proof -
  have "heap_rep descriptor_less ((theap T)\<lparr>val := (val (theap T))(d := f (val (theap T) d))\<rparr>) D"
    by (rule heap_rep_equiv [OF assms(1)]) (simp add: descriptor_less_def assms(2))
  then show ?thesis by (simp add: modify_descriptor_def)
qed

lemma cancel_keeps_timer:
  assumes t: "timer_ready hw me w D" and l: "token_live w i"
  obtains w' where "cancel_token w i = Inr w'" "timer_ready hw me w' D"
    "allocs w' = allocs w" "inst w' = (inst w)(i := (inst w i)\<lparr>preemption_token := None\<rparr>)" "tstore w' = tstore w"
    "cls_thread w' = cls_thread w" "loaded_vas w' = loaded_vas w" "ipis w' = ipis w"
proof (cases "preemption_token (inst w i)")
  case None
  then have "(inst w)(i := (inst w i)\<lparr>preemption_token := None\<rparr>) = inst w" by (simp add: fun_upd_idem)
  with None t that [of w] show thesis by (simp add: cancel_token_def)
next
  case (Some cd)
  obtain c d where cd: "cd = (c, d)" by (cases cd)
  let ?f = "\<lambda>v. v\<lparr>dvalid := False, dcount := dcount v - 1\<rparr>"
  let ?T = "modify_descriptor (ptimer w c) d ?f"
  let ?w = "modify_inst (w\<lparr>ptimer := (ptimer w)(c := ?T)\<rparr>) i (preemption_token_update (\<lambda>_. None))"
  have "cancel_token w i = Inr ?w" using Some cd l by (simp add: cancel_token_def token_live_def event_cancel_def)
  moreover have "timer_ready hw me ?w D"
  proof (cases "c = me")
    case True
    have "heap_rep descriptor_less (theap ?T) D"
      by (rule heap_rep_modify_descriptor) (use t True in \<open>auto simp: timer_ready_def Let_def\<close>)
    with t True show ?thesis
      by (auto simp: timer_ready_def Let_def modify_descriptor_def one_shots_def quiet_def)
  qed (use t in \<open>simp add: timer_ready_def\<close>)
  ultimately show thesis using that [of ?w] by simp
qed

lemma setup_preemption_ok:
  assumes t: "timer_ready hw i w D" and l: "token_live w i"
  obtains w' where "setup_preemption hw i call w i = Some (Inr w')" "tstore w' = tstore w" "cls_thread w' = cls_thread w"
    "loaded_vas w' = loaded_vas w" "ipis w' = ipis w"
    "inst w' = (inst w)(i := (inst w i)\<lparr>preemption_token :=
       (if isize (inst w i) = 0 then preemption_token (inst w i) else Some (i, alloc hw (allocs w)))\<rparr>)"
    "isize (inst w i) \<noteq> 0 \<Longrightarrow> \<exists>B. heap_rep descriptor_less (theap (ptimer w' i)) B \<and> alloc hw (allocs w) \<in> B \<and>
       dvalid (val (theap (ptimer w' i)) (alloc hw (allocs w))) \<and> callback (val (theap (ptimer w' i)) (alloc hw (allocs w))) = i"
proof (cases "isize (inst w i) = 0")
  case True
  then show thesis using that [of w] by (simp add: setup_preemption_def fun_upd_idem)
next
  case False
  from cancel_keeps_timer [OF t l] obtain w1 where w1: "cancel_token w i = Inr w1" "timer_ready hw i w1 D"
      and a: "allocs w1 = allocs w" "inst w1 = (inst w)(i := (inst w i)\<lparr>preemption_token := None\<rparr>)" "tstore w1 = tstore w"
      "cls_thread w1 = cls_thread w" "loaded_vas w1 = loaded_vas w" "ipis w1 = ipis w" .
  define w2 where "w2 = w1\<lparr>allocs := Suc (allocs w1)\<rparr>"
  let ?e = "alloc hw (allocs w1)"
  from w1(2) have r: "heap_rep descriptor_less (theap (ptimer w1 i)) D" "\<not> tlock (ptimer w1 i)" "one_shots (ptimer w1 i) D"
      "?e \<noteq> nullptr" "aligned8 ?e" "?e \<notin> D" "(next_id (ptimer w1 i) + 1) AND periodic_bit = 0"
      "quiet (pclock hw i) (ptimer w1 i) (card D + 3) D"
      "\<forall>k < card D + 3. pclock hw i (readings (ptimer w1 i) + k) < pclock hw i (readings (ptimer w1 i)) + time_slice"
    by (simp_all add: timer_ready_def Let_def)
  obtain T' B where T': "timer_one_shot (pclock hw i) call (ptimer w1 i, w2) time_slice i ?e = Some (Inr ((T', w2), ?e))"
      "heap_rep descriptor_less (theap T') B" "?e \<in> B"
      "val (theap T') ?e = \<lparr>did = next_id (ptimer w1 i) + 1, trigger_time = pclock hw i (readings (ptimer w1 i)) + time_slice, callback = i, dvalid = True, dcount = 2\<rparr>"
    by (rule one_shot_quiet [OF r, of call w2 i])
  let ?w = "modify_inst (w2\<lparr>ptimer := (ptimer w2)(i := T')\<rparr>) i (preemption_token_update (\<lambda>_. Some (i, ?e)))"
  have "setup_preemption hw i call w i = Some (Inr ?w)"
    using False w1(1) T'(1) by (simp add: setup_preemption_def w2_def)
  then show thesis
    using False T' a by (intro that [of ?w]) (auto simp: w2_def intro!: exI [of _ B])
qed

section \<open>Switching threads\<close>

lemma requeue_current_ready:
  assumes q: "ready w i Q" and c: "c = current_thread (inst w i)" "c \<noteq> idle_thread (inst w i)" "good_addr (valid (tstore w)) c" "c \<notin> Q"
    and e: "Q = {} \<Longrightarrow> fresh_thread w c"
  obtains w' where "requeue_current hw w i = Inr w'" "ready w' i (insert c Q)" "valid (tstore w') = valid (tstore w)"
    "val (tstore w') = (val (tstore w))(c := (val (tstore w) c)\<lparr>timestamp := hclock hw (hreads w)\<rparr>)"
    "idle_thread (inst w' i) = idle_thread (inst w i)" "preemption_token (inst w' i) = preemption_token (inst w i)"
    "cls_thread w' = cls_thread w" "loaded_vas w' = loaded_vas w" "ptimer w' = ptimer w" "allocs w' = allocs w"
proof -
  have a: "accessible (tstore w) c" "c \<noteq> nullptr" using c(3) by (auto simp: good_addr_def accessible_def)
  define w1 where "w1 = modify_inst (stamped hw w c) i (current_thread_update (\<lambda>_. nullptr))"
  have q1: "ready w1 i Q"
    using ready_stamped [OF q c(4)] by (subst ready_cong [of _ "stamped hw w c"]) (simp_all add: w1_def)
  have "good_addr (valid (tstore w1)) c" "Q = {} \<Longrightarrow> fresh_thread w1 c"
    using c(3) e by (simp_all add: w1_def fresh_thread_def)
  from push_thread_ready [OF q1 this(1) c(4) this(2)] obtain h where
    h: "push_thread w1 i c = Inr (put_queue w1 i h)" "ready (put_queue w1 i h) i (insert c Q)"
      "valid h = valid (tstore w1)" "val h = val (tstore w1)" .
  have "requeue_current hw w i = Inr (put_queue w1 i h)"
    using c a h(1) stamp_accessible [OF a(1)] by (simp add: requeue_current_def w1_def)
  with h show thesis by (intro that [of "put_queue w1 i h"]) (simp_all add: w1_def)
qed

lemma next_thread_ready:
  assumes q: "ready w i Q" "Q \<noteq> {}"
  obtains w' t where "next_thread w i = Inr w'" "ready w' i (Q - {t})" "t \<in> Q" "current_thread (inst w' i) = t"
    "\<forall>y \<in> Q. timestamp (val (tstore w) t) \<le> timestamp (val (tstore w) y)"
    "valid (tstore w') = valid (tstore w)" "val (tstore w') = val (tstore w)"
    "idle_thread (inst w' i) = idle_thread (inst w i)" "preemption_token (inst w' i) = preemption_token (inst w i)"
    "cls_thread w' = cls_thread w" "loaded_vas w' = loaded_vas w" "ptimer w' = ptimer w" "allocs w' = allocs w"
proof -
  from pop_thread_ready [OF q] obtain h t where
    h: "pop_thread w i = Inr (put_queue w i h, t)" "ready (put_queue w i h) i (Q - {t})" "t \<in> Q"
      "\<forall>y \<in> Q. timestamp (val (tstore w) t) \<le> timestamp (val (tstore w) y)" "valid h = valid (tstore w)" "val h = val (tstore w)" .
  let ?w = "modify_inst (put_queue w i h) i (current_thread_update (\<lambda>_. t))"
  have "ready ?w i (Q - {t})" using h(2) by (subst ready_cong [of _ "put_queue w i h"]) simp_all
  moreover have "next_thread w i = Inr ?w" using h(1) q ready_size [OF q(1)] by (simp add: next_thread_def)
  ultimately show thesis using h by (intro that [of ?w t]) simp_all
qed

lemma ready_accessible: "ready w i Q \<Longrightarrow> t \<in> Q \<Longrightarrow> accessible (tstore w) t"
  using heap_rep_valid [of thread_less "queue_of w i" Q t] by (simp add: ready_def accessible_def)

text \<open>
  C10. A switch keeps all threads and runs the one that has waited longest. When the time slice of a
  thread ends on its core, with any set of ready threads and a timer that can take an event, \<open>_reschedule\<close>
  returns: the thread that runs next is one of the ready threads and the old one with the earliest
  timestamp, where the old one has the time of the switch; all the others are ready; and the core has the
  address space of the new thread.
\<close>

theorem switch_keeps_threads:
  assumes q: "ready w i Q" and t: "timer_ready hw i w D" "token_live w i"
    and c: "c = current_thread (inst w i)" "c \<noteq> idle_thread (inst w i)" "good_addr (valid (tstore w)) c" "c \<notin> Q"
    and e: "Q = {} \<Longrightarrow> fresh_thread w c"
    and cls: "accessible (tstore w) (cls_thread w i)" "loaded_vas w i = thread_vas (val (tstore w) (cls_thread w i))"
  shows "\<exists>w' n. reschedule hw i call w i = Some (Inr w') \<and> n \<in> insert c Q \<and> current_thread (inst w' i) = n \<and>
    cls_thread w' i = n \<and> ready w' i (insert c Q - {n}) \<and> (\<forall>y \<in> insert c Q. timestamp (val (tstore w') n) \<le> timestamp (val (tstore w') y)) \<and>
    val (tstore w') = (val (tstore w))(c := (val (tstore w) c)\<lparr>timestamp := hclock hw (hreads w)\<rparr>) \<and>
    loaded_vas w' i = thread_vas (val (tstore w') n)"
proof -
  obtain w1 where w1: "requeue_current hw w i = Inr w1" "ready w1 i (insert c Q)" "valid (tstore w1) = valid (tstore w)"
    "val (tstore w1) = (val (tstore w))(c := (val (tstore w) c)\<lparr>timestamp := hclock hw (hreads w)\<rparr>)"
    "idle_thread (inst w1 i) = idle_thread (inst w i)" "preemption_token (inst w1 i) = preemption_token (inst w i)"
    "cls_thread w1 = cls_thread w" "loaded_vas w1 = loaded_vas w" "ptimer w1 = ptimer w" "allocs w1 = allocs w"
    by (rule requeue_current_ready [OF q c e])
  obtain w2 n where w2: "next_thread w1 i = Inr w2" "ready w2 i (insert c Q - {n})" "n \<in> insert c Q" "current_thread (inst w2 i) = n"
    "\<forall>y \<in> insert c Q. timestamp (val (tstore w1) n) \<le> timestamp (val (tstore w1) y)"
    "valid (tstore w2) = valid (tstore w1)" "val (tstore w2) = val (tstore w1)"
    "idle_thread (inst w2 i) = idle_thread (inst w1 i)" "preemption_token (inst w2 i) = preemption_token (inst w1 i)"
    "cls_thread w2 = cls_thread w1" "loaded_vas w2 = loaded_vas w1" "ptimer w2 = ptimer w1" "allocs w2 = allocs w1"
    by (rule next_thread_ready [OF w1(2)]) simp_all
  define w3 where "w3 = (let u = w2\<lparr>cls_thread := (cls_thread w2)(i := n)\<rparr>
    in if loaded_vas w i \<noteq> thread_vas (val (tstore w1) n) then u\<lparr>loaded_vas := (loaded_vas u)(i := thread_vas (val (tstore w1) n))\<rparr> else u)"
  have "accessible (tstore w2) n" using ready_accessible [OF w1(2) w2(3)] w2(6) by (simp add: accessible_def)
  moreover have "accessible (tstore w2) (cls_thread w i)" using cls(1) w1(3) w2(6) by (simp add: accessible_def)
  moreover have "thread_vas (val (tstore w1) (cls_thread w i)) = loaded_vas w i" using cls(2) w1(4) by simp
  ultimately have s3: "switch_to_current i w2 i = Inr w3"
    using w1(7) w2(4,7,10) by (simp add: switch_to_current_def w3_def reads_accessible Let_def)
  have w3: "tstore w3 = tstore w2" "inst w3 = inst w2" "ptimer w3 = ptimer w" "allocs w3 = allocs w" "cls_thread w3 i = n"
      "loaded_vas w3 i = thread_vas (val (tstore w1) n)"
    using w1(8,9,10) w2(11,12,13) by (simp_all add: w3_def Let_def)
  have "timer_ready hw i w3 D" using t(1) by (simp add: timer_ready_def w3)
  moreover have "token_live w3 i" using t(2) by (simp add: token_live_def w3 w2(9) w1(6) split: option.splits prod.splits)
  ultimately obtain w4 where w4: "setup_preemption hw i call w3 i = Some (Inr w4)" "tstore w4 = tstore w3" "cls_thread w4 = cls_thread w3"
      "loaded_vas w4 = loaded_vas w3" "inst w4 = (inst w3)(i := (inst w3 i)\<lparr>preemption_token :=
        (if isize (inst w3 i) = 0 then preemption_token (inst w3 i) else Some (i, alloc hw (allocs w3)))\<rparr>)"
    by (rule setup_preemption_ok [where call = call])
  have "ready w4 i (insert c Q - {n})" using w2(2) by (subst ready_cong [of _ w2]) (simp_all add: w4 w3)
  moreover have "reschedule hw i call w i = Some (Inr w4)" using w1(1) w2(1) s3 w4(1) by (simp add: reschedule_def)
  ultimately show ?thesis
    using w1(4) w2(3,4,5,7) w3 w4(2-5) by (intro exI [of _ w4] exI [of _ n]) simp
qed

text \<open>Two cores, of which the second has no ready threads.\<close>

definition two_cores :: sched where
  "two_cores = \<lparr>tstore = \<lparr>valid = (\<lambda>p. p \<in> {8, 16, 24, 32}), prev = (\<lambda>_. 0), nxt = (\<lambda>_. 0), tree_parent = (\<lambda>_. 0),
       val = (\<lambda>p. \<lparr>timestamp = sint p, thread_vas = 4096\<rparr>)\<rparr>,
     inst = (\<lambda>i. \<lparr>iroot = (if i = 0 then 24 else 0), isize = (if i = 0 then 1 else 0), ilock = False, idle_thread = 8,
       current_thread = 16, preemption_token = None\<rparr>),
     cls_thread = (\<lambda>_. 16), loaded_vas = (\<lambda>_. 4096),
     ptimer = (\<lambda>_. \<lparr>theap = \<lparr>valid = (\<lambda>_. False), prev = (\<lambda>_. 0), nxt = (\<lambda>_. 0), tree_parent = (\<lambda>_. 0),
         val = (\<lambda>_. \<lparr>did = 0, trigger_time = 0, callback = 0, dvalid = False, dcount = 0\<rparr>), root = 0, size = 0\<rparr>,
       tnow = 0, tlock = False, next_id = 0, readings = 0, armed = None, fired = []\<rparr>),
     ipis = [], hreads = 0, allocs = 0\<rparr>"

definition ticking :: hardware where
  "ticking = \<lparr>hclock = int, pclock = (\<lambda>_. int), alloc = (\<lambda>n. 64 + 64 * of_nat n)\<rparr>"

lemma two_cores_ready: "ready two_cores 0 {24}"
proof -
  have "heap_holds (queue_of two_cores 0) [] (Node Leaf (24, 0) Leaf)"
    by (simp add: two_cores_def queue_of_def heap_holds_def holds_def good_addr_def aligned8_examples)
  then show ?thesis unfolding ready_def heap_rep_def
    by (intro conjI exI [of _ "Node Leaf (24, 0) Leaf"]) (auto simp: two_cores_def queue_of_def left_filled_def)
qed

lemma two_cores_timer: "timer_ready ticking 0 two_cores {}"
proof -
  have "heap_holds (theap (ptimer two_cores 0)) [] Leaf" by (simp add: two_cores_def heap_holds_def holds_def)
  then have "heap_rep descriptor_less (theap (ptimer two_cores 0)) {}"
    by (auto simp: heap_rep_def two_cores_def left_filled_def intro!: exI [of _ Leaf])
  then show ?thesis
    by (simp add: timer_ready_def two_cores_def ticking_def one_shots_def quiet_def periodic_bit_def time_slice_def aligned8_def)
qed

theorem switch_keeps_threads_witness:
  "\<exists>w' n. reschedule ticking 0 (run_callback ticking 0) two_cores 0 = Some (Inr w') \<and> n \<in> insert 16 {24} \<and>
    current_thread (inst w' 0) = n \<and> cls_thread w' 0 = n \<and> ready w' 0 (insert 16 {24} - {n}) \<and>
    (\<forall>y \<in> insert 16 {24}. timestamp (val (tstore w') n) \<le> timestamp (val (tstore w') y)) \<and>
    val (tstore w') = (val (tstore two_cores))(16 := (val (tstore two_cores) 16)\<lparr>timestamp := hclock ticking (hreads two_cores)\<rparr>) \<and>
    loaded_vas w' 0 = thread_vas (val (tstore w') n)"
  by (rule switch_keeps_threads [OF two_cores_ready two_cores_timer])
    (simp_all add: two_cores_def token_live_def good_addr_def accessible_def aligned8_examples)

section \<open>When the timer falls behind\<close>

lemma fire_expired_error:
  assumes r: "heap_rep descriptor_less (theap T) {e}" and d: "trigger_time (val (theap T) e) \<le> tnow T" "dvalid (val (theap T) e)"
    and c: "\<And>T. call (callback (val (theap T0) e)) (T, env) = Some (Inl err)" "val (theap T0) e = val (theap T) e"
  shows "fire_expired clock call (T, env) = Some (Inl err)"
proof -
  have top: "peek (theap T) = e" "e \<noteq> nullptr" "accessible (theap T) e" using heap_rep_top [OF r] by auto
  from pop_refines [OF strict_weak_descriptor_less r] obtain hp a where
    "heap_pop descriptor_less (theap T) = Some (hp, a)" "popped descriptor_less (theap T) {e} hp a" by auto
  then have hp: "heap_pop descriptor_less (theap T) = Some (hp, e)" "val hp = val (theap T)" "valid hp = valid (theap T)"
    by (auto simp: popped_def same_outside_def)
  then have "fire_top clock call (T, env) = Some (Inl err)"
    using top d(2) c by (simp add: fire_top_def reads_accessible accessible_def read_val_def)
  with top d show ?thesis by (subst fire_expired.simps) (simp add: reads_accessible)
qed

lemma add_event_late:
  assumes r: "heap_rep descriptor_less (theap T) {}" and l: "\<not> tlock T" and e: "e \<noteq> nullptr" "aligned8 e"
    and i: "(next_id T + 1) AND periodic_bit = 0" and late: "clock (readings T) + dur \<le> clock (Suc (readings T))"
    and c: "\<And>T. call cb (T, env) = Some (Inl err)"
  shows "timer_one_shot clock call (T, env) dur cb e = Some (Inl err)"
proof -
  obtain T1 where T1: "add_event clock T dur cb One_shot e = Inr T1" "heap_rep descriptor_less (theap T1) (insert e {})"
    "val (theap T1) e = \<lparr>did = next_id T + 1, trigger_time = clock (readings T) + dur, callback = cb, dvalid = True, dcount = 2\<rparr>"
    "readings T1 = Suc (readings T)" "\<not> tlock T1"
    by (rule add_event_rep [OF r l e _ i, of clock dur cb]) simp_all
  let ?T = "update_now clock (T1\<lparr>tlock := True\<rparr>)"
  have u: "theap ?T = theap T1" "tnow ?T = clock (Suc (readings T))" using T1(4) by (simp_all add: update_now_def)
  have "fire_expired clock call (?T, env) = Some (Inl err)"
    by (rule fire_expired_error [of _ e _ T1]) (use T1(2,3) u late c in simp_all)
  with T1(1,5) show ?thesis by (simp add: timer_one_shot_def timer_do_def schedule_next_def)
qed

text \<open>
  The scheduler can lock itself out. If the preemption timer shows, between the two readings that adding
  an event takes, a step of at least the time slice, then making a thread ready never returns: the timer
  runs the new event at once, and its callback waits for the lock of the instance, which the code that
  added the event holds.
\<close>

lemma late_timer_deadlocks:
  assumes q: "ready w i Q" and t: "good_addr (valid (tstore w)) t" "t \<notin> Q" "Q = {} \<Longrightarrow> fresh_thread w t" "t \<noteq> current_thread (inst w i)"
    and l: "\<not> ilock (inst w i)" "preemption_token (inst w i) = None"
    and T: "heap_rep descriptor_less (theap (ptimer w i)) {}" "\<not> tlock (ptimer w i)" "(next_id (ptimer w i) + 1) AND periodic_bit = 0"
    and e: "alloc hw (allocs w) \<noteq> nullptr" "aligned8 (alloc hw (allocs w))"
    and late: "pclock hw i (readings (ptimer w i)) + time_slice \<le> pclock hw i (Suc (readings (ptimer w i)))"
  shows "instance_schedule hw i True w i t = Some (Inl Deadlock)"
proof -
  let ?w = "set_ilock w i True"
  have q1: "ready ?w i Q" using q by (subst ready_cong [of _ w]) simp_all
  have "good_addr (valid (tstore ?w)) t" "Q = {} \<Longrightarrow> fresh_thread ?w t" using t(1,3) by (simp_all add: fresh_thread_def)
  from push_thread_ready [OF q1 this(1) t(2) this(2)] obtain h where
    h: "push_thread ?w i t = Inr (put_queue ?w i h)" "ready (put_queue ?w i h) i (insert t Q)" .
  let ?w1 = "put_queue ?w i h"
  have ne: "isize (inst ?w1 i) \<noteq> 0" using ready_size [OF h(2)] by blast
  let ?w2 = "?w1\<lparr>allocs := Suc (allocs ?w1)\<rparr>"
  have "run_callback hw i i (T, ?w2) = Some (Inl Deadlock)" for T
    by (subst locked_preempt) simp_all
  then have "timer_one_shot (pclock hw i) (run_callback hw i) (ptimer w i, ?w2) time_slice i (alloc hw (allocs w)) = Some (Inl Deadlock)"
    by (intro add_event_late T e late)
  then have "setup_preemption hw i (run_callback hw i) ?w1 i = Some (Inl Deadlock)"
    using ne l(2) by (simp add: setup_preemption_def cancel_token_def)
  with l(1) t(4) h(1) show ?thesis by (simp add: instance_schedule_def)
qed

definition slow :: hardware where
  "slow = ticking\<lparr>pclock := (\<lambda>_ n. 20000000 * int n)\<rparr>"

lemma late_timer_deadlocks_example: "instance_schedule slow 0 True two_cores 0 32 = Some (Inl Deadlock)"
proof (rule late_timer_deadlocks [OF two_cores_ready])
  show "heap_rep descriptor_less (theap (ptimer two_cores 0)) {}" using two_cores_timer by (simp add: timer_ready_def Let_def)
qed (simp_all add: two_cores_def slow_def ticking_def good_addr_def periodic_bit_def time_slice_def aligned8_def)

section \<open>The least loaded instance\<close>

definition iload :: "sched \<Rightarrow> nat \<Rightarrow> u64" where
  "iload w i = isize (inst w i) * 100"

lemma lowest_load_least:
  assumes "\<forall>c \<in> set cs. \<not> ilock (inst w c)"
  shows "\<exists>r. lowest_load w cs lo al = Inr r \<and>
    (if \<exists>c \<in> set cs. iload w c < al then \<exists>c \<in> set cs. r = Some c \<and> (\<forall>d \<in> set cs. iload w c \<le> iload w d) else r = lo)"
  using assms
proof (induction cs arbitrary: lo al)
  case (Cons c cs)
  have load: "instance_average_load w c = Inr (iload w c)"
    using Cons.prems by (simp add: instance_average_load_def iload_def)
  show ?case
  proof (cases "iload w c < al")
    case True
    from Cons.IH [of "Some c" "iload w c"] Cons.prems obtain r where
      r: "lowest_load w cs (Some c) (iload w c) = Inr r"
        "if \<exists>d \<in> set cs. iload w d < iload w c then \<exists>c \<in> set cs. r = Some c \<and> (\<forall>d \<in> set cs. iload w c \<le> iload w d) else r = Some c"
      by auto
    show ?thesis
    proof (cases "\<exists>d \<in> set cs. iload w d < iload w c")
      case less: True
      with r(2) obtain b where b: "b \<in> set cs" "r = Some b" "\<forall>d \<in> set cs. iload w b \<le> iload w d" by auto
      with less have "iload w b \<le> iload w c" by (meson less_imp_le order_trans)
      with True load r(1) b show ?thesis by auto
    next
      case False
      with r True load show ?thesis by (auto simp: not_less)
    qed
  next
    case False
    from Cons.IH [of lo al] Cons.prems obtain r where
      r: "lowest_load w cs lo al = Inr r"
        "if \<exists>d \<in> set cs. iload w d < al then \<exists>c \<in> set cs. r = Some c \<and> (\<forall>d \<in> set cs. iload w c \<le> iload w d) else r = lo"
      by auto
    show ?thesis
    proof (cases "\<exists>d \<in> set cs. iload w d < al")
      case less: True
      with r(2) obtain b where b: "b \<in> set cs" "r = Some b" "\<forall>d \<in> set cs. iload w b \<le> iload w d" by auto
      with less have "iload w b < al" by (meson order_le_less_trans)
      with False load r(1) b show ?thesis by (auto simp: not_less intro: order_trans [OF less_imp_le])
    next
      case none: False
      with r False load show ?thesis by auto
    qed
  qed
qed simp

text \<open>
  A new thread goes to an instance with the least load: when no instance is locked and not all of
  them have the load \<open>2^64 - 1\<close>, the aggregate hands it to a child such that no child has a smaller load.
\<close>

lemma schedule_least_loaded:
  assumes "\<not> alock a" and "\<forall>c \<in> set (children a). \<not> ilock (inst w c)"
    and "\<exists>c \<in> set (children a). isize (inst w c) * 100 \<noteq> - 1"
  shows "\<exists>i \<in> set (children a). (\<forall>j \<in> set (children a). isize (inst w i) * 100 \<le> isize (inst w j) * 100) \<and>
    aggregate_schedule hw me irq w a t = instance_schedule hw me irq w i t"
proof -
  from assms(3) have "\<exists>c \<in> set (children a). iload w c < - 1" by (auto simp: iload_def word_order.not_eq_extremum)
  with lowest_load_least [OF assms(2), of None "- 1"] obtain i where
    "i \<in> set (children a)" "lowest_load w (children a) None (- 1) = Inr (Some i)"
    "\<forall>j \<in> set (children a). isize (inst w i) * 100 \<le> isize (inst w j) * 100" by (auto simp: iload_def)
  with assms(1) show ?thesis by (intro bexI [of _ i]) (simp_all add: aggregate_schedule_def)
qed

lemma schedule_least_loaded_example:
  "\<exists>i \<in> set (children \<lparr>children = [0, 1], alock = False\<rparr>).
    (\<forall>j \<in> set (children \<lparr>children = [0, 1], alock = False\<rparr>). isize (inst two_cores i) * 100 \<le> isize (inst two_cores j) * 100) \<and>
    aggregate_schedule ticking 0 True two_cores \<lparr>children = [0, 1], alock = False\<rparr> 32 = instance_schedule ticking 0 True two_cores i 32"
  by (rule schedule_least_loaded) (simp_all add: two_cores_def)

end
