(* ===== verification/Intrusive_Ptr.thy ===== *)
theory Intrusive_Ptr
  imports Kernel_Result
begin

text \<open>
  The reference counted pointer of \<open>kernel/util/intrusive_ptr.h\<close>. The state is what the pointers of a
  program share: the variables of type \<open>intrusive_ptr\<close> that are in scope with the address each holds,
  the \<open>intrusive_count\<close> of every object, which objects are within their lifetime, and the objects
  \<open>delete\<close> has been called on, in order. What the destructor of the pointee does is a matter of the
  pointee's class. The counts that a raw pointer carries on after \<open>release(keep_count)\<close>, until a pointer
  adopts it, are the field \<open>kept\<close>; no operation reads it.

  An access through a pointer to an object that is not live is a \<^const>\<open>Fault\<close>, as is the use of a
  variable that is not in scope.
\<close>

section \<open>Pointers, counts and objects\<close>

record 'v pointers =
  ptr :: "'v \<Rightarrow> addr option"
  intrusive_count :: "addr \<Rightarrow> u64"
  alive :: "addr \<Rightarrow> bool"
  deleted :: "addr list"
  kept :: "addr \<Rightarrow> nat"

definition no_pointers :: "'v pointers" where
  "no_pointers = \<lparr>ptr = (\<lambda>_. None), intrusive_count = (\<lambda>_. 0), alive = (\<lambda>_. False), deleted = [], kept = (\<lambda>_. 0)\<rparr>"

definition fetch_add_count :: "'v pointers \<Rightarrow> addr \<Rightarrow> u64 \<Rightarrow> ('v pointers \<times> u64) result" where
  "fetch_add_count s p d =
     (if alive s p then Inr (s\<lparr>intrusive_count := (intrusive_count s)(p := intrusive_count s p + d)\<rparr>, intrusive_count s p)
      else Inl Fault)"

definition in_scope :: "'v pointers \<Rightarrow> 'v \<Rightarrow> addr result" where
  "in_scope s x = deref (ptr s x)"

definition claim :: "'v pointers \<Rightarrow> 'v \<Rightarrow> 'v pointers result" where
  "claim s x = bnd (in_scope s x) (\<lambda>p.
     if p \<noteq> nullptr then bnd (fetch_add_count s p 1) (\<lambda>(s, _). Inr s) else Inr s)"

definition delete_object :: "'v pointers \<Rightarrow> addr \<Rightarrow> 'v pointers" where
  "delete_object s p = s\<lparr>alive := (alive s)(p := False), deleted := deleted s @ [p]\<rparr>"

definition disown :: "'v pointers \<Rightarrow> 'v \<Rightarrow> 'v pointers result" where
  "disown s x = bnd (in_scope s x) (\<lambda>p.
     if p \<noteq> nullptr
     then bnd (fetch_add_count s p (- 1)) (\<lambda>(s, old). Inr (if old = 1 then delete_object s p else s))
     else Inr s)"

definition set_ptr :: "'v pointers \<Rightarrow> 'v \<Rightarrow> addr \<Rightarrow> 'v pointers" where
  "set_ptr s x p = s\<lparr>ptr := (ptr s)(x \<mapsto> p)\<rparr>"

definition end_scope :: "'v pointers \<Rightarrow> 'v \<Rightarrow> 'v pointers" where
  "end_scope s x = s\<lparr>ptr := (ptr s)(x := None)\<rparr>"

section \<open>The members of the class\<close>

definition ptr_default :: "'v pointers \<Rightarrow> 'v \<Rightarrow> 'v pointers result" where
  "ptr_default s x = Inr (set_ptr s x nullptr)"

definition ptr_wrap :: "'v pointers \<Rightarrow> 'v \<Rightarrow> addr \<Rightarrow> 'v pointers result" where
  "ptr_wrap s x p = claim (set_ptr s x p) x"

definition ptr_adopt :: "'v pointers \<Rightarrow> 'v \<Rightarrow> addr \<Rightarrow> 'v pointers result" where
  "ptr_adopt s x p = Inr ((set_ptr s x p)\<lparr>kept := (kept s)(p := kept s p - 1)\<rparr>)"

definition ptr_copy :: "'v pointers \<Rightarrow> 'v \<Rightarrow> 'v \<Rightarrow> 'v pointers result" where
  "ptr_copy s x other = bnd (in_scope s other) (\<lambda>p. claim (set_ptr s x p) x)"

definition ptr_move :: "'v pointers \<Rightarrow> 'v \<Rightarrow> 'v \<Rightarrow> 'v pointers result" where
  "ptr_move s x other = bnd (in_scope s other) (\<lambda>p. Inr (set_ptr (set_ptr s other nullptr) x p))"

definition copy_assign :: "'v pointers \<Rightarrow> 'v \<Rightarrow> 'v \<Rightarrow> 'v pointers result" where
  "copy_assign s x other = bnd (disown s x) (\<lambda>s. bnd (in_scope s other) (\<lambda>p. claim (set_ptr s x p) x))"

definition move_assign :: "'v pointers \<Rightarrow> 'v \<Rightarrow> 'v \<Rightarrow> 'v pointers result" where
  "move_assign s x other = bnd (disown s x) (\<lambda>s. bnd (in_scope s other) (\<lambda>p.
     Inr (set_ptr (set_ptr s other nullptr) x p)))"

definition ptr_destroy :: "'v pointers \<Rightarrow> 'v \<Rightarrow> 'v pointers result" where
  "ptr_destroy s x = bnd (disown s x) (\<lambda>s. Inr (end_scope s x))"

definition release_keep :: "'v pointers \<Rightarrow> 'v \<Rightarrow> ('v pointers \<times> addr) result" where
  "release_keep s x = bnd (in_scope s x) (\<lambda>p.
     Inr ((set_ptr s x nullptr)\<lparr>kept := (kept s)(p := kept s p + 1)\<rparr>, p))"

definition release_drop :: "'v pointers \<Rightarrow> 'v \<Rightarrow> ('v pointers \<times> addr) result" where
  "release_drop s x = bnd (in_scope s x) (\<lambda>p. bnd (fetch_add_count s p (- 1)) (\<lambda>(s, _).
     Inr (set_ptr s x nullptr, p)))"

text \<open>\<open>new T\<close> at the address the allocator returns: a live object with the count 0.\<close>

definition new_object :: "'v pointers \<Rightarrow> addr \<Rightarrow> 'v pointers" where
  "new_object s p = s\<lparr>alive := (alive s)(p := True), intrusive_count := (intrusive_count s)(p := 0)\<rparr>"

definition make_intrusive :: "'v pointers \<Rightarrow> 'v \<Rightarrow> addr \<Rightarrow> 'v pointers result" where
  "make_intrusive s x p = ptr_wrap (new_object s p) x p"

text \<open>\<open>intrusive_ptr_preserve_count_traits\<close>: how a container takes and gives back ownership.\<close>

definition traits_create :: "'v pointers \<Rightarrow> 'v \<Rightarrow> addr \<Rightarrow> 'v pointers result" where
  "traits_create s x p = ptr_adopt s x p"

definition traits_unwrap :: "'v pointers \<Rightarrow> 'v \<Rightarrow> ('v pointers \<times> addr) result" where
  "traits_unwrap s x = bnd (release_keep s x) (\<lambda>(s, p). bnd (ptr_destroy s x) (\<lambda>s. Inr (s, p)))"

section \<open>Programs over pointers\<close>

text \<open>A program as the sequence of the operations it performs.\<close>

datatype 'v operation =
    Default 'v | Make 'v addr | Wrap 'v addr | Adopt 'v addr | Copy 'v 'v | Move 'v 'v
  | CopyAssign 'v 'v | MoveAssign 'v 'v | Destroy 'v | ReleaseKeep 'v | ReleaseDrop 'v

fun perform :: "'v operation \<Rightarrow> 'v pointers \<Rightarrow> 'v pointers result" where
  "perform (Default x) s = ptr_default s x"
| "perform (Make x p) s = make_intrusive s x p"
| "perform (Wrap x p) s = ptr_wrap s x p"
| "perform (Adopt x p) s = traits_create s x p"
| "perform (Copy x y) s = ptr_copy s x y"
| "perform (Move x y) s = ptr_move s x y"
| "perform (CopyAssign x y) s = copy_assign s x y"
| "perform (MoveAssign x y) s = move_assign s x y"
| "perform (Destroy x) s = ptr_destroy s x"
| "perform (ReleaseKeep x) s = bnd (release_keep s x) (\<lambda>(s, _). Inr s)"
| "perform (ReleaseDrop x) s = bnd (release_drop s x) (\<lambda>(s, _). Inr s)"

text \<open>
  The programs that use the class as it is meant: variables are constructed once and used in scope, the
  allocator returns unused addresses, a raw pointer that is wrapped points to a live object and one that
  is adopted carries a count, a pointer is not assigned to itself, and \<open>release(drop_count)\<close> is not
  called on the last owner.
\<close>

fun proper :: "'v operation \<Rightarrow> 'v pointers \<Rightarrow> bool" where
  "proper (Default x) s \<longleftrightarrow> ptr s x = None"
| "proper (Make x p) s \<longleftrightarrow> ptr s x = None \<and> p \<noteq> nullptr \<and> \<not> alive s p"
| "proper (Wrap x p) s \<longleftrightarrow> ptr s x = None \<and> (p = nullptr \<or> alive s p)"
| "proper (Adopt x p) s \<longleftrightarrow> ptr s x = None \<and> (p = nullptr \<or> kept s p > 0)"
| "proper (Copy x y) s \<longleftrightarrow> ptr s x = None \<and> ptr s y \<noteq> None"
| "proper (Move x y) s \<longleftrightarrow> ptr s x = None \<and> ptr s y \<noteq> None"
| "proper (CopyAssign x y) s \<longleftrightarrow> ptr s x \<noteq> None \<and> ptr s y \<noteq> None \<and> x \<noteq> y"
| "proper (MoveAssign x y) s \<longleftrightarrow> ptr s x \<noteq> None \<and> ptr s y \<noteq> None \<and> x \<noteq> y"
| "proper (Destroy x) s \<longleftrightarrow> ptr s x \<noteq> None"
| "proper (ReleaseKeep x) s \<longleftrightarrow> ptr s x \<noteq> None"
| "proper (ReleaseDrop x) s \<longleftrightarrow> (\<exists>p. ptr s x = Some p \<and> p \<noteq> nullptr \<and> intrusive_count s p > 1)"

fun proper_program :: "'v operation list \<Rightarrow> 'v pointers \<Rightarrow> bool" where
  "proper_program [] s = True"
| "proper_program (op # ops) s =
     (proper op s \<and> (case perform op s of Inl _ \<Rightarrow> True | Inr s' \<Rightarrow> proper_program ops s'))"

section \<open>Counts are the numbers of owners\<close>

definition owners :: "'v pointers \<Rightarrow> addr \<Rightarrow> nat" where
  "owners s p = card {x. ptr s x = Some p} + kept s p"

text \<open>
  The counts and lifetimes agree with a table \<open>C\<close> of owners: an object is live while it has an owner,
  and its count is then the number of its owners. \<open>n\<close> bounds the table.
\<close>

definition balanced :: "nat \<Rightarrow> (addr \<Rightarrow> nat) \<Rightarrow> 'v pointers \<Rightarrow> bool" where
  "balanced n C s \<longleftrightarrow> (\<forall>p. p \<noteq> nullptr \<longrightarrow>
     C p \<le> n \<and> (alive s p \<longleftrightarrow> C p > 0) \<and> (alive s p \<longrightarrow> intrusive_count s p = of_nat (C p)))"

definition counts_ok :: "nat \<Rightarrow> 'v pointers \<Rightarrow> bool" where
  "counts_ok n s \<longleftrightarrow> finite (dom (ptr s)) \<and> balanced n (owners s) s"

lemma balanced_mono: "balanced n C s \<Longrightarrow> n \<le> m \<Longrightarrow> balanced m C s"
  by (fastforce simp: balanced_def)

lemma balanced_cong:
  "balanced n C s \<Longrightarrow> (\<And>p. p \<noteq> nullptr \<Longrightarrow> D p = C p) \<Longrightarrow> alive s' = alive s \<Longrightarrow>
   intrusive_count s' = intrusive_count s \<Longrightarrow> balanced n D s'"
  by (simp add: balanced_def)

lemma of_nat_count: "n < 2 ^ 64 \<Longrightarrow> 0 < n \<Longrightarrow> (of_nat n :: u64) = 1 \<longleftrightarrow> n = 1"
  using of_nat_u64_eq [of n 1] by simp

lemma disown_balanced:
  assumes "balanced n C s" and "n < 2 ^ 64" and "ptr s x = Some p" and "p = nullptr \<or> C p > 0"
  obtains s' where "disown s x = Inr s'" "balanced n (C(p := C p - 1)) s'" "ptr s' = ptr s" "kept s' = kept s"
proof (cases "p = nullptr")
  case True
  with assms that show thesis by (auto simp: disown_def in_scope_def balanced_def)
next
  case False
  with assms have p: "alive s p" "C p > 0" "C p < 2 ^ 64" "intrusive_count s p = of_nat (C p)"
    by (auto simp: balanced_def intro: le_less_trans)
  let ?s = "s\<lparr>intrusive_count := (intrusive_count s)(p := intrusive_count s p - 1)\<rparr>"
  have "disown s x = Inr (if C p = 1 then delete_object ?s p else ?s)"
    using assms(3) False p of_nat_count [of "C p"]
    by (simp add: disown_def in_scope_def fetch_add_count_def)
  moreover have "balanced n (C(p := C p - 1)) (if C p = 1 then delete_object ?s p else ?s)"
    using assms(1) p by (auto simp: balanced_def delete_object_def of_nat_diff)
  ultimately show thesis using that by (auto simp: delete_object_def)
qed

lemma claim_balanced:
  assumes "balanced n C s" and "ptr s x = Some p" and "p = nullptr \<or> C p > 0"
  obtains s' where "claim s x = Inr s'" "balanced (Suc n) (C(p := C p + 1)) s'" "ptr s' = ptr s" "kept s' = kept s"
proof (cases "p = nullptr")
  case True
  with assms(2) have "claim s x = Inr s" by (simp add: claim_def in_scope_def)
  moreover have "balanced (Suc n) (C(p := C p + 1)) s"
    using balanced_mono [OF assms(1), of "Suc n"] True by (simp add: balanced_def)
  ultimately show thesis using that by simp
next
  case False
  with assms have p: "alive s p" "C p > 0" by (auto simp: balanced_def)
  let ?s = "s\<lparr>intrusive_count := (intrusive_count s)(p := intrusive_count s p + 1)\<rparr>"
  have "claim s x = Inr ?s" using assms(2) False p by (simp add: claim_def in_scope_def fetch_add_count_def)
  moreover have "balanced (Suc n) (C(p := C p + 1)) ?s"
    using assms(1) p by (auto simp: balanced_def)
  ultimately show thesis using that by auto
qed

text \<open>How the table of owners changes with the variables.\<close>

lemma card_fresh:
  assumes "finite (dom f)" and "f x = None"
  shows "card {y. (f(x \<mapsto> q)) y = Some p} = card {y. f y = Some p} + (if p = q then 1 else 0)"
proof -
  have "finite {y. f y = Some p}" by (rule finite_subset [OF _ assms(1)]) auto
  moreover have "{y. (f(x \<mapsto> q)) y = Some p} = (if p = q then insert x {y. f y = Some p} else {y. f y = Some p})"
    using assms(2) by auto
  ultimately show ?thesis using assms(2) by (cases "p = q") simp_all
qed

lemma card_remove:
  assumes "finite (dom f)" and "f x = Some q"
  shows "card {y. (f(x := None)) y = Some p} = card {y. f y = Some p} - (if p = q then 1 else 0)"
proof -
  have "{y. (f(x := None)) y = Some p} = (if p = q then {y. f y = Some p} - {x} else {y. f y = Some p})"
    using assms(2) by auto
  then show ?thesis using assms by (simp add: card_Diff_singleton)
qed

lemma owner_counted:
  assumes "finite (dom (ptr s))" and "ptr s x = Some p"
  shows "owners s p > 0"
proof -
  have "finite {y. ptr s y = Some p}" by (rule finite_subset [OF _ assms(1)]) auto
  then have "card {y. ptr s y = Some p} \<noteq> 0" using assms(2) by auto
  then show ?thesis by (simp add: owners_def)
qed

lemma owners_set_fresh:
  assumes "finite (dom (ptr s))" and "ptr s x = None"
  shows "owners (set_ptr s x q) = (owners s)(q := owners s q + 1)"
  using card_fresh [OF assms] by (auto simp: owners_def set_ptr_def fun_eq_iff)

lemma owners_end_scope:
  assumes "finite (dom (ptr s))" and "ptr s x = Some q"
  shows "owners (end_scope s x) = (owners s)(q := owners s q - 1)"
proof (rule ext)
  fix p
  have "finite {y. ptr s y = Some q}" by (rule finite_subset [OF _ assms(1)]) auto
  then have "card {y. ptr s y = Some q} > 0" using assms(2) by (auto simp: card_gt_0_iff)
  then show "owners (end_scope s x) p = ((owners s)(q := owners s q - 1)) p"
    using card_remove [OF assms, of p] by (auto simp: owners_def end_scope_def)
qed

lemma owners_set_ptr:
  assumes "finite (dom (ptr s))" and "ptr s x = Some p"
  shows "owners (set_ptr s x q) = ((owners s)(p := owners s p - 1))(q := ((owners s)(p := owners s p - 1)) q + 1)"
proof -
  have "set_ptr s x q = set_ptr (end_scope s x) x q" by (simp add: set_ptr_def end_scope_def)
  moreover have "owners (set_ptr (end_scope s x) x q) = (owners (end_scope s x))(q := owners (end_scope s x) q + 1)"
    by (rule owners_set_fresh) (use assms(1) in \<open>simp_all add: end_scope_def\<close>)
  ultimately show ?thesis by (simp add: owners_end_scope [OF assms])
qed

lemma owners_cong: "ptr s' = ptr s \<Longrightarrow> kept s' = kept s \<Longrightarrow> owners s' = owners s"
  by (simp add: owners_def fun_eq_iff)

lemma set_ptr_simps [simp]:
  "ptr (set_ptr s x p) = (ptr s)(x \<mapsto> p)" "kept (set_ptr s x p) = kept s" "alive (set_ptr s x p) = alive s"
  "intrusive_count (set_ptr s x p) = intrusive_count s" "deleted (set_ptr s x p) = deleted s"
  by (simp_all add: set_ptr_def)

lemma end_scope_simps [simp]:
  "ptr (end_scope s x) = (ptr s)(x := None)" "kept (end_scope s x) = kept s" "alive (end_scope s x) = alive s"
  "intrusive_count (end_scope s x) = intrusive_count s" "deleted (end_scope s x) = deleted s"
  by (simp_all add: end_scope_def)

section \<open>Every operation keeps the counts\<close>

lemma ptr_default_ok:
  assumes "counts_ok n s" and "ptr s x = None"
  obtains s' where "ptr_default s x = Inr s'" "counts_ok n s'"
proof -
  have "balanced n (owners (set_ptr s x nullptr)) (set_ptr s x nullptr)"
    using assms by (auto simp: counts_ok_def owners_set_fresh intro: balanced_cong)
  with assms that show thesis by (simp add: ptr_default_def counts_ok_def)
qed

lemma ptr_wrap_ok:
  assumes s: "counts_ok n s" and x: "ptr s x = None" and p: "p = nullptr \<or> alive s p"
  obtains s' where "ptr_wrap s x p = Inr s'" "counts_ok (Suc n) s'"
proof -
  have b: "balanced n (owners s) (set_ptr s x p)"
    using s by (auto simp: counts_ok_def intro: balanced_cong)
  have "p = nullptr \<or> owners s p > 0" using p s by (auto simp: counts_ok_def balanced_def)
  from claim_balanced [OF b _ this, of x] obtain s' where s': "claim (set_ptr s x p) x = Inr s'"
      "balanced (Suc n) ((owners s)(p := owners s p + 1)) s'" "ptr s' = (ptr s)(x \<mapsto> p)" "kept s' = kept s"
    by auto
  moreover have "owners s' = (owners s)(p := owners s p + 1)"
    using s x s'(3,4) owners_set_fresh [of s x p] owners_cong [of s' "set_ptr s x p"] by (simp add: counts_ok_def)
  ultimately show thesis using s by (intro that [of s']) (simp_all add: ptr_wrap_def counts_ok_def)
qed

lemma make_intrusive_ok:
  assumes s: "counts_ok n s" and x: "ptr s x = None" and p: "p \<noteq> nullptr" "\<not> alive s p"
  obtains s' where "make_intrusive s x p = Inr s'" "counts_ok (Suc n) s'"
proof -
  let ?s = "set_ptr (s\<lparr>alive := (alive s)(p := True), intrusive_count := (intrusive_count s)(p := 1)\<rparr>) x p"
  have "make_intrusive s x p = Inr ?s"
    using p by (simp add: make_intrusive_def ptr_wrap_def claim_def in_scope_def fetch_add_count_def new_object_def set_ptr_def)
  moreover have "owners s p = 0" using s p by (auto simp: counts_ok_def balanced_def)
  moreover have "owners ?s = (owners s)(p := owners s p + 1)"
    using s x owners_set_fresh [of s x p] owners_cong [of ?s "set_ptr s x p"] by (simp add: counts_ok_def)
  ultimately show thesis
    using s by (intro that [of ?s]) (auto simp: counts_ok_def balanced_def intro: le_SucI)
qed

lemma ptr_adopt_ok:
  assumes s: "counts_ok n s" and x: "ptr s x = None" and p: "p = nullptr \<or> kept s p > 0"
  obtains s' where "ptr_adopt s x p = Inr s'" "counts_ok n s'"
proof -
  let ?s = "(set_ptr s x p)\<lparr>kept := (kept s)(p := kept s p - 1)\<rparr>"
  have "owners ?s q = owners s q" if "q \<noteq> nullptr" for q
    using s x p that card_fresh [of "ptr s" x p q] by (auto simp: owners_def counts_ok_def)
  then have "balanced n (owners ?s) ?s" using s by (auto simp: counts_ok_def intro: balanced_cong)
  with s show thesis by (intro that [of ?s]) (simp_all add: ptr_adopt_def counts_ok_def)
qed

lemma ptr_copy_ok:
  assumes s: "counts_ok n s" and x: "ptr s x = None" and y: "ptr s y \<noteq> None"
  obtains s' where "ptr_copy s x y = Inr s'" "counts_ok (Suc n) s'"
proof -
  from y obtain p where p: "ptr s y = Some p" by auto
  then have "ptr_copy s x y = ptr_wrap s x p" by (simp add: ptr_copy_def ptr_wrap_def in_scope_def)
  moreover have "p = nullptr \<or> alive s p"
    using s owner_counted [OF _ p] by (auto simp: counts_ok_def balanced_def)
  ultimately show thesis using ptr_wrap_ok [OF s x, of p] that by metis
qed

text \<open>Moving: the source becomes null and the target gets its address.\<close>

lemma owners_move:
  assumes "finite (dom (ptr s))" and "ptr s x = None" and "ptr s y = Some p" and "q \<noteq> nullptr"
  shows "owners (set_ptr (set_ptr s y nullptr) x p) q = owners s q"
proof -
  have "owners (set_ptr (set_ptr s y nullptr) x p) =
      (owners (set_ptr s y nullptr))(p := owners (set_ptr s y nullptr) p + 1)"
    by (rule owners_set_fresh) (use assms in auto)
  with owners_set_ptr [OF assms(1,3), of nullptr] owner_counted [OF assms(1,3)] assms(4) show ?thesis
    by auto
qed

lemma ptr_move_ok:
  assumes s: "counts_ok n s" and x: "ptr s x = None" and y: "ptr s y \<noteq> None"
  obtains s' where "ptr_move s x y = Inr s'" "counts_ok n s'"
proof -
  from y obtain p where p: "ptr s y = Some p" by auto
  let ?s = "set_ptr (set_ptr s y nullptr) x p"
  have "balanced n (owners ?s) ?s"
    by (rule balanced_cong [of n "owners s" s]) (use s owners_move [OF _ x p] in \<open>simp_all add: counts_ok_def\<close>)
  with s p show thesis by (intro that [of ?s]) (simp_all add: ptr_move_def in_scope_def counts_ok_def)
qed

lemma owners_two:
  assumes "finite (dom (ptr s))" and "x \<noteq> y" and "ptr s x = Some p" and "ptr s y = Some p"
  shows "owners s p \<ge> 2"
proof -
  have "finite {z. ptr s z = Some p}" by (rule finite_subset [OF _ assms(1)]) auto
  then have "card {x, y} \<le> card {z. ptr s z = Some p}" by (rule card_mono) (use assms(3,4) in auto)
  with assms(2) show ?thesis by (simp add: owners_def)
qed

text \<open>What the assignments do first: the target gives up its object, and keeps the address.\<close>

lemma disown_ok:
  assumes s: "counts_ok n s" and n: "n < 2 ^ 64" and x: "ptr s x = Some p"
  obtains s' where "disown s x = Inr s'" "balanced n (owners (end_scope s x)) s'" "ptr s' = ptr s" "kept s' = kept s"
  using s disown_balanced [OF _ n x, of "owners s"] owner_counted [OF _ x] owners_end_scope [OF _ x] that
  by (auto simp: counts_ok_def)

lemma copy_assign_ok:
  assumes s: "counts_ok n s" and n: "n < 2 ^ 64" and x: "ptr s x \<noteq> None" and y: "ptr s y \<noteq> None" "x \<noteq> y"
  obtains s' where "copy_assign s x y = Inr s'" "counts_ok (Suc n) s'"
proof -
  from x y obtain p q where p: "ptr s x = Some p" and q: "ptr s y = Some q" by auto
  from disown_ok [OF s n p] obtain s1 where s1: "disown s x = Inr s1" "balanced n (owners (end_scope s x)) s1"
      "ptr s1 = ptr s" "kept s1 = kept s" .
  have f: "finite (dom (ptr (end_scope s x)))" using s by (simp add: counts_ok_def)
  have "balanced n (owners (end_scope s x)) (set_ptr s1 x q)" using s1(2) by (auto intro: balanced_cong)
  moreover have "owners (end_scope s x) q > 0" using owner_counted [OF f, of y q] q y by simp
  ultimately obtain s2 where s2: "claim (set_ptr s1 x q) x = Inr s2"
      "balanced (Suc n) ((owners (end_scope s x))(q := owners (end_scope s x) q + 1)) s2"
      "ptr s2 = (ptr s)(x \<mapsto> q)" "kept s2 = kept s"
    using claim_balanced [of n "owners (end_scope s x)" "set_ptr s1 x q" x q] s1 by auto
  have "owners s2 = owners (set_ptr (end_scope s x) x q)" by (rule owners_cong) (simp_all add: s2)
  with s2(2) have "balanced (Suc n) (owners s2) s2" by (simp add: owners_set_fresh [OF f])
  moreover have "copy_assign s x y = Inr s2" using s1 s2(1) q by (simp add: copy_assign_def in_scope_def)
  ultimately show thesis using s s2(3) by (intro that [of s2]) (simp_all add: counts_ok_def)
qed

lemma move_assign_ok:
  assumes s: "counts_ok n s" and n: "n < 2 ^ 64" and x: "ptr s x \<noteq> None" and y: "ptr s y \<noteq> None" "x \<noteq> y"
  obtains s' where "move_assign s x y = Inr s'" "counts_ok n s'"
proof -
  from x y obtain p q where p: "ptr s x = Some p" and q: "ptr s y = Some q" by auto
  from disown_ok [OF s n p] obtain s1 where s1: "disown s x = Inr s1" "balanced n (owners (end_scope s x)) s1"
      "ptr s1 = ptr s" "kept s1 = kept s" .
  let ?s = "set_ptr (set_ptr s1 y nullptr) x q" and ?e = "end_scope s x"
  have "owners ?s = owners (set_ptr (set_ptr ?e y nullptr) x q)" by (rule owners_cong) (use s1 y in auto)
  then have "owners ?s r = owners ?e r" if "r \<noteq> nullptr" for r
    using owners_move [of ?e x y q r] s q y that by (simp add: counts_ok_def)
  with s1(2) have "balanced n (owners ?s) ?s" by (auto intro: balanced_cong)
  moreover have "move_assign s x y = Inr ?s" using s1 q by (simp add: move_assign_def in_scope_def)
  ultimately show thesis using s s1(3) by (intro that [of ?s]) (simp_all add: counts_ok_def)
qed

lemma ptr_destroy_ok:
  assumes s: "counts_ok n s" and n: "n < 2 ^ 64" and x: "ptr s x \<noteq> None"
  obtains s' where "ptr_destroy s x = Inr s'" "counts_ok n s'"
proof -
  from x obtain p where p: "ptr s x = Some p" by auto
  from disown_ok [OF s n p] obtain s1 where s1: "disown s x = Inr s1" "balanced n (owners (end_scope s x)) s1"
      "ptr s1 = ptr s" "kept s1 = kept s" .
  have "owners (end_scope s1 x) = owners (end_scope s x)" by (rule owners_cong) (simp_all add: s1)
  with s1(2) have "balanced n (owners (end_scope s1 x)) (end_scope s1 x)" by (auto intro: balanced_cong)
  with s s1 show thesis by (intro that [of "end_scope s1 x"]) (simp_all add: ptr_destroy_def counts_ok_def)
qed

lemma release_keep_ok:
  assumes s: "counts_ok n s" and x: "ptr s x = Some p"
  obtains s' where "release_keep s x = Inr (s', p)" "counts_ok n s'"
proof -
  let ?s = "(set_ptr s x nullptr)\<lparr>kept := (kept s)(p := kept s p + 1)\<rparr>"
  have "owners ?s q = owners s q" if "q \<noteq> nullptr" for q
  proof -
    have "owners ?s q = owners (set_ptr s x nullptr) q + (if q = p then 1 else 0)" by (simp add: owners_def)
    with owners_set_ptr [OF _ x, of nullptr] owner_counted [OF _ x] s that show ?thesis by (auto simp: counts_ok_def)
  qed
  then have "balanced n (owners ?s) ?s" using s by (auto simp: counts_ok_def intro: balanced_cong)
  with s x show thesis by (intro that [of ?s]) (simp_all add: release_keep_def in_scope_def counts_ok_def)
qed

lemma release_drop_ok:
  assumes s: "counts_ok n s" and n: "n < 2 ^ 64" and x: "ptr s x = Some p" "p \<noteq> nullptr" "intrusive_count s p > 1"
  obtains s' where "release_drop s x = Inr (s', p)" "counts_ok n s'"
proof -
  have c: "owners s p > 0" using owner_counted [OF _ x(1)] s by (simp add: counts_ok_def)
  with s x(2) have a: "alive s p" "intrusive_count s p = of_nat (owners s p)"
    by (auto simp: counts_ok_def balanced_def)
  with x(3) have "owners s p \<noteq> 1" by (cases "owners s p = 1") simp_all
  with c have two: "owners s p - 1 > 0" by simp
  let ?s = "set_ptr (s\<lparr>intrusive_count := (intrusive_count s)(p := intrusive_count s p - 1)\<rparr>) x nullptr"
  have "owners ?s = owners (set_ptr s x nullptr)" by (rule owners_cong) simp_all
  with owners_set_ptr [OF _ x(1), of nullptr] s have
    "owners ?s q = (if q = p then owners s p - 1 else owners s q)" if "q \<noteq> nullptr" for q
    using that by (simp add: counts_ok_def)
  then have "balanced n (owners ?s) ?s"
    using s a two x(2) by (auto simp: counts_ok_def balanced_def of_nat_diff Suc_leI)
  with s a x(1) show thesis
    by (intro that [of ?s]) (simp_all add: release_drop_def in_scope_def fetch_add_count_def counts_ok_def)
qed

lemma counts_ok_mono: "counts_ok n s \<Longrightarrow> n \<le> m \<Longrightarrow> counts_ok m s"
  by (auto simp: counts_ok_def intro: balanced_mono)

lemma perform_ok:
  assumes s: "counts_ok n s" and n: "n < 2 ^ 64" and op: "proper op s"
  shows "\<exists>s'. perform op s = Inr s' \<and> counts_ok (Suc n) s'"
proof -
  note up = counts_ok_mono [where m = "Suc n" and n = n]
  show ?thesis
  proof (cases op)
    case (Default x) with s op up show ?thesis by (auto elim: ptr_default_ok [of n s x])
  next
    case (Make x p) with s op show ?thesis by (auto elim: make_intrusive_ok [of n s x p])
  next
    case (Wrap x p) with s op show ?thesis by (auto elim: ptr_wrap_ok [of n s x p])
  next
    case (Adopt x p) with s op up show ?thesis by (auto simp: traits_create_def elim: ptr_adopt_ok [of n s x p])
  next
    case (Copy x y) with s op show ?thesis by (auto elim: ptr_copy_ok [of n s x y])
  next
    case (Move x y) with s op up show ?thesis by (auto elim: ptr_move_ok [of n s x y])
  next
    case (CopyAssign x y)
    then have "ptr s x \<noteq> None" "ptr s y \<noteq> None" "x \<noteq> y" using op by simp_all
    from copy_assign_ok [OF s n this] obtain s' where "copy_assign s x y = Inr s'" "counts_ok (Suc n) s'" .
    with CopyAssign show ?thesis by auto
  next
    case (MoveAssign x y)
    then have "ptr s x \<noteq> None" "ptr s y \<noteq> None" "x \<noteq> y" using op by simp_all
    from move_assign_ok [OF s n this] obtain s' where "move_assign s x y = Inr s'" "counts_ok n s'" .
    with MoveAssign up [of s'] show ?thesis by auto
  next
    case (Destroy x)
    then have "ptr s x \<noteq> None" using op by simp
    from ptr_destroy_ok [OF s n this] obtain s' where "ptr_destroy s x = Inr s'" "counts_ok n s'" .
    with Destroy up [of s'] show ?thesis by auto
  next
    case (ReleaseKeep x)
    with op obtain p where p: "ptr s x = Some p" by auto
    from release_keep_ok [OF s p] obtain s' where "release_keep s x = Inr (s', p)" "counts_ok n s'" .
    with ReleaseKeep up [of s'] show ?thesis by auto
  next
    case (ReleaseDrop x)
    with op obtain p where p: "ptr s x = Some p" "p \<noteq> nullptr" "intrusive_count s p > 1" by auto
    from release_drop_ok [OF s n p] obtain s' where "release_drop s x = Inr (s', p)" "counts_ok n s'" .
    with ReleaseDrop up [of s'] show ?thesis by auto
  qed
qed

lemma program_ok:
  "counts_ok n s \<Longrightarrow> n + length ops \<le> 2 ^ 64 \<Longrightarrow> proper_program ops s \<Longrightarrow>
   \<exists>s'. each perform ops s = Inr s' \<and> counts_ok (n + length ops) s'"
proof (induction ops arbitrary: n s)
  case (Cons op ops)
  from Cons.prems perform_ok [of n s op] obtain s1 where s1: "perform op s = Inr s1" "counts_ok (Suc n) s1" by auto
  with Cons.IH [of "Suc n" s1] Cons.prems show ?case by auto
qed simp

lemma counts_ok_start: "counts_ok 0 no_pointers"
  by (simp add: counts_ok_def balanced_def owners_def no_pointers_def)

section \<open>Properties\<close>

text \<open>
  C11. Reference counts are exact. A program of fewer than \<open>2^64\<close> pointer operations that uses the class
  properly never touches an object after its deletion, and after it every object is live exactly while it has an
  owner (a pointer variable or a kept raw pointer), with the number of its owners as its count: none is
  deleted early, and none is left behind.
\<close>

theorem counts_exact:
  assumes "proper_program ops no_pointers" and "length ops \<le> 2 ^ 64"
  shows "\<exists>s. each perform ops no_pointers = Inr s \<and>
    (\<forall>p. p \<noteq> nullptr \<longrightarrow> (alive s p \<longleftrightarrow> owners s p > 0) \<and> (alive s p \<longrightarrow> intrusive_count s p = of_nat (owners s p)))"
  using program_ok [OF counts_ok_start, of ops] assms by (auto simp: counts_ok_def balanced_def)

text \<open>Two owners, of which one moves its object into a container and back, and both end.\<close>

definition sharing_program :: "nat operation list" where
  "sharing_program = [Make 0 8, Copy 1 0, Make 2 16, CopyAssign 2 0, ReleaseKeep 1, Destroy 1, Destroy 0, Adopt 3 8,
     MoveAssign 2 3, Destroy 3]"

theorem counts_exact_witness:
  "\<exists>s. each perform sharing_program no_pointers = Inr s \<and>
    (\<forall>p. p \<noteq> nullptr \<longrightarrow> (alive s p \<longleftrightarrow> owners s p > 0) \<and> (alive s p \<longrightarrow> intrusive_count s p = of_nat (owners s p)))"
  by (rule counts_exact)
    (simp_all add: sharing_program_def no_pointers_def make_intrusive_def ptr_wrap_def claim_def in_scope_def
      fetch_add_count_def new_object_def set_ptr_def ptr_copy_def copy_assign_def disown_def delete_object_def
      release_keep_def ptr_destroy_def end_scope_def traits_create_def ptr_adopt_def move_assign_def)

text \<open>
  Copy assignment of a pointer to itself, when it is the only owner of its object, deletes the object
  and then increments the count inside the deleted object.
\<close>

lemma self_assignment_faults:
  assumes "ptr s x = Some p" and "p \<noteq> nullptr" and "alive s p" and "intrusive_count s p = 1"
  shows "copy_assign s x x = Inl Fault"
  using assms
  by (simp add: copy_assign_def disown_def in_scope_def fetch_add_count_def delete_object_def claim_def set_ptr_def)

lemma self_assignment_faults_witness:
  "bnd (perform (Make (0 :: nat) 8) no_pointers) (\<lambda>s. copy_assign s 0 0) = Inl Fault"
proof -
  let ?s = "\<lparr>ptr = [0 :: nat \<mapsto> 8], intrusive_count = (\<lambda>_. 0)(8 := 1), alive = (\<lambda>_. False)(8 := True), deleted = [],
    kept = (\<lambda>_. 0)\<rparr>"
  have "perform (Make (0 :: nat) 8) no_pointers = Inr ?s"
    by (simp add: no_pointers_def make_intrusive_def ptr_wrap_def claim_def in_scope_def fetch_add_count_def
      new_object_def set_ptr_def fun_eq_iff)
  then show ?thesis using self_assignment_faults [of ?s 0 8] by simp
qed

end
