(* ===== verification/Handles.thy ===== *)
theory Handles
  imports Intrusive_Ptr
begin

text \<open>
  Handles (\<open>kernel/util/handle.h\<close>, \<open>handle.cpp\<close>): reference counted objects that carry a type, a
  payload, a set of permissions and what to do with the payload at the end. The pointers of the kernel
  live in local variables and in the members of objects; \<open>slot\<close> names both. The values of
  \<open>rose::syscall::permissions\<close> are in a header the build generates, and are parameters here.
\<close>

section \<open>Handle objects\<close>

datatype slot = Local string | Member addr

text \<open>\<open>type_id_of<T>\<close>: one object per class, told apart by its address.\<close>

datatype type_id = Process_type | Vas_type | Vmo_type | Mapping_type | Mailbox_type | Kernel_caps_type

text \<open>The two function pointers \<open>create_handle\<close> installs: nothing for a raw payload, and for a counted one.\<close>

datatype dtor = Nothing_dtor | Release_dtor

record handle =
  htype :: type_id
  payload :: addr
  hdtor :: dtor
  perms :: u64

record objects =
  ptrs :: "slot pointers"
  handle_at :: "addr \<Rightarrow> handle"

definition is_a :: "handle \<Rightarrow> type_id \<Rightarrow> bool" where
  "is_a h t = (htype h = t)"

definition get_as :: "handle \<Rightarrow> addr" where
  "get_as h = payload h"

definition has_permissions :: "handle \<Rightarrow> u64 \<Rightarrow> bool" where
  "has_permissions h p = (p AND perms h = p)"

section \<open>Creation and destruction\<close>

text \<open>\<open>util::make_intrusive<handle>\<close> into the variable \<open>x\<close>; \<open>h\<close> is the address the allocator returns.\<close>

definition make_handle :: "objects \<Rightarrow> slot \<Rightarrow> addr \<Rightarrow> handle \<Rightarrow> objects result" where
  "make_handle s x h v =
     bnd (make_intrusive (ptrs s) x h) (\<lambda>ps. Inr (s\<lparr>ptrs := ps, handle_at := (handle_at s)(h := v)\<rparr>))"

definition create_handle_raw :: "objects \<Rightarrow> slot \<Rightarrow> addr \<Rightarrow> type_id \<Rightarrow> addr \<Rightarrow> u64 \<Rightarrow> objects result" where
  "create_handle_raw s x h t p pm = make_handle s x h \<lparr>htype = t, payload = p, hdtor = Nothing_dtor, perms = pm\<rparr>"

definition create_handle :: "objects \<Rightarrow> slot \<Rightarrow> addr \<Rightarrow> type_id \<Rightarrow> slot \<Rightarrow> u64 \<Rightarrow> objects result" where
  "create_handle s x h t p pm =
     bnd (release_keep (ptrs s) p) (\<lambda>(ps, raw).
       make_handle (s\<lparr>ptrs := ps\<rparr>) x h \<lparr>htype = t, payload = raw, hdtor = Release_dtor, perms = pm\<rparr>)"

text \<open>
  \<open>~handle\<close>. The function for counted payloads constructs a pointer to the payload, which takes a count,
  and releases that pointer with \<open>drop_count\<close>, which gives the same count back.
\<close>

definition handle_dtor :: "objects \<Rightarrow> addr \<Rightarrow> objects result" where
  "handle_dtor s h = (case hdtor (handle_at s h) of
       Nothing_dtor \<Rightarrow> Inr s
     | Release_dtor \<Rightarrow>
         (let tmp = Local ''payload''
          in bnd (ptr_wrap (ptrs s) tmp (payload (handle_at s h))) (\<lambda>ps.
             bnd (release_drop ps tmp) (\<lambda>(ps, _).
             bnd (ptr_destroy ps tmp) (\<lambda>ps. Inr (s\<lparr>ptrs := ps\<rparr>))))))"

text \<open>The end of a variable of type \<open>intrusive_ptr<handle>\<close>; the last one runs \<open>~handle\<close> and frees the handle.\<close>

definition drop_handle :: "objects \<Rightarrow> slot \<Rightarrow> objects result" where
  "drop_handle s x = bnd (in_scope (ptrs s) x) (\<lambda>h.
     if h \<noteq> nullptr \<and> alive (ptrs s) h \<and> intrusive_count (ptrs s) h = 1
     then bnd (handle_dtor s h) (\<lambda>s. bnd (ptr_destroy (ptrs s) x) (\<lambda>ps. Inr (s\<lparr>ptrs := ps\<rparr>)))
     else bnd (ptr_destroy (ptrs s) x) (\<lambda>ps. Inr (s\<lparr>ptrs := ps\<rparr>)))"

section \<open>Handles never give their payload back\<close>

lemma handle_dtor_Release:
  assumes "ptr (ptrs s) (Local ''payload'') = None" and "hdtor (handle_at s h) = Release_dtor"
    and "payload (handle_at s h) = p" "p \<noteq> nullptr" "alive (ptrs s) p"
  shows "handle_dtor s h = Inr s"
proof -
  have "(intrusive_count (ptrs s))(p := intrusive_count (ptrs s) p) = intrusive_count (ptrs s)" by simp
  moreover have "(ptr (ptrs s))(Local ''payload'' := None) = ptr (ptrs s)" using assms(1) by auto
  ultimately show ?thesis
    using assms
    by (simp add: handle_dtor_def Let_def ptr_wrap_def claim_def in_scope_def set_ptr_def fetch_add_count_def
      release_drop_def ptr_destroy_def disown_def end_scope_def)
qed

text \<open>
  C37. A handle never gives its payload back: when the last pointer to a handle that owns a counted
  payload goes, the handle is deleted, but the count of the payload is what it was, and the payload is
  not deleted.
\<close>

theorem handle_keeps_payload:
  assumes "ptr (ptrs s) x = Some h" and "h \<noteq> nullptr" and "alive (ptrs s) h" and "intrusive_count (ptrs s) h = 1"
    and "hdtor (handle_at s h) = Release_dtor" and "payload (handle_at s h) = p" and "p \<noteq> nullptr" "p \<noteq> h"
    and "alive (ptrs s) p" and "ptr (ptrs s) (Local ''payload'') = None"
  shows "\<exists>s'. drop_handle s x = Inr s' \<and> deleted (ptrs s') = deleted (ptrs s) @ [h] \<and> alive (ptrs s') p \<and>
    intrusive_count (ptrs s') p = intrusive_count (ptrs s) p"
  using assms handle_dtor_Release [OF assms(10,5,6,7,9)]
  by (simp add: drop_handle_def in_scope_def ptr_destroy_def disown_def fetch_add_count_def delete_object_def)

definition one_handle :: objects where
  "one_handle = \<lparr>ptrs = \<lparr>ptr = [Local ''h'' \<mapsto> 8], intrusive_count = (\<lambda>_. 1), alive = (\<lambda>p. p \<in> {8, 16}), deleted = [],
       kept = (\<lambda>p. if p = 16 then 1 else 0)\<rparr>,
     handle_at = (\<lambda>_. \<lparr>htype = Vas_type, payload = 16, hdtor = Release_dtor, perms = 5\<rparr>)\<rparr>"

theorem handle_keeps_payload_witness:
  "\<exists>s'. drop_handle one_handle (Local ''h'') = Inr s' \<and> deleted (ptrs s') = deleted (ptrs one_handle) @ [8] \<and>
    alive (ptrs s') 16 \<and> intrusive_count (ptrs s') 16 = intrusive_count (ptrs one_handle) 16"
  by (rule handle_keeps_payload) (simp_all add: one_handle_def)

text \<open>What a client needs: the end of a handle variable keeps the counts exact.\<close>

lemma drop_handle_ok:
  assumes s: "counts_ok n (ptrs s)" and n: "n < 2 ^ 64" and x: "ptr (ptrs s) x \<noteq> None" "x \<noteq> Local ''payload''"
    and t: "ptr (ptrs s) (Local ''payload'') = None"
    and p: "\<And>h. hdtor (handle_at s h) = Release_dtor \<Longrightarrow> ptr (ptrs s) x = Some h \<Longrightarrow>
      payload (handle_at s h) \<noteq> nullptr \<and> alive (ptrs s) (payload (handle_at s h))"
  obtains ps' where "drop_handle s x = Inr (s\<lparr>ptrs := ps'\<rparr>)" "ptr_destroy (ptrs s) x = Inr ps'" "counts_ok n ps'"
proof -
  from x obtain h where h: "ptr (ptrs s) x = Some h" by auto
  have "handle_dtor s h = Inr s"
  proof (cases "hdtor (handle_at s h)")
    case Nothing_dtor
    then show ?thesis by (simp add: handle_dtor_def)
  next
    case Release_dtor
    with handle_dtor_Release [OF t Release_dtor refl] p [OF Release_dtor h] show ?thesis by simp
  qed
  moreover from ptr_destroy_ok [OF s n x(1)] obtain ps' where "ptr_destroy (ptrs s) x = Inr ps'" "counts_ok n ps'" .
  ultimately show thesis using that [of ps'] h by (simp add: drop_handle_def in_scope_def)
qed

end
