(* ===== verification/Process.thy ===== *)
theory Process
  imports Handles Avl_Client
begin

text \<open>
  Processes (\<open>kernel/scheduler/process.h\<close>, \<open>process.cpp\<close>): the table of the handles a process holds, by
  token, in an \<open>avl_tree\<close> under a lock. An element of the tree, \<open>_handle_store\<close>, is a token, which is the
  value in the tree, and an owning pointer to a handle, which is the slot \<open>Member e\<close> of the element \<open>e\<close>.

  Parameters: the address \<open>e\<close> that \<open>std::make_unique\<close> returns, and the readings of the high precision
  timer, \<open>clock n\<close> for the reading number \<open>n\<close>; the operations return how far the readings have been used.
  \<open>util::interrupt_guard\<close> restores the interrupt flag it finds, and has no other effect here.
\<close>

section \<open>The process object\<close>

record process =
  handles :: "u64 avl_tree"
  process_lock :: bool
  started :: bool
  address_space :: addr

definition handle_store_less :: "u64 \<Rightarrow> u64 \<Rightarrow> bool" where
  "handle_store_less lhs rhs = (lhs < rhs)"

definition find_token :: "u64 avl_tree \<Rightarrow> u64 \<Rightarrow> addr option" where
  "find_token hs token = avl_find (\<lambda>t x. t < x) (\<lambda>x t. x < t) hs token"

text \<open>The loop of \<open>register_for_token\<close>: try one token per reading of the timer until one is not in use.\<close>

partial_function (option) pick_token ::
    "u64 avl_tree \<Rightarrow> u64 \<Rightarrow> u64 \<Rightarrow> (nat \<Rightarrow> u64) \<Rightarrow> nat \<Rightarrow> (u64 \<times> nat) option" where
  "pick_token hs self_uint handle_uint clock n =
     (let token = (self_uint XOR handle_uint) XOR clock n
      in do {
        it \<leftarrow> find_token hs token;
        if it = nullptr then Some (token, Suc n) else pick_token hs self_uint handle_uint clock (Suc n)
      })"

definition register_for_token ::
    "addr \<Rightarrow> process \<Rightarrow> objects \<Rightarrow> slot \<Rightarrow> addr \<Rightarrow> (nat \<Rightarrow> u64) \<Rightarrow> nat \<Rightarrow> (process \<times> objects \<times> u64 \<times> nat) result" where
  "register_for_token this p s hnd e clock n =
     bnd (ptr_default (ptrs s) (Member e)) (\<lambda>ps.
     bnd (move_assign ps (Member e) hnd) (\<lambda>ps.
     if process_lock p then Inl Deadlock
     else
       bnd (in_scope ps (Member e)) (\<lambda>handle_uint.
       bnd (deref (pick_token (handles p) this handle_uint clock n)) (\<lambda>(token, n).
       bnd (deref (avl_insert handle_store_less (new_element (handles p) e token) e)) (\<lambda>(hs, _, inserted).
       if \<not> inserted then Inl (Panic ''failed to insert a handle into handles tree!'')
       else Inr (p\<lparr>handles := hs\<rparr>, s\<lparr>ptrs := ps\<rparr>, token, n))))))"

definition unregister_token :: "process \<Rightarrow> objects \<Rightarrow> u64 \<Rightarrow> (process \<times> objects) result" where
  "unregister_token p s token =
     (if process_lock p then Inl Deadlock
      else
        bnd (deref (find_token (handles p) token)) (\<lambda>it.
        if it = nullptr then Inl (Panic ''tried to unregister a token that doesn't exit'')
        else
          bnd (deref (avl_erase (handles p) it)) (\<lambda>(hs, _).
          bnd (drop_handle s (Member it)) (\<lambda>s.
          Inr (p\<lparr>handles := free_element hs it\<rparr>, s)))))"

text \<open>\<open>get_handle\<close> returns a pointer; \<open>ret\<close> is the variable it initialises.\<close>

definition get_handle :: "process \<Rightarrow> objects \<Rightarrow> u64 \<Rightarrow> slot \<Rightarrow> objects result" where
  "get_handle p s token ret =
     (if process_lock p then Inl Deadlock
      else
        bnd (deref (find_token (handles p) token)) (\<lambda>it.
        if it = nullptr then bnd (ptr_default (ptrs s) ret) (\<lambda>ps. Inr (s\<lparr>ptrs := ps\<rparr>))
        else bnd (ptr_copy (ptrs s) ret (Member it)) (\<lambda>ps. Inr (s\<lparr>ptrs := ps\<rparr>))))"

section \<open>The table a process holds\<close>

text \<open>
  The specification: a process holds a finite map from tokens to handles. \<open>table_of\<close> says which map the
  tree and the pointers in its elements stand for.
\<close>

definition token_table :: "process \<Rightarrow> objects \<Rightarrow> addr list \<Rightarrow> u64 \<rightharpoonup> addr" where
  "token_table p s xs = (\<lambda>t. Option.bind (tree_index (\<lambda>x. x) (handles p) xs t) (\<lambda>a. ptr (ptrs s) (Member a)))"

definition holds_table :: "process \<Rightarrow> objects \<Rightarrow> (u64 \<rightharpoonup> addr) \<Rightarrow> bool" where
  "holds_table p s m \<longleftrightarrow>
     \<not> process_lock p \<and>
     (\<exists>xs. represents handle_store_less (handles p) xs \<and> m = token_table p s xs \<and>
        (\<forall>a \<in> set xs. \<exists>h. ptr (ptrs s) (Member a) = Some h \<and> h \<noteq> nullptr))"

lemma handle_store_less_key: "handle_store_less = key_less (\<lambda>x. x)"
  by (simp add: handle_store_less_def fun_eq_iff)

lemma find_token_key: "find_token = find_by_key (\<lambda>x. x)"
  by (simp add: find_token_def find_by_key_def fun_eq_iff)

lemma find_token_index:
  "represents handle_store_less hs xs \<Longrightarrow>
   find_token hs t = Some (case tree_index (\<lambda>x. x) hs xs t of None \<Rightarrow> nullptr | Some a \<Rightarrow> a)"
  unfolding handle_store_less_key find_token_key by (rule find_by_key_index)

lemma index_nonnull: "represents handle_store_less hs xs \<Longrightarrow> tree_index (\<lambda>x. x) hs xs t = Some a \<Longrightarrow> a \<in> set xs \<and> a \<noteq> 0"
  unfolding handle_store_less_key by (auto simp: tree_index_Some dest: represents_valid)

text \<open>The loop returns the token of the first reading that is not in use.\<close>

lemma pick_token_first:
  assumes r: "represents handle_store_less hs xs"
    and "\<forall>i < k. tree_index (\<lambda>x. x) hs xs ((u XOR h) XOR clock (n + i)) \<noteq> None"
    and "tree_index (\<lambda>x. x) hs xs ((u XOR h) XOR clock (n + k)) = None"
  shows "pick_token hs u h clock n = Some ((u XOR h) XOR clock (n + k), Suc (n + k))"
  using assms(2,3)
proof (induction k arbitrary: n)
  case 0
  then show ?case by (subst pick_token.simps) (simp add: find_token_index [OF r] Let_def)
next
  case (Suc k)
  from Suc.prems(1) obtain a where a: "tree_index (\<lambda>x. x) hs xs ((u XOR h) XOR clock n) = Some a"
    by (metis add_0_right option.exhaust zero_less_Suc)
  from Suc.IH [of "Suc n"] Suc.prems have "pick_token hs u h clock (Suc n) = Some ((u XOR h) XOR clock (n + Suc k), Suc (n + Suc k))"
    by fastforce
  with a index_nonnull [OF r a] show ?case
    by (subst pick_token.simps) (simp add: find_token_index [OF r] Let_def)
qed

text \<open>
  It returns when the timer moves: when, over some number of readings, it shows more different times than
  the process has tokens.
\<close>

definition clock_moves :: "(nat \<Rightarrow> u64) \<Rightarrow> nat \<Rightarrow> nat \<Rightarrow> bool" where
  "clock_moves clock n c \<longleftrightarrow> (\<exists>k. c < card (clock ` {n..<n + k}))"

lemma clock_moves_free:
  assumes "clock_moves clock n c" and "finite A" and "card A \<le> c"
  shows "\<exists>i. w XOR clock (n + i) \<notin> (A :: u64 set)"
proof (rule ccontr)
  from assms(1) obtain k where k: "c < card (clock ` {n..<n + k})" by (auto simp: clock_moves_def)
  assume "\<nexists>i. w XOR clock (n + i) \<notin> A"
  then have "(\<lambda>x. w XOR x) ` clock ` {n..<n + k} \<subseteq> A"
    by (auto simp: image_iff) (metis le_Suc_ex)
  then have "card ((\<lambda>x. w XOR x) ` clock ` {n..<n + k}) \<le> card A" using assms(2) by (rule card_mono [rotated])
  moreover have "w XOR (w XOR x) = x" for x by (simp add: xor.assoc [symmetric])
  then have "inj_on (\<lambda>x. w XOR x) (clock ` {n..<n + k})" by (metis inj_onI)
  then have "card ((\<lambda>x. w XOR x) ` clock ` {n..<n + k}) = card (clock ` {n..<n + k})" by (rule card_image)
  ultimately show False using k assms(3) by linarith
qed

lemma pick_token_returns:
  assumes r: "represents handle_store_less hs xs" and c: "clock_moves clock n (length xs)"
  obtains t n' where "pick_token hs u h clock n = Some (t, n')" "n < n'" "tree_index (\<lambda>x. x) hs xs t = None"
proof -
  let ?t = "\<lambda>i. (u XOR h) XOR clock (n + i)"
  let ?A = "dom (tree_index (\<lambda>x. x) hs xs)"
  have "finite ?A" "card ?A \<le> length xs"
    unfolding tree_index_def dom_map_of_conv_image_fst by (simp_all add: card_length image_image le_trans [OF card_image_le])
  from clock_moves_free [OF c this, of "u XOR h"] have ex: "\<exists>i. tree_index (\<lambda>x. x) hs xs (?t i) = None"
    by (auto simp: domIff)
  define k where "k = (LEAST i. tree_index (\<lambda>x. x) hs xs (?t i) = None)"
  have "tree_index (\<lambda>x. x) hs xs (?t k) = None" unfolding k_def using ex by (rule LeastI_ex)
  moreover have "\<forall>i < k. tree_index (\<lambda>x. x) hs xs (?t i) \<noteq> None" unfolding k_def using not_less_Least by blast
  ultimately show thesis using pick_token_first [OF r, of k u h clock n] that by simp
qed

section \<open>The operations on the table\<close>

text \<open>What an operation leaves alone: the pointers outside the slots \<open>A\<close>, the handles, and the counts that are kept.\<close>

definition same_slots :: "slot set \<Rightarrow> objects \<Rightarrow> objects \<Rightarrow> bool" where
  "same_slots A s s' \<longleftrightarrow> (\<forall>x. x \<notin> A \<longrightarrow> ptr (ptrs s') x = ptr (ptrs s) x) \<and> handle_at s' = handle_at s \<and>
     kept (ptrs s') = kept (ptrs s)"

lemma move_into_element:
  assumes "ptr ps (Member e) = None" and "ptr ps (Local v) = Some h"
  shows "bnd (ptr_default ps (Member e)) (\<lambda>ps. move_assign ps (Member e) (Local v)) =
    Inr (ps\<lparr>ptr := (ptr ps)(Local v \<mapsto> nullptr, Member e \<mapsto> h)\<rparr>)"
  using assms by (simp add: ptr_default_def move_assign_def disown_def in_scope_def set_ptr_def fun_upd_twist)

lemma move_into_element_ok:
  assumes "counts_ok c ps" and "ptr ps (Member e) = None" and "ptr ps (Local v) = Some h"
  shows "counts_ok c (ps\<lparr>ptr := (ptr ps)(Local v \<mapsto> nullptr, Member e \<mapsto> h)\<rparr>)"
proof -
  have "ptr_move ps (Member e) (Local v) = Inr (ps\<lparr>ptr := (ptr ps)(Local v \<mapsto> nullptr, Member e \<mapsto> h)\<rparr>)"
    using assms(3) by (simp add: ptr_move_def in_scope_def set_ptr_def)
  moreover have "ptr ps (Local v) \<noteq> None" using assms(3) by simp
  ultimately show ?thesis using ptr_move_ok [OF assms(1,2)] by (metis sum.inject(2))
qed

lemma register_refines:
  assumes t: "holds_table p s m" and e: "unused (handles p) e" "ptr (ptrs s) (Member e) = None"
    and h: "ptr (ptrs s) (Local v) = Some h" "h \<noteq> nullptr" and c: "clock_moves clock n (card (dom m))"
  obtains p' s' t n' where "register_for_token this p s (Local v) e clock n = Inr (p', s', t, n')"
    "m t = None" "holds_table p' s' (m(t \<mapsto> h))" "n < n'"
    "s' = s\<lparr>ptrs := (ptrs s)\<lparr>ptr := (ptr (ptrs s))(Local v \<mapsto> nullptr, Member e \<mapsto> h)\<rparr>\<rparr>"
    "valid (handles p') = (valid (handles p))(e := True)" "process_lock p' = process_lock p" "started p' = started p"
proof -
  from t obtain xs where r: "represents handle_store_less (handles p) xs" and m: "m = token_table p s xs"
      and own: "\<forall>a \<in> set xs. \<exists>h. ptr (ptrs s) (Member a) = Some h \<and> h \<noteq> nullptr" and l: "\<not> process_lock p"
    by (auto simp: holds_table_def)
  let ?i = "tree_index (\<lambda>x. x) (handles p) xs"
  have dom: "dom m = dom ?i"
    using own index_nonnull [OF r] by (fastforce simp: m token_table_def dom_def split: bind_splits)
  have "card (dom m) = length xs"
    using represents_keys_distinct [OF r [unfolded handle_store_less_key]]
    by (simp add: dom tree_index_def dom_map_of_conv_image_fst image_image) (metis distinct_card length_map list.set_map)
  with c pick_token_returns [OF r, of clock n this h] obtain t n' where
    pk: "pick_token (handles p) this h clock n = Some (t, n')" "n < n'" "?i t = None" by metis
  from insert_new_key [OF r [unfolded handle_store_less_key] e(1) pk(3)] obtain hs xs' where
    hs: "avl_insert handle_store_less (new_element (handles p) e t) e = Some (hs, e, True)"
      "represents handle_store_less hs xs'" "tree_index (\<lambda>x. x) hs xs' = ?i(t \<mapsto> e)" "set xs' = insert e (set xs)"
      "valid hs = (valid (handles p))(e := True)"
    unfolding handle_store_less_key by metis
  let ?ps = "(ptrs s)\<lparr>ptr := (ptr (ptrs s))(Local v \<mapsto> nullptr, Member e \<mapsto> h)\<rparr>"
  let ?p = "p\<lparr>handles := hs\<rparr>" and ?s = "s\<lparr>ptrs := ?ps\<rparr>"
  have "register_for_token this p s (Local v) e clock n = Inr (?p, ?s, t, n')"
    using move_into_element [OF e(2) h(1)] l pk(1) hs(1)
    by (simp add: register_for_token_def bnd_assoc [symmetric] in_scope_def)
  moreover have "m t = None" using pk(3) dom by blast
  moreover have e': "e \<notin> set xs" using represents_valid [OF r] e(1) by (auto simp: unused_def accessible_def)
  then have "token_table ?p ?s xs' = m(t \<mapsto> h)"
    using index_nonnull [OF r] by (fastforce simp: token_table_def hs(3) m fun_eq_iff split: bind_splits)
  then have "holds_table ?p ?s (m(t \<mapsto> h))"
    using l hs own h(2) e' by (auto simp: holds_table_def intro!: exI [of _ xs'])
  ultimately show thesis using that [of ?p ?s t n'] pk(2) hs(5) by simp
qed

lemma table_entry:
  assumes "holds_table p s m" and "m t = Some h"
  obtains xs a where "represents handle_store_less (handles p) xs" "m = token_table p s xs" "a \<in> set xs" "a \<noteq> 0"
    "tree_index (\<lambda>x. x) (handles p) xs t = Some a" "ptr (ptrs s) (Member a) = Some h" "h \<noteq> nullptr"
    "\<forall>a \<in> set xs. \<exists>h. ptr (ptrs s) (Member a) = Some h \<and> h \<noteq> nullptr" "\<not> process_lock p"
    "find_token (handles p) t = Some a"
proof -
  from assms(1) obtain xs where r: "represents handle_store_less (handles p) xs" "m = token_table p s xs"
      "\<forall>a \<in> set xs. \<exists>h. ptr (ptrs s) (Member a) = Some h \<and> h \<noteq> nullptr" "\<not> process_lock p"
    by (auto simp: holds_table_def)
  from assms(2) r(2) obtain a where a: "tree_index (\<lambda>x. x) (handles p) xs t = Some a" "ptr (ptrs s) (Member a) = Some h"
    by (auto simp: token_table_def split: bind_splits)
  with index_nonnull [OF r(1) a(1)] r find_token_index [OF r(1), of t] that show thesis by fastforce
qed

lemma table_missing:
  assumes "holds_table p s m" and "m t = None"
  shows "find_token (handles p) t = Some nullptr" "\<not> process_lock p"
proof -
  from assms(1) obtain xs where r: "represents handle_store_less (handles p) xs" "m = token_table p s xs"
      "\<forall>a \<in> set xs. \<exists>h. ptr (ptrs s) (Member a) = Some h \<and> h \<noteq> nullptr" "\<not> process_lock p"
    by (auto simp: holds_table_def)
  with assms(2) index_nonnull [OF r(1), of t] have "tree_index (\<lambda>x. x) (handles p) xs t = None"
    by (fastforce simp: token_table_def split: bind_splits)
  with find_token_index [OF r(1), of t] r(4) show "find_token (handles p) t = Some nullptr" "\<not> process_lock p" by auto
qed

text \<open>
  The states in which a removal keeps the tree in order (see \<^const>\<open>root_needs_double_rotation\<close>), and
  in which the payload that a handle owns is there to be released.
\<close>

definition steady :: "process \<Rightarrow> bool" where
  "steady p \<longleftrightarrow> \<not> root_needs_double_rotation (handles p) (root (handles p))"

definition payload_live :: "objects \<Rightarrow> addr \<Rightarrow> bool" where
  "payload_live s h \<longleftrightarrow> (hdtor (handle_at s h) = Release_dtor \<longrightarrow>
     payload (handle_at s h) \<noteq> nullptr \<and> alive (ptrs s) (payload (handle_at s h)))"

lemma unregister_refines:
  assumes t: "holds_table p s m" "m t = Some h" and d: "steady p"
    and c: "counts_ok c (ptrs s)" "c < 2 ^ 64" and l: "ptr (ptrs s) (Local ''payload'') = None" "payload_live s h"
  obtains p' s' a where "unregister_token p s t = Inr (p', s')" "holds_table p' s' (m(t := None))"
    "counts_ok c (ptrs s')" "valid (handles p) a" "valid (handles p') = (valid (handles p))(a := False)"
    "same_slots {Member a} s s'" "ptr (ptrs s') (Member a) = None"
    "process_lock p' = process_lock p" "started p' = started p"
proof -
  from table_entry [OF t] obtain xs a where r: "represents handle_store_less (handles p) xs" "m = token_table p s xs"
      and a: "a \<in> set xs" "a \<noteq> 0" "tree_index (\<lambda>x. x) (handles p) xs t = Some a" "ptr (ptrs s) (Member a) = Some h" "h \<noteq> nullptr"
      and own: "\<forall>a \<in> set xs. \<exists>h. ptr (ptrs s) (Member a) = Some h \<and> h \<noteq> nullptr" "\<not> process_lock p"
      and f: "find_token (handles p) t = Some a" .
  have "\<not> root_needs_double_rotation (handles p) a" using d by (auto simp: steady_def root_needs_double_rotation_def)
  from erase_key [OF r(1) [unfolded handle_store_less_key] a(3) this] obtain hs b xs' where
    hs: "avl_erase (handles p) a = Some (hs, b)" "represents handle_store_less (free_element hs a) xs'"
      "tree_index (\<lambda>x. x) (free_element hs a) xs' = (tree_index (\<lambda>x. x) (handles p) xs)(t := None)"
      "set xs' = set xs - {a}" "valid hs = valid (handles p)"
    unfolding handle_store_less_key by metis
  have "ptr (ptrs s) (Member a) \<noteq> None" "Member a \<noteq> Local ''payload''" using a(4) by simp_all
  from drop_handle_ok [OF c this l(1)] obtain ps' where ps: "drop_handle s (Member a) = Inr (s\<lparr>ptrs := ps'\<rparr>)"
      "ptr_destroy (ptrs s) (Member a) = Inr ps'" "counts_ok c ps'"
    using l(2) a(4) by (auto simp: payload_live_def)
  have ptr': "ptr ps' = (ptr (ptrs s))(Member a := None)" "kept ps' = kept (ptrs s)"
    using ps(2) a(4,5)
    by (auto simp: ptr_destroy_def disown_def in_scope_def fetch_add_count_def delete_object_def bnd_Inr_iff split: if_splits)
  let ?p = "p\<lparr>handles := free_element hs a\<rparr>" and ?s = "s\<lparr>ptrs := ps'\<rparr>"
  have "unregister_token p s t = Inr (?p, ?s)" using f a(2) own(2) hs(1) ps(1) by (simp add: unregister_token_def)
  moreover have "token_table ?p ?s xs' = m(t := None)"
  proof (rule ext)
    fix u
    show "token_table ?p ?s xs' u = (m(t := None)) u"
    proof (cases "u = t")
      case False
      then have "tree_index (\<lambda>x. x) (handles p) xs u \<noteq> Some a"
        using a(3) r(1) unfolding handle_store_less_key by (auto simp: tree_index_Some)
      with False show ?thesis by (auto simp: token_table_def hs(3) r(2) ptr' split: bind_splits)
    qed (simp add: token_table_def hs(3))
  qed
  then have "holds_table ?p ?s (m(t := None))"
    using own hs(2,4) by (auto simp: holds_table_def ptr' intro!: exI [of _ xs'])
  moreover have "valid (handles p) a" using represents_valid [OF r(1) a(1)] by (simp add: accessible_def)
  ultimately show thesis
    using that [of ?p ?s a] ps(3) ptr' hs(5) by (simp add: same_slots_def free_element_def)
qed

lemma unregister_missing:
  "holds_table p s m \<Longrightarrow> m t = None \<Longrightarrow>
   unregister_token p s t = Inl (Panic ''tried to unregister a token that doesn't exit'')"
  by (simp add: unregister_token_def table_missing)

lemma get_handle_refines:
  assumes t: "holds_table p s m" and x: "ptr (ptrs s) (Local v) = None" and c: "counts_ok c (ptrs s)"
  obtains s' where "get_handle p s t (Local v) = Inr s'" "same_slots {Local v} s s'"
    "ptr (ptrs s') (Local v) = Some (case m t of None \<Rightarrow> nullptr | Some h \<Rightarrow> h)" "counts_ok (Suc c) (ptrs s')"
    "alive (ptrs s') = alive (ptrs s)"
proof (cases "m t")
  case None
  from ptr_default_ok [OF c x] obtain ps where "ptr_default (ptrs s) (Local v) = Inr ps" "counts_ok c ps" .
  moreover from this(1) have "ps = set_ptr (ptrs s) (Local v) nullptr" by (simp add: ptr_default_def)
  moreover from \<open>counts_ok c ps\<close> have "counts_ok (Suc c) ps" by (rule counts_ok_mono) simp
  ultimately show thesis
    using that [of "s\<lparr>ptrs := ps\<rparr>"] table_missing [OF t None] None
    by (simp add: get_handle_def same_slots_def)
next
  case (Some h)
  from table_entry [OF t Some] obtain a where a: "find_token (handles p) t = Some a" "a \<noteq> 0"
      "ptr (ptrs s) (Member a) = Some h" "h \<noteq> nullptr" "\<not> process_lock p" by metis
  then have "ptr (ptrs s) (Member a) \<noteq> None" by simp
  from ptr_copy_ok [OF c x this] obtain ps where ps: "ptr_copy (ptrs s) (Local v) (Member a) = Inr ps" "counts_ok (Suc c) ps" .
  have "ptr ps = (ptr (ptrs s))(Local v \<mapsto> h)" "alive ps = alive (ptrs s)" "kept ps = kept (ptrs s)"
    using ps(1) a(3,4) by (auto simp: ptr_copy_def claim_def in_scope_def fetch_add_count_def split: if_splits)
  with a ps Some that [of "s\<lparr>ptrs := ps\<rparr>"] show thesis by (simp add: get_handle_def same_slots_def)
qed

text \<open>Other processes: their tables are about other elements.\<close>

lemma holds_table_cong:
  assumes "holds_table q s m" and "\<And>a. valid (handles q) a \<Longrightarrow> ptr (ptrs s') (Member a) = ptr (ptrs s) (Member a)"
  shows "holds_table q s' m"
proof -
  from assms(1) obtain xs where r: "represents handle_store_less (handles q) xs" "m = token_table q s xs"
      "\<forall>a \<in> set xs. \<exists>h. ptr (ptrs s) (Member a) = Some h \<and> h \<noteq> nullptr" "\<not> process_lock q"
    by (auto simp: holds_table_def)
  have same: "ptr (ptrs s') (Member a) = ptr (ptrs s) (Member a)" if "a \<in> set xs" for a
    using represents_valid [OF r(1) that] assms(2) by (auto simp: accessible_def)
  then have "token_table q s' xs = token_table q s xs"
    using index_nonnull [OF r(1)] by (fastforce simp: token_table_def fun_eq_iff split: bind_splits)
  with r same show ?thesis by (auto simp: holds_table_def intro!: exI [of _ xs])
qed

lemma holds_table_frame:
  "holds_table q s m \<Longrightarrow> same_slots A s s' \<Longrightarrow> (\<And>a. valid (handles q) a \<Longrightarrow> Member a \<notin> A) \<Longrightarrow> holds_table q s' m"
  by (erule holds_table_cong) (auto simp: same_slots_def)

section \<open>The interface of a process to its clients\<close>

text \<open>
  What the handlers that pass handles between processes rely on. \<open>table p s m\<close> says that \<open>p\<close> holds the
  handles \<open>m\<close> by token, \<open>elements p\<close> are the objects that belong to \<open>p\<close>, \<open>removable p\<close> the states from
  which a token can be removed, and \<open>ticks n c\<close> that the timer moves on enough for \<open>c\<close> tokens.
\<close>

locale token_registry =
  fixes table :: "'p \<Rightarrow> objects \<Rightarrow> (u64 \<rightharpoonup> addr) \<Rightarrow> bool"
    and elements :: "'p \<Rightarrow> addr set"
    and removable :: "'p \<Rightarrow> bool"
    and ticks :: "nat \<Rightarrow> nat \<Rightarrow> bool"
    and register :: "'p \<Rightarrow> objects \<Rightarrow> slot \<Rightarrow> addr \<Rightarrow> nat \<Rightarrow> ('p \<times> objects \<times> u64 \<times> nat) result"
    and unregister :: "'p \<Rightarrow> objects \<Rightarrow> u64 \<Rightarrow> ('p \<times> objects) result"
    and get :: "'p \<Rightarrow> objects \<Rightarrow> u64 \<Rightarrow> slot \<Rightarrow> objects result"
  assumes register_law:
      "table p s m \<Longrightarrow> counts_ok c (ptrs s) \<Longrightarrow> e \<noteq> nullptr \<Longrightarrow> aligned8 e \<Longrightarrow> e \<notin> elements p \<Longrightarrow>
       ptr (ptrs s) (Member e) = None \<Longrightarrow> ptr (ptrs s) (Local v) = Some h \<Longrightarrow> h \<noteq> nullptr \<Longrightarrow> ticks n (card (dom m)) \<Longrightarrow>
       \<exists>p' s' t n'. register p s (Local v) e n = Inr (p', s', t, n') \<and> m t = None \<and> table p' s' (m(t \<mapsto> h)) \<and>
         counts_ok c (ptrs s') \<and> elements p' = insert e (elements p) \<and> same_slots {Local v, Member e} s s'"
    and unregister_law:
      "table p s m \<Longrightarrow> m t = Some h \<Longrightarrow> removable p \<Longrightarrow> counts_ok c (ptrs s) \<Longrightarrow> c < 2 ^ 64 \<Longrightarrow>
       ptr (ptrs s) (Local ''payload'') = None \<Longrightarrow> payload_live s h \<Longrightarrow>
       \<exists>p' s' a. unregister p s t = Inr (p', s') \<and> table p' s' (m(t := None)) \<and> counts_ok c (ptrs s') \<and>
         a \<in> elements p \<and> elements p' = elements p - {a} \<and> same_slots {Member a} s s'"
    and get_law:
      "table p s m \<Longrightarrow> ptr (ptrs s) (Local v) = None \<Longrightarrow> counts_ok c (ptrs s) \<Longrightarrow>
       \<exists>s'. get p s t (Local v) = Inr s' \<and> same_slots {Local v} s s' \<and> counts_ok (Suc c) (ptrs s') \<and>
         ptr (ptrs s') (Local v) = Some (case m t of None \<Rightarrow> nullptr | Some h \<Rightarrow> h) \<and> alive (ptrs s') = alive (ptrs s)"
    and frame_law: "table p s m \<Longrightarrow> same_slots A s s' \<Longrightarrow> (\<And>a. a \<in> elements p \<Longrightarrow> Member a \<notin> A) \<Longrightarrow> table p s' m"
    and nonnull_law: "table p s m \<Longrightarrow> m t = Some h \<Longrightarrow> h \<noteq> nullptr"
begin

text \<open>
  Moving a handle from the process \<open>p\<close> to the process \<open>q\<close>, the way \<open>rose_process_start\<close> does: look the
  token up, remove it, and register the handle with the other process.
\<close>

lemma move_handle:
  assumes p: "table p s m" "m t = Some h" "removable p" and q: "table q s mq" "elements p \<inter> elements q = {}"
    and c: "counts_ok c (ptrs s)" "Suc c < 2 ^ 64"
    and v: "ptr (ptrs s) (Local v) = None" "v \<noteq> ''payload''" "ptr (ptrs s) (Local ''payload'') = None" "payload_live s h"
    and e: "e \<noteq> nullptr" "aligned8 e" "e \<notin> elements p" "e \<notin> elements q" "ptr (ptrs s) (Member e) = None"
    and n: "ticks n (card (dom mq))"
  shows "\<exists>s1 p2 s2 q3 s3 u n'. get p s t (Local v) = Inr s1 \<and> unregister p s1 t = Inr (p2, s2) \<and>
    register q s2 (Local v) e n = Inr (q3, s3, u, n') \<and> mq u = None \<and>
    table p2 s3 (m(t := None)) \<and> table q3 s3 (mq(u \<mapsto> h)) \<and> counts_ok (Suc c) (ptrs s3)"
proof -
  from get_law [OF p(1) v(1) c(1), of t] p(2) obtain s1 where s1: "get p s t (Local v) = Inr s1"
      "same_slots {Local v} s s1" "counts_ok (Suc c) (ptrs s1)" "ptr (ptrs s1) (Local v) = Some h"
      "alive (ptrs s1) = alive (ptrs s)" by auto
  note t1 = frame_law [OF p(1) s1(2)] frame_law [OF q(1) s1(2)]
  have "payload_live s1 h" "ptr (ptrs s1) (Local ''payload'') = None"
    using s1(2,5) v by (auto simp: payload_live_def same_slots_def)
  with unregister_law [OF t1(1) p(2,3) s1(3) c(2)] obtain p2 s2 a where s2: "unregister p s1 t = Inr (p2, s2)"
      "table p2 s2 (m(t := None))" "counts_ok (Suc c) (ptrs s2)" "a \<in> elements p" "elements p2 = elements p - {a}"
      "same_slots {Member a} s1 s2" by auto
  have t2: "table q s2 mq" using frame_law [OF t1(2) s2(6)] q(2) s2(4) by blast
  have e2: "ptr (ptrs s2) (Member e) = None" "ptr (ptrs s2) (Local v) = Some h"
    using s1(2,4) s2(4,6) e by (auto simp: same_slots_def)
  from register_law [OF t2 s2(3) e(1,2,4) e2 nonnull_law [OF p(1,2)] n] obtain q3 s3 u n' where
    s3: "register q s2 (Local v) e n = Inr (q3, s3, u, n')" "mq u = None" "table q3 s3 (mq(u \<mapsto> h))"
      "counts_ok (Suc c) (ptrs s3)" "same_slots {Local v, Member e} s2 s3" by blast
  have "table p2 s3 (m(t := None))" using frame_law [OF s2(2) s3(5)] s2(5) e(3) by blast
  with s1(1) s2(1) s3 show ?thesis by blast
qed

end

interpretation process_registry:
  token_registry holds_table "\<lambda>p. Collect (valid (handles p))" steady "clock_moves clock"
    "\<lambda>p s x e n. register_for_token this p s x e clock n" unregister_token get_handle for clock this
proof (unfold_locales, goal_cases)
  case (1 p s m c e v h n)
  then have "unused (handles p) e" by (simp add: unused_def)
  from register_refines [OF 1(1) this 1(6-9)] obtain p' s' t n' where
    r: "register_for_token this p s (Local v) e clock n = Inr (p', s', t, n')" "m t = None" "holds_table p' s' (m(t \<mapsto> h))"
      "s' = s\<lparr>ptrs := (ptrs s)\<lparr>ptr := (ptr (ptrs s))(Local v \<mapsto> nullptr, Member e \<mapsto> h)\<rparr>\<rparr>"
      "valid (handles p') = (valid (handles p))(e := True)" by metis
  moreover have "counts_ok c (ptrs s')" using move_into_element_ok [OF 1(2,6,7)] r(4) by simp
  ultimately show ?case by (intro exI [of _ p'] exI [of _ s'] exI [of _ t] exI [of _ n']) (auto simp: same_slots_def)
next
  case (2 p s m t h c)
  from unregister_refines [OF this] obtain p' s' a where
    "unregister_token p s t = Inr (p', s')" "holds_table p' s' (m(t := None))" "counts_ok c (ptrs s')"
    "valid (handles p) a" "valid (handles p') = (valid (handles p))(a := False)" "same_slots {Member a} s s'" .
  then show ?case by (intro exI [of _ p'] exI [of _ s'] exI [of _ a]) (auto split: if_splits)
next
  case (3 p s m v c t)
  from get_handle_refines [OF this, of t] obtain s' where
    "get_handle p s t (Local v) = Inr s'" "same_slots {Local v} s s'"
    "ptr (ptrs s') (Local v) = Some (case m t of None \<Rightarrow> nullptr | Some h \<Rightarrow> h)" "counts_ok (Suc c) (ptrs s')"
    "alive (ptrs s') = alive (ptrs s)" .
  then show ?case by (intro exI [of _ s']) simp
next
  case (4 p s m A s')
  from holds_table_frame [OF 4(1,2)] 4(3) show ?case by simp
next
  case (5 p s m t h)
  from table_entry [OF this] show ?case by metis
qed

section \<open>Properties\<close>

text \<open>
  C3. A process implements a finite map from tokens to handles. In a state that stands for the map \<open>m\<close>,
  with exact counts: \<open>register_for_token\<close> returns, whatever the process holds, as soon as the timer has
  moved on enough, with a token that was not in use, and then the map has the handle under it;
  \<open>get_handle\<close> returns the handle of a token, or null, and leaves the map; \<open>unregister_token\<close> of a token in
  the map removes it (from a steady tree), and of any other token panics. The counts stay exact.
\<close>

theorem handle_table_refines:
  assumes t: "holds_table p s m" and c: "counts_ok c (ptrs s)" "c < 2 ^ 64" and l: "ptr (ptrs s) (Local ''payload'') = None"
  shows "(unused (handles p) e \<and> ptr (ptrs s) (Member e) = None \<and> ptr (ptrs s) (Local v) = Some h \<and> h \<noteq> nullptr \<and>
      clock_moves clock n (card (dom m)) \<longrightarrow>
      (\<exists>p' s' t n'. register_for_token this p s (Local v) e clock n = Inr (p', s', t, n') \<and> m t = None \<and>
         holds_table p' s' (m(t \<mapsto> h)) \<and> counts_ok c (ptrs s'))) \<and>
    (ptr (ptrs s) (Local w) = None \<longrightarrow>
      (\<exists>s'. get_handle p s t (Local w) = Inr s' \<and> holds_table p s' m \<and> counts_ok (Suc c) (ptrs s') \<and>
         ptr (ptrs s') (Local w) = Some (case m t of None \<Rightarrow> nullptr | Some h \<Rightarrow> h))) \<and>
    (case m t of
       None \<Rightarrow> unregister_token p s t = Inl (Panic ''tried to unregister a token that doesn't exit'')
     | Some h \<Rightarrow> steady p \<and> payload_live s h \<longrightarrow>
         (\<exists>p' s'. unregister_token p s t = Inr (p', s') \<and> holds_table p' s' (m(t := None)) \<and> counts_ok c (ptrs s')))"
    (is "(?fresh \<longrightarrow> ?reg) \<and> (?out \<longrightarrow> ?get) \<and> ?unreg")
proof (intro conjI impI)
  assume ?fresh
  then have "e \<noteq> nullptr" "aligned8 e" "e \<notin> Collect (valid (handles p))" "ptr (ptrs s) (Member e) = None"
    "ptr (ptrs s) (Local v) = Some h" "h \<noteq> nullptr" "clock_moves clock n (card (dom m))"
    by (simp_all add: unused_def)
  from process_registry.register_law [OF t c(1) this] show ?reg by blast
next
  assume ?out
  from process_registry.get_law [OF t this c(1)] process_registry.frame_law [OF t] show ?get by blast
next
  show ?unreg
    using unregister_missing [OF t, of t] process_registry.unregister_law [OF t _ _ c l, of t]
    by (auto split: option.splits)
qed

text \<open>A process with one handle: the handle 64 under the token 7, in the element 8.\<close>

definition one_token :: process where
  "one_token = \<lparr>handles = \<lparr>valid = (\<lambda>p. p = 8), prev = (\<lambda>_. 0), nxt = (\<lambda>_. 0), tree_parent = (\<lambda>_. 0), val = (\<lambda>_. 7),
       root = 8, size = 1\<rparr>, process_lock = False, started = False, address_space = 0\<rparr>"

definition its_objects :: objects where
  "its_objects = \<lparr>ptrs = \<lparr>ptr = [Member 8 \<mapsto> 64, Local ''hnd'' \<mapsto> 72], intrusive_count = (\<lambda>_. 1), alive = (\<lambda>p. p \<in> {64, 72}),
       deleted = [], kept = (\<lambda>_. 0)\<rparr>,
     handle_at = (\<lambda>_. \<lparr>htype = Kernel_caps_type, payload = 0, hdtor = Nothing_dtor, perms = 3\<rparr>)\<rparr>"

lemma one_token_holds:
  assumes "ptr (ptrs s) (Member 8) = Some 64"
  shows "holds_table one_token s [7 \<mapsto> 64]"
proof -
  have "holds (handles one_token) [] (Node Leaf (8, 0) Leaf)"
    by (simp add: holds_def one_token_def good_addr_def)
  then have "represents handle_store_less (handles one_token) [8]"
    by (auto simp: represents_def one_token_def intro!: exI [of _ "Node Leaf (8, 0) Leaf"])
  moreover have "token_table one_token s [8] = [7 \<mapsto> 64]"
    using assms by (auto simp: token_table_def tree_index_def one_token_def fun_eq_iff)
  ultimately show ?thesis using assms by (auto simp: holds_table_def one_token_def intro!: exI [of _ "[8]"])
qed

lemma one_token_table: "holds_table one_token its_objects [7 \<mapsto> 64]"
  by (rule one_token_holds) (simp add: its_objects_def)

lemma its_objects_ok: "counts_ok 2 (ptrs its_objects)"
proof -
  have "{x. [Member 8 \<mapsto> 64, Local ''hnd'' \<mapsto> 72] x = Some (p :: addr)} =
      (if p = 64 then {Member 8} else if p = 72 then {Local ''hnd''} else {})" for p
    by (auto split: if_splits)
  then have "owners (ptrs its_objects) p = (if p = 64 \<or> p = 72 then 1 else 0)" for p
    by (simp add: owners_def its_objects_def)
  then show ?thesis by (simp add: counts_ok_def balanced_def) (simp add: its_objects_def)
qed

theorem handle_table_refines_witness:
  "(\<exists>p' s' t n'. register_for_token 4096 one_token its_objects (Local ''hnd'') 16 of_nat 0 = Inr (p', s', t, n') \<and>
       [7 \<mapsto> 64 :: addr] t = None \<and> holds_table p' s' ([7 \<mapsto> 64 :: addr](t \<mapsto> 72)) \<and> counts_ok 2 (ptrs s')) \<and>
   (\<exists>s'. get_handle one_token its_objects 7 (Local ''ret'') = Inr s' \<and> holds_table one_token s' [7 \<mapsto> 64] \<and>
       counts_ok (Suc 2) (ptrs s') \<and> ptr (ptrs s') (Local ''ret'') = Some 64) \<and>
   (\<exists>p' s'. unregister_token one_token its_objects 7 = Inr (p', s') \<and> holds_table p' s' Map.empty \<and> counts_ok 2 (ptrs s'))"
proof -
  have "clock_moves of_nat 0 1" by (auto simp: clock_moves_def intro!: exI [of _ 2])
    (simp add: numeral_2_eq_2 atLeast0LessThan lessThan_Suc)
  moreover have "card (dom [7 :: u64 \<mapsto> 64 :: addr]) = 1" by simp
  moreover have "steady one_token" by (simp add: steady_def root_needs_double_rotation_def one_token_def)
  moreover have "unused (handles one_token) 16" by (simp add: unused_def one_token_def)
  moreover have "ptr (ptrs its_objects) (Member 16) = None" "ptr (ptrs its_objects) (Local ''hnd'') = Some 72"
    "ptr (ptrs its_objects) (Local ''ret'') = None" "ptr (ptrs its_objects) (Local ''payload'') = None"
    "payload_live its_objects 64"
    by (simp_all add: its_objects_def payload_live_def)
  moreover have "[7 :: u64 \<mapsto> 64 :: addr](7 := None) = Map.empty" by auto
  ultimately show ?thesis
    using handle_table_refines [OF one_token_table its_objects_ok, of 16 "''hnd''" 72 of_nat 0 4096 "''ret''" 7]
    by (simp split del: if_split)
qed

end
