(* ===== verification/Vmo.thy ===== *)
theory Vmo
  imports Avl_Client Chained_Allocator "HOL-Library.Multiset"
begin

text \<open>
  Virtual memory objects (\<open>kernel/memory/vmo.h\<close>, \<open>vmo.cpp\<close>): a range of physical memory, or a sparse object,
  whose pages are elements of an \<open>avl_tree\<close> by offset. An element without a backing address stands for all
  the pages up to the next element; committing splits it into single pages and takes a frame for each from
  the physical memory manager. New elements come from the chain of unused ones, which itself takes frames from the
  manager (\<open>kernel/util/chained_allocator.h\<close>).
\<close>

section \<open>The object\<close>

datatype vmo_type = Physical_vmo | Sparse_vmo

record sparse_element =
  offset :: u64
  backing_address :: "addr option"

record vmo =
  vmo_kind :: vmo_type
  vmo_length :: u64
  page_level :: nat
  vmo_base :: addr
  elements :: "sparse_element avl_tree"

definition sparse_less :: "sparse_element \<Rightarrow> sparse_element \<Rightarrow> bool" where
  "sparse_less lhs rhs = (offset lhs < offset rhs)"

definition round_length :: "u64 \<Rightarrow> nat \<Rightarrow> u64" where
  "round_length len level = len + (page_sizes level - len) mod page_sizes level"

definition no_elements :: "sparse_element avl_tree" where
  "no_elements = \<lparr>valid = (\<lambda>_. False), prev = (\<lambda>_. nullptr), nxt = (\<lambda>_. nullptr), tree_parent = (\<lambda>_. nullptr),
     val = (\<lambda>_. \<lparr>offset = 0, backing_address = None\<rparr>), root = nullptr, size = 0\<rparr>"

definition create_physical_vmo :: "addr \<Rightarrow> u64 \<Rightarrow> nat \<Rightarrow> vmo" where
  "create_physical_vmo base len level =
     \<lparr>vmo_kind = Physical_vmo, vmo_length = round_length len level, page_level = level, vmo_base = base, elements = no_elements\<rparr>"

definition base_of :: "vmo \<Rightarrow> addr result" where
  "base_of v = (if vmo_kind v \<noteq> Physical_vmo then Inl (Panic ''tried to get a base address of a non-physical VMO!'')
     else Inr (vmo_base v))"

definition sparse_elements :: "vmo \<Rightarrow> sparse_element avl_tree result" where
  "sparse_elements v = (if vmo_kind v \<noteq> Sparse_vmo then Inl (Panic ''tied to get sparse elements of a non-sparse VMO!'')
     else Inr (elements v))"

section \<open>Committing\<close>

text \<open>
  The state of the loops: the elements, the memory manager, and the chain of unused elements. An element has three links, its
  offset, and an optional address, which is an address and a flag.
\<close>

type_synonym commit_state = "sparse_element avl_tree \<times> pmm \<times> sparse_element chained"

definition sparse_element_size :: u64 where
  "sparse_element_size = 48"

definition make_element :: "u64 \<Rightarrow> commit_state \<Rightarrow> (commit_state \<times> addr) result" where
  "make_element ofs st = (case st of (t, p, c) \<Rightarrow>
     bnd (operator_new sparse_element_size sparse_element_size p c) (\<lambda>(p, c, e).
     Inr ((new_element t e \<lparr>offset = ofs, backing_address = None\<rparr>, p, c), e)))"

definition create_sparse_vmo :: "u64 \<Rightarrow> nat \<Rightarrow> pmm \<Rightarrow> sparse_element chained \<Rightarrow> (vmo \<times> pmm \<times> sparse_element chained) result" where
  "create_sparse_vmo len level p c =
     bnd (make_element 0 (no_elements, p, c)) (\<lambda>((t, p, c), e).
     bnd (deref (avl_insert sparse_less t e)) (\<lambda>(t, _).
       Inr (\<lparr>vmo_kind = Sparse_vmo, vmo_length = round_length len level, page_level = level, vmo_base = nullptr, elements = t\<rparr>, p, c)))"

definition set_backing :: "sparse_element avl_tree \<Rightarrow> addr \<Rightarrow> addr \<Rightarrow> sparse_element avl_tree" where
  "set_backing t a frame = t\<lparr>val := (val t)(a := (val t a)\<lparr>backing_address := Some frame\<rparr>)\<rparr>"

definition back_element :: "nat \<Rightarrow> commit_state \<Rightarrow> addr \<Rightarrow> commit_state result" where
  "back_element level st a = (case st of (t, p, c) \<Rightarrow>
     bnd (pmm_pop level p) (\<lambda>(p, frame).
     if accessible t a then Inr (set_backing t a frame, p, c) else Inl Fault))"

text \<open>The inner loop: single pages are split off while more than one is left before \<open>next_offset\<close>.\<close>

definition split_page :: "nat \<Rightarrow> addr \<Rightarrow> u64 \<Rightarrow> commit_state \<Rightarrow> addr \<Rightarrow> (commit_state \<times> addr) result" where
  "split_page level nxt_it ofs st a =
     bnd (back_element level st a) (\<lambda>st.
     bnd (make_element ofs st) (\<lambda>((t, p, c), e).
     bnd (deref (avl_insert_hint sparse_less t nxt_it e)) (\<lambda>(t, it). Inr ((t, p, c), it))))"

partial_function (option) split_pages ::
    "nat \<Rightarrow> addr \<Rightarrow> u64 \<Rightarrow> commit_state \<Rightarrow> addr \<Rightarrow> (commit_state \<times> addr) result option" where
  "split_pages level nxt_it next_offset st a =
     (case read_val (fst st) a of
        None \<Rightarrow> Some (Inl Fault)
      | Some v \<Rightarrow>
          if offset v + page_sizes level < next_offset then
            (case split_page level nxt_it (offset v + page_sizes level) st a of
               Inl err \<Rightarrow> Some (Inl err)
             | Inr (st, it) \<Rightarrow> split_pages level nxt_it next_offset st it)
          else Some (Inr (st, a)))"

text \<open>One round of the outer loop, for an element that is not backed; the result is the next position.\<close>

definition commit_element :: "nat \<Rightarrow> u64 \<Rightarrow> commit_state \<Rightarrow> addr \<Rightarrow> (commit_state \<times> addr) result option" where
  "commit_element level len st a =
     obnd (Some (deref (iterator_incr (fst st) a))) (\<lambda>nxt_it.
     obnd (Some (if nxt_it = nullptr then Inr len else bnd (deref (read_val (fst st) nxt_it)) (\<lambda>v. Inr (offset v)))) (\<lambda>next_offset.
     obnd (split_pages level nxt_it next_offset st a) (\<lambda>(st, a).
     obnd (Some (back_element level st a)) (\<lambda>st.
     obnd (Some (deref (iterator_incr (fst st) a))) (\<lambda>it. Some (Inr (st, it)))))))"

partial_function (option) commit_loop :: "nat \<Rightarrow> u64 \<Rightarrow> addr \<Rightarrow> commit_state \<Rightarrow> addr \<Rightarrow> commit_state result option" where
  "commit_loop level len last_it st a =
     (if a = last_it then Some (Inr st)
      else case read_val (fst st) a of
        None \<Rightarrow> Some (Inl Fault)
      | Some v \<Rightarrow>
          if backing_address v \<noteq> None
          then (case iterator_incr (fst st) a of
                  None \<Rightarrow> Some (Inl Fault)
                | Some it \<Rightarrow> commit_loop level len last_it st it)
          else do {
            r \<leftarrow> commit_element level len st a;
            case r of Inl err \<Rightarrow> Some (Inl err) | Inr (st, it) \<Rightarrow> commit_loop level len last_it st it
          })"

definition offset_bound :: "u64 \<Rightarrow> sparse_element \<Rightarrow> bool" where
  "offset_bound k rhs = (k < offset rhs)"

definition commit_between_offsets ::
    "vmo \<Rightarrow> pmm \<Rightarrow> sparse_element chained \<Rightarrow> u64 \<Rightarrow> u64 \<Rightarrow> (vmo \<times> pmm \<times> sparse_element chained) result option" where
  "commit_between_offsets v p c start_offset end_offset =
     (case vmo_kind v of
        Physical_vmo \<Rightarrow> Some (Inr (v, p, c))
      | Sparse_vmo \<Rightarrow>
          obnd (Some (deref (avl_lower_bound offset_bound (\<lambda>x k. offset x < k) (elements v) start_offset))) (\<lambda>first_it.
          obnd (Some (deref (read_val (elements v) first_it))) (\<lambda>x.
          obnd (Some (if offset x > start_offset then deref (iterator_decr (elements v) first_it) else Inr first_it)) (\<lambda>first_it.
          obnd (Some (deref (avl_upper_bound offset_bound (\<lambda>x k. offset x < k) (elements v) end_offset))) (\<lambda>last_it.
          obnd (commit_loop (page_level v) (vmo_length v) last_it (elements v, p, c) first_it) (\<lambda>(t, p, c).
          Some (Inr (v\<lparr>elements := t\<rparr>, p, c))))))))"

definition commit_all :: "vmo \<Rightarrow> pmm \<Rightarrow> sparse_element chained \<Rightarrow> (vmo \<times> pmm \<times> sparse_element chained) result option" where
  "commit_all v p c = commit_between_offsets v p c 0 (vmo_length v)"

section \<open>Destruction\<close>

text \<open>\<open>~vmo\<close> gives the frames of a sparse object back, in the order of the elements.\<close>

partial_function (option) release_frames :: "nat \<Rightarrow> sparse_element avl_tree \<Rightarrow> addr \<Rightarrow> pmm \<Rightarrow> pmm result option" where
  "release_frames level t a p =
     (if a = nullptr then Some (Inr p)
      else case read_val t a of
        None \<Rightarrow> Some (Inl Fault)
      | Some v \<Rightarrow>
          (case (case backing_address v of None \<Rightarrow> Inr p | Some frame \<Rightarrow> pmm_push level frame p) of
             Inl err \<Rightarrow> Some (Inl err)
           | Inr p \<Rightarrow>
               (case iterator_incr t a of None \<Rightarrow> Some (Inl Fault) | Some it \<Rightarrow> release_frames level t it p)))"

definition vmo_destroy :: "vmo \<Rightarrow> pmm \<Rightarrow> pmm result option" where
  "vmo_destroy v p =
     (case vmo_kind v of
        Physical_vmo \<Rightarrow> Some (Inr p)
      | Sparse_vmo \<Rightarrow> obnd (Some (deref (avl_begin (elements v)))) (\<lambda>a. release_frames (page_level v) (elements v) a p))"

section \<open>Committing a new object\<close>

lemma represents_val:
  assumes "represents cmp s xs" and "\<And>x y. cmp (W x) (W y) = cmp (val s x) (val s y)"
  shows "represents cmp (s\<lparr>val := W\<rparr>) xs"
  using assms by (simp add: represents_def holds_def)

lemma sparse_less_key: "sparse_less = key_less offset"
  by (simp add: sparse_less_def fun_eq_iff)

lemma represents_set_backing: "represents sparse_less t xs \<Longrightarrow> represents sparse_less (set_backing t a f) xs"
  unfolding set_backing_def by (erule represents_val) (simp add: sparse_less_def)

text \<open>The pages split off so far: all but the last have their frames \<open>gs\<close>.\<close>

definition split_inv :: "nat \<Rightarrow> addr list \<Rightarrow> sparse_element avl_tree \<Rightarrow> addr list \<Rightarrow> bool" where
  "split_inv level gs t xs \<longleftrightarrow> represents sparse_less t xs \<and> length xs = Suc (length gs) \<and>
     (\<forall>i < length xs. val t (xs ! i) =
        \<lparr>offset = of_nat (i * psize level), backing_address = (if i < length gs then Some (gs ! i) else None)\<rparr>)"

lemma split_inv_nonempty: "split_inv level gs t xs \<Longrightarrow> xs \<noteq> []"
  by (auto simp: split_inv_def)

lemma append_greatest:
  assumes r: "represents sparse_less t xs" and e: "unused t e" and g: "\<forall>a \<in> set xs. offset (val t a) < offset v"
  obtains t' where "avl_insert sparse_less (new_element t e v) e = Some (t', e, True)" "represents sparse_less t' (xs @ [e])"
    "val t' = (val t)(e := v)" "valid t' = (valid t)(e := True)"
proof -
  let ?t = "new_element t e v"
  note n = represents_new_element(1,2) [OF r e, where v = v] represents_new_element(3) [OF r e]
  have v: "val ?t e = v" "\<And>a. a \<in> set xs \<Longrightarrow> val ?t a = val t a" using n(3) by (auto simp: new_element_def)
  have "transp sparse_less" by (simp add: sparse_less_key transp_key_less)
  moreover have "\<forall>a \<in> set xs. sparse_less (val ?t e) (val ?t a) \<or> sparse_less (val ?t a) (val ?t e)"
    using g v by (simp add: sparse_less_def)
  ultimately obtain t' ys zs where t': "avl_insert sparse_less ?t e = Some (t', e, True)" "xs = ys @ zs"
      "represents sparse_less t' (ys @ e # zs)" "same_outside (insert e (set xs)) ?t t'"
    using insert_new [OF n(1) _ n(2,3)] by metis
  have val: "val t' = (val t)(e := v)" "valid t' = (valid t)(e := True)" using t'(4) by (auto simp: same_outside_def new_element_def)
  have "zs = []"
  proof (rule ccontr)
    assume "zs \<noteq> []"
    then obtain z where z: "z \<in> set zs" by fastforce
    with t'(3) have "sparse_less (val t' e) (val t' z)" by (auto simp: represents_def sorted_wrt_append)
    moreover have "z \<in> set xs" "z \<noteq> e" using z t'(2) n(3) by auto
    ultimately show False using g val by (force simp: sparse_less_def)
  qed
  with t' val that show thesis by simp
qed

text \<open>Offsets of pages within the object do not wrap around.\<close>

lemma page_offset_less:
  assumes "i < j" and "j * psize level < 2 ^ 64"
  shows "(of_nat (i * psize level) :: u64) < of_nat (j * psize level)"
proof -
  have "i * psize level < j * psize level" using assms(1) by simp
  moreover from this assms(2) have "i * psize level < 2 ^ 64" by (rule less_trans)
  ultimately show ?thesis unfolding word_of_nat_less_iff using assms(2)
    by (simp only: take_bit_nat_eq_self len_num0 len_num1 len_bit0) (simp add: take_bit_nat_eq_self)
qed

lemma page_offset_next: "(of_nat (i * psize level) :: u64) + page_sizes level = of_nat (Suc i * psize level)"
  by (simp add: psize_def)

subsection \<open>The chain of unused elements\<close>

text \<open>The chain \<open>zs\<close> and the objects of the free frames are addresses that no element has, and the frames are not those of the chain.\<close>

abbreviation frame_elements :: "addr \<Rightarrow> addr list" where
  "frame_elements f \<equiv> objects sparse_element_size (f + physmem_base)"

definition element_memory :: "sparse_element avl_tree \<Rightarrow> sparse_element chained \<Rightarrow> addr list \<Rightarrow> frame_lists \<Rightarrow> bool" where
  "element_memory t c zs F \<longleftrightarrow> chain_holds c zs \<and> (\<forall>z \<in> set zs. unused t z) \<and>
     (\<forall>f \<in> set (F 0). usable_frame sparse_element_size (f + physmem_base) \<and> (\<forall>z \<in> set (frame_elements f). unused t z \<and> z \<notin> set zs))"

text \<open>How many frames the chain takes for \<open>n\<close> elements, if it starts with \<open>k\<close>.\<close>

definition per_frame :: nat where
  "per_frame = 85"

definition refills :: "nat \<Rightarrow> nat \<Rightarrow> nat" where
  "refills n k = (n - k + (per_frame - 1)) div per_frame"

lemma refills_simps:
  "refills 0 k = 0" "refills (Suc n) (Suc k) = refills n k" "refills (Suc n) 0 = Suc (refills n (per_frame - 1))"
proof -
  have "(n - 84 + 84) div 85 = n div 85" by (cases "84 \<le> n") simp_all
  then show "refills 0 k = 0" "refills (Suc n) (Suc k) = refills n k" "refills (Suc n) 0 = Suc (refills n (per_frame - 1))"
    by (simp_all add: refills_def per_frame_def)
qed

lemma length_frame_elements: "length (frame_elements f) = per_frame"
  by (simp add: objects_per_frame_def sparse_element_size_def per_frame_def)

text \<open>The objects of a frame lie in its page.\<close>

lemma frame_page: "psize 0 dvd unat f \<Longrightarrow> 4096 dvd unat (f + physmem_base)"
  by (simp add: psize_def physmem_base_def unat_word_ariths dvd_mod dvd_add)

lemma frame_element_page:
  assumes "psize 0 dvd unat f" "usable_frame sparse_element_size (f + physmem_base)" "z \<in> set (frame_elements f)"
  shows "unat z div 4096 * 4096 = unat (f + physmem_base)" "unat z mod 8 = 0" "z \<noteq> nullptr"
proof -
  obtain i where i: "i < objects_per_frame sparse_element_size" "z = object_at sparse_element_size (f + physmem_base) i" using assms(3) by auto
  note u = object_at_unat [OF assms(2) i(1)]
  obtain k where k: "unat (f + physmem_base) = 4096 * k" using frame_page [OF assms(1)] by auto
  have "unat z = 4096 * k + i * 48" "i < 85" using u(1) i k by (simp_all add: sparse_element_size_def objects_per_frame_def)
  then show "unat z div 4096 * 4096 = unat (f + physmem_base)" "unat z mod 8 = 0" by (simp_all add: k)
  show "z \<noteq> nullptr" using u(2) i(2) by simp
qed

lemma frame_elements_aligned: "unat z mod 8 = 0 \<Longrightarrow> aligned8 z"
  using word_and_mask_eq_mod [of z 3] by (simp add: aligned8_def word_unat_eq_iff unat_mod)

lemma frame_elements_disjoint:
  assumes "psize 0 dvd unat f" "usable_frame sparse_element_size (f + physmem_base)" "psize 0 dvd unat g"
    "usable_frame sparse_element_size (g + physmem_base)" "z \<in> set (frame_elements f)" "z \<in> set (frame_elements g)"
  shows "f = g"
  using frame_element_page(1) [OF assms(1,2,5)] frame_element_page(1) [OF assms(3,4,6)] by (simp add: word_unat_eq_iff [symmetric])

lemma element_memory_fewer:
  assumes "element_memory t c zs F" and "set (F' 0) \<subseteq> set (F 0)" and "valid t' = valid t"
  shows "element_memory t' c zs F'"
  using assms by (auto simp: element_memory_def unused_def)

lemma make_element_fresh:
  assumes m: "element_memory t c zs F" and p: "pmm_inv p F" and r: "zs = [] \<Longrightarrow> F 0 \<noteq> []"
  obtains p' c' e ys where "make_element ofs (t, p, c) = Inr ((new_element t e \<lparr>offset = ofs, backing_address = None\<rparr>, p', c'), e)" "unused t e"
    "pmm_inv p' (if zs = [] then F(0 := tl (F 0)) else F)" "length ys = (if zs = [] then per_frame - 1 else length zs - 1)"
    "\<And>t'. valid t' = (valid t)(e := True) \<Longrightarrow> element_memory t' c' ys (if zs = [] then F(0 := tl (F 0)) else F)"
proof -
  let ?F = "if zs = [] then F(0 := tl (F 0)) else F" and ?f = "hd (F 0)"
  have aligned: "psize 0 dvd unat f" if "f \<in> set (F 0)" for f using p that by (auto simp: pmm_inv_def stack_ok_def page_size_count_def)
  have dist: "distinct (F 0)" using p by (simp add: pmm_inv_def stack_ok_def page_size_count_def)
  obtain p1 where p1: "zs = [] \<Longrightarrow> pmm_pop 0 p = Inr (p1, ?f) \<and> pmm_inv p1 (F(0 := tl (F 0)))"
  proof (cases "zs = []")
    case True
    with r pmm_pop_inv [OF p, where i = 0 and x = ?f and xs = "tl (F 0)"] that show thesis by (auto simp: page_size_count_def)
  qed (use that in simp)
  have usable: "zs = [] \<Longrightarrow> usable_frame sparse_element_size (?f + physmem_base)" using m r by (auto simp: element_memory_def)
  have "chain_holds c zs" "2 * unat sparse_element_size \<le> 4096" using m by (simp_all add: element_memory_def sparse_element_size_def)
  then obtain c' e ys where a: "allocate_chained sparse_element_size p c = Inr (if zs = [] then p1 else p, c', e)" "chain_holds c' ys" "e \<notin> set ys"
    "e # ys = (if zs = [] then frame_elements ?f else zs)"
    by (rule allocate_chained_holds [where m = p and m' = p1 and frame = ?f]) (use p1 usable in auto)
  have fresh: "unused t z" if "z \<in> set (e # ys)" for z
    using that m r unfolding a(4) by (auto simp: element_memory_def split: if_splits)
  have apart: "unused t z \<and> z \<notin> set (e # ys)" if f: "f \<in> set (?F 0)" and z: "z \<in> set (frame_elements f)" for f z
  proof (cases "zs = []")
    case True
    with f r dist have g: "f \<in> set (F 0)" "?f \<in> set (F 0)" "f \<noteq> ?f" by (cases "F 0"; auto)+
    then have "z \<notin> set (frame_elements ?f)"
      using frame_elements_disjoint [OF aligned _ aligned _ z, of ?f] m by (auto simp: element_memory_def)
    with True g(1) z m show ?thesis unfolding a(4) element_memory_def by (simp only: if_True simp_thms)
  qed (use f z m a(4) in \<open>auto simp: element_memory_def\<close>)
  show thesis
  proof (rule that)
    show "make_element ofs (t, p, c) = Inr ((new_element t e \<lparr>offset = ofs, backing_address = None\<rparr>, if zs = [] then p1 else p, c'), e)"
      using a(1) by (simp add: make_element_def operator_new_def)
    show "unused t e" using fresh by simp
    show "pmm_inv (if zs = [] then p1 else p) ?F" using p1 p by simp
    have "Suc (length ys) = (if zs = [] then per_frame else length zs)" using a(4) length_frame_elements by (metis length_Cons)
    then show "length ys = (if zs = [] then per_frame - 1 else length zs - 1)" by (auto split: if_splits)
    have "usable_frame sparse_element_size (f + physmem_base)" if "f \<in> set (?F 0)" for f
      using that m r by (cases "F 0") (auto simp: element_memory_def split: if_splits)
    then show "element_memory t' c' ys ?F" if "valid t' = (valid t)(e := True)" for t'
      unfolding element_memory_def using that a(2,3) fresh apart by (auto simp: unused_def)
  qed
qed

subsection \<open>The frames that are taken\<close>

definition taken :: "nat \<Rightarrow> frame_lists \<Rightarrow> addr list \<Rightarrow> addr list \<Rightarrow> frame_lists \<Rightarrow> bool" where
  "taken level F gs hs F' \<longleftrightarrow> (\<forall>i. mset (F i) = mset (F' i) + (if i = level then mset gs else {#}) + (if i = 0 then mset hs else {#}))"

definition room :: "nat \<Rightarrow> nat \<Rightarrow> nat \<Rightarrow> frame_lists \<Rightarrow> bool" where
  "room level n r F \<longleftrightarrow> (\<forall>i. (if i = level then n else 0) + (if i = 0 then r else 0) \<le> length (F i))"

lemma taken_refl: "taken level F [] [] F"
  by (simp add: taken_def)

lemma taken_page: "taken level F gs hs F' \<Longrightarrow> F' level = x # ys \<Longrightarrow> taken level F (gs @ [x]) hs (F'(level := ys))"
  by (auto simp: taken_def)

lemma taken_refill: "taken level F gs hs F' \<Longrightarrow> F' 0 = x # ys \<Longrightarrow> taken level F gs (hs @ [x]) (F'(0 := ys))"
  by (auto simp: taken_def)

lemma room_page: "room level (Suc n) r F \<Longrightarrow> F level = x # ys \<Longrightarrow> room level n r (F(level := ys))"
  unfolding room_def by (intro allI, drule_tac x = i in spec) auto

lemma room_refill: "room level n (Suc r) F \<Longrightarrow> F 0 = x # ys \<Longrightarrow> room level n r (F(0 := ys))"
  unfolding room_def by (intro allI, drule_tac x = i in spec) auto

lemma room_frames: "room level (Suc n) r F \<Longrightarrow> F level \<noteq> []" "room level n (Suc r) F \<Longrightarrow> F 0 \<noteq> []"
  by (auto simp: room_def dest: spec [of _ level] spec [of _ 0])

lemma refill_taken:
  assumes "taken level F gs hs F'" and "room level n (Suc r) F'"
  shows "taken level F gs (hs @ [hd (F' 0)]) (F'(0 := tl (F' 0)))" "room level n r (F'(0 := tl (F' 0)))"
proof -
  have "F' 0 = hd (F' 0) # tl (F' 0)" using room_frames(2) [OF assms(2)] by simp
  then show "taken level F gs (hs @ [hd (F' 0)]) (F'(0 := tl (F' 0)))" "room level n r (F'(0 := tl (F' 0)))"
    by (rule taken_refill [OF assms(1)], rule room_refill [OF assms(2)])
qed

subsection \<open>The inner loop\<close>

text \<open>All that is known between two pages, with \<open>k\<close> elements still to be made.\<close>

definition splitting :: "nat \<Rightarrow> frame_lists \<Rightarrow> nat \<Rightarrow> nat \<Rightarrow> commit_state \<Rightarrow> addr list \<Rightarrow> addr list \<Rightarrow> addr list \<Rightarrow> bool" where
  "splitting level F k R st xs gs hs \<longleftrightarrow> (case st of (t, p, c) \<Rightarrow> split_inv level gs t xs \<and>
     (\<exists>zs F'. element_memory t c zs F' \<and> pmm_inv p F' \<and> taken level F gs hs F' \<and> room level (Suc k) (refills k (length zs)) F' \<and>
        length hs + refills k (length zs) = R))"

lemma back_element_step:
  assumes "pmm_inv p F" "level < page_size_count" "F level = x # ys" "accessible t a"
  obtains p' where "back_element level (t, p, c) a = Inr (set_backing t a x, p', c)" "pmm_inv p' (F(level := ys))"
proof -
  obtain p' where "pmm_pop level p = Inr (p', x)" "pmm_inv p' (F(level := ys))" by (rule pmm_pop_inv [OF assms(1-3)])
  then show thesis using that assms(4) by (simp add: back_element_def)
qed

lemma split_inv_next:
  assumes I: "split_inv level gs t xs" and l: "length xs * psize level < 2 ^ 64" and e: "unused t e"
  obtains t' where "avl_insert_hint sparse_less (new_element (set_backing t (last xs) x) e \<lparr>offset = of_nat (length xs * psize level), backing_address = None\<rparr>)
      nxt_it e = Some (t', e)" "split_inv level (gs @ [x]) t' (xs @ [e])" "valid t' = (valid t)(e := True)"
proof -
  let ?t = "set_backing t (last xs) x" and ?v = "\<lparr>offset = of_nat (length xs * psize level), backing_address = None\<rparr>"
  have r: "represents sparse_less t xs" and last: "last xs = xs ! length gs" "last xs \<in> set xs" and n: "length xs = Suc (length gs)"
    using split_inv_nonempty [OF I] I by (auto simp: split_inv_def last_conv_nth)
  have rt: "represents sparse_less ?t xs" by (rule represents_set_backing [OF r])
  have u: "unused ?t e" using e by (simp add: unused_def set_backing_def)
  have off: "offset (val ?t (xs ! j)) = of_nat (j * psize level)" if "j < length xs" for j
    using I that by (auto simp: split_inv_def set_backing_def)
  have "\<forall>a \<in> set xs. offset (val ?t a) < offset ?v"
    using off page_offset_less [OF _ l] by (auto simp: in_set_conv_nth)
  from append_greatest [OF rt u this] obtain t' where t': "avl_insert sparse_less (new_element ?t e ?v) e = Some (t', e, True)"
      "represents sparse_less t' (xs @ [e])" "val t' = (val ?t)(e := ?v)" "valid t' = (valid ?t)(e := True)" .
  have "val t' ((xs @ [e]) ! j) = \<lparr>offset = of_nat (j * psize level),
      backing_address = (if j < length (gs @ [x]) then Some ((gs @ [x]) ! j) else None)\<rparr>" if j: "j < length (xs @ [e])" for j
  proof (cases "j = length xs")
    case False
    with j have jl: "j < length xs" by simp
    have ne: "e \<notin> set xs" using represents_new_element(3) [OF rt u] .
    with jl have "xs ! j \<noteq> e" by (metis nth_mem)
    moreover have "xs ! j = last xs \<longleftrightarrow> j = length gs" using represents_distinct [OF r] jl n last(1) by (simp add: nth_eq_iff_index_eq)
    ultimately show ?thesis using I t'(3) jl n by (auto simp: split_inv_def set_backing_def nth_append)
  qed (simp add: t'(3) n nth_append)
  with t'(2) n have "split_inv level (gs @ [x]) t' (xs @ [e])" by (simp add: split_inv_def)
  with t' that show thesis by (simp add: avl_insert_hint_def set_backing_def)
qed

lemma split_step:
  assumes I: "splitting level F (Suc k) R st xs gs hs" and l: "length xs * psize level < 2 ^ 64" "level < page_size_count"
  obtains st' x e hs' where "split_page level nxt_it (of_nat (length xs * psize level)) st (last xs) = Inr (st', e)"
    "splitting level F k R st' (xs @ [e]) (gs @ [x]) hs'"
proof -
  obtain t p c where st: "st = (t, p, c)" by (cases st)
  from I obtain zs F' where i: "split_inv level gs t xs" "element_memory t c zs F'" "pmm_inv p F'" "taken level F gs hs F'"
      "room level (Suc (Suc k)) (refills (Suc k) (length zs)) F'" "length hs + refills (Suc k) (length zs) = R"
    by (auto simp: splitting_def st)
  obtain x ys where x: "F' level = x # ys" using room_frames(1) [OF i(5)] by (cases "F' level") auto
  have "accessible t (last xs)" using i(1) represents_valid [of sparse_less t xs "last xs"] split_inv_nonempty [OF i(1)] by (simp add: split_inv_def)
  from back_element_step [OF i(3) l(2) x this] obtain p1 where p1: "back_element level st (last xs) = Inr (set_backing t (last xs) x, p1, c)"
      "pmm_inv p1 (F'(level := ys))" unfolding st .
  let ?t = "set_backing t (last xs) x" and ?F = "F'(level := ys)"
  have m: "element_memory ?t c zs ?F" by (rule element_memory_fewer [OF i(2)]) (use x in \<open>auto simp: set_backing_def\<close>)
  note tk = taken_page [OF i(4) x] and rm = room_page [OF i(5) x]
  have more: "?F 0 \<noteq> []" if "zs = []"
    by (rule room_frames(2)) (use rm that in \<open>simp only: refills_simps list.size\<close>)
  let ?F1 = "if zs = [] then ?F(0 := tl (?F 0)) else ?F" and ?hs = "if zs = [] then hs @ [hd (?F 0)] else hs"
  from make_element_fresh [OF m p1(2) more, of "of_nat (length xs * psize level)"] obtain p2 c2 e ws where e:
      "make_element (of_nat (length xs * psize level)) (?t, p1, c) =
         Inr ((new_element ?t e \<lparr>offset = of_nat (length xs * psize level), backing_address = None\<rparr>, p2, c2), e)"
      "unused ?t e" "pmm_inv p2 ?F1" "length ws = (if zs = [] then per_frame - 1 else length zs - 1)"
      "\<And>t'. valid t' = (valid ?t)(e := True) \<Longrightarrow> element_memory t' c2 ws ?F1" by metis
  have "unused t e" using e(2) by (simp add: unused_def set_backing_def)
  from split_inv_next [OF i(1) l(1) this] obtain t' where t': "avl_insert_hint sparse_less
      (new_element ?t e \<lparr>offset = of_nat (length xs * psize level), backing_address = None\<rparr>) nxt_it e = Some (t', e)"
      "split_inv level (gs @ [x]) t' (xs @ [e])" "valid t' = (valid t)(e := True)" .
  have "taken level F (gs @ [x]) ?hs ?F1 \<and> room level (Suc k) (refills k (length ws)) ?F1 \<and> length ?hs + refills k (length ws) = R"
  proof (cases "zs = []")
    case True
    with rm have "room level (Suc k) (Suc (refills k (per_frame - 1))) ?F" by (simp only: refills_simps list.size)
    note refill_taken [OF tk this]
    with True e(4) i(6) show ?thesis by (simp only: if_True refills_simps list.size length_append) simp
  next
    case False
    then obtain q where "length zs = Suc q" by (cases zs) auto
    with False tk rm e(4) i(6) show ?thesis by (simp add: refills_simps)
  qed
  moreover have "element_memory t' c2 ws ?F1" using e(5) t'(3) by (simp add: set_backing_def)
  ultimately have "splitting level F k R (t', p2, c2) (xs @ [e]) (gs @ [x]) ?hs"
    unfolding splitting_def prod.case using t'(2) e(3) by (intro conjI exI [of _ ws] exI [of _ ?F1]) blast+
  moreover have "split_page level nxt_it (of_nat (length xs * psize level)) st (last xs) = Inr ((t', p2, c2), e)"
    using p1(1) e(1) t'(1) by (simp add: split_page_def)
  ultimately show thesis using that by blast
qed

lemma split_inv_last:
  assumes "split_inv level gs t xs"
  shows "read_val t (last xs) = Some \<lparr>offset = of_nat (length gs * psize level), backing_address = None\<rparr>"
proof -
  have "represents sparse_less t xs" "last xs \<in> set xs" "last xs = xs ! length gs"
    using assms split_inv_nonempty [OF assms] by (auto simp: split_inv_def last_conv_nth)
  with represents_valid [of sparse_less t xs "last xs"] assms show ?thesis
    by (simp add: split_inv_def read_val_def)
qed

text \<open>The inner loop returns, and leaves one element for each page of the object.\<close>

lemma split_pages_fresh:
  assumes "splitting level F k R st xs gs hs" and "length xs + k = n" and "n * psize level < 2 ^ 64" and "level < page_size_count"
  shows "\<exists>st' xs' gs' hs'. split_pages level nxt_it (of_nat (n * psize level)) st (last xs) = Some (Inr (st', last xs'))
     \<and> splitting level F 0 R st' xs' gs' hs' \<and> length xs' = n"
  using assms
proof (induction k arbitrary: st xs gs hs)
  case 0
  then have I: "split_inv level gs (fst st) xs" by (auto simp: splitting_def)
  have "n = Suc (length gs)" using I "0.prems"(2) by (simp add: split_inv_def)
  then have "split_pages level nxt_it (of_nat (n * psize level)) st (last xs) = Some (Inr (st, last xs))"
    using split_inv_last [OF I] page_offset_next [of "length gs" level]
    by (subst split_pages.simps) (simp del: of_nat_mult of_nat_Suc mult_Suc)
  with 0 show ?case by auto
next
  case (Suc k)
  then have I: "split_inv level gs (fst st) xs" by (auto simp: splitting_def)
  have len: "length xs = Suc (length gs)" "length xs < n" using I Suc.prems(2) by (simp_all add: split_inv_def)
  then have "length xs * psize level \<le> n * psize level" by (intro mult_le_mono1) simp
  then have l: "length xs * psize level < 2 ^ 64" using Suc.prems(3) by (rule le_less_trans)
  from split_step [OF Suc.prems(1) l Suc.prems(4), of nxt_it] obtain st' x e hs' where
    s: "split_page level nxt_it (of_nat (length xs * psize level)) st (last xs) = Inr (st', e)" "splitting level F k R st' (xs @ [e]) (gs @ [x]) hs'" .
  have "(of_nat (length gs * psize level) :: u64) + page_sizes level = of_nat (length xs * psize level)"
    unfolding page_offset_next len(1) ..
  moreover have "(of_nat (length xs * psize level) :: u64) < of_nat (n * psize level)"
    by (rule page_offset_less [OF len(2) Suc.prems(3)])
  ultimately have "split_pages level nxt_it (of_nat (n * psize level)) st (last xs) = split_pages level nxt_it (of_nat (n * psize level)) st' (last (xs @ [e]))"
    using split_inv_last [OF I] s(1) by (subst split_pages.simps) (simp del: of_nat_mult)
  with Suc.IH [OF s(2) _ Suc.prems(3,4)] Suc.prems(2) show ?case by simp
qed

text \<open>The length of an object is its pages, counted with the last one whole.\<close>

definition pages_of :: "u64 \<Rightarrow> nat \<Rightarrow> nat" where
  "pages_of len level = (unat len + psize level - 1) div psize level"

lemma round_up:
  fixes l p :: int
  assumes "0 < p"
  shows "(l + p - 1) div p * p = l + (- l) mod p"
proof -
  let ?r = "(l + p - 1) mod p"
  have q: "(l + p - 1) div p * p = l + p - 1 - ?r" by (simp add: minus_mod_eq_div_mult)
  have "- l = (p - 1 - ?r) + p * - ((l + p - 1) div p)" using q by (simp add: algebra_simps)
  then have "(- l) mod p = (p - 1 - ?r) mod p" by (metis mod_mult_self2)
  also have "\<dots> = p - 1 - ?r" using assms pos_mod_bound [of p "l + p - 1"] pos_mod_sign [of p "l + p - 1"] by (intro mod_pos_pos_trivial) linarith+
  finally show ?thesis using q by simp
qed

lemma round_length_pages:
  assumes "level < page_size_count"
  shows "round_length len level = of_nat (pages_of len level * psize level)"
proof -
  let ?P = "int (psize level)" let ?L = "int (unat len)"
  have dvd: "?P dvd 2 ^ 64" using assms by (auto simp: psize_eq page_size_count_def less_Suc_eq numeral_3_eq_3)
  have pos: "0 < ?P" by simp
  have P: "uint (page_sizes level) = ?P" by (simp add: psize_def)
  have "uint ((page_sizes level - len) mod page_sizes level) = ((?P - ?L) mod 2 ^ 64) mod ?P"
    by (simp add: uint_mod P uint_word_ariths)
  also have "\<dots> = (?P - ?L) mod ?P" by (rule mod_mod_cancel [OF dvd])
  finally have m: "uint ((page_sizes level - len) mod page_sizes level) = (- ?L) mod ?P" by (simp add: minus_mod_self1 mod_simps flip: mod_diff_left_eq)
  have "int (pages_of len level * psize level) = ((?L + ?P - 1) div ?P) * ?P"
    unfolding pages_of_def using psize_pos [of level] by (simp add: zdiv_int of_nat_diff del: psize_pos)
  also have "\<dots> = ?L + (- ?L) mod ?P" by (rule round_up [OF pos])
  finally have "int (pages_of len level * psize level) = ?L + (- ?L) mod ?P" .
  then have "of_int (int (pages_of len level * psize level)) = (of_int (?L + (- ?L) mod ?P) :: u64)" by (simp only:)
  also have "\<dots> = len + (page_sizes level - len) mod page_sizes level" unfolding m [symmetric] by simp
  finally show ?thesis by (simp add: round_length_def)
qed

text \<open>A new object has one element, at offset 0, which \<open>lower_bound\<close> and \<open>upper_bound\<close> see at once.\<close>

lemmas link_defs = get_left_def get_right_def get_tree_parent_def read_prev_def read_nxt_def read_tree_parent_def accessible_def unpack_parent_def

lemma create_sparse:
  assumes m: "element_memory no_elements c zs F" and p: "pmm_inv p F" and r: "room level (Suc k) (refills (Suc k) (length zs)) F"
  obtains v p' c' e hs where "create_sparse_vmo len level p c = Inr (v, p', c')" "vmo_kind v = Sparse_vmo" "vmo_length v = round_length len level"
    "page_level v = level" "splitting level F k (refills (Suc k) (length zs)) (elements v, p', c') [e] [] hs"
    "root (elements v) = e" "get_left (elements v) e = Some nullptr" "get_right (elements v) e = Some nullptr"
    "get_tree_parent (elements v) e = Some nullptr"
proof -
  let ?x = "\<lparr>offset = 0, backing_address = None\<rparr>"
  have more: "F 0 \<noteq> []" if "zs = []"
    by (rule room_frames(2)) (use r that in \<open>simp only: refills_simps list.size\<close>)
  let ?F1 = "if zs = [] then F(0 := tl (F 0)) else F" and ?hs = "if zs = [] then [hd (F 0)] else []"
  from make_element_fresh [OF m p more, of 0] obtain p' c' e ws where e:
      "make_element 0 (no_elements, p, c) = Inr ((new_element no_elements e ?x, p', c'), e)"
      "unused no_elements e" "pmm_inv p' ?F1" "length ws = (if zs = [] then per_frame - 1 else length zs - 1)"
      "\<And>t'. valid t' = (valid no_elements)(e := True) \<Longrightarrow> element_memory t' c' ws ?F1" by metis
  have rep: "represents sparse_less no_elements []"
    by (auto simp: represents_def holds_def no_elements_def intro!: exI [of _ Leaf])
  let ?t = "new_element no_elements e ?x\<lparr>root := e, size := 1\<rparr>"
  have i: "avl_insert sparse_less (new_element no_elements e ?x) e = Some (?t, e, True)"
    by (simp add: avl_insert_def new_element_def no_elements_def)
  from append_greatest [OF rep e(2), of ?x] i have "represents sparse_less ?t [e]" by auto
  then have "split_inv level [] ?t [e]" by (simp add: split_inv_def new_element_def)
  moreover have "taken level F [] ?hs ?F1 \<and> room level (Suc k) (refills k (length ws)) ?F1 \<and> length ?hs + refills k (length ws) = refills (Suc k) (length zs)"
  proof (cases "zs = []")
    case True
    with r have "room level (Suc k) (Suc (refills k (per_frame - 1))) F" by (simp only: refills_simps list.size)
    note refill_taken [OF taken_refl this]
    with True e(4) show ?thesis by (simp add: refills_simps)
  next
    case False
    then obtain q where "length zs = Suc q" by (cases zs) auto
    with False taken_refl r e(4) show ?thesis by (simp add: refills_simps)
  qed
  moreover have "element_memory ?t c' ws ?F1" by (rule e(5)) (simp add: new_element_def no_elements_def)
  ultimately have "splitting level F k (refills (Suc k) (length zs)) (?t, p', c') [e] [] ?hs"
    unfolding splitting_def prod.case using e(3) by (intro conjI exI [of _ ws] exI [of _ ?F1]) blast+
  moreover have "e \<noteq> nullptr" "aligned8 e" using e(2) by (auto simp: unused_def)
  ultimately show thesis using e(1) i
    by (intro that [of "\<lparr>vmo_kind = Sparse_vmo, vmo_length = round_length len level, page_level = level, vmo_base = nullptr, elements = ?t\<rparr>" p' c' e ?hs])
      (simp_all add: create_sparse_vmo_def new_element_def no_elements_def link_defs)
qed

lemma commit_last:
  assumes I: "splitting level F 0 R st xs gs hs" and l: "level < page_size_count"
  obtains t' p' c' x F' where "back_element level st (last xs) = Inr (t', p', c')" "pmm_inv p' F'" "taken level F (gs @ [x]) hs F'"
    "represents sparse_less t' xs" "iterator_incr t' (last xs) = Some nullptr"
    "\<forall>j < length xs. val t' (xs ! j) = \<lparr>offset = of_nat (j * psize level), backing_address = Some ((gs @ [x]) ! j)\<rparr>"
    "length hs = R" "length xs = length (gs @ [x])"
proof -
  obtain t p c where st: "st = (t, p, c)" by (cases st)
  from I obtain zs :: "addr list" and F' where i: "split_inv level gs t xs" "pmm_inv p F'" "taken level F gs hs F'"
      "room level (Suc 0) (refills 0 (length zs)) F'" "length hs + refills 0 (length zs) = R"
    unfolding splitting_def st prod.case by blast
  obtain x ys where x: "F' level = x # ys" using room_frames(1) [OF i(4)] by (cases "F' level") auto
  have r: "represents sparse_less t xs" and last: "last xs = xs ! length gs" "last xs \<in> set xs" and n: "length xs = Suc (length gs)"
    using i(1) split_inv_nonempty [OF i(1)] by (auto simp: split_inv_def last_conv_nth)
  let ?t = "set_backing t (last xs) x"
  from back_element_step [OF i(2) l x represents_valid [OF r last(2)]] obtain p' where
    p': "back_element level st (last xs) = Inr (?t, p', c)" "pmm_inv p' (F'(level := ys))" unfolding st .
  have rt: "represents sparse_less ?t xs" by (rule represents_set_backing [OF r])
  have "xs = butlast xs @ last xs # []" using n by (cases xs rule: rev_cases) auto
  from incr_refines [OF rt this] have "iterator_incr ?t (last xs) = Some nullptr" by simp
  moreover have "val ?t (xs ! j) = \<lparr>offset = of_nat (j * psize level), backing_address = Some ((gs @ [x]) ! j)\<rparr>" if "j < length xs" for j
  proof -
    have "xs ! j = xs ! length gs \<longleftrightarrow> j = length gs" using represents_distinct [OF r] that n by (simp add: nth_eq_iff_index_eq)
    then show ?thesis using i(1) that last(1) n by (auto simp: split_inv_def set_backing_def nth_append)
  qed
  ultimately show thesis using that p' rt taken_page [OF i(3) x] i(5) n by (simp add: refills_simps)
qed

lemma commit_loop_end: "commit_loop level len nullptr st nullptr = Some (Inr st)"
  by (subst commit_loop.simps) simp

lemma commit_fresh:
  assumes v: "splitting level F i R (t, p, c) [e] [] hs" "root t = e" "get_left t e = Some nullptr" "get_right t e = Some nullptr"
      "get_tree_parent t e = Some nullptr" "vmo_kind v = Sparse_vmo" "elements v = t" "page_level v = level"
      "vmo_length v = of_nat (Suc i * psize level)"
    and n: "Suc i * psize level < 2 ^ 64" "level < page_size_count"
  shows "\<exists>v' p' c' xs gs hs F'. commit_all v p c = Some (Inr (v', p', c')) \<and> represents sparse_less (elements v') xs \<and> length xs = Suc i \<and>
      (\<forall>j < Suc i. val (elements v') (xs ! j) = \<lparr>offset = of_nat (j * psize level), backing_address = Some (gs ! j)\<rparr>) \<and>
      length gs = Suc i \<and> length hs = R \<and> taken level F gs hs F' \<and> pmm_inv p' F'"
proof -
  have I: "split_inv level [] t [e]" using v(1) by (simp add: splitting_def)
  have r: "represents sparse_less t [e]" using I by (simp add: split_inv_def)
  have e: "e \<noteq> nullptr" "read_val t e = Some \<lparr>offset = 0, backing_address = None\<rparr>"
    using represents_valid [OF r, of e] split_inv_last [OF I] by (auto simp: accessible_def)
  have "(0 :: u64) < of_nat (Suc i * psize level)" using page_offset_less [of 0 "Suc i" level] n(1) by simp
  then have bounds: "avl_lower_bound offset_bound (\<lambda>x k. offset x < k) t 0 = Some e"
      "avl_upper_bound offset_bound (\<lambda>x k. offset x < k) t (of_nat (Suc i * psize level)) = Some nullptr"
    using v(2-5) e by (simp_all add: avl_lower_bound_def avl_upper_bound_def lower_bound_loop.simps offset_bound_def avl_end_def del: of_nat_mult of_nat_Suc mult_Suc)
  have incr: "iterator_incr t e = Some nullptr" using incr_refines [OF r, of "[]" e "[]"] by simp
  obtain st xs gs hs' where s: "split_pages level nullptr (of_nat (Suc i * psize level)) (t, p, c) e = Some (Inr (st, last xs))"
     "splitting level F 0 R st xs gs hs'" "length xs = Suc i"
    using split_pages_fresh [OF v(1) _ n, of nullptr] by auto
  from commit_last [OF s(2) n(2)] obtain t' p' c' x F' where c: "back_element level st (last xs) = Inr (t', p', c')" "pmm_inv p' F'"
    "taken level F (gs @ [x]) hs' F'" "represents sparse_less t' xs" "iterator_incr t' (last xs) = Some nullptr"
    "\<forall>j < length xs. val t' (xs ! j) = \<lparr>offset = of_nat (j * psize level), backing_address = Some ((gs @ [x]) ! j)\<rparr>"
    "length hs' = R" "length xs = length (gs @ [x])" .
  have "commit_element level (vmo_length v) (t, p, c) e = Some (Inr ((t', p', c'), nullptr))"
    unfolding v(9) using incr s(1) c(1,5) by (simp add: commit_element_def obnd_simps del: of_nat_mult of_nat_Suc mult_Suc)
  then have "commit_loop level (vmo_length v) nullptr (t, p, c) e = Some (Inr (t', p', c'))"
    using e commit_loop_end by (subst commit_loop.simps) simp
  then have "commit_all v p c = Some (Inr (v\<lparr>elements := t'\<rparr>, p', c'))"
    using bounds e v(6-9) by (simp add: commit_all_def commit_between_offsets_def obnd_simps del: of_nat_mult of_nat_Suc mult_Suc)
  moreover have "length (gs @ [x]) = Suc i" using c(8) s(3) by simp
  ultimately show ?thesis using c s(3)
    by (intro exI [of _ "v\<lparr>elements := t'\<rparr>"] exI [of _ p'] exI [of _ c'] exI [of _ xs] exI [of _ "gs @ [x]"] exI [of _ hs'] exI [of _ F'] conjI) simp_all
qed


text \<open>A memory manager with three free frames, and an object of 5000 bytes, which is two pages.\<close>

lemma three_frames: "\<exists>p. pmm_inv p ((\<lambda>_. [])(0 := [0x7000, 0x6000, 0x5000]))"
proof -
  from pmm_inv_push [OF pmm_inv_empty [of "\<lambda>_. 0"], of 0 "0x5000"] obtain p where p: "pmm_inv p ((\<lambda>_. [])(0 := [0x5000]))"
    by (auto simp: page_size_count_def psize_def free_bytes_def)
  have "span 0 0x6000 \<inter> free_bytes ((\<lambda>_. [])(0 := [0x5000])) = {}"
    by (auto simp: free_bytes_def span_def psize_def split: if_splits)
  with pmm_inv_push [OF p, of 0 "0x6000"] obtain q where q: "pmm_inv q ((\<lambda>_. [])(0 := [0x6000, 0x5000]))"
    by (auto simp: page_size_count_def psize_def)
  have "span 0 0x7000 \<inter> free_bytes ((\<lambda>_. [])(0 := [0x6000, 0x5000])) = {}"
    by (auto simp: free_bytes_def span_def psize_def split: if_splits)
  with pmm_inv_push [OF q, of 0 "0x7000"] show ?thesis by (auto simp: page_size_count_def psize_def)
qed

definition no_chain :: "sparse_element chained" where
  "no_chain = \<lparr>valid = (\<lambda>_. False), prev = (\<lambda>_. nullptr), nxt = (\<lambda>_. nullptr), tree_parent = (\<lambda>_. nullptr),
     val = (\<lambda>_. \<lparr>offset = 0, backing_address = None\<rparr>), chained_head = nullptr, chained_lock = False\<rparr>"


end
