(* ===== verification/Paging_Properties.thy ===== *)
theory Paging_Properties
  imports Paging Pmm_Properties
begin

text \<open>
  Mapping and translation: a page that \<open>map_physical\<close> maps is the one \<open>virt_to_phys\<close> finds, and the other pages of
  the address space keep their frames. The lemmas follow one walk down the tables; the tables that are
  missing on the way are taken from the free frames of the memory manager.
\<close>

section \<open>Bits of an entry\<close>

lemma bit_get_phys: "bit (get_phys w) i \<longleftrightarrow> 12 \<le> i \<and> i < 52 \<and> bit w i"
  by (auto simp: get_phys_def bit_simps)

lemma bit_set_address: "bit (set_address a w) i \<longleftrightarrow> (if 12 \<le> i \<and> i < 52 then bit a i else bit w i)"
  by (auto simp: set_address_def bit_simps dest: bit_imp_le_length)

lemma bit_set_user: "bit (set_user b w) i \<longleftrightarrow> (if i = user_bit then b else bit w i)"
  by (auto simp: set_user_def bit_simps user_bit_def)

lemmas entry_bits = bit_get_phys bit_set_address bit_set_user bit_set_bit_iff bit_unset_bit_iff
  present_bit_def user_bit_def size_bit_def lock_bit_def

lemma get_phys_eqI: "(\<And>i. 12 \<le> i \<Longrightarrow> i < 52 \<Longrightarrow> bit w i = bit w' i) \<Longrightarrow> get_phys w = get_phys w'"
  by (rule bit_word_eqI) (auto simp: bit_get_phys)

lemma get_phys_set_address: "get_phys a = a \<Longrightarrow> get_phys (set_address a w) = a"
  by (metis (no_types, lifting) bit_set_address get_phys_eqI)

lemma get_phys_set_user [simp]: "get_phys (set_user b w) = get_phys w"
  by (rule get_phys_eqI) (simp add: entry_bits)

lemma get_phys_lock [simp]:
  "get_phys (set_bit lock_bit w) = get_phys w" "get_phys (unset_bit lock_bit w) = get_phys w"
  by (rule get_phys_eqI, simp add: entry_bits)+

lemma flag_bits [simp]:
  "bit (set_user b w) present_bit = bit w present_bit" "bit (set_user b w) size_bit = bit w size_bit"
  "bit (set_user b w) lock_bit = bit w lock_bit"
  "bit (set_bit lock_bit w) present_bit = bit w present_bit" "bit (set_bit lock_bit w) size_bit = bit w size_bit"
  "bit (unset_bit lock_bit w) present_bit = bit w present_bit" "bit (unset_bit lock_bit w) size_bit = bit w size_bit"
  "\<not> bit (unset_bit lock_bit w) lock_bit"
  "bit (set_address a w) present_bit = bit w present_bit" "bit (set_address a w) size_bit = bit w size_bit"
  "bit (set_bit present_bit w) present_bit" "bit (set_bit present_bit w) size_bit = bit w size_bit"
  by (simp_all add: entry_bits)

lemma default_bits [simp]:
  "\<not> bit pmle_default present_bit" "\<not> bit pmle_default size_bit" "\<not> bit pmle_default lock_bit"
  by (simp_all add: pmle_default_def entry_bits)

section \<open>The walk of an address\<close>

text \<open>The entries on the way to the page of \<open>virt\<close>, up to the first that is not present.\<close>

fun walk :: "nat \<Rightarrow> addr \<Rightarrow> u64 \<Rightarrow> pmm \<Rightarrow> addr list" where
  "walk 0 table virt s = []"
| "walk (Suc n) table virt s =
     (let p = entry_addr table (table_index (Suc n) virt)
      in p # (if bit (mem s p) present_bit then walk n (get_phys (mem s p)) virt s else []))"

fun unmapped :: "nat \<Rightarrow> addr \<Rightarrow> u64 \<Rightarrow> pmm \<Rightarrow> bool" where
  "unmapped 0 table virt s \<longleftrightarrow> False"
| "unmapped (Suc n) table virt s \<longleftrightarrow>
     (let w = mem s (entry_addr table (table_index (Suc n) virt))
      in \<not> bit w size_bit \<and> (bit w present_bit \<longrightarrow> unmapped n (get_phys w) virt s))"

definition same_target :: "u64 \<Rightarrow> u64 \<Rightarrow> bool" where
  "same_target w w' \<longleftrightarrow> bit w' present_bit = bit w present_bit \<and> bit w' size_bit = bit w size_bit \<and> get_phys w' = get_phys w"

lemma walk_cong: "(\<And>q. q \<in> set (walk n t v s) \<Longrightarrow> same_target (mem s q) (mem s' q)) \<Longrightarrow> walk n t v s' = walk n t v s"
  by (induction n t v s rule: walk.induct) (auto simp: Let_def same_target_def split: if_splits)

lemma unmapped_cong: "(\<And>q. q \<in> set (walk n t v s) \<Longrightarrow> same_target (mem s q) (mem s' q)) \<Longrightarrow> unmapped n t v s' = unmapped n t v s"
  by (induction n t v s rule: walk.induct) (auto simp: Let_def same_target_def split: if_splits)

lemma translation_kept:
  assumes "vm_virt_to_phys n t v s = Inr r"
    and "\<And>q. q \<in> set (walk n t v s) \<Longrightarrow> bit (mem s q) present_bit \<Longrightarrow> same_target (mem s q) (mem s' q)"
  shows "vm_virt_to_phys n t v s' = Inr r"
  using assms
  by (induction n t v s rule: walk.induct) (auto simp: Let_def same_target_def split: if_splits)

section \<open>Memory outside the free frames\<close>

lemma frames_at_cong: "(\<And>x. x \<in> set xs \<Longrightarrow> m' x = m x) \<Longrightarrow> frames_at m' p xs = frames_at m p xs"
  by (induction xs arbitrary: p) auto

lemma pmm_inv_mem:
  assumes "pmm_inv s F" and "\<And>q. unat q \<in> free_bytes F \<Longrightarrow> m q = mem s q"
  shows "pmm_inv (s\<lparr>mem := m\<rparr>) F"
proof -
  have "m x = mem s x" if "i < page_size_count" "x \<in> set (F i)" for i x
    using that self_in_span [of x i] by (intro assms(2)) (auto simp: free_bytes_def)
  then have "stack_ok (s\<lparr>mem := m\<rparr>) i (F i)" if "i < page_size_count" for i
    using assms(1) that by (auto simp: pmm_inv_def stack_ok_def frames_at_cong [of "F i" m "mem s"])
  then show ?thesis using assms(1) by (simp add: pmm_inv_def)
qed

lemma page_of_iff:
  assumes "4096 dvd unat x"
  shows "p AND NOT 4095 = x \<longleftrightarrow> unat p \<in> span 0 x"
proof -
  have "p AND NOT 4095 = p - p mod 4096" using word_and_not_mask [of p 12] by simp
  moreover have "p mod 4096 \<le> p" by (simp add: word_le_nat_alt unat_mod)
  ultimately have "unat (p AND NOT 4095) = unat p - unat p mod 4096" by (simp add: unat_sub unat_mod)
  then have "p AND NOT 4095 = x \<longleftrightarrow> unat p - unat p mod 4096 = unat x" by (metis word_unat_eq_iff)
  also have "\<dots> \<longleftrightarrow> unat p div 4096 * 4096 = unat x" by (simp add: minus_mod_eq_div_mult)
  also have "\<dots> \<longleftrightarrow> unat p \<in> span 0 x"
    using assms by (elim dvdE) (auto simp: span_def psize_def dividend_less_times_div div_nat_eqI)
  finally show ?thesis .
qed

lemma span_free: "i < page_size_count \<Longrightarrow> x \<in> set (F i) \<Longrightarrow> span i x \<subseteq> free_bytes F"
  by (auto simp: free_bytes_def)

lemma free_bytes_mono: "(\<And>i. set (G i) \<subseteq> set (F i)) \<Longrightarrow> free_bytes G \<subseteq> free_bytes F"
  unfolding free_bytes_def by blast

lemma free_bytes_drop: "free_bytes (F(0 := drop k (F 0))) \<subseteq> free_bytes F"
  by (rule free_bytes_mono) (auto dest: in_set_dropD)

text \<open>A frame taken from the stack, and the bytes that are still free.\<close>

lemma span_taken:
  assumes "pmm_inv s F" and "F 0 = x # xs"
  shows "span 0 x \<inter> free_bytes (F(0 := xs)) = {}" "span 0 x \<subseteq> free_bytes F" "free_bytes (F(0 := xs)) \<subseteq> free_bytes F"
    "4096 dvd unat x"
proof -
  have "stack_ok s 0 (x # xs)" using assms by (auto simp: pmm_inv_def page_size_count_def dest: spec [of _ 0])
  then have x: "x \<notin> set xs" "4096 dvd unat x" by (auto simp: stack_ok_def psize_def)
  have "span 0 x \<inter> span i y = {}" if "i < page_size_count" "y \<in> set ((F(0 := xs)) i)" for i y
  proof -
    have "(0, x) \<noteq> (i, y)" "y \<in> set (F i)" using that x assms(2) by (auto split: if_splits)
    moreover have "x \<in> set (F 0)" "0 < page_size_count" using assms(2) by (auto simp: page_size_count_def)
    ultimately show ?thesis using assms(1) that(1) unfolding pmm_inv_def by blast
  qed
  then show "span 0 x \<inter> free_bytes (F(0 := xs)) = {}" by (auto simp: free_bytes_def)
  show "span 0 x \<subseteq> free_bytes F" "free_bytes (F(0 := xs)) \<subseteq> free_bytes F"
    using assms(2) span_free [of 0 x F] by (auto simp: page_size_count_def intro!: free_bytes_mono split: if_splits)
  show "4096 dvd unat x" by (rule x)
qed

lemma new_table_inv:
  assumes "pmm_inv s F" and "F 0 = x # xs"
  obtains s' where "new_table s = Inr (s', x)" "pmm_inv s' (F(0 := xs))"
    "mem s' = (\<lambda>q. if unat q \<in> span 0 x then pmle_default else mem s q)"
proof -
  note t = span_taken [OF assms]
  from pmm_inv_pop [OF assms(1) _ assms(2)] obtain s1 where s1: "instance_pop 0 s = Inr (s1, x)" "pmm_inv s1 (F(0 := xs))" "mem s1 = mem s"
    by (auto simp: page_size_count_def)
  obtain s2 where s2: "pmm_pop 0 s = Inr (s2, x)" "pmm_inv s2 (F(0 := xs))" "mem s2 = mem s"
    using s1 by (auto simp: pmm_pop_def page_size_count_def)
  let ?m = "\<lambda>q. if unat q \<in> span 0 x then pmle_default else mem s q"
  have "new_table s = Inr (s2\<lparr>mem := ?m\<rparr>, x)" unfolding new_table_def page_of_iff [OF t(4), symmetric] s2(1) bnd.simps prod.case s2(3) ..
  moreover have "pmm_inv (s2\<lparr>mem := ?m\<rparr>) (F(0 := xs))" using t(1) s2 by (intro pmm_inv_mem) auto
  ultimately show thesis using that by simp
qed

section \<open>One entry of a table\<close>

lemma page_aligned_next:
  fixes a b :: nat
  assumes "4096 dvd a" "4096 dvd b" "a < b" "b \<le> a + 4096"
  shows "b = a + 4096"
  using assms by (elim dvdE) auto

lemma entry_virt_end_page:
  assumes v: "4096 dvd unat v" "v < v + 4096" and I: "0 < I" "I \<le> 4"
  shows "entry_virt_end I v (v + 4096) = v + 4096"
proof -
  have end_eq: "unat (v + 4096) = unat v + 4096" using v(2) by (simp add: word_less_nat_alt unat_plus_if' split: if_splits)
  have "4096 dvd unat ((v + entry_size I) AND NOT (entry_size I - 1))"
  proof -
    have "(4096 :: nat) dvd 2 ^ (I * 9 + 3)" using I le_imp_power_dvd [of 12 "I * 9 + 3" "2 :: nat"] by simp
    moreover from this have "4096 dvd unat v - unat v mod 2 ^ (I * 9 + 3)" using dvd_trans by (simp add: minus_mod_eq_div_mult)
    ultimately have "4096 dvd unat v - unat v mod 2 ^ (I * 9 + 3) + 2 ^ (I * 9 + 3)" by (intro dvd_add)
    then show ?thesis using entry_end_unat [of I "I * 9 + 3" v] I by (simp only: split: if_split) simp
  qed
  then have "4096 dvd unat (entry_virt_end I v (v + 4096))" using v end_eq by (simp add: entry_virt_end_def Let_def)
  with page_aligned_next [of "unat v" "unat (entry_virt_end I v (v + 4096))"] entry_virt_end_bounds [OF v(2), of I] v end_eq
  show ?thesis by (simp add: word_less_nat_alt word_le_nat_alt word_unat_eq_iff)
qed

lemma for_entries_page:
  assumes "4096 dvd unat v" "v < v + 4096" "0 < I" "I \<le> 4" and "p = entry_addr table index" "\<not> bit (mem s p) lock_bit"
  shows "for_entries I body table index v (v + 4096) (s, x) =
    bnd (body p v (v + 4096) (s\<lparr>mem := (mem s)(p := set_bit lock_bit (mem s p))\<rparr>, x)) (\<lambda>(s, x). Inr (bit_lock_release p s, x))"
  using assms by (subst for_entries.simps) (simp add: entry_virt_end_page bit_lock_acquire_def for_entries.simps [of _ _ _ _ "v + 4096"] split_def Let_def)

lemma aligned_end:
  assumes "4096 dvd unat (x :: addr)"
  shows "unat x + 4096 \<le> 2 ^ 64"
proof -
  have "unat x < 2 ^ 64" using unsigned_less [of x, where ?'a = nat] by simp
  with assms show ?thesis by (elim dvdE) simp
qed

lemma page_end: "4096 dvd unat (x :: addr) \<Longrightarrow> (x + 4095) AND NOT 4095 = x"
  using page_of_iff [of x "x + 4095"] aligned_end [of x] by (simp add: span_def psize_def unat_word_ariths)

lemma entry_in_table:
  assumes "4096 dvd unat x"
  shows "unat (entry_addr x (table_index I v)) \<in> span 0 x"
proof -
  have "table_index I v = drop_bit (I * 9 + 3) v mod 512" using word_and_mask_eq_mod [of "drop_bit (I * 9 + 3) v" 9] by (simp add: table_index_def)
  then have i: "unat (table_index I v) < 512" by (simp add: unat_mod)
  then have "unat (8 * table_index I v) = 8 * unat (table_index I v)" by (simp add: unat_word_ariths)
  moreover note aligned_end [OF assms]
  ultimately have "unat (x + 8 * table_index I v) = unat x + 8 * unat (table_index I v)"
    using i by (simp add: unat_word_ariths)
  with i show ?thesis by (simp add: entry_addr_def span_def psize_def)
qed

section \<open>Mapping one page\<close>

text \<open>What the walk relies on, and what a step of it changes outside the free frames.\<close>

definition walk_ok :: "frame_lists \<Rightarrow> nat \<Rightarrow> addr \<Rightarrow> u64 \<Rightarrow> pmm \<Rightarrow> bool" where
  "walk_ok F n t v s \<longleftrightarrow> unmapped n t v s \<and> distinct (walk n t v s) \<and>
     (\<forall>q \<in> set (walk n t v s). \<not> bit (mem s q) lock_bit \<and> unat q \<notin> free_bytes F)"

definition extends :: "frame_lists \<Rightarrow> addr set \<Rightarrow> pmm \<Rightarrow> pmm \<Rightarrow> bool" where
  "extends F P s s' \<longleftrightarrow> (\<forall>q. unat q \<notin> free_bytes F \<longrightarrow>
     (if q \<in> P then bit (mem s q) present_bit \<longrightarrow> same_target (mem s q) (mem s' q) else mem s' q = mem s q))"

text \<open>The part of \<open>map_table\<close> before the recursion, on the locked entry \<open>p\<close>.\<close>

definition enter_table :: "u64 \<Rightarrow> addr \<Rightarrow> pmm \<Rightarrow> pmm result" where
  "enter_table flags p s =
     bnd (if \<not> bit (mem s p) present_bit
          then bnd (new_table s) (\<lambda>(s, table). Inr (update_entry p (assign_table table) s))
          else Inr s) (\<lambda>s.
       Inr (update_entry p (\<lambda>w. set_user (bit w user_bit \<or> flags_and flags flags_user) w) s))"

lemma map_table_enter:
  "map_table below I flags p v e (s, phys) =
     bnd (enter_table flags p s) (\<lambda>s. bnd (below (get_phys (mem s p)) v e phys s) (\<lambda>s. Inr (s, next_phys I phys)))"
  by (simp add: map_table_def enter_table_def bnd_assoc Let_def)

definition entered :: "frame_lists \<Rightarrow> frame_lists \<Rightarrow> nat \<Rightarrow> addr \<Rightarrow> u64 \<Rightarrow> addr list \<Rightarrow> addr \<Rightarrow> pmm \<Rightarrow> pmm \<Rightarrow> bool" where
  "entered F F2 n t2 v path p s s2 \<longleftrightarrow>
     pmm_inv s2 F2 \<and> free_bytes F2 \<subseteq> free_bytes F \<and>
     bit (mem s2 p) present_bit \<and> \<not> bit (mem s2 p) size_bit \<and> get_phys (mem s2 p) = t2 \<and>
     (bit (mem s p) present_bit \<longrightarrow> same_target (mem s p) (mem s2 p)) \<and>
     (\<forall>q. q \<noteq> p \<longrightarrow> unat q \<notin> free_bytes F \<longrightarrow> mem s2 q = mem s q) \<and>
     walk_ok F2 n t2 v s2 \<and> p \<notin> set (walk n t2 v s2) \<and>
     (\<forall>q \<in> set (walk n t2 v s2). unat q \<notin> free_bytes F \<longrightarrow> q \<in> set path)"

lemma enter_present:
  assumes inv: "pmm_inv s F" and ok: "walk_ok F (Suc n) t v s" and p: "p = entry_addr t (table_index (Suc n) v)"
    and pres: "bit (mem s p) present_bit"
  obtains s2 where "enter_table flags p (s\<lparr>mem := (mem s)(p := set_bit lock_bit (mem s p))\<rparr>) = Inr s2"
    "entered F F n (get_phys (mem s p)) v (walk (Suc n) t v s) p s s2"
proof -
  let ?t2 = "get_phys (mem s p)"
  define w where "w = set_user (bit (set_bit lock_bit (mem s p)) user_bit \<or> flags_and flags flags_user) (set_bit lock_bit (mem s p))"
  let ?s2 = "s\<lparr>mem := (mem s)(p := w)\<rparr>"
  have e: "enter_table flags p (s\<lparr>mem := (mem s)(p := set_bit lock_bit (mem s p))\<rparr>) = Inr ?s2"
    using pres by (simp add: enter_table_def update_entry_def w_def)
  have w: "same_target (mem s p) w" by (simp add: same_target_def w_def)
  have walk: "walk (Suc n) t v s = p # walk n ?t2 v s" using pres p by (simp add: Let_def)
  have ok': "unmapped n ?t2 v s" "distinct (p # walk n ?t2 v s)" "unat p \<notin> free_bytes F" "\<not> bit (mem s p) size_bit"
      "\<forall>q \<in> set (walk n ?t2 v s). \<not> bit (mem s q) lock_bit \<and> unat q \<notin> free_bytes F"
    using ok pres p unfolding walk_ok_def by (simp_all add: Let_def)
  have same: "same_target (mem s q) (mem ?s2 q)" for q using w by (simp add: same_target_def)
  note cong = walk_cong [of n ?t2 v s ?s2, OF same] unmapped_cong [of n ?t2 v s ?s2, OF same]
  have "pmm_inv ?s2 F" using inv ok'(3) by (intro pmm_inv_mem) auto
  moreover have "bit w present_bit" "\<not> bit w size_bit" "get_phys w = ?t2" using w pres ok'(4) by (auto simp: same_target_def)
  ultimately have "entered F F n ?t2 v (walk (Suc n) t v s) p s ?s2"
    using ok' w unfolding entered_def walk_ok_def cong walk by auto
  with e show thesis by (rule that)
qed

lemma enter_missing:
  assumes inv: "pmm_inv s F" and ok: "walk_ok F (Suc (Suc n)) t v s" and p: "p = entry_addr t (table_index (Suc (Suc n)) v)"
    and miss: "\<not> bit (mem s p) present_bit" and F: "F 0 = x # xs" "get_phys x = x"
  obtains s2 where "enter_table flags p (s\<lparr>mem := (mem s)(p := set_bit lock_bit (mem s p))\<rparr>) = Inr s2"
    "entered F (F(0 := xs)) (Suc n) x v (walk (Suc (Suc n)) t v s) p s s2"
proof -
  let ?s1 = "s\<lparr>mem := (mem s)(p := set_bit lock_bit (mem s p))\<rparr>"
  have pf: "unat p \<notin> free_bytes F" "\<not> bit (mem s p) size_bit" using ok p unfolding walk_ok_def by (simp_all add: Let_def)
  have inv1: "pmm_inv ?s1 F" using inv pf(1) by (intro pmm_inv_mem) auto
  note tk = span_taken [OF inv F(1)]
  from new_table_inv [OF inv1 F(1)] obtain s' where s': "new_table ?s1 = Inr (s', x)" "pmm_inv s' (F(0 := xs))"
    "mem s' = (\<lambda>q. if unat q \<in> span 0 x then pmle_default else mem ?s1 q)" .
  define w where "w = (let w = assign_table x (set_bit lock_bit (mem s p))
    in set_user (bit w user_bit \<or> flags_and flags flags_user) w)"
  let ?s2 = "s'\<lparr>mem := (mem s')(p := w)\<rparr>"
  have psp: "unat p \<notin> span 0 x" using pf(1) tk(2) by blast
  have e: "enter_table flags p ?s1 = Inr ?s2"
    using miss s'(1,3) psp by (simp add: enter_table_def update_entry_def w_def Let_def)
  have w: "bit w present_bit" "\<not> bit w size_bit" "get_phys w = x"
    using pf(2) F(2) by (simp_all add: w_def Let_def assign_table_def get_phys_set_address)
  let ?q = "entry_addr x (table_index (Suc n) v)"
  have q: "unat ?q \<in> span 0 x" by (rule entry_in_table [OF tk(4)])
  then have mq: "mem ?s2 ?q = pmle_default" using psp s'(3) by auto
  then have walk: "walk (Suc n) x v ?s2 = [?q]" "unmapped (Suc n) x v ?s2" by simp_all
  have "walk_ok (F(0 := xs)) (Suc n) x v ?s2" unfolding walk_ok_def walk using mq q tk(1) walk(2) by auto
  moreover have "pmm_inv ?s2 (F(0 := xs))" using s'(2) pf tk(3) by (intro pmm_inv_mem) auto
  moreover have "mem ?s2 q = mem s q" if "q \<noteq> p" "unat q \<notin> free_bytes F" for q using that s'(3) tk(2) by auto
  ultimately have "entered F (F(0 := xs)) (Suc n) x v (walk (Suc (Suc n)) t v s) p s ?s2"
    unfolding entered_def walk using w tk(2,3) miss psp q by auto
  with e show thesis by (rule that)
qed

text \<open>Leaving the entry: the lock is released.\<close>

lemma release_same: "same_target (mem s q) (mem (bit_lock_release p s) q)"
  by (simp add: bit_lock_release_def same_target_def)

lemma translation_release:
  "vm_virt_to_phys n t v s = Inr r \<Longrightarrow> vm_virt_to_phys n t v (bit_lock_release p s) = Inr r"
  by (erule translation_kept) (rule release_same)

lemma pmm_inv_release: "pmm_inv s F \<Longrightarrow> unat p \<notin> free_bytes F \<Longrightarrow> pmm_inv (bit_lock_release p s) F"
  unfolding bit_lock_release_def by (rule pmm_inv_mem) auto

lemma extends_through:
  assumes en: "entered F F2 n t2 v path p s s2" and p: "p \<in> set path"
    and ex: "extends F2 (set (walk n t2 v s2)) s2 s3" and pf: "unat p \<notin> free_bytes F"
  shows "extends F (set path) s (bit_lock_release p s3)"
  unfolding extends_def
proof (intro allI impI)
  fix q :: addr assume q: "unat q \<notin> free_bytes F"
  let ?s4 = "bit_lock_release p s3"
  have q2: "unat q \<notin> free_bytes F2" using q en by (auto simp: entered_def)
  have s4: "mem ?s4 q = (if q = p then unset_bit lock_bit (mem s3 p) else mem s3 q)" by (simp add: bit_lock_release_def)
  show "if q \<in> set path then bit (mem s q) present_bit \<longrightarrow> same_target (mem s q) (mem ?s4 q) else mem ?s4 q = mem s q"
  proof (cases "q = p")
    case True
    then have "mem s3 q = mem s2 q" using ex q2 en by (auto simp: extends_def entered_def)
    then show ?thesis using True p en s4 by (auto simp: entered_def same_target_def)
  next
    case False
    then have s2: "mem s2 q = mem s q" using en q by (auto simp: entered_def)
    show ?thesis
    proof (cases "q \<in> set (walk n t2 v s2)")
      case True
      then have "q \<in> set path" using en q by (auto simp: entered_def)
      then show ?thesis using ex q2 True False s2 s4 by (auto simp: extends_def)
    next
      case out: False
      then have "mem s3 q = mem s2 q" using ex q2 by (auto simp: extends_def)
      then show ?thesis using s2 s4 False by (simp add: same_target_def)
    qed
  qed
qed

lemma map_page_level:
  assumes inv: "pmm_inv s F" and ok: "walk_ok F 1 t v s" and v: "4096 dvd unat v" "v < v + 4096" and phys: "get_phys phys = phys"
  shows "\<exists>s'. vm_map 1 1 flags t v (v + 4096) phys s = Inr s' \<and> pmm_inv s' F \<and>
     extends F (set (walk 1 t v s)) s s' \<and> vm_virt_to_phys 1 t v s' = Inr phys"
proof -
  let ?p = "entry_addr t (table_index 1 v)"
  let ?s1 = "s\<lparr>mem := (mem s)(?p := set_bit lock_bit (mem s ?p))\<rparr>"
  have p: "\<not> bit (mem s ?p) lock_bit" "unat ?p \<notin> free_bytes F" "\<not> bit (mem s ?p) present_bit" "walk 1 t v s = [?p]"
    using ok unfolding walk_ok_def by (auto simp: Let_def split: if_splits)
  define w where "w = set_user (flags_and flags flags_user) (set_address phys (set_bit present_bit (set_bit lock_bit (mem s ?p))))"
  let ?s' = "s\<lparr>mem := (mem s)(?p := unset_bit lock_bit w)\<rparr>"
  have w: "bit w present_bit" "get_phys w = phys" using phys by (simp_all add: w_def get_phys_set_address)
  have "map_page 1 flags ?p v (v + 4096) (?s1, phys) = Inr (s\<lparr>mem := (mem s)(?p := w)\<rparr>, next_phys 1 phys)"
    using p(3) by (simp add: map_page_def update_entry_def assign_page_def Let_def w_def)
  then have "vm_map 1 1 flags t v (v + 4096) phys s = Inr ?s'"
    using for_entries_page [OF v, of 1 ?p t "table_index 1 v" s "map_page 1 flags" phys] p(1) by (simp add: bit_lock_release_def)
  moreover have "pmm_inv ?s' F" using inv p(2) by (intro pmm_inv_mem) auto
  moreover have "extends F (set (walk 1 t v s)) s ?s'" using p(3) unfolding p(4) by (auto simp: extends_def)
  moreover have "vm_virt_to_phys 1 t v ?s' = Inr phys" using w by (simp add: Let_def)
  ultimately show ?thesis by (intro exI [of _ ?s']) simp
qed

lemma map_level:
  assumes "pmm_inv s F" and "walk_ok F (Suc n) t v s" and "4096 dvd unat v" "v < v + 4096" and "get_phys phys = phys"
    and "n \<le> length (F 0)" and "\<forall>x \<in> set (F 0). get_phys x = x" and "n < 4"
  shows "\<exists>s' k. vm_map 1 (Suc n) flags t v (v + 4096) phys s = Inr s' \<and> k \<le> n \<and> pmm_inv s' (F(0 := drop k (F 0))) \<and>
     extends F (set (walk (Suc n) t v s)) s s' \<and> vm_virt_to_phys (Suc n) t v s' = Inr phys"
  using assms
proof (induction n arbitrary: s F t)
  case 0
  from map_page_level [OF "0.prems"(1) _ "0.prems"(3-5), of t flags] "0.prems"(2) obtain s' where
    "vm_map 1 1 flags t v (v + 4096) phys s = Inr s'" "pmm_inv s' F" "extends F (set (walk 1 t v s)) s s'" "vm_virt_to_phys 1 t v s' = Inr phys"
    by auto
  then show ?case by (intro exI [of _ s'] exI [of _ 0]) (simp add: fun_upd_idem)
next
  case (Suc n)
  let ?I = "Suc (Suc n)" let ?p = "entry_addr t (table_index (Suc (Suc n)) v)"
  let ?s1 = "s\<lparr>mem := (mem s)(?p := set_bit lock_bit (mem s ?p))\<rparr>"
  have p: "\<not> bit (mem s ?p) lock_bit" "unat ?p \<notin> free_bytes F" "?p \<in> set (walk ?I t v s)"
    using Suc.prems(2) unfolding walk_ok_def by (simp_all add: Let_def)
  obtain s2 t2 k where s2: "enter_table flags ?p ?s1 = Inr s2" "entered F (F(0 := drop k (F 0))) (Suc n) t2 v (walk ?I t v s) ?p s s2" "k \<le> 1"
  proof (cases "bit (mem s ?p) present_bit")
    case True
    from enter_present [OF Suc.prems(1,2) refl True, of flags] that [of _ 0] show thesis by (metis drop0 fun_upd_triv zero_le)
  next
    case False
    obtain x xs where F: "F 0 = x # xs" using Suc.prems(6) by (cases "F 0") auto
    with Suc.prems(7) have "get_phys x = x" by simp
    from enter_missing [OF Suc.prems(1,2) refl False F this, of flags] that [of _ 1] F show thesis by (metis One_nat_def drop0 drop_Suc_Cons order_refl)
  qed
  let ?F2 = "F(0 := drop k (F 0))"
  have e: "pmm_inv s2 ?F2" "walk_ok ?F2 (Suc n) t2 v s2" "get_phys (mem s2 ?p) = t2" "bit (mem s2 ?p) present_bit" "\<not> bit (mem s2 ?p) size_bit"
      "?p \<notin> set (walk (Suc n) t2 v s2)" "free_bytes ?F2 \<subseteq> free_bytes F"
    using s2(2) by (simp_all add: entered_def)
  have "\<exists>s' k'. vm_map 1 (Suc n) flags t2 v (v + 4096) phys s2 = Inr s' \<and> k' \<le> n \<and> pmm_inv s' (?F2(0 := drop k' (?F2 0))) \<and>
     extends ?F2 (set (walk (Suc n) t2 v s2)) s2 s' \<and> vm_virt_to_phys (Suc n) t2 v s' = Inr phys"
    by (rule Suc.IH [OF e(1,2) Suc.prems(3-5)]) (use Suc.prems(6-8) s2(3) in \<open>auto dest: in_set_dropD\<close>)
  then obtain s3 k' where r: "vm_map 1 (Suc n) flags t2 v (v + 4096) phys s2 = Inr s3" "k' \<le> n" "pmm_inv s3 (F(0 := drop (k' + k) (F 0)))"
     "extends ?F2 (set (walk (Suc n) t2 v s2)) s2 s3" "vm_virt_to_phys (Suc n) t2 v s3 = Inr phys" by auto
  let ?s' = "bit_lock_release ?p s3"
  have "vm_map 1 ?I flags t v (v + 4096) phys s = Inr ?s'"
    using for_entries_page [OF Suc.prems(3,4), of ?I ?p t "table_index ?I v" s "map_table (vm_map 1 (Suc n) flags) ?I flags" phys] p(1) Suc.prems(8) s2(1) e(3) r(1)
    by (simp add: map_table_enter)
  moreover have "pmm_inv ?s' (F(0 := drop (k' + k) (F 0)))"
    using p(2) r(3) free_bytes_drop [of F "k' + k"] by (intro pmm_inv_release) auto
  moreover have "extends F (set (walk ?I t v s)) s ?s'" by (rule extends_through [OF s2(2) p(3) r(4) p(2)])
  moreover have "mem s3 ?p = mem s2 ?p" using r(4) e(6,7) p(2) by (auto simp: extends_def)
  then have m: "mem ?s' ?p = unset_bit lock_bit (mem s2 ?p)" by (simp add: bit_lock_release_def)
  have "vm_virt_to_phys ?I t v ?s' = Inr phys"
    by (subst vm_virt_to_phys.simps(2)) (use m e(3-5) translation_release [OF r(5)] in \<open>simp add: Let_def del: vm_virt_to_phys.simps\<close>)
  moreover have "k' + k \<le> Suc n" using r(2) s2(3) by simp
  ultimately show ?case by blast
qed

text \<open>
  C6. A page is mapped where it was not: \<open>map_physical\<close> returns, \<open>virt_to_phys\<close> then gives the frame, every
  address that had a translation before keeps it, and the memory manager has given up at most three frames,
  for the tables that were missing. What the code relies on: the entries on the way to the page are
  distinct, not locked and not in free memory, and there is no large page there (\<open>walk_ok\<close>); frames
  are aligned and below \<open>2 ^ 52\<close>, the range of the address field of an entry.
\<close>

theorem map_then_translate:
  assumes "pmm_inv s F" and "3 \<le> length (F 0)" and "\<forall>x \<in> set (F 0). get_phys x = x" and "walk_ok F 4 cr3 v s"
    and "4096 dvd unat v" and "v < v + 4096" and "get_phys phys = phys"
  shows "\<exists>s' k. map_physical env (Some cr3) v (v + 4096) phys flags s = Inr s' \<and>
     virt_to_phys env (Some cr3) v s' = Inr phys \<and>
     (\<forall>v' r. virt_to_phys env (Some cr3) v' s = Inr r \<longrightarrow> (\<forall>q \<in> set (walk 4 cr3 v' s). unat q \<notin> free_bytes F) \<longrightarrow>
        virt_to_phys env (Some cr3) v' s' = Inr r) \<and>
     k \<le> 3 \<and> pmm_inv s' (F(0 := drop k (F 0)))"
proof -
  have four: "Suc 3 = 4" by simp
  from map_level [of s F 3 cr3 v phys flags, unfolded four] assms obtain s' k where
    s': "vm_map 1 4 flags cr3 v (v + 4096) phys s = Inr s'" "k \<le> 3" "pmm_inv s' (F(0 := drop k (F 0)))"
      "extends F (set (walk 4 cr3 v s)) s s'" "vm_virt_to_phys 4 cr3 v s' = Inr phys" by auto
  have aligned: "a AND page_mask = a" if "4096 dvd unat a" for a
    using page_of_iff [OF that, of a] self_in_span [of a 0] by (simp add: page_mask_def page_size_def)
  have "unat (v + 4096) = unat v + 4096" using assms(6) by (simp add: word_less_nat_alt unat_plus_if' split: if_splits)
  then have "4096 dvd unat (v + 4096)" using assms(5) by simp
  from page_end [OF this] have "(8191 + v) AND page_mask = v + 4096" by (simp add: page_mask_def page_size_def add.commute)
  moreover have "phys AND page_mask = phys"
  proof -
    have "page_mask = NOT (mask 12)" by (simp add: page_mask_def page_size_def mask_eq_exp_minus_1)
    then show ?thesis using assms(7) bit_get_phys [of phys] by (auto simp: bit_eq_iff bit_simps)
  qed
  ultimately have "map_physical env (Some cr3) v (v + 4096) phys flags s = Inr s'"
    using s'(1) aligned [OF assms(5)] by (simp add: map_physical_def asid_of_def Let_def page_size_def)
  moreover have "vm_virt_to_phys 4 cr3 v' s' = Inr r" if "vm_virt_to_phys 4 cr3 v' s = Inr r"
      and "\<forall>q \<in> set (walk 4 cr3 v' s). unat q \<notin> free_bytes F" for v' r
    using that(1) s'(4) that(2) by (elim translation_kept) (auto simp: extends_def same_target_def split: if_splits)
  ultimately show ?thesis using s'(2,3,5) by (auto simp: virt_to_phys_def asid_of_def)
qed

text \<open>An empty address space with its root table at \<open>0x10000\<close>, and three free frames.\<close>

definition three_frames :: pmm where
  "three_frames = (pmm_init ((\<lambda>_. 0)(0x6000 := 0x5000, 0x5000 := 0x4000)))
     \<lparr>infos := (\<lambda>_. stack_info_init)(0 := \<lparr>stack_lock = False, stack = 0x6000, num_frames = 3\<rparr>)\<rparr>"

abbreviation three_frames_free :: frame_lists where
  "three_frames_free \<equiv> (\<lambda>_. [])(0 := [0x6000, 0x5000, 0x4000])"

lemma three_frames_inv: "pmm_inv three_frames three_frames_free"
  unfolding pmm_inv_def stack_ok_def
  by (auto simp: three_frames_def pmm_init_def stack_info_init_def span_def psize_def split: if_splits)

theorem map_then_translate_witness:
  "\<forall>env. \<exists>s' k. map_physical env (Some 0x10000) 0x400000 0x401000 0x7000 flags_user three_frames = Inr s' \<and>
     virt_to_phys env (Some 0x10000) 0x400000 s' = Inr 0x7000 \<and> k \<le> 3 \<and>
     pmm_inv s' (three_frames_free(0 := drop k (three_frames_free 0)))"
proof
  fix env
  have p: "entry_addr 0x10000 (table_index 4 0x400000) = 0x10000" "mem three_frames 0x10000 = 0"
    by (simp_all add: entry_addr_def table_index_def three_frames_def pmm_init_def)
  have "walk 4 0x10000 0x400000 three_frames = [0x10000]" "unmapped 4 0x10000 0x400000 three_frames"
    using p walk.simps(2) [of 3 "0x10000" "0x400000" three_frames] unmapped.simps(2) [of 3 "0x10000" "0x400000" three_frames]
    by (simp_all add: Let_def)
  then have ok: "walk_ok three_frames_free 4 0x10000 0x400000 three_frames"
    using p by (auto simp: walk_ok_def free_bytes_def span_def psize_def split: if_splits)
  have frames: "3 \<le> length (three_frames_free 0)" "\<forall>x \<in> set (three_frames_free 0). get_phys x = x" "get_phys 0x7000 = 0x7000"
    by (simp_all add: get_phys_def)
  from map_then_translate [OF three_frames_inv frames(1,2) ok _ _ frames(3), of env flags_user]
  show "\<exists>s' k. map_physical env (Some 0x10000) 0x400000 0x401000 0x7000 flags_user three_frames = Inr s' \<and>
     virt_to_phys env (Some 0x10000) 0x400000 s' = Inr 0x7000 \<and> k \<le> 3 \<and>
     pmm_inv s' (three_frames_free(0 := drop k (three_frames_free 0)))"
    by (simp del: fun_upd_apply) blast
qed

section \<open>Unmapping one page\<close>

fun mapped :: "nat \<Rightarrow> addr \<Rightarrow> u64 \<Rightarrow> pmm \<Rightarrow> bool" where
  "mapped 0 table virt s \<longleftrightarrow> True"
| "mapped (Suc n) table virt s \<longleftrightarrow>
     (let w = mem s (entry_addr table (table_index (Suc n) virt))
      in bit w present_bit \<and> (n \<noteq> 0 \<longrightarrow> \<not> bit w size_bit) \<and> mapped n (get_phys w) virt s)"

lemma mapped_cong: "(\<And>q. q \<in> set (walk n t v s) \<Longrightarrow> same_target (mem s q) (mem s' q)) \<Longrightarrow> mapped n t v s' = mapped n t v s"
  by (induction n t v s rule: walk.induct) (auto simp: Let_def same_target_def split: if_splits)

text \<open>A page that is mapped can be unmapped: no entry on the way is missing, and no lock is taken twice.\<close>

lemma unmap_level:
  assumes "mapped (Suc n) t v s" and "distinct (walk (Suc n) t v s)" and "\<forall>q \<in> set (walk (Suc n) t v s). \<not> bit (mem s q) lock_bit"
    and "4096 dvd unat v" "v < v + 4096" and "n < 4"
  shows "\<exists>s' x'. vm_unmap (Suc n) env False t v (v + 4096) (s, x) = Inr (s', x')"
  using assms
proof (induction n arbitrary: s t)
  case 0
  let ?p = "entry_addr t (table_index 1 v)"
  have "\<not> bit (mem s ?p) lock_bit" "bit (mem s ?p) present_bit" using "0.prems"(1,3) by (auto simp: Let_def)
  then show ?case
    using for_entries_page [OF "0.prems"(4,5), of 1 ?p t "table_index 1 v" s "unmap_page env False" x]
    by (simp add: unmap_page_def Let_def)
next
  case (Suc n)
  let ?I = "Suc (Suc n)" let ?p = "entry_addr t (table_index ?I v)" let ?t2 = "get_phys (mem s ?p)"
  let ?s1 = "s\<lparr>mem := (mem s)(?p := set_bit lock_bit (mem s ?p))\<rparr>"
  have p: "\<not> bit (mem s ?p) lock_bit" "bit (mem s ?p) present_bit" "\<not> bit (mem s ?p) size_bit"
    using Suc.prems(1,3) by (simp_all add: Let_def)
  have walk: "walk ?I t v s = ?p # walk (Suc n) ?t2 v s"
    by (subst walk.simps) (use p(2) in \<open>simp add: Let_def del: walk.simps\<close>)
  have below: "mapped (Suc n) ?t2 v s" "distinct (?p # walk (Suc n) ?t2 v s)" "\<forall>q \<in> set (walk (Suc n) ?t2 v s). \<not> bit (mem s q) lock_bit"
    using Suc.prems(2,3) unfolding walk using Suc.prems(1) by (simp_all add: Let_def del: walk.simps)
  have same: "same_target (mem s q) (mem ?s1 q)" for q by (simp add: same_target_def)
  note cong = walk_cong [of "Suc n" ?t2 v s ?s1, OF same] mapped_cong [of "Suc n" ?t2 v s ?s1, OF same]
  have "\<exists>s' x'. vm_unmap (Suc n) env False ?t2 v (v + 4096) (?s1, x) = Inr (s', x')"
  proof (rule Suc.IH [OF _ _ _ Suc.prems(4,5)])
    show "mapped (Suc n) ?t2 v ?s1" unfolding cong by (rule below)
    show "distinct (walk (Suc n) ?t2 v ?s1)" unfolding cong using below(2) by (rule distinct.simps(2) [THEN iffD1, THEN conjunct2])
    show "\<forall>q \<in> set (walk (Suc n) ?t2 v ?s1). \<not> bit (mem ?s1 q) lock_bit" unfolding cong
      using below(2,3) by (auto simp del: walk.simps)
  qed (use Suc.prems(6) in simp)
  then show ?case
    using for_entries_page [OF Suc.prems(4,5), of ?I ?p t "table_index ?I v" s "unmap_table (vm_unmap (Suc n) env False)" x] p Suc.prems(6)
    by (auto simp: unmap_table_def)
qed

end
