(* ===== verification/Vas.thy ===== *)
theory Vas
  imports Vmo Paging_Properties
begin

text \<open>
  Address spaces (\<open>kernel/memory/vas.h\<close>, \<open>vas.cpp\<close>) and the mappings in them (\<open>vmo_mapping.h\<close>): an \<open>avl_tree\<close> of the
  mapped ranges, ordered by a comparison under which ranges that overlap are equivalent, and the page tables
  of \<open>Paging\<close> under it. Ranges are half open. The address of a new mapping is a parameter.

  A mapping has a \<open>shared_mutex\<close>; here its state is the writer and the number of readers, and waiting for it on
  the same core, which holds it, is a deadlock. The counts of the pointers to mappings and objects are the
  subject of \<open>Intrusive_Ptr\<close>.
\<close>

section \<open>Mappings\<close>

record address_range =
  range_start :: u64
  range_end :: u64

record vmo_mapping =
  mapping_range :: address_range
  mapping_object :: addr
  mapping_vas :: addr
  mapping_flags :: u64
  mapping_valid :: bool
  mapping_writer :: bool
  mapping_readers :: nat

definition range_less :: "address_range \<Rightarrow> address_range \<Rightarrow> bool" where
  "range_less lhs rhs \<longleftrightarrow> range_end lhs \<le> range_start rhs"

definition mapping_less :: "vmo_mapping \<Rightarrow> vmo_mapping \<Rightarrow> bool" where
  "mapping_less lhs rhs = range_less (mapping_range lhs) (mapping_range rhs)"

definition has_flags :: "vmo_mapping \<Rightarrow> u64 \<Rightarrow> bool" where
  "has_flags m fl \<longleftrightarrow> mapping_flags m AND fl = fl"

definition is_invalid :: "vmo_mapping \<Rightarrow> bool" where
  "is_invalid m \<longleftrightarrow> \<not> mapping_valid m"

definition mapping_release :: "vmo_mapping \<Rightarrow> vmo_mapping" where
  "mapping_release m = m\<lparr>mapping_valid := False, mapping_object := nullptr, mapping_vas := nullptr,
     mapping_range := \<lparr>range_start = 0, range_end = 0\<rparr>\<rparr>"

section \<open>Address spaces\<close>

record vas =
  vas_asid :: addr
  vas_lock :: bool
  was_claimed_for_process :: bool
  mappings :: "vmo_mapping avl_tree"
  vdso_mapping :: addr

definition no_mapping :: vmo_mapping where
  "no_mapping = \<lparr>mapping_range = \<lparr>range_start = 0, range_end = 0\<rparr>, mapping_object = nullptr, mapping_vas = nullptr,
     mapping_flags = 0, mapping_valid = True, mapping_writer = False, mapping_readers = 0\<rparr>"

definition no_mappings :: "vmo_mapping avl_tree" where
  "no_mappings = \<lparr>valid = (\<lambda>_. False), prev = (\<lambda>_. nullptr), nxt = (\<lambda>_. nullptr), tree_parent = (\<lambda>_. nullptr),
     val = (\<lambda>_. no_mapping), root = nullptr, size = 0\<rparr>"

definition adopt_existing_asid :: "addr \<Rightarrow> vas" where
  "adopt_existing_asid asid = \<lparr>vas_asid = asid, vas_lock = False, was_claimed_for_process = False,
     mappings = no_mappings, vdso_mapping = nullptr\<rparr>"

definition claim_for_process :: "vas \<Rightarrow> (vas \<times> bool) result" where
  "claim_for_process a =
     (if vas_lock a then Inl Deadlock
      else if was_claimed_for_process a then Inr (a, False)
      else Inr (a\<lparr>was_claimed_for_process := True\<rparr>, True))"

definition find_mapping :: "vas \<Rightarrow> address_range \<Rightarrow> addr option" where
  "find_mapping a r = avl_find (\<lambda>k m. range_less k (mapping_range m)) (\<lambda>m k. range_less (mapping_range m) k) (mappings a) r"

text \<open>The loop over the elements of a sparse object.\<close>

partial_function (option) map_elements ::
    "cores \<Rightarrow> addr \<Rightarrow> sparse_element avl_tree \<Rightarrow> u64 \<Rightarrow> u64 \<Rightarrow> u64 \<Rightarrow> addr \<Rightarrow> pmm \<Rightarrow> pmm result option" where
  "map_elements env asid t mapping_base page_sz fl it p =
     (if it = nullptr then Some (Inr p)
      else case read_val t it of
        None \<Rightarrow> Some (Inl Fault)
      | Some element \<Rightarrow>
          (case backing_address element of
             None \<Rightarrow> Some (Inl (Panic ''mapping uncommitted sparse VMOs is not supported yet (TODO after on-demand mapping)''))
           | Some frame \<Rightarrow>
               (case map_physical env (Some asid) (mapping_base + offset element) (mapping_base + offset element + page_sz) frame fl p of
                  Inl err \<Rightarrow> Some (Inl err)
                | Inr p \<Rightarrow>
                    (case iterator_incr t it of
                       None \<Rightarrow> Some (Inl Fault)
                     | Some it \<Rightarrow> map_elements env asid t mapping_base page_sz fl it p))))"

definition map_pages :: "cores \<Rightarrow> addr \<Rightarrow> vmo \<Rightarrow> u64 \<Rightarrow> u64 \<Rightarrow> pmm \<Rightarrow> pmm result option" where
  "map_pages env asid v mapping_base fl p =
     (case vmo_kind v of
        Physical_vmo \<Rightarrow>
          obnd (Some (base_of v)) (\<lambda>b. Some (map_physical env (Some asid) mapping_base (mapping_base + vmo_length v) b fl p))
      | Sparse_vmo \<Rightarrow>
          obnd (Some (sparse_elements v)) (\<lambda>t.
          obnd (Some (deref (avl_begin t))) (\<lambda>it.
          map_elements env asid t mapping_base (page_sizes (page_level v)) fl it p)))"

text \<open>\<open>this\<close> is the address space, \<open>vm_object\<close> the object \<open>v\<close>, \<open>vdso\<close> the object \<open>get_vdso_vmo\<close> returns or null before it is set, \<open>e\<close> the new mapping.\<close>

definition map_vmo ::
    "cores \<Rightarrow> addr \<Rightarrow> addr \<Rightarrow> addr \<Rightarrow> vas \<Rightarrow> addr \<Rightarrow> vmo \<Rightarrow> u64 \<Rightarrow> u64 \<Rightarrow> pmm \<Rightarrow> (vas \<times> pmm \<times> addr) result option" where
  "map_vmo env vdso e this a vm_object v mapping_base fl p =
     (if vas_lock a then Some (Inl Deadlock)
      else
        let page_sz = page_sizes (page_level v);
            alignment_mask = page_sz - 1
        in if mapping_base AND alignment_mask \<noteq> 0
           then Some (Inl (Panic ''tried to map a VMO to an address not aligned to the page alignment''))
           else
             let mapping_end = mapping_base + vmo_length v;
                 r = \<lparr>range_start = mapping_base, range_end = mapping_end\<rparr>
             in obnd (Some (deref (find_mapping a r))) (\<lambda>it.
                if it \<noteq> nullptr then Some (Inl (Panic ''tried to map a VMO at a range which is already occupied by another VMO in this VAS''))
                else
                  let m = \<lparr>mapping_range = r, mapping_object = vm_object, mapping_vas = this, mapping_flags = fl,
                           mapping_valid = True, mapping_writer = False, mapping_readers = 0\<rparr>
                  in obnd (Some (deref (avl_insert mapping_less (new_element (mappings a) e m) e))) (\<lambda>(ms, _).
                     obnd (map_pages env (vas_asid a) v mapping_base fl p) (\<lambda>p.
                     let a = a\<lparr>mappings := ms\<rparr>
                     in if vdso_mapping a = nullptr
                        then if vdso = nullptr then Some (Inl (Panic ''get_vdso_vmo called before set_vdso_vmo''))
                             else Some (Inr (if vm_object = vdso then a\<lparr>vdso_mapping := e\<rparr> else a, p, e))
                        else Some (Inr (a, p, e))))))"

text \<open>\<open>create_vas\<close>; \<open>vdso_len\<close> is the length of the object of the vdso.\<close>

definition generate_vdso_mapping_base :: "u64 \<Rightarrow> u64" where
  "generate_vdso_mapping_base vdso_len = 0x800000000000 - vdso_len * 2"

definition create_vas ::
    "cores \<Rightarrow> addr \<Rightarrow> vmo \<Rightarrow> addr \<Rightarrow> addr \<Rightarrow> bool \<Rightarrow> pmm \<Rightarrow> (vas \<times> pmm) result option" where
  "create_vas env vdso vdso_v e this randomly_map_vdso p =
     obnd (Some (clone_upper_half env p)) (\<lambda>(p, asid).
     let ret = adopt_existing_asid asid
     in if randomly_map_vdso
        then if vdso = nullptr then Some (Inl (Panic ''get_vdso_vmo called before set_vdso_vmo''))
          else obnd (map_vmo env vdso e this ret vdso vdso_v (generate_vdso_mapping_base (vmo_length vdso_v)) flags_user p) (\<lambda>(ret, p, _).
             Some (Inr (ret, p)))
        else Some (Inr (ret, p)))"

definition get_vdso_base :: "vas \<Rightarrow> u64 option result" where
  "get_vdso_base a =
     (if vdso_mapping a = nullptr then Inr None
      else bnd (deref (read_val (mappings a) (vdso_mapping a))) (\<lambda>m. Inr (Some (range_start (mapping_range m)))))"

definition set_mapping :: "vas \<Rightarrow> addr \<Rightarrow> vmo_mapping \<Rightarrow> vas" where
  "set_mapping a e m = a\<lparr>mappings := (mappings a)\<lparr>val := (val (mappings a))(e := m)\<rparr>\<rparr>"

text \<open>\<open>vas::unmap\<close>: the lock of the mapping is taken and left again, and what the page tables flush is returned.\<close>

definition vas_unmap :: "cores \<Rightarrow> vas \<Rightarrow> addr \<Rightarrow> pmm \<Rightarrow> (vas \<times> pmm \<times> (nat \<times> u64) list) result" where
  "vas_unmap env a mapping p =
     bnd (deref (read_val (mappings a) mapping)) (\<lambda>m.
     if mapping_writer m \<or> mapping_readers m \<noteq> 0 then Inl Deadlock
     else if vas_lock a then Inl Deadlock
     else
       bnd (unmap env (Some (vas_asid a)) (range_start (mapping_range m)) (range_end (mapping_range m)) False p) (\<lambda>(p, flushes).
       Inr (set_mapping a mapping (mapping_release m), p, flushes)))"

text \<open>\<open>lock_address_range\<close>: the mapping that is then locked, or nothing.\<close>

definition lock_address_range :: "vas \<Rightarrow> u64 \<Rightarrow> u64 \<Rightarrow> bool \<Rightarrow> (vas \<times> addr option) result" where
  "lock_address_range a start finish rw =
     (if vas_lock a then Inl Deadlock
      else
        bnd (deref (find_mapping a \<lparr>range_start = start, range_end = finish\<rparr>)) (\<lambda>it.
        if it = nullptr then Inr (a, None)
        else
          bnd (deref (read_val (mappings a) it)) (\<lambda>m.
          if rw \<and> has_flags m flags_read_only then Inr (a, None)
          else if mapping_writer m then Inl Deadlock
          else Inr (set_mapping a it (m\<lparr>mapping_readers := Suc (mapping_readers m)\<rparr>), Some it))))"

definition lock_array_mapping :: "u64 \<Rightarrow> vas \<Rightarrow> u64 \<Rightarrow> u64 \<Rightarrow> bool \<Rightarrow> (vas \<times> addr option) result" where
  "lock_array_mapping element_size a start n rw = lock_address_range a start (start + element_size * n) rw"

section \<open>Ranges\<close>

definition nonempty :: "address_range \<Rightarrow> bool" where
  "nonempty r \<longleftrightarrow> range_start r < range_end r"

definition overlap :: "address_range \<Rightarrow> address_range \<Rightarrow> bool" where
  "overlap r q \<longleftrightarrow> (\<exists>x. range_start r \<le> x \<and> x < range_end r \<and> range_start q \<le> x \<and> x < range_end q)"

lemma not_overlap: "nonempty r \<Longrightarrow> nonempty q \<Longrightarrow> overlap r q \<longleftrightarrow> \<not> range_less r q \<and> \<not> range_less q r"
proof -
  assume ne: "nonempty r" "nonempty q"
  have "overlap r q \<longleftrightarrow> max (range_start r) (range_start q) < min (range_end r) (range_end q)"
    unfolding overlap_def by (auto intro: exI [of _ "max (range_start r) (range_start q)"])
  with ne show ?thesis by (auto simp: nonempty_def range_less_def not_le)
qed

text \<open>The ranges that an address space maps: those of the tree, not empty and pairwise disjoint.\<close>

definition maps_ranges :: "vas \<Rightarrow> addr list \<Rightarrow> bool" where
  "maps_ranges a xs \<longleftrightarrow> \<not> vas_lock a \<and> represents mapping_less (mappings a) xs \<and>
     (\<forall>x \<in> set xs. nonempty (mapping_range (val (mappings a) x)))"

abbreviation range_of :: "vas \<Rightarrow> addr \<Rightarrow> address_range" where
  "range_of a x \<equiv> mapping_range (val (mappings a) x)"

lemma maps_ranges_disjoint:
  assumes "maps_ranges a xs" and "x \<in> set xs" "y \<in> set xs" "x \<noteq> y"
  shows "\<not> overlap (range_of a x) (range_of a y)"
proof -
  from assms(1) have s: "sorted_wrt (\<lambda>x y. mapping_less (val (mappings a) x) (val (mappings a) y)) xs" by (simp add: maps_ranges_def represents_def)
  from assms(2-4) s have "mapping_less (val (mappings a) x) (val (mappings a) y) \<or> mapping_less (val (mappings a) y) (val (mappings a) x)"
    by (induction xs) auto
  then show ?thesis using assms not_overlap [of "range_of a x" "range_of a y"] by (auto simp: maps_ranges_def mapping_less_def)
qed

lemma find_mapping_overlap:
  assumes a: "maps_ranges a xs" and k: "nonempty k"
  obtains it where "find_mapping a k = Some it" "it \<noteq> nullptr \<and> it \<in> set xs \<and> overlap k (range_of a it) \<or>
    it = nullptr \<and> (\<forall>x \<in> set xs. \<not> overlap k (range_of a x))"
proof -
  let ?kc = "\<lambda>k m. range_less k (mapping_range m)" and ?ck = "\<lambda>m k. range_less (mapping_range m) k"
  have r: "represents mapping_less (mappings a) xs" and ne: "\<forall>x \<in> set xs. nonempty (range_of a x)" using a by (auto simp: maps_ranges_def)
  have cls: "key_cls ?kc ?ck k (mappings a) x = 0 \<longleftrightarrow> overlap k (range_of a x)" if "x \<in> set xs" for x
    using not_overlap [OF k, of "range_of a x"] ne that by (auto simp: key_cls_def cls_def)
  have "sorted (map (key_cls ?kc ?ck k (mappings a)) xs)"
    unfolding sorted_map
  proof (rule sorted_wrt_mono_rel [of xs "\<lambda>x y. mapping_less (val (mappings a) x) (val (mappings a) y)"])
    fix x y assume xy: "x \<in> set xs" "y \<in> set xs" "mapping_less (val (mappings a) x) (val (mappings a) y)"
    with ne k show "key_cls ?kc ?ck k (mappings a) x \<le> key_cls ?kc ?ck k (mappings a) y"
      by (auto simp: key_cls_def cls_def mapping_less_def range_less_def nonempty_def)
  qed (use r in \<open>simp add: represents_def\<close>)
  from find_refines [OF r this] obtain it where "find_mapping a k = Some it"
      "it \<noteq> nullptr \<and> it \<in> set xs \<and> key_cls ?kc ?ck k (mappings a) it = 0 \<or> it = nullptr \<and> (\<forall>x \<in> set xs. key_cls ?kc ?ck k (mappings a) x \<noteq> 0)"
    unfolding find_mapping_def by metis
  with cls that show thesis by metis
qed

section \<open>Mapping\<close>

lemma insert_mapping:
  assumes a: "maps_ranges a xs" and e: "unused (mappings a) e" and m: "nonempty (mapping_range m)"
    and free: "\<forall>x \<in> set xs. \<not> overlap (mapping_range m) (range_of a x)"
  obtains ms ys zs where "avl_insert mapping_less (new_element (mappings a) e m) e = Some (ms, e, True)" "xs = ys @ zs"
    "represents mapping_less ms (ys @ e # zs)" "val ms = (val (mappings a))(e := m)"
proof -
  let ?s = "new_element (mappings a) e m"
  have r: "represents mapping_less (mappings a) xs" and ne: "\<forall>x \<in> set xs. nonempty (range_of a x)" using a by (auto simp: maps_ranges_def)
  note n = represents_new_element(1,2) [OF r e, where v = m] represents_new_element(3) [OF r e]
  have v: "val ?s e = m" "\<And>x. x \<in> set xs \<Longrightarrow> val ?s x = val (mappings a) x" using n(3) by (auto simp: new_element_def)
  have new: "\<forall>x \<in> set xs. mapping_less (val ?s e) (val ?s x) \<or> mapping_less (val ?s x) (val ?s e)"
    using free ne v not_overlap [OF m] by (auto simp: mapping_less_def)
  have "sorted (map (cls (\<lambda>x. mapping_less (val ?s e) (val ?s x)) (\<lambda>x. mapping_less (val ?s x) (val ?s e))) xs)"
    unfolding sorted_map
  proof (rule sorted_wrt_mono_rel [of xs "\<lambda>x y. mapping_less (val (mappings a) x) (val (mappings a) y)"])
    fix x y assume xy: "x \<in> set xs" "y \<in> set xs" "mapping_less (val (mappings a) x) (val (mappings a) y)"
    with ne m show "cls (\<lambda>x. mapping_less (val ?s e) (val ?s x)) (\<lambda>x. mapping_less (val ?s x) (val ?s e)) x
        \<le> cls (\<lambda>x. mapping_less (val ?s e) (val ?s x)) (\<lambda>x. mapping_less (val ?s x) (val ?s e)) y"
      by (auto simp: v cls_def mapping_less_def range_less_def nonempty_def)
  qed (use r in \<open>simp add: represents_def\<close>)
  from insert_new_sorted [OF n(1) this n(2,3) new] obtain ms ys zs where
    "avl_insert mapping_less ?s e = Some (ms, e, True)" "xs = ys @ zs" "represents mapping_less ms (ys @ e # zs)"
    "same_outside (insert e (set xs)) ?s ms" .
  then show thesis using that by (auto simp: same_outside_def new_element_def)
qed

text \<open>
  C7. An address space never maps two ranges that overlap: \<open>map_vmo\<close> of an object at an aligned address panics
  when a mapping overlaps the new range; otherwise, when the pages can be mapped, it returns with
  the new range added and every other one as it was.
\<close>

theorem map_vmo_exclusive:
  assumes "maps_ranges a xs" and "unused (mappings a) e" and "mapping_base AND (page_sizes (page_level v) - 1) = 0"
    and "mapping_base < mapping_base + vmo_length v" and "vdso \<noteq> nullptr"
  shows "if \<exists>x \<in> set xs. overlap \<lparr>range_start = mapping_base, range_end = mapping_base + vmo_length v\<rparr> (range_of a x)
    then map_vmo env vdso e this a obj v mapping_base fl p =
      Some (Inl (Panic ''tried to map a VMO at a range which is already occupied by another VMO in this VAS''))
    else \<forall>p'. map_pages env (vas_asid a) v mapping_base fl p = Some (Inr p') \<longrightarrow>
      (\<exists>a' ys zs. map_vmo env vdso e this a obj v mapping_base fl p = Some (Inr (a', p', e)) \<and> xs = ys @ zs \<and>
         maps_ranges a' (ys @ e # zs) \<and> (\<forall>x \<in> set xs. range_of a' x = range_of a x) \<and>
         range_of a' e = \<lparr>range_start = mapping_base, range_end = mapping_base + vmo_length v\<rparr>)"
proof -
  let ?r = "\<lparr>range_start = mapping_base, range_end = mapping_base + vmo_length v\<rparr>"
  let ?m = "\<lparr>mapping_range = ?r, mapping_object = obj, mapping_vas = this, mapping_flags = fl,
     mapping_valid = True, mapping_writer = False, mapping_readers = 0\<rparr>"
  have ne: "nonempty ?r" using assms(4) by (simp add: nonempty_def)
  from find_mapping_overlap [OF assms(1) ne] obtain it where it: "find_mapping a ?r = Some it"
    "it \<noteq> nullptr \<and> it \<in> set xs \<and> overlap ?r (range_of a it) \<or> it = nullptr \<and> (\<forall>x \<in> set xs. \<not> overlap ?r (range_of a x))" .
  have l: "\<not> vas_lock a" using assms(1) by (simp add: maps_ranges_def)
  show ?thesis
  proof (cases "\<exists>x \<in> set xs. overlap ?r (range_of a x)")
    case True
    with it have "find_mapping a ?r = Some it" "it \<noteq> nullptr" by auto
    with True l assms(3) show ?thesis by (simp add: map_vmo_def Let_def)
  next
    case False
    with it have f: "find_mapping a ?r = Some nullptr" by auto
    from insert_mapping [OF assms(1,2), of ?m] ne False obtain ms ys zs where
      ms: "avl_insert mapping_less (new_element (mappings a) e ?m) e = Some (ms, e, True)" "xs = ys @ zs"
        "represents mapping_less ms (ys @ e # zs)" "val ms = (val (mappings a))(e := ?m)" by auto
    have e: "e \<notin> set xs" using represents_new_element(3) assms(1,2) by (auto simp: maps_ranges_def)
    let ?a = "(if vdso_mapping a = nullptr \<and> obj = vdso then a\<lparr>mappings := ms, vdso_mapping := e\<rparr> else a\<lparr>mappings := ms\<rparr>)"
    have "map_vmo env vdso e this a obj v mapping_base fl p = Some (Inr (?a, p', e))"
      if "map_pages env (vas_asid a) v mapping_base fl p = Some (Inr p')" for p'
      using that l f ms(1) assms(3,5) by (simp add: map_vmo_def Let_def)
    moreover have "maps_ranges ?a (ys @ e # zs)" "\<forall>x \<in> set xs. range_of ?a x = range_of a x" "range_of ?a e = ?r"
      using ms(2-4) assms(1) e ne by (auto simp: maps_ranges_def)
    ultimately show ?thesis unfolding if_not_P [OF False] using ms(2) by blast
  qed
qed

text \<open>An address space with one mapping, of the pages from \<open>0x1000\<close> to \<open>0x3000\<close>.\<close>

definition one_mapping :: vas where
  "one_mapping = (adopt_existing_asid 0x10000)\<lparr>mappings := (new_element no_mappings 16
     (no_mapping\<lparr>mapping_range := \<lparr>range_start = 0x1000, range_end = 0x3000\<rparr>\<rparr>))\<lparr>root := 16, size := 1\<rparr>\<rparr>"

lemma one_mapping_ranges: "maps_ranges one_mapping [16]"
  by (auto simp: maps_ranges_def represents_def holds_def one_mapping_def adopt_existing_asid_def new_element_def no_mappings_def
    good_addr_def aligned8_def nonempty_def intro!: exI [of _ "Node Leaf (16, 0) Leaf"])

theorem map_vmo_exclusive_witness:
  "map_vmo \<lparr>core_cr3 = [0x10000], current_core = 0, scheduler_initialized = False\<rparr> 8 32 64 one_mapping 128
     (create_physical_vmo 0x7000 0x1000 0) 0x2000 flags_user (pmm_init (\<lambda>_. 0)) =
   Some (Inl (Panic ''tried to map a VMO at a range which is already occupied by another VMO in this VAS''))"
proof -
  have "unused (mappings one_mapping) 32" by (simp add: unused_def one_mapping_def adopt_existing_asid_def new_element_def no_mappings_def aligned8_def)
  moreover have "vmo_length (create_physical_vmo 0x7000 0x1000 0) = 0x1000" "page_level (create_physical_vmo 0x7000 0x1000 0) = 0"
    by (simp_all add: create_physical_vmo_def round_length_def)
  moreover have "overlap \<lparr>range_start = 0x2000, range_end = 0x3000\<rparr> (range_of one_mapping 16)"
    by (auto simp: overlap_def one_mapping_def adopt_existing_asid_def new_element_def intro: exI [of _ "0x2000"])
  ultimately show ?thesis
    using map_vmo_exclusive [OF one_mapping_ranges, of 32 "0x2000" "create_physical_vmo 0x7000 0x1000 0" 8
      "\<lparr>core_cr3 = [0x10000], current_core = 0, scheduler_initialized = False\<rparr>" 64 128 flags_user "pmm_init (\<lambda>_. 0)"]
    by simp
qed

section \<open>Locking a range\<close>

text \<open>Taking a reader's lock changes no range.\<close>

lemma maps_ranges_readers:
  "maps_ranges a xs \<Longrightarrow> maps_ranges (set_mapping a x ((val (mappings a) x)\<lparr>mapping_readers := n\<rparr>)) xs"
  unfolding maps_ranges_def set_mapping_def by (auto intro!: represents_val simp: mapping_less_def split: if_splits)

text \<open>
  \<open>lock_address_range\<close> locks a mapping exactly when it overlaps the range: it returns nothing when no mapping
  overlaps the range, or when a read-only one does and the range is to be written, and otherwise it
  locks a mapping that overlaps the range. The range need not lie inside the mapping.
\<close>

lemma lock_address_range_overlaps:
  assumes "maps_ranges a xs" and "start < finish" and "\<forall>x \<in> set xs. \<not> mapping_writer (val (mappings a) x)"
  shows "\<exists>a' r. lock_address_range a start finish rw = Inr (a', r) \<and> maps_ranges a' xs \<and>
    (case r of
       None \<Rightarrow> a' = a \<and> ((\<forall>x \<in> set xs. \<not> overlap \<lparr>range_start = start, range_end = finish\<rparr> (range_of a x)) \<or>
         rw \<and> (\<exists>x \<in> set xs. overlap \<lparr>range_start = start, range_end = finish\<rparr> (range_of a x) \<and> has_flags (val (mappings a) x) flags_read_only))
     | Some x \<Rightarrow> x \<in> set xs \<and> overlap \<lparr>range_start = start, range_end = finish\<rparr> (range_of a x) \<and>
         \<not> (rw \<and> has_flags (val (mappings a) x) flags_read_only) \<and>
         mapping_readers (val (mappings a') x) = Suc (mapping_readers (val (mappings a) x)))"
proof -
  let ?k = "\<lparr>range_start = start, range_end = finish\<rparr>"
  have "nonempty ?k" using assms(2) by (simp add: nonempty_def)
  from find_mapping_overlap [OF assms(1) this] obtain it where it: "find_mapping a ?k = Some it"
    "it \<noteq> nullptr \<and> it \<in> set xs \<and> overlap ?k (range_of a it) \<or> it = nullptr \<and> (\<forall>x \<in> set xs. \<not> overlap ?k (range_of a x))" .
  have l: "\<not> vas_lock a" "represents mapping_less (mappings a) xs" using assms(1) by (simp_all add: maps_ranges_def)
  show ?thesis
  proof (cases "it = nullptr")
    case True
    with it l assms(1) show ?thesis by (auto simp: lock_address_range_def)
  next
    case False
    with it have x: "it \<in> set xs" "overlap ?k (range_of a it)" by auto
    then have v: "read_val (mappings a) it = Some (val (mappings a) it)" using represents_valid [OF l(2)] by (simp add: read_val_def)
    let ?a = "set_mapping a it ((val (mappings a) it)\<lparr>mapping_readers := Suc (mapping_readers (val (mappings a) it))\<rparr>)"
    have ok: "maps_ranges ?a xs" by (rule maps_ranges_readers [OF assms(1)])
    show ?thesis
    proof (cases "rw \<and> has_flags (val (mappings a) it) flags_read_only")
      case True
      then have "lock_address_range a start finish rw = Inr (a, None)" using it(1) False v l(1) by (simp add: lock_address_range_def)
      then show ?thesis using True x assms(1) by auto
    next
      case rw: False
      then have "lock_address_range a start finish rw = Inr (?a, Some it)"
        using it(1) False v l(1) assms(3) x(1) by (auto simp: lock_address_range_def)
      then show ?thesis using rw x ok by (auto simp: set_mapping_def)
    qed
  qed
qed

lemma lock_address_range_overlaps_example:
  "\<exists>a' r. lock_address_range one_mapping 0x2ff8 0x3008 True = Inr (a', r) \<and> maps_ranges a' [16] \<and> r = Some 16"
proof -
  have "overlap \<lparr>range_start = 0x2ff8, range_end = 0x3008\<rparr> (range_of one_mapping 16)"
    by (auto simp: overlap_def one_mapping_def adopt_existing_asid_def new_element_def intro: exI [of _ "0x2ff8"])
  moreover have "\<not> has_flags (val (mappings one_mapping) 16) flags_read_only" "\<not> mapping_writer (val (mappings one_mapping) 16)"
    by (simp_all add: one_mapping_def adopt_existing_asid_def new_element_def no_mapping_def has_flags_def flags_read_only_def)
  ultimately show ?thesis
    using lock_address_range_overlaps [OF one_mapping_ranges, of "0x2ff8" "0x3008" True] by (auto split: option.splits)
qed

section \<open>Unmapping\<close>

lemma descend_left: "(\<forall>x \<in> set (addrs t). lt x) \<Longrightarrow> snd (descend lt gt t c) = Leaf"
  by (induction t arbitrary: c) auto

lemma find_hidden:
  assumes r: "represents mapping_less (mappings a) (ys @ root (mappings a) # zs)" and k: "nonempty k"
    and z: "\<forall>z \<in> set zs. range_less k (range_of a z)"
    and m: "mapping_range m = \<lparr>range_start = 0, range_end = 0\<rparr>"
  shows "find_mapping (set_mapping a (root (mappings a)) m) k = Some nullptr"
proof -
  let ?s = "mappings a" let ?a = "set_mapping a (root ?s) m"
  from represents_root [OF r] obtain t where t: "holds ?s [] t" "addrs t = ys @ root ?s # zs" "root ?s = root_addr t" .
  then obtain l x rt where n: "t = Node l x rt" by (cases t) auto
  have d: "distinct (addrs t)" using represents_distinct [OF r] t(2) by simp
  then have root: "root ?s \<notin> set ys" "root ?s \<notin> set zs" using t(2) by auto
  have "ys @ root ?s # zs = addrs l @ root ?s # addrs rt" using t(2,3) n by simp
  then have rt: "addrs rt = zs" using append_Cons_eq_iff [OF root] by simp
  have h: "holds (mappings ?a) [] t" using t(1) by (simp add: set_mapping_def holds_def)
  let ?lt = "\<lambda>x. range_less k (mapping_range (val (mappings ?a) x))" and ?gt = "\<lambda>x. range_less (mapping_range (val (mappings ?a) x)) k"
  have "\<not> ?lt (fst x)" "?gt (fst x)" using m k n t(3) by (auto simp: set_mapping_def range_less_def nonempty_def)
  moreover have "\<forall>z \<in> set (addrs rt). ?lt z" using z root(2) unfolding rt by (auto simp: set_mapping_def)
  ultimately have "snd (descend ?lt ?gt t []) = Leaf" using n descend_left [of rt ?lt ?gt] by simp
  then show ?thesis
    using find_loop_refines [OF h, of "\<lambda>m. range_less k (mapping_range m)" "\<lambda>m. range_less (mapping_range m) k"] n t(3) h
    by (simp add: find_mapping_def avl_find_def avl_end_def holds_def set_mapping_def)
qed

text \<open>
  C39. Unmapping hides other mappings: \<open>unmap\<close> leaves the mapping in the tree, with an empty range at address
  zero, so after the mapping at the root of the tree has been unmapped, every mapping at a lower
  address is still there, but a buffer in it is no longer found, and a system call given a pointer to it fails.
\<close>

theorem unmap_hides_mappings:
  assumes "maps_ranges a (ys @ root (mappings a) # zs)" and "x \<in> set ys"
    and "vas_unmap env a (root (mappings a)) p = Inr (a', p', flushes)"
  shows "lock_address_range a' (range_start (range_of a x)) (range_end (range_of a x)) rw = Inr (a', None) \<and>
    val (mappings a') x = val (mappings a) x"
proof -
  let ?k = "range_of a x" let ?m = "root (mappings a)"
  have r: "represents mapping_less (mappings a) (ys @ ?m # zs)" "nonempty ?k" "nonempty (range_of a ?m)" "\<not> vas_lock a"
      "\<forall>z \<in> set zs. nonempty (range_of a z)"
    using assms(1,2) by (auto simp: maps_ranges_def)
  have "range_less ?k (range_of a z)" if "z \<in> set zs" for z
    using r(1) assms(2) that by (auto simp: represents_def sorted_wrt_append mapping_less_def)
  moreover have a': "a' = set_mapping a ?m (mapping_release (val (mappings a) ?m))"
    using assms(3) by (auto simp: vas_unmap_def bnd_Inr_iff deref_Inr_iff read_val_def split: if_splits)
  ultimately have f: "find_mapping a' ?k = Some nullptr"
    using find_hidden [OF r(1,2)] by (simp add: mapping_release_def)
  have "x \<noteq> ?m" using represents_distinct [OF r(1)] assms(2) by auto
  then have "\<not> vas_lock a'" "val (mappings a') x = val (mappings a) x" using r(4) a' by (simp_all add: set_mapping_def)
  moreover have "find_mapping a' \<lparr>range_start = range_start ?k, range_end = range_end ?k\<rparr> = Some nullptr" using f by (cases ?k) simp
  ultimately show ?thesis by (simp add: lock_address_range_def)
qed

text \<open>
  An address space with two mappings, of one page each, the second at the root of the tree and
  mapped by the page tables at \<open>0x10000\<close>.
\<close>

definition two_mappings :: vas where
  "two_mappings = (adopt_existing_asid 0x10000)\<lparr>mappings := no_mappings\<lparr>
     valid := (\<lambda>x. x \<in> {16, 32}), prev := (\<lambda>x. if x = 32 then 16 else nullptr),
     tree_parent := (\<lambda>x. if x = 16 then pack_factor 32 0 else pack_factor 0 (- 1)),
     val := (\<lambda>x. no_mapping\<lparr>mapping_range := if x = 32 then \<lparr>range_start = 0x3000, range_end = 0x4000\<rparr>
        else \<lparr>range_start = 0x1000, range_end = 0x2000\<rparr>\<rparr>),
     root := 32, size := 2\<rparr>\<rparr>"

definition one_page :: pmm where
  "one_page = pmm_init ((\<lambda>_. 0)(0x10000 := 0x11001, 0x11000 := 0x12001, 0x12000 := 0x13001, 0x13018 := 0x14001))"

definition alone :: cores where
  "alone = \<lparr>core_cr3 = [0x10000], current_core = 0, scheduler_initialized = False\<rparr>"

lemma two_mappings_ranges: "maps_ranges two_mappings ([16] @ root (mappings two_mappings) # [])"
  by (auto simp: maps_ranges_def represents_def holds_def two_mappings_def adopt_existing_asid_def no_mappings_def mapping_less_def range_less_def
    good_addr_def aligned8_def nonempty_def intro!: exI [of _ "Node (Node Leaf (16, 0) Leaf) (32, - 1) Leaf"])

lemma one_page_unmaps: "\<exists>s' flushes. unmap alone (Some 0x10000) 0x3000 0x4000 False one_page = Inr (s', flushes)"
proof -
  have e: "entry_addr 0x10000 (table_index (Suc (Suc (Suc (Suc 0)))) 0x3000) = 0x10000" "entry_addr 0x11000 (table_index (Suc (Suc (Suc 0))) 0x3000) = 0x11000"
      "entry_addr 0x12000 (table_index (Suc (Suc 0)) 0x3000) = 0x12000" "entry_addr 0x13000 (table_index (Suc 0) 0x3000) = 0x13018"
    by (simp_all add: entry_addr_def table_index_def)
  have w: "mem one_page 0x10000 = 0x11001" "mem one_page 0x11000 = 0x12001" "mem one_page 0x12000 = 0x13001" "mem one_page 0x13018 = 0x14001"
    by (simp_all add: one_page_def pmm_init_def)
  have g: "get_phys 0x11001 = 0x11000" "get_phys 0x12001 = 0x12000" "get_phys 0x13001 = 0x13000" by (simp_all add: get_phys_def)
  note facts = e w g present_bit_def size_bit_def lock_bit_def bit_iff_odd_drop_bit
  have "mapped (Suc (Suc (Suc (Suc 0)))) 0x10000 0x3000 one_page" by (simp add: facts Let_def)
  moreover have walk: "walk (Suc (Suc (Suc (Suc 0)))) 0x10000 0x3000 one_page = [0x10000, 0x11000, 0x12000, 0x13018]"
    by (simp add: facts Let_def)
  then have "distinct (walk (Suc (Suc (Suc (Suc 0)))) 0x10000 0x3000 one_page)"
    "\<forall>q \<in> set (walk (Suc (Suc (Suc (Suc 0)))) 0x10000 0x3000 one_page). \<not> bit (mem one_page q) lock_bit"
    by (simp_all add: facts)
  ultimately have u: "\<exists>s' x'. vm_unmap (Suc (Suc (Suc (Suc 0)))) alone False 0x10000 0x3000 (0x3000 + 4096) (one_page, x) = Inr (s', x')" for x
    by (rule unmap_level) simp_all
  have four: "Suc (Suc (Suc (Suc 0))) = 4" by simp
  have "vm_unmap 4 alone False 0x10000 0x3000 0x4000 (one_page, x) \<noteq> Inl err" for x err using u [of x] unfolding four by auto
  then show ?thesis
    by (cases "vm_unmap 4 alone False 0x10000 0x3000 0x4000 (one_page, \<lparr>tlb_asid = Some 0x10000, tlb_pages = [], flushed = []\<rparr>)")
      (auto simp: unmap_def page_mask_def page_size_def asid_of_def Let_def)
qed

theorem unmap_hides_mappings_witness:
  "\<exists>a' p' flushes. vas_unmap alone two_mappings 32 one_page = Inr (a', p', flushes) \<and>
     lock_address_range a' 0x1000 0x2000 False = Inr (a', None) \<and> val (mappings a') 16 = val (mappings two_mappings) 16"
proof -
  have v: "read_val (mappings two_mappings) 32 = Some (val (mappings two_mappings) 32)"
      "range_of two_mappings 32 = \<lparr>range_start = 0x3000, range_end = 0x4000\<rparr>" "root (mappings two_mappings) = 32"
      "range_of two_mappings 16 = \<lparr>range_start = 0x1000, range_end = 0x2000\<rparr>" "vas_asid two_mappings = 0x10000"
      "\<not> mapping_writer (val (mappings two_mappings) 32)" "mapping_readers (val (mappings two_mappings) 32) = 0" "\<not> vas_lock two_mappings"
    by (simp_all add: two_mappings_def adopt_existing_asid_def no_mappings_def no_mapping_def read_val_def accessible_def)
  obtain a' p' flushes where u: "vas_unmap alone two_mappings 32 one_page = Inr (a', p', flushes)"
    using one_page_unmaps v by (auto simp: vas_unmap_def)
  from unmap_hides_mappings [OF two_mappings_ranges, of 16 alone one_page a' p' flushes False] u v
  show ?thesis by (intro exI [of _ a'] exI [of _ p'] exI [of _ flushes]) simp
qed

end
