(* ===== verification/Context_Switch.thy ===== *)
theory Context_Switch
  imports Kernel_Result
begin

text \<open>
  Switching between threads: the saved registers of a thread (\<open>kernel/arch/amd64/cpu/thread.h\<close>), the frames that the
  entry stubs of \<open>cpu.asm\<close> build on the stack for an interrupt (\<open>irqs.h\<close>,
  \<open>irqs.cpp\<close>) and for a system call
  (\<open>syscalls.h\<close>, \<open>syscalls.cpp\<close>), the handlers,
  which switch frames when the current thread has changed, and the
  continuations of blocked system calls (\<open>kernel/scheduler/thread.h\<close>).

  The fields of the three structures have the prefixes \<open>t_\<close>,
  \<open>i_\<close> and \<open>s_\<close>; \<open>registers\<close> is the register file of the
  processor. The segment selectors after \<open>sysret\<close> are those the value written to the \<open>STAR\<close> register gives.
\<close>

section \<open>Registers and frames\<close>

record registers =
  rax :: u64
  rbx :: u64
  rcx :: u64
  rdx :: u64
  rsi :: u64
  rdi :: u64
  rsp :: u64
  rbp :: u64
  r8 :: u64
  r9 :: u64
  r10 :: u64
  r11 :: u64
  r12 :: u64
  r13 :: u64
  r14 :: u64
  r15 :: u64
  rip :: u64
  cs :: u64
  ss :: u64
  rflags :: u64

record thread_context =
  t_rax :: u64
  t_rbx :: u64
  t_rcx :: u64
  t_rdx :: u64
  t_rsi :: u64
  t_rdi :: u64
  t_rsp :: u64
  t_rbp :: u64
  t_r8 :: u64
  t_r9 :: u64
  t_r10 :: u64
  t_r11 :: u64
  t_r12 :: u64
  t_r13 :: u64
  t_r14 :: u64
  t_r15 :: u64
  t_cs :: u64
  t_ss :: u64
  t_rip :: u64
  t_rflags :: u64
  t_can_sysret :: bool

definition new_context :: thread_context where
  "new_context = \<lparr>t_rax = 0, t_rbx = 0, t_rcx = 0, t_rdx = 0, t_rsi = 0, t_rdi = 0, t_rsp = 0, t_rbp = 0, t_r8 = 0,
     t_r9 = 0, t_r10 = 0, t_r11 = 0, t_r12 = 0, t_r13 = 0, t_r14 = 0, t_r15 = 0,
     t_cs = 0x8, t_ss = 0x10, t_rip = 0, t_rflags = push_bit 9 1, t_can_sysret = False\<rparr>"

definition set_userspace :: "thread_context \<Rightarrow> thread_context" where
  "set_userspace c = c\<lparr>t_cs := 0x1b, t_ss := 0x23\<rparr>"

definition set_instruction_pointer :: "thread_context \<Rightarrow> u64 \<Rightarrow> thread_context" where
  "set_instruction_pointer c address = c\<lparr>t_rip := address\<rparr>"

definition set_stack_pointer :: "thread_context \<Rightarrow> u64 \<Rightarrow> thread_context" where
  "set_stack_pointer c address = c\<lparr>t_rsp := address\<rparr>"

definition set_argument :: "thread_context \<Rightarrow> nat \<Rightarrow> u64 \<Rightarrow> thread_context result" where
  "set_argument c idx v =
     (if idx = 0 then Inr (c\<lparr>t_rdi := v\<rparr>) else if idx = 1 then Inr (c\<lparr>t_rsi := v\<rparr>)
      else if idx = 2 then Inr (c\<lparr>t_rdx := v\<rparr>) else if idx = 3 then Inr (c\<lparr>t_rcx := v\<rparr>)
      else if idx = 4 then Inr (c\<lparr>t_r8 := v\<rparr>)
      else Inl (Panic ''Unsupported thread context argument index''))"

record irq_context =
  i_r15 :: u64
  i_r14 :: u64
  i_r13 :: u64
  i_r12 :: u64
  i_r11 :: u64
  i_r10 :: u64
  i_r9 :: u64
  i_r8 :: u64
  i_rbp :: u64
  i_rdi :: u64
  i_rsi :: u64
  i_rdx :: u64
  i_rcx :: u64
  i_rbx :: u64
  i_rax :: u64
  i_number :: u64
  i_error :: u64
  i_rip :: u64
  i_cs :: u64
  i_rflags :: u64
  i_rsp :: u64
  i_ss :: u64

record sys_context =
  s_r15 :: u64
  s_r14 :: u64
  s_r13 :: u64
  s_r12 :: u64
  s_rflags :: u64
  s_r10 :: u64
  s_r9 :: u64
  s_r8 :: u64
  s_rbp :: u64
  s_rdi :: u64
  s_rsi :: u64
  s_user_rsp :: u64
  s_user_rip :: u64
  s_rbx :: u64
  s_rax :: u64
  s_iret_rip :: u64
  s_iret_cs :: u64
  s_iret_rflags :: u64
  s_iret_rsp :: u64
  s_iret_ss :: u64

definition kernel_half :: "u64 \<Rightarrow> bool" where
  "kernel_half address \<longleftrightarrow> 0x8000000000000000 \<le> address"

section \<open>Saving and loading\<close>

definition irq_save_to :: "irq_context \<Rightarrow> thread_context \<Rightarrow> thread_context" where
  "irq_save_to c t = t\<lparr>t_rax := i_rax c, t_rbx := i_rbx c, t_rcx := i_rcx c, t_rdx := i_rdx c, t_rsi := i_rsi c,
     t_rdi := i_rdi c, t_rsp := i_rsp c, t_rbp := i_rbp c, t_r8 := i_r8 c, t_r9 := i_r9 c, t_r10 := i_r10 c,
     t_r11 := i_r11 c, t_r12 := i_r12 c, t_r13 := i_r13 c, t_r14 := i_r14 c, t_r15 := i_r15 c,
     t_rip := i_rip c, t_rflags := i_rflags c,
     t_cs := (if kernel_half (i_rip c) then 0x8 else 0x1b), t_ss := (if kernel_half (i_rip c) then 0x10 else 0x23),
     t_can_sysret := False\<rparr>"

definition irq_load_from :: "irq_context \<Rightarrow> thread_context \<Rightarrow> irq_context" where
  "irq_load_from c t = c\<lparr>i_rax := t_rax t, i_rbx := t_rbx t, i_rcx := t_rcx t, i_rdx := t_rdx t, i_rsi := t_rsi t,
     i_rdi := t_rdi t, i_rsp := t_rsp t, i_rbp := t_rbp t, i_r8 := t_r8 t, i_r9 := t_r9 t, i_r10 := t_r10 t,
     i_r11 := t_r11 t, i_r12 := t_r12 t, i_r13 := t_r13 t, i_r14 := t_r14 t, i_r15 := t_r15 t,
     i_rip := t_rip t, i_rflags := t_rflags t, i_cs := t_cs t, i_ss := t_ss t\<rparr>"

definition sys_save_to :: "sys_context \<Rightarrow> thread_context \<Rightarrow> thread_context" where
  "sys_save_to c t = t\<lparr>t_r15 := s_r15 c, t_r14 := s_r14 c, t_r13 := s_r13 c, t_r12 := s_r12 c,
     t_rflags := s_rflags c, t_r10 := s_r10 c, t_r9 := s_r9 c, t_r8 := s_r8 c, t_rbp := s_rbp c, t_rdi := s_rdi c,
     t_rsi := s_rsi c, t_rsp := s_user_rsp c, t_rip := s_user_rip c, t_rbx := s_rbx c, t_rax := s_rax c,
     t_cs := (if kernel_half (s_user_rip c) then 0x8 else 0x1b), t_ss := (if kernel_half (s_user_rip c) then 0x10 else 0x23),
     t_can_sysret := \<not> kernel_half (s_user_rip c)\<rparr>"

definition sys_load_from :: "sys_context \<Rightarrow> thread_context \<Rightarrow> sys_context" where
  "sys_load_from c t =
     (let c = c\<lparr>s_r15 := t_r15 t, s_r14 := t_r14 t, s_r13 := t_r13 t, s_r12 := t_r12 t, s_r10 := t_r10 t,
     s_r9 := t_r9 t, s_r8 := t_r8 t, s_rbp := t_rbp t, s_rdi := t_rdi t, s_rsi := t_rsi t, s_rbx := t_rbx t, s_rax := t_rax t,
            s_rflags := (if t_can_sysret t then t_rflags t else t_r11 t),
            s_user_rsp := (if t_can_sysret t then t_rsp t else t_rdx t),
            s_user_rip := (if t_can_sysret t then t_rip t else t_rcx t)\<rparr>
      in if \<not> t_can_sysret t
         then c\<lparr>s_iret_rip := t_rip t, s_iret_cs := t_cs t, s_iret_rflags := t_rflags t, s_iret_rsp := t_rsp t,
         s_iret_ss := t_ss t\<rparr>
         else c)"

definition check_kernel_space :: "sys_context \<Rightarrow> sys_context" where
  "check_kernel_space c =
     (if s_iret_rip c = 0 \<and> kernel_half (s_user_rip c)
      then c\<lparr>s_iret_rip := s_user_rip c, s_iret_cs := 0x8, s_iret_rflags := s_rflags c, s_iret_rsp := s_user_rsp c,
      s_iret_ss := 0x10\<rparr>
      else c)"

section \<open>Entry and exit\<close>

text \<open>The frame an interrupt leaves on the stack, with what the stub pushes,
and the way back through \<open>iretq\<close>.\<close>

definition interrupt_entry :: "registers \<Rightarrow> u64 \<Rightarrow> u64 \<Rightarrow> irq_context" where
  "interrupt_entry r number error = \<lparr>i_r15 = r15 r, i_r14 = r14 r, i_r13 = r13 r, i_r12 = r12 r, i_r11 = r11 r,
     i_r10 = r10 r, i_r9 = r9 r, i_r8 = r8 r, i_rbp = rbp r, i_rdi = rdi r, i_rsi = rsi r, i_rdx = rdx r, i_rcx = rcx r,
     i_rbx = rbx r, i_rax = rax r, i_number = number, i_error = error, i_rip = rip r, i_cs = cs r, i_rflags = rflags r,
     i_rsp = rsp r, i_ss = ss r\<rparr>"

definition interrupt_exit :: "irq_context \<Rightarrow> registers" where
  "interrupt_exit c = \<lparr>rax = i_rax c, rbx = i_rbx c, rcx = i_rcx c, rdx = i_rdx c, rsi = i_rsi c, rdi = i_rdi c,
     rsp = i_rsp c, rbp = i_rbp c, r8 = i_r8 c, r9 = i_r9 c, r10 = i_r10 c, r11 = i_r11 c, r12 = i_r12 c, r13 = i_r13 c,
     r14 = i_r14 c, r15 = i_r15 c, rip = i_rip c, cs = i_cs c, ss = i_ss c, rflags = i_rflags c\<rparr>"

text \<open>
  \<open>syscall\<close> leaves the return address in \<open>rcx\<close> and the flags in \<open>r11\<close>; the stub moves the stack pointer to \<open>rdx\<close>
  and reserves the frame of an \<open>iretq\<close>, which it uses when the address in it is not zero.
\<close>

definition syscall_entry :: "registers \<Rightarrow> sys_context" where
  "syscall_entry r = \<lparr>s_r15 = r15 r, s_r14 = r14 r, s_r13 = r13 r, s_r12 = r12 r, s_rflags = rflags r, s_r10 = r10 r,
     s_r9 = r9 r, s_r8 = r8 r, s_rbp = rbp r, s_rdi = rdi r, s_rsi = rsi r, s_user_rsp = rsp r, s_user_rip = rip r,
     s_rbx = rbx r, s_rax = rax r, s_iret_rip = 0, s_iret_cs = 0x1b, s_iret_rflags = 0, s_iret_rsp = 0, s_iret_ss = 0x23\<rparr>"

definition syscall_exit :: "sys_context \<Rightarrow> registers" where
  "syscall_exit c =
     (if s_iret_rip c \<noteq> 0
      then \<lparr>rax = s_rax c, rbx = s_rbx c, rcx = s_user_rip c, rdx = s_user_rsp c, rsi = s_rsi c, rdi = s_rdi c,
      rsp = s_iret_rsp c, rbp = s_rbp c, r8 = s_r8 c, r9 = s_r9 c, r10 = s_r10 c, r11 = s_rflags c, r12 = s_r12 c,
      r13 = s_r13 c, r14 = s_r14 c, r15 = s_r15 c,
             rip = s_iret_rip c, cs = s_iret_cs c, ss = s_iret_ss c, rflags = s_iret_rflags c\<rparr>
      else \<lparr>rax = s_rax c, rbx = s_rbx c, rcx = s_user_rip c, rdx = s_user_rsp c, rsi = s_rsi c, rdi = s_rdi c,
      rsp = s_user_rsp c, rbp = s_rbp c, r8 = s_r8 c, r9 = s_r9 c, r10 = s_r10 c, r11 = s_rflags c, r12 = s_r12 c,
      r13 = s_r13 c, r14 = s_r14 c, r15 = s_r15 c,
             rip = s_user_rip c, cs = 0x1b, ss = 0x13, rflags = s_rflags c\<rparr>)"

section \<open>Continuations\<close>

text \<open>
  What the handlers use of a core and its threads: the current thread of the core local storage, the saved
  registers of the threads, and the continuation of a blocked system call, with its lock. A continuation is
  generated code; \<open>run\<close>, a parameter, says what it does, which is to return whether it has finished, the
  value of the return register, and the state after it.
\<close>

record 'c machine =
  running :: addr
  contexts :: "addr \<Rightarrow> thread_context"
  continuation :: "addr \<Rightarrow> 'c option"
  continuation_lock :: "addr \<Rightarrow> bool"

definition set_continuation :: "('c, 'w) machine_scheme \<Rightarrow> addr \<Rightarrow> 'c \<Rightarrow> ('c, 'w) machine_scheme result" where
  "set_continuation m t c =
     (if continuation_lock m t then Inl Deadlock
      else if continuation m t \<noteq> None
      then Inl (Panic ''tried to set a continuation for a thread with an active continuation'')
      else Inr (m\<lparr>continuation := (continuation m)(t \<mapsto> c)\<rparr>))"

definition invoke_continuation ::
    "('c \<Rightarrow> u64 \<Rightarrow> ('c, 'w) machine_scheme \<Rightarrow> (bool \<times> u64 \<times> ('c, 'w) machine_scheme) result) \<Rightarrow>
     ('c, 'w) machine_scheme \<Rightarrow> addr \<Rightarrow> u64 \<Rightarrow> (bool \<times> u64 \<times> ('c, 'w) machine_scheme) result" where
  "invoke_continuation run m t return_register =
     (if continuation_lock m t then Inl Deadlock
      else case continuation m t of
        None \<Rightarrow> Inr (True, return_register, m)
      | Some c \<Rightarrow>
          bnd (run c return_register (m\<lparr>continuation_lock := (continuation_lock m)(t := True)\<rparr>)) (\<lambda>(ret, return_register, m).
          Inr (ret, return_register,
            m\<lparr>continuation := (continuation m)(t := None), continuation_lock := (continuation_lock m)(t := False)\<rparr>)))"

section \<open>The handlers\<close>

text \<open>The loop of both handlers: load the frame of the current thread until one has finished its continuation.\<close>

partial_function (option) resume ::
    "('f \<Rightarrow> thread_context \<Rightarrow> 'f) \<Rightarrow> ('f \<Rightarrow> u64) \<Rightarrow> (u64 \<Rightarrow> 'f \<Rightarrow> 'f) \<Rightarrow>
     ('c \<Rightarrow> u64 \<Rightarrow> ('c, 'w) machine_scheme \<Rightarrow> (bool \<times> u64 \<times> ('c, 'w) machine_scheme) result) \<Rightarrow>
     'f \<Rightarrow> addr \<Rightarrow> ('c, 'w) machine_scheme \<Rightarrow> ('f \<times> ('c, 'w) machine_scheme) result option" where
  "resume load get_rax put_rax run ctx new_thread m =
     (let ctx = load ctx (contexts m new_thread)
      in case invoke_continuation run m new_thread (get_rax ctx) of
           Inl e \<Rightarrow> Some (Inl e)
         | Inr (ret, v, m) \<Rightarrow>
             (let ctx = put_rax v ctx
              in if ret then Some (Inr (ctx, m)) else resume load get_rax put_rax run ctx (running m) m))"

definition switch_frames ::
    "('f \<Rightarrow> thread_context \<Rightarrow> thread_context) \<Rightarrow> ('f \<Rightarrow> thread_context \<Rightarrow> 'f) \<Rightarrow> ('f \<Rightarrow> u64) \<Rightarrow> (u64 \<Rightarrow> 'f \<Rightarrow> 'f) \<Rightarrow>
     ('c \<Rightarrow> u64 \<Rightarrow> ('c, 'w) machine_scheme \<Rightarrow> (bool \<times> u64 \<times> ('c, 'w) machine_scheme) result) \<Rightarrow>
     'f \<Rightarrow> addr \<Rightarrow> ('c, 'w) machine_scheme \<Rightarrow> ('f \<times> ('c, 'w) machine_scheme) result option" where
  "switch_frames save load get_rax put_rax run ctx previous_thread m =
     (if running m \<noteq> previous_thread
      then resume load get_rax put_rax run ctx (running m)
        (m\<lparr>contexts := (contexts m)(previous_thread := save ctx (contexts m previous_thread))\<rparr>)
      else Some (Inr (ctx, m)))"

type_synonym ('c, 'w) sys_handler = "sys_context \<Rightarrow> ('c, 'w) machine_scheme \<Rightarrow> (sys_context \<times> ('c, 'w) machine_scheme) result"

text \<open>
  \<open>syscall_table\<close> is generated, with \<open>syscall_count\<close> entries. The array has no bounds check: an index beyond it
  calls through whatever word is there.
\<close>

definition syscall_handler ::
    "('c, 'w) sys_handler list \<Rightarrow>
     ('c \<Rightarrow> u64 \<Rightarrow> ('c, 'w) machine_scheme \<Rightarrow> (bool \<times> u64 \<times> ('c, 'w) machine_scheme) result) \<Rightarrow>
     sys_context \<Rightarrow> ('c, 'w) machine_scheme \<Rightarrow> (sys_context \<times> ('c, 'w) machine_scheme) result option" where
  "syscall_handler syscall_table run ctx m =
     (if unat (s_rax ctx) > length syscall_table then Some (Inl (Panic ''TODO: handle a process invoking an invalid syscall''))
      else if unat (s_rax ctx) = length syscall_table then Some (Inl Fault)
      else
        obnd (Some ((syscall_table ! unat (s_rax ctx)) ctx m)) (\<lambda>(ctx, m').
        obnd (switch_frames sys_save_to sys_load_from s_rax (\<lambda>v. s_rax_update (\<lambda>_. v)) run ctx (running m) m') (\<lambda>(ctx, m).
        Some (Inr (check_kernel_space ctx, m)))))"

text \<open>The table of interrupt handlers; \<open>eois\<close> is what \<open>lapic::eoi\<close> has been called with.\<close>

record ('c, 'w) irq_handler =
  irq_lock :: bool
  irq_valid :: bool
  irq_fptr :: "irq_context \<Rightarrow> 'w \<Rightarrow> u64 \<Rightarrow> 'c \<Rightarrow> (irq_context \<times> 'c) result"
  irq_erased :: 'w
  irq_ctx :: u64

definition interrupt_handler ::
    "(nat \<Rightarrow> (('c, 'w) machine_scheme, 'p) irq_handler) \<Rightarrow>
     ('c \<Rightarrow> u64 \<Rightarrow> ('c, 'w) machine_scheme \<Rightarrow> (bool \<times> u64 \<times> ('c, 'w) machine_scheme) result) \<Rightarrow>
     irq_context \<Rightarrow> ('c, 'w) machine_scheme \<Rightarrow> u64 list \<Rightarrow> (irq_context \<times> ('c, 'w) machine_scheme \<times> u64 list) result option" where
  "interrupt_handler irq_handlers run ctx m eois =
     (let ctx = (if i_ss ctx = 0x13 then ctx\<lparr>i_ss := 0x23\<rparr> else ctx);
          number = i_number ctx;
          handler = irq_handlers (unat number)
      in if irq_lock handler then Some (Inl Deadlock)
         else if \<not> irq_valid handler then Some (Inl (Panic ''Unexpected IRQ''))
         else
           obnd (Some (irq_fptr handler ctx (irq_erased handler) (irq_ctx handler) m)) (\<lambda>(ctx, m').
           obnd (switch_frames irq_save_to irq_load_from i_rax (\<lambda>v. i_rax_update (\<lambda>_. v)) run ctx (running m) m') (\<lambda>(ctx, m).
           Some (Inr (ctx, m, if i_number ctx \<ge> 32 then eois @ [number] else eois)))))"

definition register_erased_handler ::
    "(nat \<Rightarrow> ('c, 'p) irq_handler) \<Rightarrow> nat \<Rightarrow> (irq_context \<Rightarrow> 'p \<Rightarrow> u64 \<Rightarrow> 'c \<Rightarrow> (irq_context \<times> 'c) result) \<Rightarrow> 'p \<Rightarrow> u64 \<Rightarrow>
     (nat \<Rightarrow> ('c, 'p) irq_handler) result" where
  "register_erased_handler irq_handlers irqn fptr erased_fptr ctx =
     (let handler = irq_handlers irqn
      in if irq_lock handler then Inl Deadlock
         else if irq_valid handler then Inl (Panic ''Overriding an already registered IRQ'')
         else Inr (irq_handlers(irqn := handler\<lparr>irq_fptr := fptr, irq_erased := erased_fptr, irq_ctx := ctx, irq_valid := True\<rparr>)))"

section \<open>A switch is transparent\<close>

text \<open>
  The selectors threads run with: those of the kernel in its half of the addresses, and those of user space; \<open>sysret\<close>
  leaves another selector of the user stack than \<open>iretq\<close>, with the same meaning.
\<close>

definition flat_segments :: "registers \<Rightarrow> bool" where
  "flat_segments r \<longleftrightarrow> (if kernel_half (rip r) then cs r = 0x8 \<and> ss r = 0x10 else cs r = 0x1b \<and> (ss r = 0x23 \<or> ss r = 0x13))"

definition iret_ss :: "registers \<Rightarrow> registers" where
  "iret_ss r = r\<lparr>ss := if ss r = 0x13 then 0x23 else ss r\<rparr>"

lemma resume_idle:
  "continuation m t = None \<Longrightarrow> \<not> continuation_lock m t \<Longrightarrow> (\<And>f. put_rax (get_rax f) f = f) \<Longrightarrow>
   resume load get_rax put_rax run ctx t m = Some (Inr (load ctx (contexts m t), m))"
  by (subst resume.simps) (simp add: invoke_continuation_def Let_def)

lemma iret_ss_segments:
  assumes "flat_segments r"
  shows "cs (iret_ss r) = (if kernel_half (rip (iret_ss r)) then 0x8 else 0x1b)"
    and "ss (iret_ss r) = (if kernel_half (rip (iret_ss r)) then 0x10 else 0x23)"
  using assms by (auto simp: flat_segments_def iret_ss_def split: if_splits)

lemma switch_to_saved:
  assumes "cs r = (if kernel_half (rip r) then 0x8 else 0x1b)" "ss r = (if kernel_half (rip r) then 0x10 else 0x23)" and "rip r \<noteq> 0"
    and "contexts m t = irq_save_to (interrupt_entry r number error) old"
    and "continuation m t = None" and "\<not> continuation_lock m t" and "running m = t" and "t \<noteq> p"
  shows "\<exists>c m'. switch_frames irq_save_to irq_load_from i_rax (\<lambda>v. i_rax_update (\<lambda>_. v)) run ic p m = Some (Inr (c, m')) \<and>
      interrupt_exit c = r"
    and "\<exists>c m'. switch_frames sys_save_to sys_load_from s_rax (\<lambda>v. s_rax_update (\<lambda>_. v)) run sc p m = Some (Inr (c, m')) \<and>
      syscall_exit (check_kernel_space c) = r"
  using assms
  by (simp_all add: switch_frames_def resume_idle irq_save_to_def irq_load_from_def interrupt_entry_def
    interrupt_exit_def sys_load_from_def check_kernel_space_def syscall_exit_def Let_def)


definition busy :: registers where
  "busy = \<lparr>rax = 1, rbx = 2, rcx = 3, rdx = 4, rsi = 5, rdi = 6, rsp = 7, rbp = 8, r8 = 9, r9 = 10, r10 = 11, r11 = 12, r12 = 13, r13 = 14, r14 = 15, r15 = 16,
     rip = 0x401000, cs = 0x1b, ss = 0x23, rflags = 0x202\<rparr>"

definition waiting_thread :: "unit machine" where
  "waiting_thread = \<lparr>running = 16, contexts = (\<lambda>_. irq_save_to (interrupt_entry busy 0xf0 0) new_context),
     continuation = (\<lambda>_. None), continuation_lock = (\<lambda>_. False)\<rparr>"

definition yielding :: "nat \<Rightarrow> (unit machine, unit) irq_handler" where
  "yielding _ = \<lparr>irq_lock = False, irq_valid = True, irq_fptr = (\<lambda>f _ _ m. Inr (f, m\<lparr>running := 24\<rparr>)), irq_erased = (), irq_ctx = 0\<rparr>"


text \<open>A thread that gives up the processor in a system call, from user space, comes back with what the call leaves it.\<close>

lemma blocked_thread_comes_back:
  assumes "\<not> kernel_half (s_user_rip c)" and "s_iret_rip d = 0"
  shows "syscall_exit (check_kernel_space (sys_load_from d (sys_save_to c old))) = syscall_exit (c\<lparr>s_iret_rip := 0\<rparr>)"
  using assms by (simp add: sys_load_from_def sys_save_to_def check_kernel_space_def syscall_exit_def Let_def)

section \<open>A system call that blocks twice\<close>

text \<open>
  C38. A system call that has to block a second time is lost. Let the thread \<open>p\<close> make a system call that makes \<open>t\<close>
  current, which has blocked in the frame \<open>c0\<close> with a continuation; let the continuation find that it has to wait again
  and make \<open>u\<close> current. Then \<open>syscall_handler\<close> returns to \<open>u\<close>, and \<open>t\<close> has no continuation any more. When the core
  comes back to \<open>t\<close>, it runs nothing for it, and returns to user space behind the system call, with the frame that the call had
  when it blocked: the return register still has what the program put there.
\<close>

theorem second_block_loses_call:
  assumes "unat (s_rax ctx) < length syscall_table" and "(syscall_table ! unat (s_rax ctx)) ctx m = Inr (ctx', m1)"
    and "running m1 = t" and "t \<noteq> running m" and "continuation m1 t = Some c" and "\<not> continuation_lock m1 t"
    and "contexts m1 t = sys_save_to c0 old" and "\<not> kernel_half (s_user_rip c0)"
    and "run c (s_rax c0) (m1\<lparr>contexts := (contexts m1)(running m := sys_save_to ctx' (contexts m1 (running m))),
      continuation_lock := (continuation_lock m1)(t := True)\<rparr>) = Inr (False, v, m2)"
    and "running m2 = u" and "u \<noteq> t" and "continuation m2 u = None" and "\<not> continuation_lock m2 u" and "contexts m2 t = contexts m1 t"
  shows "\<exists>f m4. syscall_handler syscall_table run ctx m = Some (Inr (f, m4)) \<and> running m4 = u \<and> continuation m4 t = None \<and>
    (\<forall>m5 q sc. running m5 = t \<and> q \<noteq> t \<and> contexts m5 t = contexts m4 t \<and> continuation m5 t = continuation m4 t \<and>
        continuation_lock m5 t = continuation_lock m4 t \<and> s_iret_rip sc = 0 \<longrightarrow>
      (\<exists>f. switch_frames sys_save_to sys_load_from s_rax (\<lambda>v. s_rax_update (\<lambda>_. v)) run sc q m5 =
          Some (Inr (f, m5\<lparr>contexts := (contexts m5)(q := sys_save_to sc (contexts m5 q))\<rparr>)) \<and>
        syscall_exit (check_kernel_space f) = syscall_exit (c0\<lparr>s_iret_rip := 0\<rparr>)))"
proof -
  let ?m3 = "m2\<lparr>continuation := (continuation m2)(t := None), continuation_lock := (continuation_lock m2)(t := False)\<rparr>"
  have rax: "s_rax (sys_load_from ctx' (contexts m1 t)) = s_rax c0"
    using assms(7) by (simp add: sys_load_from_def sys_save_to_def Let_def)
  have "\<exists>f. syscall_handler syscall_table run ctx m = Some (Inr (f, ?m3))"
    using assms rax
    by (simp add: syscall_handler_def switch_frames_def)
      (subst resume.simps, simp add: invoke_continuation_def Let_def resume_idle)
  moreover have "\<exists>f. switch_frames sys_save_to sys_load_from s_rax (\<lambda>v. s_rax_update (\<lambda>_. v)) run sc q m5 =
        Some (Inr (f, m5\<lparr>contexts := (contexts m5)(q := sys_save_to sc (contexts m5 q))\<rparr>)) \<and>
      syscall_exit (check_kernel_space f) = syscall_exit (c0\<lparr>s_iret_rip := 0\<rparr>)"
    if "running m5 = t" "q \<noteq> t" "contexts m5 t = contexts ?m3 t" "continuation m5 t = None" "\<not> continuation_lock m5 t" "s_iret_rip sc = 0" for m5 q sc
    using that assms(7,8,14) blocked_thread_comes_back [OF assms(8), of sc old] by (simp add: switch_frames_def resume_idle)
  ultimately show ?thesis using assms(10) by (elim exE, intro exI conjI) (assumption, simp, simp, use assms(11) in auto)
qed

definition blocked_thread :: "unit machine" where
  "blocked_thread = \<lparr>running = 8, contexts = (\<lambda>_. sys_save_to (syscall_entry busy) new_context),
     continuation = [16 \<mapsto> ()], continuation_lock = (\<lambda>_. False)\<rparr>"

theorem second_block_loses_call_witness:
  "\<exists>f m4. syscall_handler [\<lambda>ctx m. Inr (ctx, m\<lparr>running := 16\<rparr>)] (\<lambda>c v m. Inr (False, v, m\<lparr>running := 8\<rparr>))
       (syscall_entry (busy\<lparr>rax := 0\<rparr>)) blocked_thread = Some (Inr (f, m4)) \<and> running m4 = 8 \<and> continuation m4 16 = None"
proof -
  have "\<not> kernel_half (s_user_rip (syscall_entry busy))" by (simp add: syscall_entry_def busy_def kernel_half_def)
  from second_block_loses_call [OF _ _ _ _ _ _ _ this, of "syscall_entry (busy\<lparr>rax := 0\<rparr>)" "[\<lambda>ctx m. Inr (ctx, m\<lparr>running := 16\<rparr>)]"
      blocked_thread "syscall_entry (busy\<lparr>rax := 0\<rparr>)" "blocked_thread\<lparr>running := 16\<rparr>" 16 "()" new_context "\<lambda>c v m. Inr (False, v, m\<lparr>running := 8\<rparr>)"]
  show ?thesis by (simp add: blocked_thread_def syscall_entry_def) blast
qed

text \<open>The check of the number of a system call lets the first number beyond the table through.\<close>

lemma syscall_check_off_by_one:
  "unat (s_rax ctx) = length syscall_table \<Longrightarrow> syscall_handler syscall_table run ctx m = Some (Inl Fault)"
  by (simp add: syscall_handler_def)

end
