(* ===== verification/Kernel_Calls.thy ===== *)
theory Kernel_Calls
  imports Process Scheduler Fifo Vas Context_Switch
begin

text \<open>
  The handlers of the system calls: processes and threads (\<open>kernel/scheduler/process.cpp\<close>, \<open>create_process\<close> of
  \<open>scheduler.cpp\<close>), mailboxes (\<open>mailbox.h\<close>, \<open>mailbox.cpp\<close>), memory objects (\<open>kernel/memory/vmo.cpp\<close>), address spaces and
  mappings (\<open>vas.cpp\<close>, \<open>vmo_mapping.cpp\<close>). They compose the components: \<open>kernel\<close> is the state of all of them.

  Objects are found by their addresses; the pointers between them are slots of \<open>Intrusive_Ptr\<close>: the local
  variables of a handler, and one pointer member per object (the process of a thread, the address
  space of a process, the handle in a message); the pointers that the tree of an address space holds to its
  mappings are part of the tree (\<open>Vas\<close>). Parameters, in a record: the hardware, the addresses that \<open>operator new\<close>
  returns for the objects other than the elements of memory objects, which come from \<open>Chained_Allocator\<close>, and the values of \<open>rose::syscall::permissions\<close>, which the build generates. \<open>me\<close> is the core the handler
  runs on, with interrupts disabled, as in every system call.
\<close>

section \<open>The kernel\<close>

datatype syscall_result =
  Ok | Invalid_token | Invalid_handle | Wrong_handle_type | Not_allowed | Invalid_pointers | Invalid_arguments | Not_ready

text \<open>The two alternatives of the payload of a message; the pointer of the first is the slot \<open>Member\<close> of the message.\<close>

datatype mailbox_message = Handle_payload | User_payload u64 u64

record mailbox =
  mb_lock :: bool
  message_head :: addr
  message_tail :: addr
  message_size :: u64
  waiting_head :: addr
  waiting_tail :: addr
  waiting_size :: u64

definition create_mailbox :: mailbox where
  "create_mailbox = \<lparr>mb_lock = False, message_head = nullptr, message_tail = nullptr, message_size = 0,
     waiting_head = nullptr, waiting_tail = nullptr, waiting_size = 0\<rparr>"

record kernel =
  objs :: objects
  procs :: "addr \<rightharpoonup> process"
  boxes :: "addr \<rightharpoonup> mailbox"
  vmos :: "addr \<rightharpoonup> vmo"
  vases :: "addr \<rightharpoonup> vas"
  mapping_in :: "addr \<rightharpoonup> addr"          \<comment> \<open>the address space whose tree has the mapping\<close>
  messages :: "mailbox_message store"
  thread_contexts :: "addr \<Rightarrow> thread_context"
  sch :: sched
  agg :: aggregate
  phys :: pmm
  element_chain :: "sparse_element chained"   \<comment> \<open>the free slots of the elements of the memory objects\<close>
  vdso_vmo :: addr
  kallocs :: nat

record kparams =
  hw :: hardware
  env :: cores
  kalloc :: "nat \<Rightarrow> addr"
  perm_read :: u64
  perm_write :: u64
  perm_transfer :: u64
  perm_clone :: u64
  perm_create_mapping :: u64
  perm_all :: u64

text \<open>
  The maps have the contents of the objects, and \<open>objs\<close> their lifetimes: an access to an object that is not live,
  because its last owner is gone or because it was never made, is a fault.
\<close>

definition object_at :: "kernel \<Rightarrow> (addr \<rightharpoonup> 'a) \<Rightarrow> addr \<Rightarrow> 'a result" where
  "object_at k contents a = (if alive (ptrs (objs k)) a then deref (contents a) else Inl Fault)"

type_synonym 'a outcome = "(kernel \<times> 'a) result option"

section \<open>Pointers and tokens\<close>

abbreviation on_ptrs :: "kernel \<Rightarrow> (slot pointers \<Rightarrow> slot pointers result) \<Rightarrow> kernel result" where
  "on_ptrs k f \<equiv> bnd (f (ptrs (objs k))) (\<lambda>ps. Inr (k\<lparr>objs := (objs k)\<lparr>ptrs := ps\<rparr>\<rparr>))"

abbreviation on_objects :: "kernel \<Rightarrow> (objects \<Rightarrow> objects result) \<Rightarrow> kernel result" where
  "on_objects k f \<equiv> bnd (f (objs k)) (\<lambda>s. Inr (k\<lparr>objs := s\<rparr>))"

abbreviation next_alloc :: "kparams \<Rightarrow> kernel \<Rightarrow> addr" where
  "next_alloc kp k \<equiv> kalloc kp (kallocs k)"

abbreviation allocated :: "kernel \<Rightarrow> kernel" where
  "allocated k \<equiv> k\<lparr>kallocs := Suc (kallocs k)\<rparr>"

text \<open>\<open>get_core_local_storage()->current_thread->get_container()\<close>.\<close>

definition current_process :: "nat \<Rightarrow> kernel \<Rightarrow> addr result" where
  "current_process me k = in_scope (ptrs (objs k)) (Member (cls_thread (sch k) me))"

definition register_with :: "kparams \<Rightarrow> kernel \<Rightarrow> addr \<Rightarrow> slot \<Rightarrow> (kernel \<times> u64) result" where
  "register_with kp k pid hnd =
     bnd (object_at k (procs k) pid) (\<lambda>p.
     bnd (register_for_token pid p (objs k) hnd (next_alloc kp k) (\<lambda>n. of_int (hclock (hw kp) n)) (hreads (sch k))) (\<lambda>(p, s, token, n).
     Inr ((allocated k)\<lparr>procs := (procs k)(pid \<mapsto> p), objs := s, sch := (sch k)\<lparr>hreads := n\<rparr>\<rparr>, token)))"

definition unregister_from :: "kernel \<Rightarrow> addr \<Rightarrow> u64 \<Rightarrow> kernel result" where
  "unregister_from k pid token =
     bnd (object_at k (procs k) pid) (\<lambda>p.
     bnd (unregister_token p (objs k) token) (\<lambda>(p, s). Inr (k\<lparr>procs := (procs k)(pid \<mapsto> p), objs := s\<rparr>)))"

definition handle_from :: "kernel \<Rightarrow> addr \<Rightarrow> u64 \<Rightarrow> slot \<Rightarrow> kernel result" where
  "handle_from k pid token ret =
     bnd (object_at k (procs k) pid) (\<lambda>p. bnd (get_handle p (objs k) token ret) (\<lambda>s. Inr (k\<lparr>objs := s\<rparr>)))"

text \<open>
  \<open>create_handle(std::move(object))\<close> and \<open>register_for_token\<close> of the result with the current process, as most of the
  handlers end; \<open>object\<close> is the variable of the object.
\<close>

definition register_object :: "kparams \<Rightarrow> nat \<Rightarrow> kernel \<Rightarrow> type_id \<Rightarrow> slot \<Rightarrow> u64 \<Rightarrow> (kernel \<times> u64) result" where
  "register_object kp me k type object pm =
     bnd (on_objects (allocated k) (\<lambda>s. create_handle s (Local ''handle'') (next_alloc kp k) type object pm)) (\<lambda>k.
     bnd (current_process me k) (\<lambda>pid.
     bnd (register_with kp k pid (Local ''handle'')) (\<lambda>(k, token).
     bnd (on_objects k (\<lambda>s. drop_handle s (Local ''handle''))) (\<lambda>k.
     Inr (k, token)))))"

section \<open>Processes\<close>

definition empty_handles :: "u64 avl_tree" where
  "empty_handles = \<lparr>valid = (\<lambda>_. False), prev = (\<lambda>_. nullptr), nxt = (\<lambda>_. nullptr), tree_parent = (\<lambda>_. nullptr),
     val = (\<lambda>_. 0), root = nullptr, size = 0\<rparr>"

definition new_process :: "addr \<Rightarrow> process" where
  "new_process vas = \<lparr>handles = empty_handles, process_lock = False, started = False, address_space = vas\<rparr>"

text \<open>
  \<open>scheduler::create_process\<close>, into the variable \<open>ret\<close>; \<open>as\<close> is the variable of the address space.
\<close>

definition create_process :: "kparams \<Rightarrow> kernel \<Rightarrow> slot \<Rightarrow> slot \<Rightarrow> kernel result" where
  "create_process kp k ret as =
     bnd (in_scope (ptrs (objs k)) as) (\<lambda>a.
     bnd (object_at k (vases k) a) (\<lambda>v.
     bnd (claim_for_process v) (\<lambda>(v, claimed).
     let k = k\<lparr>vases := (vases k)(a \<mapsto> v)\<rparr>
     in if \<not> claimed then on_ptrs k (\<lambda>ps. ptr_default ps ret)
        else
          let e = next_alloc kp k
          in bnd (on_ptrs (allocated k) (\<lambda>ps. make_intrusive ps ret e)) (\<lambda>k.
             bnd (on_ptrs k (\<lambda>ps. ptr_move ps (Member e) as)) (\<lambda>k.
             Inr (k\<lparr>procs := (procs k)(e \<mapsto> new_process a)\<rparr>))))))"

definition new_thread :: "kernel \<Rightarrow> addr \<Rightarrow> thread \<Rightarrow> kernel" where
  "new_thread k t v = k\<lparr>thread_contexts := (thread_contexts k)(t := new_context), sch := (sch k)\<lparr>tstore := (tstore (sch k))
     \<lparr>valid := (valid (tstore (sch k)))(t := True), prev := (prev (tstore (sch k)))(t := nullptr), nxt := (nxt (tstore (sch k)))(t := nullptr),
      tree_parent := (tree_parent (tstore (sch k)))(t := nullptr), val := (val (tstore (sch k)))(t := v)\<rparr>\<rparr>\<rparr>"

text \<open>\<open>make_intrusive<thread>(intrusive_ptr(process))\<close> into the variable \<open>ret\<close>, and the timestamp.\<close>

definition make_thread :: "kparams \<Rightarrow> kernel \<Rightarrow> addr \<Rightarrow> slot \<Rightarrow> (kernel \<times> addr) result" where
  "make_thread kp k pid ret =
     bnd (object_at k (procs k) pid) (\<lambda>p.
     let t = next_alloc kp k
     in bnd (on_ptrs (allocated k) (\<lambda>ps. make_intrusive ps ret t)) (\<lambda>k.
        bnd (on_ptrs k (\<lambda>ps. ptr_wrap ps (Member t) pid)) (\<lambda>k.
        bnd (stamp (hw kp) (sch (new_thread k t \<lparr>timestamp = 0, thread_vas = address_space p\<rparr>)) t) (\<lambda>w.
        Inr ((new_thread k t \<lparr>timestamp = 0, thread_vas = address_space p\<rparr>)\<lparr>sch := w\<rparr>, t)))))"

definition create_thread :: "kparams \<Rightarrow> kernel \<Rightarrow> addr \<Rightarrow> slot \<Rightarrow> (kernel \<times> addr) result" where
  "create_thread kp k pid ret =
     bnd (object_at k (procs k) pid) (\<lambda>p.
     if process_lock p then Inl Deadlock
     else make_thread kp (k\<lparr>procs := (procs k)(pid \<mapsto> p\<lparr>started := True\<rparr>)\<rparr>) pid ret)"

definition token_release_handler :: "nat \<Rightarrow> kernel \<Rightarrow> u64 \<Rightarrow> (kernel \<times> syscall_result) result" where
  "token_release_handler me k token =
     (if token = 0 then Inr (k, Ok)
      else bnd (current_process me k) (\<lambda>pid. bnd (unregister_from k pid token) (\<lambda>k. Inr (k, Ok))))"

definition process_create_handler :: "kparams \<Rightarrow> nat \<Rightarrow> kernel \<Rightarrow> addr \<Rightarrow> (kernel \<times> syscall_result \<times> u64 option) result" where
  "process_create_handler kp me k vas =
     bnd (on_ptrs k (\<lambda>ps. ptr_wrap ps (Local ''vas'') vas)) (\<lambda>k.
     bnd (create_process kp k (Local ''new_process'') (Local ''vas'')) (\<lambda>k.
     bnd (on_ptrs k (\<lambda>ps. ptr_destroy ps (Local ''vas''))) (\<lambda>k.
     bnd (in_scope (ptrs (objs k)) (Local ''new_process'')) (\<lambda>p.
     if p = nullptr
     then bnd (on_ptrs k (\<lambda>ps. ptr_destroy ps (Local ''new_process''))) (\<lambda>k. Inr (k, Invalid_arguments, None))
     else
       bnd (register_object kp me k Process_type (Local ''new_process'')
         (((perm_read kp OR perm_write kp) OR perm_transfer kp) OR perm_clone kp)) (\<lambda>(k, token).
       bnd (on_ptrs k (\<lambda>ps. ptr_destroy ps (Local ''new_process''))) (\<lambda>k.
       Inr (k, Ok, Some token)))))))"

text \<open>\<open>scheduler::schedule(std::move(thread))\<close> of the variable \<open>x\<close>.\<close>

definition schedule_thread :: "kparams \<Rightarrow> nat \<Rightarrow> kernel \<Rightarrow> slot \<Rightarrow> kernel result option" where
  "schedule_thread kp me k x =
     obnd (Some (traits_unwrap (ptrs (objs k)) x)) (\<lambda>(ps, t).
     let k = k\<lparr>objs := (objs k)\<lparr>ptrs := ps\<rparr>\<rparr>
     in obnd (aggregate_schedule (hw kp) me True (sch k) (agg k) t) (\<lambda>w. Some (Inr (k\<lparr>sch := w\<rparr>))))"

text \<open>The end of a variable of type \<open>intrusive_ptr<handle>\<close> on an early return.\<close>

abbreviation return_dropping :: "kernel \<Rightarrow> slot \<Rightarrow> syscall_result \<Rightarrow> syscall_result outcome" where
  "return_dropping k x r \<equiv> obnd (Some (on_objects k (\<lambda>s. drop_handle s x))) (\<lambda>k. Some (Inr (k, r)))"

definition initial_context :: "thread_context \<Rightarrow> u64 \<Rightarrow> u64 \<Rightarrow> u64 \<Rightarrow> thread_context result" where
  "initial_context c entrypoint top_of_stack token =
     set_argument (set_stack_pointer (set_instruction_pointer (set_userspace c) entrypoint) top_of_stack) 0 token"

definition process_start_handler ::
    "kparams \<Rightarrow> nat \<Rightarrow> kernel \<Rightarrow> addr \<Rightarrow> u64 \<Rightarrow> u64 \<Rightarrow> u64 \<Rightarrow> syscall_result outcome" where
  "process_start_handler kp me k process entrypoint top_of_stack bootstrap_token =
     obnd (Some (current_process me k)) (\<lambda>current.
     obnd (Some (handle_from k current bootstrap_token (Local ''handle''))) (\<lambda>k.
     obnd (Some (in_scope (ptrs (objs k)) (Local ''handle''))) (\<lambda>h.
     if h = nullptr then return_dropping k (Local ''handle'') Invalid_token
     else if \<not> has_permissions (handle_at (objs k) h) (perm_transfer kp) then return_dropping k (Local ''handle'') Not_allowed
     else
       obnd (Some (object_at k (procs k) process)) (\<lambda>p.
       if process_lock p then Some (Inl Deadlock)
       else if started p then return_dropping k (Local ''handle'') Invalid_arguments
       else
         obnd (Some (unregister_from (k\<lparr>procs := (procs k)(process \<mapsto> p\<lparr>started := True\<rparr>)\<rparr>) current bootstrap_token)) (\<lambda>k.
         obnd (Some (register_with kp k process (Local ''handle''))) (\<lambda>(k, actual_token).
         obnd (Some (make_thread kp k process (Local ''thread''))) (\<lambda>(k, t).
         obnd (Some (initial_context (thread_contexts k t) entrypoint top_of_stack actual_token)) (\<lambda>c.
         obnd (schedule_thread kp me (k\<lparr>thread_contexts := (thread_contexts k)(t := c)\<rparr>) (Local ''thread'')) (\<lambda>k.
         return_dropping k (Local ''handle'') Ok)))))))))"

section \<open>Mailboxes\<close>

text \<open>The queues of a mailbox, over the stores of messages and of threads.\<close>

definition message_queue :: "kernel \<Rightarrow> mailbox \<Rightarrow> mailbox_message fifo" where
  "message_queue k b = \<lparr>valid = valid (messages k), prev = prev (messages k), nxt = nxt (messages k), tree_parent = tree_parent (messages k),
     val = val (messages k), head = message_head b, tail = message_tail b, fifo_size = message_size b\<rparr>"

definition put_messages :: "kernel \<Rightarrow> addr \<Rightarrow> mailbox \<Rightarrow> mailbox_message fifo \<Rightarrow> kernel" where
  "put_messages k mb b q = k\<lparr>messages := \<lparr>valid = valid q, prev = prev q, nxt = nxt q, tree_parent = tree_parent q, val = val q\<rparr>,
     boxes := (boxes k)(mb \<mapsto> b\<lparr>message_head := head q, message_tail := tail q, message_size := fifo_size q\<rparr>)\<rparr>"

definition waiting_queue :: "kernel \<Rightarrow> mailbox \<Rightarrow> thread fifo" where
  "waiting_queue k b = \<lparr>valid = valid (tstore (sch k)), prev = prev (tstore (sch k)), nxt = nxt (tstore (sch k)),
     tree_parent = tree_parent (tstore (sch k)), val = val (tstore (sch k)),
     head = waiting_head b, tail = waiting_tail b, fifo_size = waiting_size b\<rparr>"

definition put_waiting :: "kernel \<Rightarrow> addr \<Rightarrow> mailbox \<Rightarrow> thread fifo \<Rightarrow> kernel" where
  "put_waiting k mb b q =
     k\<lparr>sch := (sch k)\<lparr>tstore := \<lparr>valid = valid q, prev = prev q, nxt = nxt q, tree_parent = tree_parent q, val = val q\<rparr>\<rparr>,
       boxes := (boxes k)(mb \<mapsto> b\<lparr>waiting_head := head q, waiting_tail := tail q, waiting_size := fifo_size q\<rparr>)\<rparr>"

definition unlock_box :: "kernel \<Rightarrow> addr \<Rightarrow> kernel" where
  "unlock_box k mb = k\<lparr>boxes := (boxes k)(mb := map_option (mb_lock_update (\<lambda>_. False)) (boxes k mb))\<rparr>"

text \<open>A new message at the address \<open>m\<close>, and its end.\<close>

definition new_message :: "kernel \<Rightarrow> addr \<Rightarrow> mailbox_message \<Rightarrow> kernel" where
  "new_message k m v = k\<lparr>messages := (messages k)\<lparr>valid := (valid (messages k))(m := True), prev := (prev (messages k))(m := nullptr),
     nxt := (nxt (messages k))(m := nullptr), tree_parent := (tree_parent (messages k))(m := nullptr), val := (val (messages k))(m := v)\<rparr>\<rparr>"

definition delete_message :: "kernel \<Rightarrow> addr \<Rightarrow> kernel" where
  "delete_message k m = k\<lparr>messages := (messages k)\<lparr>valid := (valid (messages k))(m := False)\<rparr>\<rparr>"

definition push_message :: "kernel \<Rightarrow> addr \<Rightarrow> addr \<Rightarrow> kernel result" where
  "push_message k mb m =
     bnd (object_at k (boxes k) mb) (\<lambda>b.
     bnd (deref (push_back (message_queue k b) m)) (\<lambda>q. Inr (put_messages k mb b q)))"

text \<open>\<open>if (!_waiting_threads.empty())\<close>: the first thread that waits is made ready.\<close>

definition wake_reader :: "kparams \<Rightarrow> nat \<Rightarrow> kernel \<Rightarrow> addr \<Rightarrow> kernel result option" where
  "wake_reader kp me k mb =
     obnd (Some (object_at k (boxes k) mb)) (\<lambda>b.
     if fifo_empty (waiting_queue k b) then Some (Inr k)
     else
       obnd (Some (deref (pop_front (waiting_queue k b)))) (\<lambda>(q, t).
       obnd (Some (on_ptrs (put_waiting k mb b q) (\<lambda>ps. traits_create ps (Local ''thread'') t))) (\<lambda>k.
       schedule_thread kp me k (Local ''thread''))))"

definition mailbox_push :: "kparams \<Rightarrow> nat \<Rightarrow> kernel \<Rightarrow> addr \<Rightarrow> addr \<Rightarrow> kernel result option" where
  "mailbox_push kp me k mb m =
     obnd (Some (object_at k (boxes k) mb)) (\<lambda>b.
     if mb_lock b then Some (Inl Deadlock)
     else
       obnd (Some (push_message (k\<lparr>boxes := (boxes k)(mb \<mapsto> b\<lparr>mb_lock := True\<rparr>)\<rparr>) mb m)) (\<lambda>k.
       obnd (wake_reader kp me k mb) (\<lambda>k. Some (Inr (unlock_box k mb)))))"

text \<open>The two overloads of \<open>send\<close>; the handle is in the variable \<open>x\<close>.\<close>

definition send_handle :: "kparams \<Rightarrow> nat \<Rightarrow> kernel \<Rightarrow> addr \<Rightarrow> slot \<Rightarrow> kernel result option" where
  "send_handle kp me k mb x =
     (let m = next_alloc kp k
      in obnd (Some (on_ptrs (allocated k) (\<lambda>ps. ptr_move ps (Member m) x))) (\<lambda>k.
         mailbox_push kp me (new_message k m Handle_payload) mb m))"

definition send_user :: "kparams \<Rightarrow> nat \<Rightarrow> kernel \<Rightarrow> addr \<Rightarrow> u64 \<Rightarrow> u64 \<Rightarrow> kernel result option" where
  "send_user kp me k mb data0 data1 =
     (let m = next_alloc kp k
      in mailbox_push kp me (new_message (allocated k) m (User_payload data0 data1)) mb m)"

definition mailbox_create_handler :: "kparams \<Rightarrow> nat \<Rightarrow> kernel \<Rightarrow> (kernel \<times> syscall_result \<times> u64 \<times> u64) result" where
  "mailbox_create_handler kp me k =
     (let mb = next_alloc kp k
      in bnd (on_ptrs (allocated k) (\<lambda>ps. make_intrusive ps (Local ''mb'') mb)) (\<lambda>k.
         let k = k\<lparr>boxes := (boxes k)(mb \<mapsto> create_mailbox)\<rparr>
         in bnd (on_ptrs k (\<lambda>ps. ptr_copy ps (Local ''ptr'') (Local ''mb''))) (\<lambda>k.
            bnd (register_object kp me k Mailbox_type (Local ''ptr'') ((perm_read kp OR perm_transfer kp) OR perm_clone kp)) (\<lambda>(k, read_token).
            bnd (on_ptrs k (\<lambda>ps. ptr_destroy ps (Local ''ptr''))) (\<lambda>k.
            bnd (register_object kp me k Mailbox_type (Local ''mb'') ((perm_write kp OR perm_transfer kp) OR perm_clone kp)) (\<lambda>(k, write_token).
            bnd (on_ptrs k (\<lambda>ps. ptr_destroy ps (Local ''mb''))) (\<lambda>k.
            Inr (k, Ok, read_token, write_token))))))))"

text \<open>A \<open>mailbox_message\<close> of user space: its type is one of the two that are known, or another value.\<close>

datatype user_message = Token_message u64 | Data_message u64 u64 | Unknown_message

text \<open>
  \<open>mailbox_read\<close>: without a message, the result \<^const>\<open>None\<close> says that the thread now waits.
\<close>

definition wait_for_message :: "kparams \<Rightarrow> nat \<Rightarrow> kernel \<Rightarrow> addr \<Rightarrow> kernel result option" where
  "wait_for_message kp me k mb =
     obnd (instance_deschedule (hw kp) me (sch k) me) (\<lambda>(w, t).
     let k = k\<lparr>sch := w\<rparr>
     in obnd (Some (object_at k (boxes k) mb)) (\<lambda>b.
        obnd (Some (deref (push_back (waiting_queue k b) t))) (\<lambda>q.
        Some (Inr (put_waiting k mb b q)))))"

definition take_message :: "kparams \<Rightarrow> nat \<Rightarrow> kernel \<Rightarrow> addr \<Rightarrow> (kernel \<times> user_message) result" where
  "take_message kp me k m =
     bnd (deref (read_val (messages k) m)) (\<lambda>v.
     case v of
       Handle_payload \<Rightarrow>
         bnd (current_process me k) (\<lambda>pid.
         bnd (on_ptrs k (\<lambda>ps. ptr_move ps (Local ''hnd'') (Member m))) (\<lambda>k.
         bnd (register_with kp k pid (Local ''hnd'')) (\<lambda>(k, token).
         bnd (on_objects k (\<lambda>s. drop_handle s (Local ''hnd''))) (\<lambda>k.
         bnd (on_objects k (\<lambda>s. drop_handle s (Member m))) (\<lambda>k.
         Inr (delete_message k m, Token_message token))))))
     | User_payload data0 data1 \<Rightarrow> Inr (delete_message k m, Data_message data0 data1))"

definition mailbox_read_handler ::
    "kparams \<Rightarrow> nat \<Rightarrow> kernel \<Rightarrow> addr \<Rightarrow> u64 \<Rightarrow> (syscall_result option \<times> user_message option) outcome" where
  "mailbox_read_handler kp me k mb timeout =
     obnd (Some (object_at k (boxes k) mb)) (\<lambda>b.
     if mb_lock b then Some (Inl Deadlock)
     else if timeout \<noteq> - 1 \<and> timeout \<noteq> 0 then Some (Inl (Panic ''TODO: support with mailbox read with a specified timeout''))
     else
       let b = b\<lparr>mb_lock := True\<rparr>;
           k = k\<lparr>boxes := (boxes k)(mb \<mapsto> b)\<rparr>
       in if fifo_empty (message_queue k b)
          then if timeout = - 1 then Some (Inr (unlock_box k mb, Some Not_ready, None))
               else obnd (wait_for_message kp me k mb) (\<lambda>k. Some (Inr (unlock_box k mb, None, None)))
          else
            obnd (Some (deref (pop_front (message_queue k b)))) (\<lambda>(q, m).
            obnd (Some (take_message kp me (put_messages k mb b q) m)) (\<lambda>(k, target).
            Some (Inr (unlock_box k mb, Some Ok, Some target)))))"

definition write_token :: "kparams \<Rightarrow> nat \<Rightarrow> kernel \<Rightarrow> addr \<Rightarrow> u64 \<Rightarrow> (kernel \<times> syscall_result) result" where
  "write_token kp me k mb token =
     bnd (current_process me k) (\<lambda>pid.
     bnd (handle_from k pid token (Local ''handle'')) (\<lambda>k.
     bnd (in_scope (ptrs (objs k)) (Local ''handle'')) (\<lambda>h.
     if h = nullptr then bnd (on_objects k (\<lambda>s. drop_handle s (Local ''handle''))) (\<lambda>k. Inr (k, Invalid_token))
     else if \<not> has_permissions (handle_at (objs k) h) (perm_transfer kp)
     then bnd (on_objects k (\<lambda>s. drop_handle s (Local ''handle''))) (\<lambda>k. Inr (k, Not_allowed))
     else
       bnd (unregister_from k pid token) (\<lambda>k.
       let m = next_alloc kp k
       in bnd (on_ptrs (allocated k) (\<lambda>ps. ptr_move ps (Member m) (Local ''handle''))) (\<lambda>k.
          bnd (push_message (new_message k m Handle_payload) mb m) (\<lambda>k.
          bnd (on_objects k (\<lambda>s. drop_handle s (Local ''handle''))) (\<lambda>k.
          Inr (k, Ok))))))))"

definition mailbox_write_handler :: "kparams \<Rightarrow> nat \<Rightarrow> kernel \<Rightarrow> addr \<Rightarrow> user_message \<Rightarrow> syscall_result outcome" where
  "mailbox_write_handler kp me k mb source =
     obnd (Some (object_at k (boxes k) mb)) (\<lambda>b.
     if mb_lock b then Some (Inl Deadlock)
     else
       let k = k\<lparr>boxes := (boxes k)(mb \<mapsto> b\<lparr>mb_lock := True\<rparr>)\<rparr>
       in obnd (Some (case source of
            Token_message token \<Rightarrow> write_token kp me k mb token
          | Data_message data0 data1 \<Rightarrow>
              let m = next_alloc kp k
              in bnd (push_message (new_message (allocated k) m (User_payload data0 data1)) mb m) (\<lambda>k. Inr (k, Ok))
          | Unknown_message \<Rightarrow> Inl (Panic ''rose_mailbox_write with a message containing an unimplemented payload type''))) (\<lambda>(k, r).
          if r \<noteq> Ok then Some (Inr (unlock_box k mb, r))
          else obnd (wake_reader kp me k mb) (\<lambda>k. Some (Inr (unlock_box k mb, Ok)))))"

section \<open>Memory\<close>

definition vmo_create_handler :: "kparams \<Rightarrow> nat \<Rightarrow> kernel \<Rightarrow> u64 \<Rightarrow> u64 \<Rightarrow> (kernel \<times> syscall_result \<times> u64) result" where
  "vmo_create_handler kp me k len flags =
     (if flags \<noteq> 0 then Inl (Panic ''TODO: rose_vmo_create: non zero flags'')
      else
        let o' = next_alloc kp k
        in bnd (on_ptrs (allocated k) (\<lambda>ps. make_intrusive ps (Local ''vmo'') o')) (\<lambda>k.
           bnd (create_sparse_vmo len 0 (phys k) (element_chain k)) (\<lambda>(v, p, c).
           let k = k\<lparr>vmos := (vmos k)(o' \<mapsto> v), phys := p, element_chain := c\<rparr>
           in bnd (register_object kp me k Vmo_type (Local ''vmo'') (perm_all kp)) (\<lambda>(k, token).
              bnd (on_ptrs k (\<lambda>ps. ptr_destroy ps (Local ''vmo''))) (\<lambda>k. Inr (k, Ok, token))))))"

text \<open>\<open>rose_vas_create\<close>; what it writes to \<open>vdso_info\<close>, if there is one, is the base and the length.\<close>

definition vas_create_handler ::
    "kparams \<Rightarrow> nat \<Rightarrow> kernel \<Rightarrow> bool \<Rightarrow> (syscall_result \<times> u64 \<times> (u64 \<times> u64) option) outcome" where
  "vas_create_handler kp me k with_vdso_info =
     (let a = next_alloc kp k
      in obnd (Some (on_ptrs (allocated k) (\<lambda>ps. make_intrusive ps (Local ''new_vas'') a))) (\<lambda>k.
         obnd (Some (if with_vdso_info then object_at k (vmos k) (vdso_vmo k) else Inr (create_physical_vmo 0 0 0))) (\<lambda>vdso_v.
         obnd (create_vas (env kp) (vdso_vmo k) vdso_v (next_alloc kp k) a with_vdso_info (phys k)) (\<lambda>(v, p).
         let e = next_alloc kp k;
             k = (allocated k)\<lparr>vases := (vases k)(a \<mapsto> v), phys := p,
                   mapping_in := (if with_vdso_info then (mapping_in k)(e \<mapsto> a) else mapping_in k)\<rparr>
         in obnd (Some (if with_vdso_info then get_vdso_base v else Inr None)) (\<lambda>maybe_base.
            if with_vdso_info \<and> maybe_base = None
            then Some (Inl (Panic ''couldn't find the base of vdso mapping in a VAS created with a random vdso mapping''))
            else
              obnd (Some (register_object kp me k Vas_type (Local ''new_vas'')
                ((((perm_read kp OR perm_write kp) OR perm_transfer kp) OR perm_clone kp) OR perm_create_mapping kp))) (\<lambda>(k, token).
              obnd (Some (on_ptrs k (\<lambda>ps. ptr_destroy ps (Local ''new_vas'')))) (\<lambda>k.
              Some (Inr (k, Ok, token, map_option (\<lambda>base. (base, vmo_length vdso_v)) maybe_base)))))))))"

definition mapping_create_handler ::
    "kparams \<Rightarrow> nat \<Rightarrow> kernel \<Rightarrow> addr \<Rightarrow> addr \<Rightarrow> u64 \<Rightarrow> u64 \<Rightarrow> (syscall_result \<times> u64) outcome" where
  "mapping_create_handler kp me k vas vmo address flags =
     (if flags \<noteq> 0 then Some (Inl (Panic ''TODO: rose_mapping_create: non zero flags''))
      else
        obnd (Some (object_at k (vmos k) vmo)) (\<lambda>v.
        obnd (commit_all v (phys k) (element_chain k)) (\<lambda>(v, p, c).
        let k = k\<lparr>vmos := (vmos k)(vmo \<mapsto> v), phys := p, element_chain := c\<rparr>;
            e = next_alloc kp k
        in obnd (Some (object_at k (vases k) vas)) (\<lambda>a.
           obnd (map_vmo (env kp) (vdso_vmo k) e vas a vmo v address flags_user (phys k)) (\<lambda>(a, p, _).
           let k = (allocated k)\<lparr>vases := (vases k)(vas \<mapsto> a), phys := p, mapping_in := (mapping_in k)(e \<mapsto> vas)\<rparr>
           in obnd (Some (on_ptrs k (\<lambda>ps. make_intrusive ps (Local ''mapping'') e))) (\<lambda>k.
              obnd (Some (register_object kp me k Mapping_type (Local ''mapping'') (perm_all kp))) (\<lambda>(k, token).
              obnd (Some (on_ptrs k (\<lambda>ps. ptr_destroy ps (Local ''mapping'')))) (\<lambda>k.
              Some (Inr (k, Ok, token))))))))))"

definition mapping_destroy_handler :: "kparams \<Rightarrow> kernel \<Rightarrow> addr \<Rightarrow> (kernel \<times> syscall_result) result" where
  "mapping_destroy_handler kp k mapping =
     bnd (object_at k (mapping_in k) mapping) (\<lambda>vas.
     bnd (object_at k (vases k) vas) (\<lambda>a.
     bnd (deref (read_val (mappings a) mapping)) (\<lambda>m.
     if is_invalid m then Inr (k, Invalid_handle)
     else bnd (vas_unmap (env kp) a mapping (phys k)) (\<lambda>(a, p, _).
       Inr (k\<lparr>vases := (vases k)(vas \<mapsto> a), phys := p\<rparr>, Ok)))))"

end
