(* ===== verification/Kernel_Properties.thy ===== *)
theory Kernel_Properties
  imports Kernel_Calls Scheduler_Properties
begin

text \<open>
  Handles in messages: what a mailbox holds, and how the handlers move a handle from the table of the process that
  writes it, through the queue, to the table of the process that reads it. The lemmas about tables are
  those of \<open>Process\<close>, about queues those of \<open>Fifo\<close>.
\<close>

section \<open>Objects that are live\<close>

lemma owned_alive: "counts_ok c s \<Longrightarrow> ptr s x = Some p \<Longrightarrow> p \<noteq> nullptr \<Longrightarrow> alive s p"
  using owner_counted [of s x p] by (simp add: counts_ok_def balanced_def)

lemma kept_alive: "counts_ok c s \<Longrightarrow> 0 < kept s p \<Longrightarrow> p \<noteq> nullptr \<Longrightarrow> alive s p"
  by (simp add: counts_ok_def balanced_def owners_def)

lemma object_at_live [simp]: "alive (ptrs (objs k)) a \<Longrightarrow> object_at k contents a = deref (contents a)"
  by (simp add: object_at_def)

section \<open>Queues of messages\<close>

lemma message_queue_put [simp]:
  "message_queue (put_messages k mb b q) (b\<lparr>message_head := head q, message_tail := tail q, message_size := fifo_size q\<rparr>) = q"
  by (cases q) (simp add: message_queue_def put_messages_def)

lemma push_message_holds:
  assumes b: "boxes k mb = Some b" "alive (ptrs (objs k)) mb" "fifo_holds (message_queue k b) xs"
    and e: "accessible (messages k) e" "e \<notin> set xs"
  obtains q where "push_message k mb e = Inr (put_messages k mb b q)" "fifo_holds q (xs @ [e])"
    "valid q = valid (messages k)" "val q = val (messages k)"
proof -
  have "accessible (message_queue k b) e" using e(1) by (simp add: accessible_def message_queue_def)
  from push_back_holds [OF b(3) this e(2)] obtain q where "push_back (message_queue k b) e = Some q" "fifo_holds q (xs @ [e])"
    "valid q = valid (message_queue k b)" "val q = val (message_queue k b)" .
  then show thesis using that [of q] b(1,2) by (simp add: push_message_def message_queue_def)
qed

lemma fifo_holds_new_message:
  assumes "fifo_holds (message_queue k b) xs" and "e \<noteq> nullptr" "\<not> valid (messages k) e"
  shows "fifo_holds (message_queue (new_message k e v) b) xs" "accessible (messages (new_message k e v)) e" "e \<notin> set xs"
proof -
  show e: "e \<notin> set xs" using assms by (auto simp: fifo_holds_def accessible_def message_queue_def)
  show "accessible (messages (new_message k e v)) e" using assms(2) by (simp add: accessible_def new_message_def)
  show "fifo_holds (message_queue (new_message k e v) b) xs"
    using assms(1) e chain_frame [OF e, of "nxt (messages k)" nullptr "message_head b"]
    by (auto simp: fifo_holds_def message_queue_def new_message_def accessible_def)
qed

lemma fifo_holds_delete_message:
  assumes "fifo_holds (message_queue k b) xs" and "e \<notin> set xs"
  shows "fifo_holds (message_queue (delete_message k e) b) xs"
  using assms by (auto simp: fifo_holds_def message_queue_def delete_message_def accessible_def)

text \<open>
  What a message carries, and the messages that a mailbox holds, where no thread waits for one; a handle keeps
  the mailbox live.
\<close>

datatype carried = Carried_handle addr | Carried_data u64 u64

fun carries :: "mailbox_message store \<Rightarrow> objects \<Rightarrow> addr \<Rightarrow> carried \<Rightarrow> bool" where
  "carries M s x (Carried_handle h) \<longleftrightarrow> val M x = Handle_payload \<and> ptr (ptrs s) (Member x) = Some h \<and> h \<noteq> nullptr"
| "carries M s x (Carried_data data0 data1) \<longleftrightarrow> val M x = User_payload data0 data1"

definition box_holds :: "kernel \<Rightarrow> addr \<Rightarrow> addr list \<Rightarrow> carried list \<Rightarrow> bool" where
  "box_holds k mb xs ms \<longleftrightarrow>
     (\<exists>b. boxes k mb = Some b \<and> \<not> mb_lock b \<and> waiting_head b = nullptr \<and> fifo_holds (message_queue k b) xs) \<and>
     list_all2 (carries (messages k) (objs k)) xs ms \<and> mb \<noteq> nullptr \<and> kept (ptrs (objs k)) mb > 0"

lemma carries_frame:
  assumes "list_all2 (carries M s) xs ms" and "\<And>x. x \<in> set xs \<Longrightarrow> val M' x = val M x \<and> ptr (ptrs s') (Member x) = ptr (ptrs s) (Member x)"
  shows "list_all2 (carries M' s') xs ms"
  using assms(1)
proof (rule list.rel_mono_strong)
  fix x c assume "x \<in> set xs" "c \<in> set ms" "carries M s x c"
  then show "carries M' s' x c" using assms(2) [of x] by (cases c) auto
qed

section \<open>Ends of variables\<close>

lemma drop_null: "ptr (ptrs s) x = Some nullptr \<Longrightarrow> drop_handle s x = Inr (s\<lparr>ptrs := end_scope (ptrs s) x\<rparr>)"
  by (simp add: drop_handle_def in_scope_def ptr_destroy_def disown_def)

lemma ptr_move_exec: "ptr ps y = Some p \<Longrightarrow> ptr_move ps x y = Inr (ps\<lparr>ptr := (ptr ps)(y \<mapsto> nullptr, x \<mapsto> p)\<rparr>)"
  by (simp add: ptr_move_def in_scope_def set_ptr_def)

lemma end_null_ok:
  assumes "counts_ok c ps" and "ptr ps x = Some nullptr" and "c < 2 ^ 64"
  shows "counts_ok c (end_scope ps x)"
  using ptr_destroy_ok [OF assms(1,3), of x] assms(2) by (auto simp: ptr_destroy_def disown_def in_scope_def)

section \<open>Writing a handle\<close>

text \<open>The process that the core \<open>me\<close> runs, and the handles it holds.\<close>

definition runs :: "kernel \<Rightarrow> nat \<Rightarrow> addr \<Rightarrow> process \<Rightarrow> (u64 \<rightharpoonup> addr) \<Rightarrow> bool" where
  "runs k me pid p m \<longleftrightarrow> ptr (ptrs (objs k)) (Member (cls_thread (sch k) me)) = Some pid \<and> procs k pid = Some p \<and>
     holds_table p (objs k) m \<and> \<not> valid (handles p) (cls_thread (sch k) me) \<and> pid \<noteq> nullptr"

lemma runs_alive: "runs k me pid p m \<Longrightarrow> counts_ok c (ptrs (objs k)) \<Longrightarrow> alive (ptrs (objs k)) pid"
  using owned_alive by (fastforce simp: runs_def)

text \<open>What every handler finds: exact counts, and none of its variables in scope.\<close>

definition quiet_state :: "nat \<Rightarrow> kernel \<Rightarrow> bool" where
  "quiet_state c k \<longleftrightarrow> counts_ok c (ptrs (objs k)) \<and> (\<forall>v. ptr (ptrs (objs k)) (Local v) = None)"

lemma write_token_moves:
  assumes w: "runs k me pid p m" "m t = Some h" "steady p" "has_permissions (handle_at (objs k) h) (perm_transfer kp)" "payload_live (objs k) h"
    and q: "quiet_state c k" "Suc c < 2 ^ 64"
    and b: "boxes k mb = Some b" "fifo_holds (message_queue k b) xs" "list_all2 (carries (messages k) (objs k)) xs ms"
      "mb \<noteq> nullptr" "0 < kept (ptrs (objs k)) mb"
    and e: "next_alloc kp k = e" "e \<noteq> nullptr" "\<not> valid (messages k) e" "\<not> valid (handles p) e" "ptr (ptrs (objs k)) (Member e) = None"
    and xs: "\<forall>x \<in> set xs. \<not> valid (handles p) x"
  obtains p' s' M b' a where
    "write_token kp me k mb t = Inr (k\<lparr>procs := (procs k)(pid \<mapsto> p'), kallocs := Suc (kallocs k), messages := M, boxes := (boxes k)(mb \<mapsto> b'), objs := s'\<rparr>, Ok)"
    "holds_table p' s' (m(t := None))" "counts_ok (Suc c) (ptrs s')" "\<forall>v. ptr (ptrs s') (Local v) = None"
    "same_slots {Member a, Member e} (objs k) s'" "valid (handles p) a" "ptr (ptrs s') (Member a) = None" "valid (handles p') = (valid (handles p))(a := False)"
    "\<And>k'. messages k' = M \<Longrightarrow> fifo_holds (message_queue k' b') (xs @ [e])"
    "list_all2 (carries M s') (xs @ [e]) (ms @ [Carried_handle h])" "mb_lock b' = mb_lock b" "waiting_head b' = waiting_head b"
    "valid M = (valid (messages k))(e := True)"
proof -
  let ?v = "''handle''"
  have l: "ptr (ptrs (objs k)) (Local v) = None" for v using q(1) by (simp add: quiet_state_def)
  have c: "counts_ok c (ptrs (objs k))" using q(1) by (simp add: quiet_state_def)
  have t: "holds_table p (objs k) m" "procs k pid = Some p" "current_process me k = Inr pid"
    using w(1) by (simp_all add: runs_def current_process_def in_scope_def)
  from get_handle_refines [OF t(1) l c, where t = t and v = ?v] w(2) obtain s1 where s1: "get_handle p (objs k) t (Local ?v) = Inr s1"
      "same_slots {Local ?v} (objs k) s1" "ptr (ptrs s1) (Local ?v) = Some h" "counts_ok (Suc c) (ptrs s1)" "alive (ptrs s1) = alive (ptrs (objs k))" by auto
  have t1: "holds_table p s1 m" by (rule holds_table_frame [OF t(1) s1(2)]) simp
  have h: "h \<noteq> nullptr" using table_entry [OF t(1) w(2)] by metis
  have l1: "ptr (ptrs s1) (Local ''payload'') = None" "payload_live s1 h" "handle_at s1 = handle_at (objs k)"
    using s1(2,5) l [of "''payload''"] w(5) by (auto simp: same_slots_def payload_live_def)
  from unregister_refines [OF t1 w(2,3) s1(4) q(2) l1(1,2)] obtain p' s2 a where s2: "unregister_token p s1 t = Inr (p', s2)"
      "holds_table p' s2 (m(t := None))" "counts_ok (Suc c) (ptrs s2)" "valid (handles p) a" "valid (handles p') = (valid (handles p))(a := False)"
      "same_slots {Member a} s1 s2" "ptr (ptrs s2) (Member a) = None" .
  have h2: "ptr (ptrs s2) (Local ?v) = Some h" "ptr (ptrs s2) (Member e) = None"
    using s1(2,3) s2(4,6) e(4,5) by (auto simp: same_slots_def)
  let ?ps3 = "(ptrs s2)\<lparr>ptr := (ptr (ptrs s2))(Local ?v \<mapsto> nullptr, Member e \<mapsto> h)\<rparr>"
  have mv: "ptr_move (ptrs s2) (Member e) (Local ?v) = Inr ?ps3" using ptr_move_exec [OF h2(1)] .
  have c3: "counts_ok (Suc c) ?ps3" using ptr_move_ok [OF s2(3) h2(2), of "Local ?v"] h2(1) mv by auto
  let ?s4 = "s2\<lparr>ptrs := end_scope ?ps3 (Local ?v)\<rparr>"
  have c4: "counts_ok (Suc c) (ptrs ?s4)" using end_null_ok [OF c3 _ q(2)] by simp
  define k3 where "k3 = k\<lparr>procs := (procs k)(pid \<mapsto> p'), kallocs := Suc (kallocs k), objs := s2\<lparr>ptrs := ?ps3\<rparr>\<rparr>"
  have k3: "messages k3 = messages k" "boxes k3 = boxes k" by (simp_all add: k3_def)
  then have f3: "fifo_holds (message_queue k3 b) xs" "\<not> valid (messages k3) e" using b(2) e(3) by (simp_all add: message_queue_def)
  note n = fifo_holds_new_message(1,2) [OF f3(1) e(2) f3(2), where v = Handle_payload] fifo_holds_new_message(3) [OF f3(1) e(2) f3(2)]
  have "kept (ptrs s2) = kept (ptrs (objs k))" using s1(2) s2(6) by (simp add: same_slots_def)
  with kept_alive [OF s2(3), of mb] b(4,5) have "alive (ptrs s2) mb" by simp
  then have "boxes (new_message k3 e Handle_payload) mb = Some b" "alive (ptrs (objs (new_message k3 e Handle_payload))) mb"
    using b(1) by (simp_all add: new_message_def k3_def)
  from push_message_holds [OF this n] obtain f where f: "push_message (new_message k3 e Handle_payload) mb e = Inr (put_messages (new_message k3 e Handle_payload) mb b f)"
    "fifo_holds f (xs @ [e])" "valid f = valid (messages (new_message k3 e Handle_payload))" "val f = val (messages (new_message k3 e Handle_payload))" .
  let ?M = "\<lparr>valid = valid f, prev = prev f, nxt = nxt f, tree_parent = tree_parent f, val = val f\<rparr>"
  let ?b = "b\<lparr>message_head := head f, message_tail := tail f, message_size := fifo_size f\<rparr>"
  show thesis
  proof (rule that [where p' = p' and s' = ?s4 and M = ?M and b' = ?b and a = a])
    show "write_token kp me k mb t = Inr (k\<lparr>procs := (procs k)(pid \<mapsto> p'), kallocs := Suc (kallocs k), messages := ?M,
        boxes := (boxes k)(mb \<mapsto> ?b), objs := ?s4\<rparr>, Ok)"
      using t(2,3) runs_alive [OF w(1) c] s1(1,3,5) h w(4) l1(3) s2(1) e(1) mv f(1)
      by (simp add: write_token_def handle_from_def unregister_from_def in_scope_def k3_def [symmetric] drop_null)
        (simp add: k3_def put_messages_def new_message_def drop_null)
    show "fifo_holds (message_queue k' ?b) (xs @ [e])" if "messages k' = ?M" for k'
      using f(2) that by (cases f) (simp add: message_queue_def)
    have slots: "ptr (ptrs ?s4) x = ptr (ptrs (objs k)) x" if "x \<noteq> Member a" "x \<noteq> Member e" for x
      using that s1(2) s2(6) l by (auto simp: same_slots_def end_scope_def)
    then show "same_slots {Member a, Member e} (objs k) ?s4"
      using s1(2) s2(6) by (auto simp: same_slots_def)
    have "ptr (ptrs ?s4) (Local v) = None" for v using slots [of "Local v"] l by (simp del: objects.simps)
    then show "\<forall>v. ptr (ptrs ?s4) (Local v) = None" ..
    have ae: "a \<noteq> e" using s2(4) e(4) by auto
    then show "ptr (ptrs ?s4) (Member a) = None" using s2(7) by (simp add: end_scope_def)
    show "list_all2 (carries ?M ?s4) (xs @ [e]) (ms @ [Carried_handle h])"
    proof (rule list_all2_appendI)
      show "list_all2 (carries ?M ?s4) xs ms"
      proof (rule carries_frame [OF b(3)])
        fix x assume "x \<in> set xs"
        then have "x \<noteq> a" "x \<noteq> e" using n(3) xs s2(4) by auto
        then show "val ?M x = val (messages k) x \<and> ptr (ptrs ?s4) (Member x) = ptr (ptrs (objs k)) (Member x)"
          using slots [of "Member x"] by (simp add: f(4) new_message_def k3(1))
      qed
      show "list_all2 (carries ?M ?s4) [e] [Carried_handle h]" using h by (simp add: f(4) new_message_def end_scope_def)
    qed
    show "holds_table p' ?s4 (m(t := None))"
      by (rule holds_table_frame [OF s2(2), where A = "{Local ?v, Member e}"]) (use s2(4,5) e(4) ae in \<open>auto simp: same_slots_def end_scope_def split: if_splits\<close>)
  qed (use c4 s2(4,5) f(3) in \<open>simp_all add: new_message_def k3(1)\<close>)
qed

section \<open>Reading a handle\<close>

abbreviation ticks :: "kparams \<Rightarrow> nat \<Rightarrow> u64" where
  "ticks kp n \<equiv> of_int (hclock (hw kp) n)"

lemma take_token_moves:
  assumes w: "runs k me pid p m" and q: "quiet_state c k" "c < 2 ^ 64"
    and x: "accessible (messages k) x" "carries (messages k) (objs k) x (Carried_handle h)" "\<not> valid (handles p) x"
    and e: "next_alloc kp k = e" "unused (handles p) e" "ptr (ptrs (objs k)) (Member e) = None" "e \<noteq> x"
    and n: "clock_moves (ticks kp) (hreads (sch k)) (card (dom m))"
  obtains p' s' u n' where "take_message kp me k x = Inr (delete_message
      (k\<lparr>kallocs := Suc (kallocs k), procs := (procs k)(pid \<mapsto> p'), sch := (sch k)\<lparr>hreads := n'\<rparr>, objs := s'\<rparr>) x, Token_message u)"
    "m u = None" "holds_table p' s' (m(u \<mapsto> h))" "counts_ok c (ptrs s')" "\<forall>v. ptr (ptrs s') (Local v) = None"
    "same_slots {Member x, Member e} (objs k) s'"
proof -
  let ?v = "''hnd''"
  have l: "ptr (ptrs (objs k)) (Local v) = None" for v using q(1) by (simp add: quiet_state_def)
  have c: "counts_ok c (ptrs (objs k))" using q(1) by (simp add: quiet_state_def)
  have t: "holds_table p (objs k) m" "procs k pid = Some p" "current_process me k = Inr pid"
    using w(1) by (simp_all add: runs_def current_process_def in_scope_def)
  have h: "ptr (ptrs (objs k)) (Member x) = Some h" "h \<noteq> nullptr" "read_val (messages k) x = Some Handle_payload"
    using x by (simp_all add: read_val_def)
  let ?ps1 = "(ptrs (objs k))\<lparr>ptr := (ptr (ptrs (objs k)))(Member x \<mapsto> nullptr, Local ?v \<mapsto> h)\<rparr>"
  let ?s1 = "(objs k)\<lparr>ptrs := ?ps1\<rparr>"
  have mv: "ptr_move (ptrs (objs k)) (Local ?v) (Member x) = Inr ?ps1" by (rule ptr_move_exec [OF h(1)])
  have c1: "counts_ok c (ptrs ?s1)" using ptr_move_ok [OF c l, of "Member x" ?v] h(1) mv by auto
  have t1: "holds_table p ?s1 m"
    by (rule holds_table_frame [OF t(1), where A = "{Member x, Local ?v}"]) (use x(3) in \<open>auto simp: same_slots_def\<close>)
  have e1: "ptr (ptrs ?s1) (Member e) = None" using e(3,4) by simp
  have h1: "ptr (ptrs ?s1) (Local ?v) = Some h" by simp
  from register_refines [OF t1 e(2) e1 h1 h(2) n, of pid] obtain p' s2 u n' where
    r: "register_for_token pid p ?s1 (Local ?v) e (ticks kp) (hreads (sch k)) = Inr (p', s2, u, n')" "m u = None"
      "holds_table p' s2 (m(u \<mapsto> h))" "s2 = ?s1\<lparr>ptrs := (ptrs ?s1)\<lparr>ptr := (ptr (ptrs ?s1))(Local ?v \<mapsto> nullptr, Member e \<mapsto> h)\<rparr>\<rparr>"
      "valid (handles p') = (valid (handles p))(e := True)" by metis
  have c2: "counts_ok c (ptrs s2)" using move_into_element_ok [OF c1 e1 h1] r(4) by simp
  let ?s4 = "s2\<lparr>ptrs := end_scope (end_scope (ptrs s2) (Local ?v)) (Member x)\<rparr>"
  have nul: "ptr (ptrs s2) (Local ?v) = Some nullptr" "ptr (ptrs (s2\<lparr>ptrs := end_scope (ptrs s2) (Local ?v)\<rparr>)) (Member x) = Some nullptr"
    using r(4) e(4) by (simp_all add: end_scope_def)
  have d: "drop_handle s2 (Local ?v) = Inr (s2\<lparr>ptrs := end_scope (ptrs s2) (Local ?v)\<rparr>)"
      "drop_handle (s2\<lparr>ptrs := end_scope (ptrs s2) (Local ?v)\<rparr>) (Member x) = Inr ?s4"
    using drop_null [OF nul(1)] drop_null [OF nul(2)] by simp_all
  have c4: "counts_ok c (ptrs ?s4)"
    using end_null_ok [OF end_null_ok [OF c2 _ q(2), of "Local ?v"] _ q(2), of "Member x"] r(4) e(4) by (simp add: end_scope_def)
  show thesis
  proof (rule that [where p' = p' and s' = ?s4 and u = u and n' = n'])
    show "take_message kp me k x = Inr (delete_message
      (k\<lparr>kallocs := Suc (kallocs k), procs := (procs k)(pid \<mapsto> p'), sch := (sch k)\<lparr>hreads := n'\<rparr>, objs := ?s4\<rparr>) x, Token_message u)"
      using h(3) t(2,3) runs_alive [OF w(1) c] mv r(1) e(1) d by (simp add: take_message_def register_with_def)
    show slots: "same_slots {Member x, Member e} (objs k) ?s4" using l unfolding r(4) by (auto simp: same_slots_def end_scope_def)
    then have "ptr (ptrs ?s4) (Local v) = ptr (ptrs (objs k)) (Local v)" for v unfolding same_slots_def by blast
    then show "\<forall>v. ptr (ptrs ?s4) (Local v) = None" by (simp only: l simp_thms)
    show "holds_table p' ?s4 (m(u \<mapsto> h))"
      by (rule holds_table_frame [OF r(3), where A = "{Member x, Local ?v}"])
        (use x(3) e(4) r(5) in \<open>auto simp: same_slots_def end_scope_def split: if_splits\<close>)
  qed (use r(2) c4 in simp_all)
qed

section \<open>The handlers\<close>

lemma write_handler_moves:
  assumes w: "runs k me pid p m" "m t = Some h" "steady p" "has_permissions (handle_at (objs k) h) (perm_transfer kp)" "payload_live (objs k) h"
    and q: "quiet_state c k" "Suc c < 2 ^ 64" and b: "box_holds k mb xs ms"
    and e: "next_alloc kp k = e" "e \<noteq> nullptr" "\<not> valid (messages k) e" "\<not> valid (handles p) e" "ptr (ptrs (objs k)) (Member e) = None"
    and xs: "\<forall>x \<in> set xs. \<not> valid (handles p) x"
  obtains k' p' a where "mailbox_write_handler kp me k mb (Token_message t) = Some (Inr (k', Ok))"
    "box_holds k' mb (xs @ [e]) (ms @ [Carried_handle h])" "procs k' = (procs k)(pid \<mapsto> p')" "holds_table p' (objs k') (m(t := None))"
    "quiet_state (Suc c) k'" "same_slots {Member a, Member e} (objs k) (objs k')" "valid (handles p) a" "valid (handles p') = (valid (handles p))(a := False)"
    "sch k' = sch k" "kallocs k' = Suc (kallocs k)" "ptr (ptrs (objs k')) (Member a) = None"
proof -
  from b obtain bx where bx: "boxes k mb = Some bx" "\<not> mb_lock bx" "waiting_head bx = nullptr" "fifo_holds (message_queue k bx) xs"
      and cs: "list_all2 (carries (messages k) (objs k)) xs ms" "mb \<noteq> nullptr" "0 < kept (ptrs (objs k)) mb" by (auto simp: box_holds_def)
  have live: "alive (ptrs (objs k)) mb" using kept_alive cs(2,3) q(1) by (auto simp: quiet_state_def)
  let ?bl = "bx\<lparr>mb_lock := True\<rparr>" let ?k0 = "k\<lparr>boxes := (boxes k)(mb \<mapsto> ?bl)\<rparr>"
  have 0: "runs ?k0 me pid p m" "has_permissions (handle_at (objs ?k0) h) (perm_transfer kp)" "payload_live (objs ?k0) h" "quiet_state c ?k0"
      "boxes ?k0 mb = Some ?bl" "fifo_holds (message_queue ?k0 ?bl) xs" "list_all2 (carries (messages ?k0) (objs ?k0)) xs ms"
      "0 < kept (ptrs (objs ?k0)) mb" "next_alloc kp ?k0 = e" "\<not> valid (messages ?k0) e" "ptr (ptrs (objs ?k0)) (Member e) = None"
    using w q bx cs e by (simp_all add: runs_def quiet_state_def message_queue_def)
  from write_token_moves [OF 0(1) w(2,3) 0(2-4) q(2) 0(5-7) cs(2) 0(8,9) e(2) 0(10) e(4) 0(11) xs]
  obtain p' s' M b' a where r: "write_token kp me ?k0 mb t =
      Inr (?k0\<lparr>procs := (procs ?k0)(pid \<mapsto> p'), kallocs := Suc (kallocs ?k0), messages := M, boxes := (boxes ?k0)(mb \<mapsto> b'), objs := s'\<rparr>, Ok)"
    and s': "holds_table p' s' (m(t := None))" "counts_ok (Suc c) (ptrs s')" "\<forall>v. ptr (ptrs s') (Local v) = None"
      "same_slots {Member a, Member e} (objs ?k0) s'" "valid (handles p) a" "ptr (ptrs s') (Member a) = None" "valid (handles p') = (valid (handles p))(a := False)"
    and f: "\<And>k'. messages k' = M \<Longrightarrow> fifo_holds (message_queue k' b') (xs @ [e])"
    and M: "list_all2 (carries M s') (xs @ [e]) (ms @ [Carried_handle h])" "waiting_head b' = waiting_head ?bl" by metis
  let ?k1 = "?k0\<lparr>procs := (procs ?k0)(pid \<mapsto> p'), kallocs := Suc (kallocs ?k0), messages := M, boxes := (boxes ?k0)(mb \<mapsto> b'), objs := s'\<rparr>"
  have kept: "0 < kept (ptrs s') mb" using s'(4) cs(3) by (simp add: same_slots_def)
  with kept_alive [OF s'(2)] cs(2) have "alive (ptrs (objs ?k1)) mb" by simp
  moreover have "fifo_empty (waiting_queue ?k1 b')" using M(2) bx(3) by (simp add: fifo_empty_def waiting_queue_def)
  ultimately have "wake_reader kp me ?k1 mb = Some (Inr ?k1)" by (simp add: wake_reader_def)
  then have "mailbox_write_handler kp me k mb (Token_message t) = Some (Inr (unlock_box ?k1 mb, Ok))"
    using bx(1,2) live r by (simp add: mailbox_write_handler_def Let_def)
  moreover have "box_holds (unlock_box ?k1 mb) mb (xs @ [e]) (ms @ [Carried_handle h])"
    using f [of ?k1] M bx(3) cs(2) kept by (simp add: box_holds_def unlock_box_def message_queue_def)
  ultimately show thesis
    by (rule that [where p' = p' and a = a]) (use s' in \<open>simp_all add: unlock_box_def quiet_state_def\<close>)
qed

lemma read_handler_moves:
  assumes w: "runs k me pid p m" and q: "quiet_state c k" "c < 2 ^ 64"
    and b: "box_holds k mb (x # xs) (Carried_handle h # ms)" "\<forall>y \<in> set (x # xs). \<not> valid (handles p) y"
    and e: "next_alloc kp k = e" "unused (handles p) e" "ptr (ptrs (objs k)) (Member e) = None" "e \<notin> set (x # xs)"
    and n: "clock_moves (ticks kp) (hreads (sch k)) (card (dom m))" and timeout: "timeout = 0 \<or> timeout = - 1"
  obtains k' p' u where "mailbox_read_handler kp me k mb timeout = Some (Inr (k', Some Ok, Some (Token_message u)))"
    "m u = None" "procs k' = (procs k)(pid \<mapsto> p')" "holds_table p' (objs k') (m(u \<mapsto> h))" "box_holds k' mb xs ms" "quiet_state c k'"
    "same_slots {Member x, Member e} (objs k) (objs k')"
proof -
  from b obtain bx where bx: "boxes k mb = Some bx" "\<not> mb_lock bx" "waiting_head bx = nullptr" "fifo_holds (message_queue k bx) (x # xs)"
      and cs: "carries (messages k) (objs k) x (Carried_handle h)" "list_all2 (carries (messages k) (objs k)) xs ms" "mb \<noteq> nullptr" "0 < kept (ptrs (objs k)) mb"
    by (auto simp: box_holds_def)
  have live: "alive (ptrs (objs k)) mb" using kept_alive cs(3,4) q(1) by (auto simp: quiet_state_def)
  let ?bl = "bx\<lparr>mb_lock := True\<rparr>" let ?k0 = "k\<lparr>boxes := (boxes k)(mb \<mapsto> ?bl)\<rparr>"
  have f0: "fifo_holds (message_queue ?k0 ?bl) (x # xs)" using bx(4) by (simp add: message_queue_def)
  from pop_front_holds [OF f0] obtain f where pf: "pop_front (message_queue ?k0 ?bl) = Some (f, x)" "fifo_holds f xs"
      "valid f = valid (message_queue ?k0 ?bl)" "val f = val (message_queue ?k0 ?bl)" .
  have x: "accessible (messages k) x" "x \<notin> set xs" using bx(4) by (auto simp: fifo_holds_def accessible_def message_queue_def)
  let ?bq = "?bl\<lparr>message_head := head f, message_tail := tail f, message_size := fifo_size f\<rparr>"
  let ?k1 = "put_messages ?k0 mb ?bl f"
  have k1: "objs ?k1 = objs k" "procs ?k1 = procs k" "sch ?k1 = sch k" "kallocs ?k1 = kallocs k" "boxes ?k1 = (boxes k)(mb \<mapsto> ?bq)"
      "valid (messages ?k1) = valid (messages k)" "val (messages ?k1) = val (messages k)"
    using pf(3,4) by (simp_all add: put_messages_def message_queue_def)
  have 1: "runs ?k1 me pid p m" "quiet_state c ?k1" "accessible (messages ?k1) x" "carries (messages ?k1) (objs ?k1) x (Carried_handle h)"
      "next_alloc kp ?k1 = e" "ptr (ptrs (objs ?k1)) (Member e) = None" "clock_moves (ticks kp) (hreads (sch ?k1)) (card (dom m))"
    using w q(1) x(1) cs(1) e(1,3) n unfolding runs_def quiet_state_def accessible_def k1 by (simp_all add: k1)
  have ex: "e \<noteq> x" "\<not> valid (handles p) x" using e(4) b(2) by auto
  from take_token_moves [OF 1(1,2) q(2) 1(3,4) ex(2) 1(5) e(2) 1(6) ex(1) 1(7)] obtain p' s' u n' where
    r: "take_message kp me ?k1 x = Inr (delete_message
        (?k1\<lparr>kallocs := Suc (kallocs ?k1), procs := (procs ?k1)(pid \<mapsto> p'), sch := (sch ?k1)\<lparr>hreads := n'\<rparr>, objs := s'\<rparr>) x, Token_message u)"
      "m u = None" "holds_table p' s' (m(u \<mapsto> h))" "counts_ok c (ptrs s')" "\<forall>v. ptr (ptrs s') (Local v) = None"
      "same_slots {Member x, Member e} (objs ?k1) s'" .
  define k2 where "k2 = ?k1\<lparr>kallocs := Suc (kallocs ?k1), procs := (procs ?k1)(pid \<mapsto> p'), sch := (sch ?k1)\<lparr>hreads := n'\<rparr>, objs := s'\<rparr>"
  have k2: "objs k2 = s'" "procs k2 = (procs k)(pid \<mapsto> p')" "boxes k2 mb = Some ?bq" "messages k2 = messages ?k1"
    by (simp_all add: k2_def k1)
  let ?k3 = "delete_message k2 x"
  have "fifo_holds (message_queue k2 ?bq) xs" using pf(2) message_queue_put [of ?k0 mb ?bl f] by (simp add: message_queue_def k2(4))
  from fifo_holds_delete_message [OF this x(2)] have f3: "fifo_holds (message_queue ?k3 ?bq) xs" .
  have "list_all2 (carries (messages ?k3) s') xs ms"
  proof (rule carries_frame [OF cs(2)])
    fix y assume "y \<in> set xs"
    then have "Member y \<notin> {Member x, Member e}" using x(2) e(4) by auto
    then show "val (messages ?k3) y = val (messages k) y \<and> ptr (ptrs s') (Member y) = ptr (ptrs (objs k)) (Member y)"
      using r(6) k1(7) unfolding same_slots_def k1(1) by (simp add: delete_message_def k2(4))
  qed
  moreover have "0 < kept (ptrs s') mb" using r(6) cs(4) k1(1) by (simp add: same_slots_def)
  ultimately have box: "box_holds (unlock_box ?k3 mb) mb xs ms"
    using f3 bx(3) k2 cs(3) by (simp add: box_holds_def unlock_box_def delete_message_def message_queue_def)
  have "fifo_empty (message_queue ?k0 ?bl) = False" using fifo_empty_iff [OF f0] by simp
  then have "mailbox_read_handler kp me k mb timeout = Some (Inr (unlock_box ?k3 mb, Some Ok, Some (Token_message u)))"
    using bx(1,2) live pf(1) r(1) timeout by (auto simp: mailbox_read_handler_def Let_def k2_def)
  then show thesis
    by (rule that [where p' = p']) (use box r k2 k1(1) in \<open>simp_all add: unlock_box_def delete_message_def quiet_state_def\<close>)
qed

text \<open>
  C4. A mailbox moves handles from one process to another, in order. A process writes a token it holds, with the
  permission to transfer it, to a mailbox for which no thread waits: the call succeeds, the process no longer holds
  the token, and the handle is the last message of the mailbox. When another process then reads the mailbox and the first
  message carries a handle, which is the handle just written where the mailbox was empty, the reader holds
  that handle under the token it gets, which it did not hold before, and the other messages stay. No handle changes
  its type, its payload or its permissions, and all counts are exact, before and after.
\<close>

theorem mailbox_moves_handle:
  assumes w: "runs k me pid p m" "m t = Some h" "steady p" "has_permissions (handle_at (objs k) h) (perm_transfer kp)" "payload_live (objs k) h"
    and r: "runs k you rid r mr" "rid \<noteq> pid" "\<forall>a. \<not> (valid (handles p) a \<and> valid (handles r) a)" "\<not> valid (handles p) (cls_thread (sch k) you)"
    and q: "quiet_state c k" "Suc c < 2 ^ 64" and b: "box_holds k mb xs ms" "hd (ms @ [Carried_handle h]) = Carried_handle g"
      "\<forall>x \<in> set xs. \<not> valid (handles p) x \<and> \<not> valid (handles r) x \<and> x \<noteq> e'"
    and e: "kalloc kp (kallocs k) = e" "e \<noteq> nullptr" "\<not> valid (messages k) e" "\<not> valid (handles p) e" "\<not> valid (handles r) e"
      "ptr (ptrs (objs k)) (Member e) = None" "cls_thread (sch k) you \<noteq> e"
    and e': "kalloc kp (Suc (kallocs k)) = e'" "unused (handles r) e'" "ptr (ptrs (objs k)) (Member e') = None" "e' \<noteq> e" "\<not> valid (handles p) e'"
    and n: "clock_moves (ticks kp) (hreads (sch k)) (card (dom mr))" and timeout: "timeout = 0 \<or> timeout = - 1"
  shows "\<exists>k' k'' p' r' u. mailbox_write_handler kp me k mb (Token_message t) = Some (Inr (k', Ok)) \<and>
    box_holds k' mb (xs @ [e]) (ms @ [Carried_handle h]) \<and>
    mailbox_read_handler kp you k' mb timeout = Some (Inr (k'', Some Ok, Some (Token_message u))) \<and>
    procs k'' pid = Some p' \<and> holds_table p' (objs k'') (m(t := None)) \<and>
    procs k'' rid = Some r' \<and> mr u = None \<and> holds_table r' (objs k'') (mr(u \<mapsto> g)) \<and>
    box_holds k'' mb (tl (xs @ [e])) (tl (ms @ [Carried_handle h])) \<and>
    handle_at (objs k'') = handle_at (objs k) \<and> quiet_state (Suc c) k''"
proof -
  have "\<forall>x \<in> set xs. \<not> valid (handles p) x" using b(3) by blast
  from write_handler_moves [OF w q b(1) e(1-4,6) this] obtain k' p' a where
    k': "mailbox_write_handler kp me k mb (Token_message t) = Some (Inr (k', Ok))"
      "box_holds k' mb (xs @ [e]) (ms @ [Carried_handle h])" "procs k' = (procs k)(pid \<mapsto> p')" "holds_table p' (objs k') (m(t := None))"
      "quiet_state (Suc c) k'" "same_slots {Member a, Member e} (objs k) (objs k')" "valid (handles p) a" "valid (handles p') = (valid (handles p))(a := False)"
      "sch k' = sch k" "kallocs k' = Suc (kallocs k)" "ptr (ptrs (objs k')) (Member a) = None" .
  have "holds_table r (objs k') mr"
    using r(1,3) k'(7) e(5) by (intro holds_table_frame [OF _ k'(6)]) (auto simp: runs_def)
  moreover have "cls_thread (sch k) you \<noteq> a" "e' \<noteq> a" using r(4) k'(7) e'(5) by auto
  then have same: "ptr (ptrs (objs k')) (Member (cls_thread (sch k) you)) = ptr (ptrs (objs k)) (Member (cls_thread (sch k) you))"
      "ptr (ptrs (objs k')) (Member e') = None"
    using k'(6) e(7) e'(3,4) by (simp_all add: same_slots_def)
  ultimately have runs: "runs k' you rid r mr" using r(1,2) k'(3,9) by (simp add: runs_def)
  define y ys where "y = hd (xs @ [e])" and "ys = tl (xs @ [e])"
  have y: "xs @ [e] = y # ys" by (simp add: y_def ys_def)
  have box: "box_holds k' mb (y # ys) (Carried_handle g # tl (ms @ [Carried_handle h]))"
    using k'(2) b(2) y by (metis append_is_Nil_conv list.collapse not_Cons_self2)
  have set: "set (y # ys) = insert e (set xs)" by (simp only: y [symmetric]) simp
  have fresh: "next_alloc kp k' = e'" "\<forall>x \<in> set (y # ys). \<not> valid (handles r) x" "e' \<notin> set (y # ys)"
    unfolding set using e'(1,4) k'(10) e(5) b(3) by auto
  have "clock_moves (ticks kp) (hreads (sch k')) (card (dom mr))" using n k'(9) by simp
  from read_handler_moves [OF runs k'(5) q(2) box fresh(2,1) e'(2) same(2) fresh(3) this timeout] obtain k'' r' u where
    k'': "mailbox_read_handler kp you k' mb timeout = Some (Inr (k'', Some Ok, Some (Token_message u)))"
      "mr u = None" "procs k'' = (procs k')(rid \<mapsto> r')" "holds_table r' (objs k'') (mr(u \<mapsto> g))"
      "box_holds k'' mb ys (tl (ms @ [Carried_handle h]))" "quiet_state (Suc c) k''" "same_slots {Member y, Member e'} (objs k') (objs k'')" .
  have "y \<in> insert e (set xs)" using set by auto
  then have "holds_table p' (objs k'') (m(t := None))"
    by (intro holds_table_frame [OF k'(4) k''(7)]) (use k'(8) e(4) e'(5) b(3) in \<open>auto split: if_splits\<close>)
  moreover have "handle_at (objs k'') = handle_at (objs k)" using k'(6) k''(7) by (simp add: same_slots_def)
  ultimately show ?thesis
    using k'(1-3) k'' r(2) unfolding ys_def by (intro exI [of _ k'] exI [of _ k''] exI [of _ p'] exI [of _ r'] exI [of _ u]) simp
qed

text \<open>Two processes on two cores, the first with the handle 64 under the token 7, and an empty mailbox at 48.\<close>

definition two_processes :: kernel where
  "two_processes = \<lparr>objs = \<lparr>ptrs = \<lparr>ptr = [Member 8 \<mapsto> 64, Member 16 \<mapsto> 0x1000, Member 24 \<mapsto> 0x2000], intrusive_count = (\<lambda>_. 1),
         alive = (\<lambda>p. p \<in> {48, 64, 0x1000, 0x2000}), deleted = [], kept = (\<lambda>_. 0)(48 := 1)\<rparr>, handle_at = handle_at its_objects\<rparr>,
     procs = [0x1000 \<mapsto> one_token, 0x2000 \<mapsto> new_process 0], boxes = [48 \<mapsto> create_mailbox], vmos = Map.empty, vases = Map.empty,
     mapping_in = Map.empty, messages = \<lparr>valid = (\<lambda>_. False), prev = (\<lambda>_. 0), nxt = (\<lambda>_. 0), tree_parent = (\<lambda>_. 0), val = (\<lambda>_. Handle_payload)\<rparr>,
     thread_contexts = (\<lambda>_. new_context), sch = two_cores\<lparr>cls_thread := (\<lambda>c. if c = 0 then 16 else 24)\<rparr>,
     agg = \<lparr>children = [0, 1], alock = False\<rparr>, phys = pmm_init (\<lambda>_. 0), element_chain = no_chain, vdso_vmo = 0, kallocs = 0\<rparr>"

definition its_parameters :: kparams where
  "its_parameters = \<lparr>hw = ticking, env = alone, kalloc = (\<lambda>n. 0x100 + 8 * of_nat n), perm_read = 4, perm_write = 8, perm_transfer = 1,
     perm_clone = 2, perm_create_mapping = 16, perm_all = 31\<rparr>"

lemma two_processes_counts: "quiet_state 1 two_processes"
proof -
  have "{x. [Member 8 \<mapsto> 64, Member 16 \<mapsto> 0x1000, Member 24 \<mapsto> 0x2000] x = Some (p :: addr)} =
      (if p = 64 then {Member 8} else if p = 0x1000 then {Member 16} else if p = 0x2000 then {Member 24} else {})" for p
    by (auto split: if_splits)
  then have "owners (ptrs (objs two_processes)) p = (if p \<in> {48, 64, 0x1000, 0x2000} then 1 else 0)" for p
    by (simp add: owners_def two_processes_def)
  then show ?thesis by (simp add: quiet_state_def counts_ok_def balanced_def) (simp add: two_processes_def)
qed

lemma two_processes_run:
  "runs two_processes 0 0x1000 one_token [7 \<mapsto> 64]" "runs two_processes 1 0x2000 (new_process 0) Map.empty"
proof -
  have "holds_table one_token (objs two_processes) [7 \<mapsto> 64]" by (rule one_token_holds) (simp add: two_processes_def)
  then show "runs two_processes 0 0x1000 one_token [7 \<mapsto> 64]"
    by (auto simp: runs_def one_token_def two_processes_def two_cores_def)
  have "represents handle_store_less empty_handles []" by (simp add: represents_empty empty_handles_def)
  then show "runs two_processes 1 0x2000 (new_process 0) Map.empty"
    by (auto simp: runs_def two_processes_def two_cores_def holds_table_def new_process_def token_table_def tree_index_def fun_eq_iff
      empty_handles_def intro!: exI [of _ "[]"])
qed

theorem mailbox_moves_handle_witness:
  "\<exists>k' k'' p' r' u. mailbox_write_handler its_parameters 0 two_processes 48 (Token_message 7) = Some (Inr (k', Ok)) \<and>
    box_holds k' 48 ([] @ [0x100]) ([] @ [Carried_handle 64]) \<and>
    mailbox_read_handler its_parameters 1 k' 48 0 = Some (Inr (k'', Some Ok, Some (Token_message u))) \<and>
    procs k'' 0x1000 = Some p' \<and> holds_table p' (objs k'') ([7 \<mapsto> 64](7 := None)) \<and>
    procs k'' 0x2000 = Some r' \<and> Map.empty u = (None :: addr option) \<and> holds_table r' (objs k'') (Map.empty(u \<mapsto> 64)) \<and>
    box_holds k'' 48 (tl ([] @ [0x100])) (tl ([] @ [Carried_handle 64])) \<and>
    handle_at (objs k'') = handle_at (objs two_processes) \<and> quiet_state (Suc 1) k''"
proof (rule mailbox_moves_handle [where e = "0x100" and e' = "0x108", OF two_processes_run(1) _ _ _ _ two_processes_run(2) _ _ _ two_processes_counts])
  show "steady one_token" by (simp add: steady_def root_needs_double_rotation_def one_token_def)
  show "has_permissions (handle_at (objs two_processes) 64) (perm_transfer its_parameters)" "payload_live (objs two_processes) 64"
    by (simp_all add: two_processes_def its_objects_def its_parameters_def has_permissions_def payload_live_def)
  show "box_holds two_processes 48 [] []"
    by (simp add: box_holds_def two_processes_def create_mailbox_def fifo_holds_def message_queue_def)
  show "unused (handles (new_process 0)) 0x108" by (simp add: unused_def new_process_def empty_handles_def aligned8_def)
  have "clock_moves (ticks its_parameters) 0 0" by (auto simp: clock_moves_def its_parameters_def ticking_def intro!: exI [of _ 1])
  then show "clock_moves (ticks its_parameters) (hreads (sch two_processes)) (card (dom (Map.empty :: u64 \<rightharpoonup> addr)))"
    by (simp add: two_processes_def two_cores_def)
qed (simp_all add: two_processes_def two_cores_def its_parameters_def one_token_def new_process_def empty_handles_def)

end
