(* ===== verification/Kernel_Objects.thy ===== *)
theory Kernel_Objects
  imports Kernel_Properties
begin

text \<open>
  Objects that a system call creates: how a new object gets a handle and the handle a token in the table of the
  current process (\<open>create_handle\<close> and \<open>register_for_token\<close>, the end of every handler that creates an object), and what
  \<open>rose_mailbox_create\<close> hands out.
\<close>

section \<open>A handle and a token for an object\<close>

lemma make_intrusive_exec:
  "p \<noteq> nullptr \<Longrightarrow> make_intrusive ps x p =
   Inr (ps\<lparr>ptr := (ptr ps)(x \<mapsto> p), intrusive_count := (intrusive_count ps)(p := 1), alive := (alive ps)(p := True)\<rparr>)"
  by (simp add: make_intrusive_def ptr_wrap_def claim_def in_scope_def fetch_add_count_def new_object_def set_ptr_def)

lemma ptr_copy_exec:
  "ptr ps y = Some p \<Longrightarrow> p \<noteq> nullptr \<Longrightarrow> alive ps p \<Longrightarrow> ptr_copy ps x y =
   Inr (ps\<lparr>ptr := (ptr ps)(x \<mapsto> p), intrusive_count := (intrusive_count ps)(p := intrusive_count ps p + 1)\<rparr>)"
  by (simp add: ptr_copy_def claim_def in_scope_def fetch_add_count_def set_ptr_def)

lemma release_keep_exec:
  "ptr ps x = Some p \<Longrightarrow> release_keep ps x = Inr (ps\<lparr>ptr := (ptr ps)(x \<mapsto> nullptr), kept := (kept ps)(p := kept ps p + 1)\<rparr>, p)"
  by (simp add: release_keep_def in_scope_def set_ptr_def)

lemma ptr_destroy_null: "ptr ps x = Some nullptr \<Longrightarrow> ptr_destroy ps x = Inr (end_scope ps x)"
  by (simp add: ptr_destroy_def disown_def in_scope_def)

text \<open>The state after \<open>create_handle\<close>: the object \<open>q\<close> belongs to the new handle \<open>h\<close>.\<close>

lemma create_handle_makes:
  assumes c: "counts_ok c (ptrs s)" and q: "ptr (ptrs s) (Local x) = Some q"
    and l: "ptr (ptrs s) (Local y) = None" and h: "h \<noteq> nullptr" "\<not> alive (ptrs s) h"
  obtains s' where "create_handle s (Local y) h ty (Local x) pm = Inr s'" "counts_ok (Suc c) (ptrs s')"
    "ptr (ptrs s') = (ptr (ptrs s))(Local x \<mapsto> nullptr, Local y \<mapsto> h)" "alive (ptrs s') = (alive (ptrs s))(h := True)"
    "kept (ptrs s') = (kept (ptrs s))(q := kept (ptrs s) q + 1)"
    "handle_at s' = (handle_at s)(h := \<lparr>htype = ty, payload = q, hdtor = Release_dtor, perms = pm\<rparr>)"
proof -
  let ?ps = "(ptrs s)\<lparr>ptr := (ptr (ptrs s))(Local x \<mapsto> nullptr), kept := (kept (ptrs s))(q := kept (ptrs s) q + 1)\<rparr>"
  have c1: "counts_ok c ?ps" using release_keep_ok [OF c q] release_keep_exec [OF q] by (metis sum.inject(2) prod.inject)
  have "x \<noteq> y" using q l by auto
  then have "ptr ?ps (Local y) = None" "\<not> alive ?ps h" using l h(2) by simp_all
  with make_intrusive_ok [OF c1 _ h(1)] obtain ps where ps: "make_intrusive ?ps (Local y) h = Inr ps" "counts_ok (Suc c) ps" by metis
  let ?s = "s\<lparr>ptrs := ps, handle_at := (handle_at s)(h := \<lparr>htype = ty, payload = q, hdtor = Release_dtor, perms = pm\<rparr>)\<rparr>"
  have "create_handle s (Local y) h ty (Local x) pm = Inr ?s"
    using ps(1) by (simp add: create_handle_def make_handle_def release_keep_exec [OF q])
  moreover have "ptr ps = (ptr (ptrs s))(Local x \<mapsto> nullptr, Local y \<mapsto> h)" "alive ps = (alive (ptrs s))(h := True)"
      "kept ps = (kept (ptrs s))(q := kept (ptrs s) q + 1)"
    using ps(1) h(1) by (auto simp: make_intrusive_exec)
  ultimately show thesis using that [of ?s] ps(2) by simp
qed

lemma register_object_adds:
  assumes w: "runs k me pid p m" and c: "counts_ok c (ptrs (objs k))" "Suc c < 2 ^ 64"
    and q: "ptr (ptrs (objs k)) (Local x) = Some q" and l: "ptr (ptrs (objs k)) (Local ''handle'') = None"
    and h: "next_alloc kp k = h" "h \<noteq> nullptr" "\<not> alive (ptrs (objs k)) h"
    and e: "kalloc kp (Suc (kallocs k)) = e" "unused (handles p) e" "ptr (ptrs (objs k)) (Member e) = None"
    and n: "clock_moves (ticks kp) (hreads (sch k)) (card (dom m))"
  obtains k' p' t n' where "register_object kp me k ty (Local x) pm = Inr (k', t)" "m t = None"
    "k' = k\<lparr>kallocs := Suc (Suc (kallocs k)), procs := (procs k)(pid \<mapsto> p'), sch := (sch k)\<lparr>hreads := n'\<rparr>, objs := objs k'\<rparr>"
    "runs k' me pid p' (m(t \<mapsto> h))" "hreads (sch k) < n'" "counts_ok (Suc c) (ptrs (objs k'))"
    "ptr (ptrs (objs k')) = (ptr (ptrs (objs k)))(Local x \<mapsto> nullptr, Member e \<mapsto> h)" "alive (ptrs (objs k')) = (alive (ptrs (objs k)))(h := True)"
    "kept (ptrs (objs k')) = (kept (ptrs (objs k)))(q := kept (ptrs (objs k)) q + 1)"
    "handle_at (objs k') = (handle_at (objs k))(h := \<lparr>htype = ty, payload = q, hdtor = Release_dtor, perms = pm\<rparr>)"
    "valid (handles p') = (valid (handles p))(e := True)"
proof -
  let ?v = "''handle''" and ?th = "Member (cls_thread (sch k) me)"
  from create_handle_makes [OF c(1) q l h(2,3)] obtain s1 where
    s1: "create_handle (objs k) (Local ?v) h ty (Local x) pm = Inr s1" "counts_ok (Suc c) (ptrs s1)"
      "ptr (ptrs s1) = (ptr (ptrs (objs k)))(Local x \<mapsto> nullptr, Local ?v \<mapsto> h)" "alive (ptrs s1) = (alive (ptrs (objs k)))(h := True)"
      "kept (ptrs s1) = (kept (ptrs (objs k)))(q := kept (ptrs (objs k)) q + 1)"
      "handle_at s1 = (handle_at (objs k))(h := \<lparr>htype = ty, payload = q, hdtor = Release_dtor, perms = pm\<rparr>)" .
  have t: "holds_table p (objs k) m" "procs k pid = Some p" "ptr (ptrs (objs k)) ?th = Some pid" "alive (ptrs s1) pid"
    using w runs_alive [OF w c(1)] s1(4) by (simp_all add: runs_def)
  have t1: "holds_table p s1 m" by (rule holds_table_cong [OF t(1)]) (simp add: s1(3))
  have m1: "ptr (ptrs s1) (Member e) = None" "ptr (ptrs s1) (Local ?v) = Some h" using e(3) s1(3) by simp_all
  from register_refines [OF t1 e(2) m1 h(2) n, of pid] obtain p' s2 t n' where
    r: "register_for_token pid p s1 (Local ?v) e (ticks kp) (hreads (sch k)) = Inr (p', s2, t, n')" "m t = None"
      "holds_table p' s2 (m(t \<mapsto> h))" "hreads (sch k) < n'"
      "s2 = s1\<lparr>ptrs := (ptrs s1)\<lparr>ptr := (ptr (ptrs s1))(Local ?v \<mapsto> nullptr, Member e \<mapsto> h)\<rparr>\<rparr>"
      "valid (handles p') = (valid (handles p))(e := True)" by metis
  have c2: "counts_ok (Suc c) (ptrs s2)" using move_into_element_ok [OF s1(2) m1] r(5) by simp
  let ?s = "s2\<lparr>ptrs := end_scope (ptrs s2) (Local ?v)\<rparr>"
  have nul: "ptr (ptrs s2) (Local ?v) = Some nullptr" using r(5) by simp
  let ?k = "k\<lparr>kallocs := Suc (Suc (kallocs k)), procs := (procs k)(pid \<mapsto> p'), sch := (sch k)\<lparr>hreads := n'\<rparr>, objs := ?s\<rparr>"
  have ps: "ptr (ptrs ?s) = (ptr (ptrs (objs k)))(Local x \<mapsto> nullptr, Member e \<mapsto> h)"
    using l q by (auto simp: r(5) s1(3) fun_eq_iff)
  have th: "ptr (ptrs s1) ?th = Some pid" "?th \<noteq> Member e" using t(3) s1(3) e(3) by auto
  have "holds_table p' ?s (m(t \<mapsto> h))" by (rule holds_table_cong [OF r(3)]) simp
  then have "runs ?k me pid p' (m(t \<mapsto> h))" using w th ps r(6) by (auto simp: runs_def)
  moreover have "register_object kp me k ty (Local x) pm = Inr (?k, t)"
    using s1(1) h(1) th(1) t(2,4) r(1) e(1) drop_null [OF nul]
    by (simp add: register_object_def current_process_def in_scope_def register_with_def)
  moreover have "counts_ok (Suc c) (ptrs ?s)" using end_null_ok [OF c2 nul c(2)] by simp
  ultimately show thesis using that [where k' = ?k and p' = p' and t = t and n' = n'] r ps s1(4-6) by simp
qed

text \<open>The end of a variable from which the object has been moved.\<close>

lemma end_variable:
  assumes w: "runs k me pid p m" and c: "counts_ok c (ptrs (objs k))" "c < 2 ^ 64" and x: "ptr (ptrs (objs k)) (Local x) = Some nullptr"
  obtains k' where "on_ptrs k (\<lambda>ps. ptr_destroy ps (Local x)) = Inr k'" "k' = k\<lparr>objs := (objs k)\<lparr>ptrs := end_scope (ptrs (objs k)) (Local x)\<rparr>\<rparr>"
    "runs k' me pid p m" "counts_ok c (ptrs (objs k'))"
proof -
  let ?k = "k\<lparr>objs := (objs k)\<lparr>ptrs := end_scope (ptrs (objs k)) (Local x)\<rparr>\<rparr>"
  have "holds_table p (objs ?k) m" by (rule holds_table_cong [where s = "objs k"]) (use w in \<open>simp_all add: runs_def\<close>)
  then have "runs ?k me pid p m" using w by (simp add: runs_def)
  then show thesis using that [of ?k] ptr_destroy_null [OF x] end_null_ok [OF c(1) x c(2)] by simp
qed

text \<open>Both steps: what the handlers do with the object in their variable \<open>x\<close>; \<open>v\<close> is the handle it gets, at \<open>h\<close>.\<close>

definition handed_out :: "kernel \<Rightarrow> string \<Rightarrow> handle \<Rightarrow> addr \<Rightarrow> addr \<Rightarrow> kernel \<Rightarrow> bool" where
  "handed_out k x v h e k' \<longleftrightarrow>
     ptr (ptrs (objs k')) = (ptr (ptrs (objs k)))(Local x := None, Member e \<mapsto> h) \<and>
     alive (ptrs (objs k')) = (alive (ptrs (objs k)))(h := True) \<and>
     kept (ptrs (objs k')) = (kept (ptrs (objs k)))(payload v := kept (ptrs (objs k)) (payload v) + 1) \<and>
     handle_at (objs k') = (handle_at (objs k))(h := v) \<and>
     boxes k' = boxes k \<and> kallocs k' = Suc (Suc (kallocs k)) \<and> hreads (sch k) \<le> hreads (sch k')"

lemma object_to_token:
  assumes w: "runs k me pid p m" and c: "counts_ok c (ptrs (objs k))" "Suc c < 2 ^ 64"
    and q: "ptr (ptrs (objs k)) (Local x) = Some q" and l: "ptr (ptrs (objs k)) (Local ''handle'') = None"
    and h: "next_alloc kp k = h" "h \<noteq> nullptr" "\<not> alive (ptrs (objs k)) h"
    and e: "kalloc kp (Suc (kallocs k)) = e" "unused (handles p) e" "ptr (ptrs (objs k)) (Member e) = None"
    and n: "clock_moves (ticks kp) (hreads (sch k)) (card (dom m))"
  obtains k1 k' p' t where "register_object kp me k ty (Local x) pm = Inr (k1, t)" "on_ptrs k1 (\<lambda>ps. ptr_destroy ps (Local x)) = Inr k'"
    "m t = None" "runs k' me pid p' (m(t \<mapsto> h))" "counts_ok (Suc c) (ptrs (objs k'))" "valid (handles p') = (valid (handles p))(e := True)"
    "handed_out k x \<lparr>htype = ty, payload = q, hdtor = Release_dtor, perms = pm\<rparr> h e k'"
proof -
  from register_object_adds [OF assms] obtain k1 p' t n' where r: "register_object kp me k ty (Local x) pm = Inr (k1, t)" "m t = None"
    "k1 = k\<lparr>kallocs := Suc (Suc (kallocs k)), procs := (procs k)(pid \<mapsto> p'), sch := (sch k)\<lparr>hreads := n'\<rparr>, objs := objs k1\<rparr>"
    "runs k1 me pid p' (m(t \<mapsto> h))" "hreads (sch k) < n'" "counts_ok (Suc c) (ptrs (objs k1))"
    "ptr (ptrs (objs k1)) = (ptr (ptrs (objs k)))(Local x \<mapsto> nullptr, Member e \<mapsto> h)" "alive (ptrs (objs k1)) = (alive (ptrs (objs k)))(h := True)"
    "kept (ptrs (objs k1)) = (kept (ptrs (objs k)))(q := kept (ptrs (objs k)) q + 1)"
    "handle_at (objs k1) = (handle_at (objs k))(h := \<lparr>htype = ty, payload = q, hdtor = Release_dtor, perms = pm\<rparr>)"
    "valid (handles p') = (valid (handles p))(e := True)" .
  have "ptr (ptrs (objs k1)) (Local x) = Some nullptr" using r(7) by simp
  from end_variable [OF r(4,6) c(2) this] obtain k' where k': "on_ptrs k1 (\<lambda>ps. ptr_destroy ps (Local x)) = Inr k'"
    "k' = k1\<lparr>objs := (objs k1)\<lparr>ptrs := end_scope (ptrs (objs k1)) (Local x)\<rparr>\<rparr>" "runs k' me pid p' (m(t \<mapsto> h))" "counts_ok (Suc c) (ptrs (objs k'))" .
  have "boxes k1 = boxes k" "kallocs k1 = Suc (Suc (kallocs k))" "hreads (sch k1) = n'" by (subst r(3), simp)+
  then have "handed_out k x \<lparr>htype = ty, payload = q, hdtor = Release_dtor, perms = pm\<rparr> h e k'"
    using r(5,7-10) by (simp add: handed_out_def k'(2) fun_upd_twist)
  with r(1) k'(1) r(2) k'(3,4) r(11) show thesis by (rule that)
qed

section \<open>Mailboxes\<close>

text \<open>The next \<open>n\<close> addresses that the allocator returns are those of no object and of no element of a table.\<close>

definition fresh_addresses :: "kparams \<Rightarrow> kernel \<Rightarrow> process \<Rightarrow> nat \<Rightarrow> bool" where
  "fresh_addresses kp k p n \<longleftrightarrow> (let as = map (\<lambda>i. kalloc kp (kallocs k + i)) [0..<n] in
     distinct as \<and> list_all (\<lambda>a. unused (handles p) a \<and> \<not> alive (ptrs (objs k)) a \<and> ptr (ptrs (objs k)) (Member a) = None) as)"

text \<open>The new mailbox in the variable \<open>mb\<close>, and the copy of the pointer for the first handle.\<close>

definition with_mailbox :: "kernel \<Rightarrow> addr \<Rightarrow> slot pointers \<Rightarrow> kernel" where
  "with_mailbox k mb ps = k\<lparr>kallocs := Suc (kallocs k), boxes := (boxes k)(mb \<mapsto> create_mailbox), objs := (objs k)\<lparr>ptrs := ps\<rparr>\<rparr>"

lemma new_mailbox:
  assumes w: "runs k me pid p m" and q: "quiet_state c k" and mb: "mb \<noteq> nullptr" "\<not> alive (ptrs (objs k)) mb"
  obtains ps1 ps2 where "make_intrusive (ptrs (objs k)) (Local ''mb'') mb = Inr ps1" "ptr_copy ps1 (Local ''ptr'') (Local ''mb'') = Inr ps2"
    "counts_ok (Suc (Suc c)) ps2" "ptr ps2 = (ptr (ptrs (objs k)))(Local ''mb'' \<mapsto> mb, Local ''ptr'' \<mapsto> mb)"
    "alive ps2 = (alive (ptrs (objs k)))(mb := True)" "kept ps2 = kept (ptrs (objs k))"
    "runs (with_mailbox k mb ps2) me pid p m"
proof -
  have c: "counts_ok c (ptrs (objs k))" "ptr (ptrs (objs k)) (Local ''mb'') = None" using q by (simp_all add: quiet_state_def)
  from make_intrusive_ok [OF c mb] obtain ps1 where ps1: "make_intrusive (ptrs (objs k)) (Local ''mb'') mb = Inr ps1" "counts_ok (Suc c) ps1" .
  then have 1: "ptr ps1 = (ptr (ptrs (objs k)))(Local ''mb'' \<mapsto> mb)" "alive ps1 = (alive (ptrs (objs k)))(mb := True)" "kept ps1 = kept (ptrs (objs k))"
    using mb(1) by (auto simp: make_intrusive_exec)
  then have "ptr ps1 (Local ''ptr'') = None" "ptr ps1 (Local ''mb'') = Some mb" using q by (simp_all add: quiet_state_def)
  with ptr_copy_ok [OF ps1(2)] obtain ps2 where ps2: "ptr_copy ps1 (Local ''ptr'') (Local ''mb'') = Inr ps2" "counts_ok (Suc (Suc c)) ps2"
    by (metis option.distinct(1))
  then have 2: "ptr ps2 = (ptr (ptrs (objs k)))(Local ''mb'' \<mapsto> mb, Local ''ptr'' \<mapsto> mb)" "alive ps2 = (alive (ptrs (objs k)))(mb := True)"
      "kept ps2 = kept (ptrs (objs k))"
    using 1 mb(1) by (auto simp: ptr_copy_exec)
  have "holds_table p (objs (with_mailbox k mb ps2)) m"
    by (rule holds_table_cong [where s = "objs k"]) (use w in \<open>simp_all add: runs_def with_mailbox_def 2\<close>)
  then have "runs (with_mailbox k mb ps2) me pid p m" using w by (simp add: runs_def with_mailbox_def 2)
  with ps1(1) ps2 2 show thesis by (rule that)
qed

lemma clock_moves_less: "clock_moves clock n c \<Longrightarrow> c' \<le> c \<Longrightarrow> clock_moves clock n c'"
  unfolding clock_moves_def by (meson le_less_trans)

lemma unowned: "counts_ok c s \<Longrightarrow> p \<noteq> nullptr \<Longrightarrow> \<not> alive s p \<Longrightarrow> kept s p = 0 \<and> ptr s x \<noteq> Some p"
  using kept_alive owned_alive by (metis neq0_conv)

text \<open>A mailbox to which only the two handles refer.\<close>

lemma new_mailbox_holds:
  assumes "boxes k mb = Some create_mailbox" "mb \<noteq> nullptr" and "counts_ok c (ptrs (objs k))"
    and "kept (ptrs (objs k)) mb = 2" "\<And>x. ptr (ptrs (objs k)) x \<noteq> Some mb"
  shows "box_holds k mb [] []" "intrusive_count (ptrs (objs k)) mb = 2" "alive (ptrs (objs k)) mb"
proof -
  show "box_holds k mb [] []"
    using assms by (simp add: box_holds_def create_mailbox_def fifo_holds_def message_queue_def)
  have "owners (ptrs (objs k)) mb = 2" using assms(4,5) by (simp add: owners_def)
  with assms(2,3) show "intrusive_count (ptrs (objs k)) mb = 2" "alive (ptrs (objs k)) mb"
    by (auto simp: counts_ok_def balanced_def)
qed

text \<open>
  C5. Creating a mailbox gives the process two tokens that it did not hold, for two new handles to one new mailbox: the first may
  be used to read, the second to write, both to transfer and to clone. The mailbox is live and empty, no thread
  waits for it, and its count is two, for the two handles. The process keeps every handle it held, no
  other handle changes, and all counts are exact. The allocator returns five addresses that are not in use, and the timer
  goes on moving.
\<close>

theorem mailbox_create_hands_out:
  assumes w: "runs k me pid p m" and q: "quiet_state c k" "c + 4 < 2 ^ 64" and f: "fresh_addresses kp k p 5"
    and n: "\<forall>n \<ge> hreads (sch k). clock_moves (ticks kp) n (Suc (card (dom m)))"
    and mb: "mb = kalloc kp (kallocs k)" and h: "h1 = kalloc kp (kallocs k + 1)" "h2 = kalloc kp (kallocs k + 3)"
  shows "\<exists>k' p' t u. mailbox_create_handler kp me k = Inr (k', Ok, t, u) \<and>
    m t = None \<and> m u = None \<and> t \<noteq> u \<and> runs k' me pid p' (m(t \<mapsto> h1, u \<mapsto> h2)) \<and>
    handle_at (objs k') = (handle_at (objs k))
      (h1 := \<lparr>htype = Mailbox_type, payload = mb, hdtor = Release_dtor, perms = (perm_read kp OR perm_transfer kp) OR perm_clone kp\<rparr>,
       h2 := \<lparr>htype = Mailbox_type, payload = mb, hdtor = Release_dtor, perms = (perm_write kp OR perm_transfer kp) OR perm_clone kp\<rparr>) \<and>
    box_holds k' mb [] [] \<and> alive (ptrs (objs k')) mb \<and> intrusive_count (ptrs (objs k')) mb = 2 \<and> quiet_state (c + 4) k'"
proof -
  define e1 e2 where e: "e1 = kalloc kp (kallocs k + 2)" "e2 = kalloc kp (kallocs k + 4)"
  have al: "kalloc kp (Suc (kallocs k)) = h1" "kalloc kp (Suc (Suc (kallocs k))) = e1" "kalloc kp (Suc (Suc (Suc (kallocs k)))) = h2"
      "kalloc kp (Suc (Suc (Suc (Suc (kallocs k))))) = e2" by (simp_all add: h e eval_nat_numeral)
  have as: "distinct [mb, h1, e1, h2, e2]"
      "list_all (\<lambda>a. unused (handles p) a \<and> \<not> alive (ptrs (objs k)) a \<and> ptr (ptrs (objs k)) (Member a) = None) [mb, h1, e1, h2, e2]"
    using f unfolding fresh_addresses_def Let_def by (simp_all add: mb [symmetric] al eval_nat_numeral)
  then have nz: "mb \<noteq> nullptr" "h1 \<noteq> nullptr" "h2 \<noteq> nullptr" "h1 \<noteq> mb" "h2 \<noteq> mb" "h2 \<noteq> h1" "e2 \<noteq> e1" by (auto simp: unused_def)
  have l: "ptr (ptrs (objs k)) (Local v) = None" for v using q(1) by (simp add: quiet_state_def)
  from new_mailbox [OF w q(1) nz(1)] as obtain ps1 ps2 where
    a: "make_intrusive (ptrs (objs k)) (Local ''mb'') mb = Inr ps1" "ptr_copy ps1 (Local ''ptr'') (Local ''mb'') = Inr ps2"
      "counts_ok (Suc (Suc c)) ps2" "ptr ps2 = (ptr (ptrs (objs k)))(Local ''mb'' \<mapsto> mb, Local ''ptr'' \<mapsto> mb)"
      "alive ps2 = (alive (ptrs (objs k)))(mb := True)" "kept ps2 = kept (ptrs (objs k))" "runs (with_mailbox k mb ps2) me pid p m" by auto
  let ?k2 = "with_mailbox k mb ps2" and ?r = "(perm_read kp OR perm_transfer kp) OR perm_clone kp" and ?w = "(perm_write kp OR perm_transfer kp) OR perm_clone kp"
  let ?v = "\<lambda>pm. \<lparr>htype = Mailbox_type, payload = mb, hdtor = Release_dtor, perms = pm\<rparr>"
  have k2: "objs ?k2 = (objs k)\<lparr>ptrs := ps2\<rparr>" "kallocs ?k2 = Suc (kallocs k)" "sch ?k2 = sch k" "boxes ?k2 mb = Some create_mailbox"
    by (simp_all add: with_mailbox_def)
  obtain k3 k4 p4 t where b: "register_object kp me ?k2 Mailbox_type (Local ''ptr'') ?r = Inr (k3, t)"
      "on_ptrs k3 (\<lambda>ps. ptr_destroy ps (Local ''ptr'')) = Inr k4" "m t = None" "runs k4 me pid p4 (m(t \<mapsto> h1))"
      "counts_ok (Suc (Suc (Suc c))) (ptrs (objs k4))" "valid (handles p4) = (valid (handles p))(e1 := True)" "handed_out ?k2 ''ptr'' (?v ?r) h1 e1 k4"
    by (rule object_to_token [OF a(7), where c = "Suc (Suc c)" and q = mb and x = "''ptr''" and h = h1 and e = e1 and kp = kp and ty = Mailbox_type and pm = ?r])
      (use as nz a q(2) l n in \<open>simp_all add: k2 al clock_moves_less [of _ _ "Suc (card (dom m))"]\<close>)
  note k4 = b(7) [unfolded handed_out_def k2]
  have n4: "clock_moves (ticks kp) (hreads (sch k4)) (card (dom (m(t \<mapsto> h1))))"
    using n k4 by (auto intro: clock_moves_less simp: card_insert_if)
  obtain k5 k6 p6 u where d: "register_object kp me k4 Mailbox_type (Local ''mb'') ?w = Inr (k5, u)"
      "on_ptrs k5 (\<lambda>ps. ptr_destroy ps (Local ''mb'')) = Inr k6" "(m(t \<mapsto> h1)) u = None" "runs k6 me pid p6 (m(t \<mapsto> h1, u \<mapsto> h2))"
      "counts_ok (Suc (Suc (Suc (Suc c)))) (ptrs (objs k6))" "valid (handles p6) = (valid (handles p4))(e2 := True)" "handed_out k4 ''mb'' (?v ?w) h2 e2 k6"
    by (rule object_to_token [OF b(4,5), where q = mb and x = "''mb''" and h = h2 and e = e2 and kp = kp and ty = Mailbox_type and pm = ?w])
      (use as nz a q(2) l n4 k4 b(6) in \<open>simp_all add: al unused_def\<close>)
  note k6 = d(7) [unfolded handed_out_def]
  have un: "kept (ptrs (objs k)) mb = 0" "ptr (ptrs (objs k)) x \<noteq> Some mb" for x
    using unowned [of c "ptrs (objs k)" mb x] q(1) as(2) nz(1) by (simp_all add: quiet_state_def)
  have "ptr (ptrs (objs k6)) x \<noteq> Some mb" for x using k4 k6 un(2) a(4) nz by simp
  note m6 = new_mailbox_holds [OF _ nz(1) d(5) _ this]
  have "box_holds k6 mb [] []" "intrusive_count (ptrs (objs k6)) mb = 2" "alive (ptrs (objs k6)) mb"
    by (rule m6; use k4 k6 un(1) a(6) k2(4) in simp)+
  moreover have "quiet_state (c + 4) k6" using d(5) k4 k6 l a(4) by (simp add: quiet_state_def eval_nat_numeral)
  moreover have "mailbox_create_handler kp me k = Inr (k6, Ok, t, u)"
    using a(1,2) b(1,2) d(1,2) by (simp add: mailbox_create_handler_def mb [symmetric] with_mailbox_def)
  ultimately show ?thesis
    using b(3) d(3,4) k4 k6 by (intro exI [of _ k6] exI [of _ p6] exI [of _ t] exI [of _ u]) (auto split: if_splits)
qed

lemma ticking_moves: "clock_moves (ticks its_parameters) n (Suc (card (dom [7 :: u64 \<mapsto> 64 :: addr])))"
proof -
  have "{n..<n + 3} = {n, n + 1, n + 2}" by auto
  then have "ticks its_parameters ` {n..<n + 3} = {of_nat n, of_nat n + 1, of_nat n + 2}"
    by (simp add: its_parameters_def ticking_def add.commute)
  then have "card (ticks its_parameters ` {n..<n + 3}) = 3" by simp
  then show ?thesis by (auto simp: clock_moves_def intro!: exI [of _ 3])
qed

theorem mailbox_create_hands_out_witness:
  "\<exists>k' p' t u. mailbox_create_handler its_parameters 0 two_processes = Inr (k', Ok, t, u) \<and>
    [7 \<mapsto> 64 :: addr] t = None \<and> [7 \<mapsto> 64 :: addr] u = None \<and> t \<noteq> u \<and> runs k' 0 0x1000 p' ([7 \<mapsto> 64](t \<mapsto> 0x108, u \<mapsto> 0x118)) \<and>
    handle_at (objs k') = (handle_at (objs two_processes))
      (0x108 := \<lparr>htype = Mailbox_type, payload = 0x100, hdtor = Release_dtor,
         perms = (perm_read its_parameters OR perm_transfer its_parameters) OR perm_clone its_parameters\<rparr>,
       0x118 := \<lparr>htype = Mailbox_type, payload = 0x100, hdtor = Release_dtor,
         perms = (perm_write its_parameters OR perm_transfer its_parameters) OR perm_clone its_parameters\<rparr>) \<and>
    box_holds k' 0x100 [] [] \<and> alive (ptrs (objs k')) 0x100 \<and> intrusive_count (ptrs (objs k')) 0x100 = 2 \<and> quiet_state (1 + 4) k'"
proof (rule mailbox_create_hands_out [OF two_processes_run(1) two_processes_counts])
  show "fresh_addresses its_parameters two_processes one_token 5"
    by (simp add: fresh_addresses_def eval_nat_numeral) (simp add: its_parameters_def two_processes_def one_token_def unused_def aligned8_def)
  show "\<forall>n \<ge> hreads (sch two_processes). clock_moves (ticks its_parameters) n (Suc (card (dom [7 :: u64 \<mapsto> 64 :: addr])))"
    using ticking_moves by blast
qed (simp_all add: its_parameters_def two_processes_def)

end
