(* ===== verification/Bootinit_Images.thy ===== *)
theory Bootinit_Images
  imports Elf Cpio Kernel_Result
begin

text \<open>
  The images of a process that the first user process loads (\<open>kernel/bootinit/process.cpp\<close>, \<open>loaded_elf\<close>): an
  executable and its shared objects. An image owns the dependencies that were loaded for it, and points to those
  that were there already. An image is named by its place, the list of indices that leads to it from the
  executable through the arrays of dependencies; a pointer to an image is such a place. The arrays stay where
  they are when an image is moved, so that places are as good as addresses.

  \<open>std::get\<close> of \<open>libraries/rosestd/include/variant\<close> does not look at the index of the variant. Of the wrong
  alternative it is an access to an object that is not there, which is undefined; its value is a fault here.
  \<open>std::rotate\<close> is that of \<open>libraries/rosestd/include/algorithm\<close>.
\<close>

section \<open>Images\<close>

text \<open>What \<open>allocate_array\<close> returns; the contents of an array are with the structure that has it.\<close>

record allocate_array_result =
  arr_ptr :: addr
  arr_size :: u64
  arr_mapping_token :: u64
  arr_vmo_token :: u64

definition no_array :: allocate_array_result where
  "no_array = \<lparr>arr_ptr = nullptr, arr_size = 0, arr_mapping_token = 0, arr_vmo_token = 0\<rparr>"

record segment_mapping =
  seg_storage :: allocate_array_result
  seg_target_mapping_token :: u64

type_synonym place = "nat list"

record elf_info =
  le_filename :: "u8 list"
  le_image :: "view option"
  le_elf :: elf_image
  le_segment_mappings :: "segment_mapping list"
  le_segment_array :: allocate_array_result
  le_dependency_array :: allocate_array_result
  le_elf_base :: u64
  le_init_order :: "place list"
  le_init_order_array :: allocate_array_result

datatype loaded_elf = Loaded_elf elf_info "dependency list"
  and dependency = Owned loaded_elf | Shared place

primrec info :: "loaded_elf \<Rightarrow> elf_info" where
  "info (Loaded_elf e ds) = e"

primrec dependencies :: "loaded_elf \<Rightarrow> dependency list" where
  "dependencies (Loaded_elf e ds) = ds"

definition new_elf :: "u8 list \<Rightarrow> elf_info" where
  "new_elf name = \<lparr>le_filename = name, le_image = None, le_elf = new_image nullptr, le_segment_mappings = [],
     le_segment_array = no_array, le_dependency_array = no_array, le_elf_base = 0, le_init_order = [], le_init_order_array = no_array\<rparr>"

fun image_at :: "loaded_elf \<Rightarrow> place \<Rightarrow> loaded_elf option" where
  "image_at r [] = Some r"
| "image_at (Loaded_elf e ds) (i # p) =
     (if i < length ds then (case ds ! i of Owned d \<Rightarrow> image_at d p | Shared q \<Rightarrow> None) else None)"

text \<open>The place a dependency is at, for the image at the place \<open>self\<close>.\<close>

primrec dependency_place :: "place \<Rightarrow> nat \<Rightarrow> dependency \<Rightarrow> place" where
  "dependency_place self i (Owned d) = self @ [i]"
| "dependency_place self i (Shared p) = p"

text \<open>
  \<open>begin()\<close> of \<open>owned_dependencies\<close> does not skip a pointer: its first step fails if the first dependency is one.
\<close>

fun shared_first :: "dependency list \<Rightarrow> bool" where
  "shared_first (Shared p # ds) = True"
| "shared_first ds = False"

section \<open>Searches and counts\<close>

text \<open>Names are compared as \<open>std::string_view\<close>s, whose \<open>==\<close> also accepts a name and a non-empty prefix of it.\<close>

definition names_equal :: "u8 list \<Rightarrow> u8 list \<Rightarrow> bool" where
  "names_equal lhs rhs \<longleftrightarrow> sv_eq (map (\<lambda>c. char_of (unat c)) lhs) (map (\<lambda>c. char_of (unat c)) rhs)"

fun is_shared_object_prepared :: "u8 list \<Rightarrow> loaded_elf \<Rightarrow> place option result"
  and prepared_in :: "u8 list \<Rightarrow> nat \<Rightarrow> dependency list \<Rightarrow> place option result" where
  "is_shared_object_prepared name (Loaded_elf e ds) =
     (if names_equal (le_filename e) name then Inr (Some []) else prepared_in name 0 ds)"
| "prepared_in name i [] = Inr None"
| "prepared_in name i (Owned d # ds) =
     bnd (is_shared_object_prepared name d) (\<lambda>r.
     case r of Some p \<Rightarrow> Inr (Some (i # p)) | None \<Rightarrow> prepared_in name (Suc i) ds)"
| "prepared_in name i (Shared p # ds) = Inl Fault"

fun elf_depth :: "loaded_elf \<Rightarrow> nat result" and depth_in :: "dependency list \<Rightarrow> nat \<Rightarrow> nat result" where
  "elf_depth (Loaded_elf e ds) =
     (if shared_first ds then Inl Fault else bnd (depth_in ds 0) (\<lambda>ret. Inr (ret + 1)))"
| "depth_in [] ret = Inr ret"
| "depth_in (Owned d # ds) ret = bnd (elf_depth d) (\<lambda>dep_depth. depth_in ds (if dep_depth > ret then dep_depth else ret))"
| "depth_in (Shared p # ds) ret = depth_in ds ret"

fun elf_count :: "(elf_info \<Rightarrow> nat) \<Rightarrow> loaded_elf \<Rightarrow> nat result"
  and count_in :: "(elf_info \<Rightarrow> nat) \<Rightarrow> dependency list \<Rightarrow> nat \<Rightarrow> nat result" where
  "elf_count f (Loaded_elf e ds) = (if shared_first ds then Inl Fault else count_in f ds (f e))"
| "count_in f [] ret = Inr ret"
| "count_in f (Owned d # ds) ret = bnd (elf_count f d) (\<lambda>n. count_in f ds (ret + n))"
| "count_in f (Shared p # ds) ret = count_in f ds ret"

text \<open>\<open>count\<close>, and the three members that \<open>DEFINE_COUNT_MEMBER\<close> makes.\<close>

definition image_count :: "loaded_elf \<Rightarrow> nat result" where
  "image_count = elf_count (\<lambda>_. 1)"

definition table_count :: "(elf_image \<Rightarrow> function_table_descriptor option) \<Rightarrow> loaded_elf \<Rightarrow> nat result" where
  "table_count get = elf_count (\<lambda>e. if get (le_elf e) \<noteq> None then 1 else 0)"

section \<open>Rotation\<close>

text \<open>
  \<open>std::rotate\<close> of an array, to the element with the index \<open>middle\<close>. One cycle of \<open>__rotate_random_access\<close> ends
  when an index is its own target.
\<close>

definition iter_swap :: "'a list \<Rightarrow> nat \<Rightarrow> nat \<Rightarrow> 'a list" where
  "iter_swap xs i j = xs[i := xs ! j, j := xs ! i]"

partial_function (option) rotate_cycle :: "nat \<Rightarrow> nat \<Rightarrow> nat \<Rightarrow> nat \<Rightarrow> 'a list \<Rightarrow> 'a list option" where
  "rotate_cycle tail_count total_count curr_loc current xs =
     (let target = (if current + tail_count \<ge> total_count then current + tail_count - total_count else current + tail_count)
      in if current = target then Some xs
         else rotate_cycle tail_count total_count curr_loc target (iter_swap xs curr_loc target))"

fun rotate_cycles :: "nat \<Rightarrow> nat \<Rightarrow> nat list \<Rightarrow> 'a list \<Rightarrow> 'a list option" where
  "rotate_cycles tail_count total_count [] xs = Some xs"
| "rotate_cycles tail_count total_count (i # is) xs =
     (case rotate_cycle tail_count total_count i i xs of None \<Rightarrow> None | Some xs \<Rightarrow> rotate_cycles tail_count total_count is xs)"

definition rotate_to :: "nat \<Rightarrow> 'a list \<Rightarrow> 'a list option" where
  "rotate_to middle xs =
     (if middle = 0 \<or> middle = length xs then Some xs
      else rotate_cycles (length xs - middle) (length xs) [0 ..< gcd (length xs) (length xs - middle)] xs)"

section \<open>The order of initialisation\<close>

text \<open>A counted loop whose body may not return.\<close>

lemma obnd_cong [fundef_cong]:
  "r = r' \<Longrightarrow> (\<And>x. r' = Some (Inr x) \<Longrightarrow> f x = f' x) \<Longrightarrow> obnd r f = obnd r' f'"
  by (cases r') (auto simp: obnd_def split: sum.splits)

lemma obnd_assoc: "obnd (obnd r f) g = obnd r (\<lambda>x. obnd (f x) g)"
  by (auto simp: obnd_def split: bind_splits sum.splits)

fun oeach :: "('x \<Rightarrow> 's \<Rightarrow> 's result option) \<Rightarrow> 'x list \<Rightarrow> 's \<Rightarrow> 's result option" where
  "oeach f [] s = Some (Inr s)"
| "oeach f (x # xs) s = obnd (f x s) (oeach f xs)"

text \<open>
  The array is filled from its end. The state is the number of free cells at its start, and the cells after them.
  \<open>place_front\<close> writes a cell, or rotates the one that has the pointer to the front.
\<close>

type_synonym order = "nat \<times> place list"

definition place_front :: "place \<Rightarrow> order \<Rightarrow> order result option" where
  "place_front p st = (case st of (remaining, cells) \<Rightarrow>
     if p \<notin> set cells
     then Some (if remaining = 0 then Inl Fault else Inr (remaining - 1, p # cells))
     else let it = length (takeWhile (\<lambda>q. q \<noteq> p) cells)
          in map_option (\<lambda>front. Inr (remaining, front @ drop (it + 1) cells)) (rotate_to it (take (it + 1) cells)))"

fun place_dependencies :: "place \<Rightarrow> nat \<Rightarrow> dependency list \<Rightarrow> order \<Rightarrow> order result option" where
  "place_dependencies self i [] st = Some (Inr st)"
| "place_dependencies self i (d # ds) st =
     obnd (place_front (dependency_place self i d) st) (place_dependencies self (Suc i) ds)"

fun compute_init_order_at_depth :: "nat \<Rightarrow> place \<Rightarrow> loaded_elf \<Rightarrow> order \<Rightarrow> order result option"
  and order_in :: "nat \<Rightarrow> place \<Rightarrow> nat \<Rightarrow> dependency list \<Rightarrow> order \<Rightarrow> order result option" where
  "compute_init_order_at_depth 0 self (Loaded_elf e ds) st = place_dependencies self 0 ds st"
| "compute_init_order_at_depth (Suc n) self (Loaded_elf e ds) st =
     (if shared_first ds then Some (Inl Fault) else order_in n self 0 ds st)"
| "order_in n self i [] st = Some (Inr st)"
| "order_in n self i (Owned d # ds) st =
     obnd (compute_init_order_at_depth n (self @ [i]) d st) (order_in n self (Suc i) ds)"
| "order_in n self i (Shared p # ds) st = order_in n self (Suc i) ds st"

definition compute_init_order :: "loaded_elf \<Rightarrow> place list result option" where
  "compute_init_order r =
     obnd (Some (elf_depth r)) (\<lambda>depth.
     obnd (Some (image_count r)) (\<lambda>n.
     obnd (oeach (\<lambda>i. compute_init_order_at_depth i [] r) [0 ..< depth] (n - 1, [[]])) (\<lambda>(remaining, cells).
     Some (if remaining \<noteq> 0 then Inl (Panic ''load_all did not fill the entire init order array!'') else Inr cells))))"

text \<open>What the three visitors call their argument with: the begin and the end of the table of an image.\<close>

fun visit_tables :: "(elf_image \<Rightarrow> function_table_descriptor option) \<Rightarrow> loaded_elf \<Rightarrow> place list \<Rightarrow> (u64 \<times> u64) list result" where
  "visit_tables get r [] = Inr []"
| "visit_tables get r (p # ps) =
     bnd (deref (image_at r p)) (\<lambda>elf.
     bnd (visit_tables get r ps) (\<lambda>vs.
     Inr (case get (le_elf (info elf)) of
            Some t \<Rightarrow> (le_elf_base (info elf) + fd_offset t, le_elf_base (info elf) + fd_offset t + fd_byte_size t) # vs
          | None \<Rightarrow> vs)))"

definition visit_all_preinits :: "loaded_elf \<Rightarrow> place list \<Rightarrow> (u64 \<times> u64) list result" where
  "visit_all_preinits r init_order = visit_tables img_preinit r init_order"

definition visit_all_inits :: "loaded_elf \<Rightarrow> place list \<Rightarrow> (u64 \<times> u64) list result" where
  "visit_all_inits r init_order = visit_tables img_init r init_order"

definition visit_all_finis :: "loaded_elf \<Rightarrow> place list \<Rightarrow> (u64 \<times> u64) list result" where
  "visit_all_finis r init_order = visit_tables img_fini r (rev init_order)"

section \<open>Symbols\<close>

text \<open>The loop over the symbols of one image; the result \<^const>\<open>None\<close> is a name without an end.\<close>

partial_function (option) symbol_loop :: "bytes \<Rightarrow> elf_info \<Rightarrow> u8 list \<Rightarrow> u64 \<Rightarrow> u64 option option" where
  "symbol_loop m e name i =
     (if i = tab_end (symbols_table (le_elf e)) then Some None
      else case name_in m (img_strtab (le_elf e)) (symbol_at m (entry_at (symbols_table (le_elf e)) i)) of
             None \<Rightarrow> None
           | Some n \<Rightarrow>
               if names_equal n name \<and> is_defined (symbol_at m (entry_at (symbols_table (le_elf e)) i))
               then Some (Some (le_elf_base e + st_value (symbol_at m (entry_at (symbols_table (le_elf e)) i))))
               else symbol_loop m e name (i + 1))"

definition symbol_in :: "bytes \<Rightarrow> elf_info \<Rightarrow> u8 list \<Rightarrow> u64 option option" where
  "symbol_in m e name = symbol_loop m e name (tab_begin (symbols_table (le_elf e)))"

text \<open>The search follows owned and shared dependencies alike; \<open>r\<close> is the executable, which places start from.\<close>

fun first_found :: "('x \<Rightarrow> 'y option result option) \<Rightarrow> 'x list \<Rightarrow> 'y option result option" where
  "first_found f [] = Some (Inr None)"
| "first_found f (x # xs) = obnd (f x) (\<lambda>maybe. if maybe \<noteq> None then Some (Inr maybe) else first_found f xs)"

primrec dependency_image :: "loaded_elf \<Rightarrow> dependency \<Rightarrow> loaded_elf result" where
  "dependency_image r (Owned d) = Inr d"
| "dependency_image r (Shared p) = deref (image_at r p)"

primrec find_symbol_definition_at_depth ::
    "bytes \<Rightarrow> loaded_elf \<Rightarrow> u8 list \<Rightarrow> nat \<Rightarrow> loaded_elf \<Rightarrow> u64 option result option" where
  "find_symbol_definition_at_depth m r name 0 elf = map_option Inr (symbol_in m (info elf) name)"
| "find_symbol_definition_at_depth m r name (Suc n) elf =
     first_found (\<lambda>d. obnd (Some (dependency_image r d)) (find_symbol_definition_at_depth m r name n)) (dependencies elf)"

definition find_symbol_definition :: "bytes \<Rightarrow> loaded_elf \<Rightarrow> u8 list \<Rightarrow> nat \<Rightarrow> u64 option result option" where
  "find_symbol_definition m r name depth =
     first_found (\<lambda>i. find_symbol_definition_at_depth m r name i r) [0 ..< depth]"

section \<open>Places by depth\<close>

text \<open>
  The places of a tree of images, level by level from left to right. Only owned dependencies have places of their own.
\<close>

fun level :: "nat \<Rightarrow> place \<Rightarrow> loaded_elf \<Rightarrow> place list" and level_in :: "nat \<Rightarrow> place \<Rightarrow> nat \<Rightarrow> dependency list \<Rightarrow> place list" where
  "level 0 self elf = [self]"
| "level (Suc n) self (Loaded_elf e ds) = level_in n self 0 ds"
| "level_in n self i [] = []"
| "level_in n self i (Owned d # ds) = level n (self @ [i]) d @ level_in n self (Suc i) ds"
| "level_in n self i (Shared p # ds) = level_in n self (Suc i) ds"

fun owned_only :: "loaded_elf \<Rightarrow> bool" and owned_in :: "dependency list \<Rightarrow> bool" where
  "owned_only (Loaded_elf e ds) = owned_in ds"
| "owned_in [] = True"
| "owned_in (Owned d # ds) = (owned_only d \<and> owned_in ds)"
| "owned_in (Shared p # ds) = False"

fun images :: "loaded_elf \<Rightarrow> nat" and images_in :: "dependency list \<Rightarrow> nat" where
  "images (Loaded_elf e ds) = Suc (images_in ds)"
| "images_in [] = 0"
| "images_in (Owned d # ds) = images d + images_in ds"
| "images_in (Shared p # ds) = images_in ds"

fun levels :: "loaded_elf \<Rightarrow> nat" and levels_in :: "dependency list \<Rightarrow> nat" where
  "levels (Loaded_elf e ds) = Suc (levels_in ds)"
| "levels_in [] = 0"
| "levels_in (Owned d # ds) = max (levels d) (levels_in ds)"
| "levels_in (Shared p # ds) = levels_in ds"

lemma not_shared_first: "owned_in ds \<Longrightarrow> \<not> shared_first ds"
  by (cases ds rule: shared_first.cases) auto

lemma image_at_cons:
  "image_at r (i # p) = (if i < length (dependencies r) then (case dependencies r ! i of Owned d \<Rightarrow> image_at d p | Shared q \<Rightarrow> None) else None)"
  by (cases r) simp

lemma image_at_step:
  "image_at r (i # p) \<noteq> None \<longleftrightarrow> (\<exists>d. i < length (dependencies r) \<and> dependencies r ! i = Owned d \<and> image_at d p \<noteq> None)"
  by (auto simp: image_at_cons split: dependency.splits)

lemma level_in_iff:
  "q \<in> set (level_in n self i ds) \<longleftrightarrow> (\<exists>j d. j < length ds \<and> ds ! j = Owned d \<and> q \<in> set (level n (self @ [i + j]) d))"
proof (induction ds arbitrary: i)
  case (Cons x ds)
  have split: "(\<exists>j d. j < length (x # ds) \<and> (x # ds) ! j = Owned d \<and> q \<in> set (level n (self @ [i + j]) d)) \<longleftrightarrow>
      (\<exists>d. x = Owned d \<and> q \<in> set (level n (self @ [i]) d)) \<or>
      (\<exists>j d. j < length ds \<and> ds ! j = Owned d \<and> q \<in> set (level n (self @ [Suc i + j]) d))"
    by (auto simp: less_Suc_eq_0_disj)
  show ?case unfolding split using Cons.IH [of "Suc i"] by (cases x) auto
qed simp

lemma level_places: "q \<in> set (level n self r) \<longleftrightarrow> (\<exists>p. q = self @ p \<and> length p = n \<and> image_at r p \<noteq> None)"
proof (induction n arbitrary: self r)
  case (Suc n)
  obtain e ds where r: "r = Loaded_elf e ds" by (cases r)
  have "q \<in> set (level (Suc n) self r) \<longleftrightarrow> (\<exists>j d p. j < length ds \<and> ds ! j = Owned d \<and> q = self @ j # p \<and> length p = n \<and> image_at d p \<noteq> None)"
    by (auto simp: r level_in_iff Suc.IH)
  also have "\<dots> \<longleftrightarrow> (\<exists>j p. q = self @ j # p \<and> length p = n \<and> image_at r (j # p) \<noteq> None)"
    unfolding image_at_step by (auto simp: r)
  also have "\<dots> \<longleftrightarrow> (\<exists>p. q = self @ p \<and> length p = Suc n \<and> image_at r p \<noteq> None)"
    by (metis length_Suc_conv)
  finally show ?case .
qed simp

lemma level_in_distinct: "(\<And>self d. Owned d \<in> set ds \<Longrightarrow> distinct (level n self d)) \<Longrightarrow> distinct (level_in n self i ds)"
proof (induction ds arbitrary: i)
  case (Cons x ds)
  have "distinct (level_in n self (Suc i) ds)" using Cons by simp
  then show ?case using Cons.prems by (cases x) (auto simp: level_in_iff level_places)
qed simp

lemma level_distinct: "distinct (level n self r)"
  by (induction n arbitrary: self r) (simp, metis level.simps(2) level_in_distinct loaded_elf.exhaust)

lemma level_count:
  "levels r \<le> n \<Longrightarrow> (\<Sum>i < n. length (level i self r)) = images r"
  "levels_in ds \<le> n \<Longrightarrow> (\<Sum>k < n. length (level_in k self i ds)) = images_in ds"
proof (induction r and ds arbitrary: n self and n self i rule: levels_levels_in.induct)
  case (1 e ds)
  then obtain k where "n = Suc k" "levels_in ds \<le> k" by (cases n) auto
  with 1 show ?case by (simp add: sum.lessThan_Suc_shift del: sum.lessThan_Suc)
qed (simp_all add: sum.distrib)

lemma level_sorted: "sorted (map length (concat (map (\<lambda>i. level i [] r) [0 ..< n])))"
proof (induction n)
  case (Suc n)
  have "length p \<le> n" if "p \<in> set (concat (map (\<lambda>i. level i [] r) [0 ..< n]))" for p
    using that by (auto simp: level_places)
  moreover have "\<forall>p \<in> set (level n [] r). length p = n" by (auto simp: level_places)
  then have "map length (level n [] r) = replicate (length (level n [] r)) n" by (simp add: map_replicate_const cong: map_cong)
  ultimately show ?case using Suc by (force simp: sorted_append)
qed simp

lemma levels_distinct: "distinct (concat (map (\<lambda>i. level i [] r) [0 ..< n]))"
  by (induction n) (auto simp: level_distinct level_places)

lemma image_at_levels: "image_at r p \<noteq> None \<Longrightarrow> length p < levels r"
  "(\<exists>j d. j < length ds \<and> ds ! j = Owned d \<and> image_at d p \<noteq> None) \<Longrightarrow> length p < levels_in ds"
proof (induction r and ds arbitrary: p and p rule: levels_levels_in.induct)
  case (1 e ds)
  then show ?case by (cases p) (auto split: if_splits dependency.splits)
next
  case (3 d ds)
  then show ?case by (auto simp: less_Suc_eq_0_disj nth_Cons' less_max_iff_disj split: if_splits) blast
next
  case (4 q ds)
  from 4(2) obtain j d where "j < length ds" "ds ! j = Owned d" "image_at d p \<noteq> None" by (auto simp: less_Suc_eq_0_disj)
  with 4(1) [of p] show ?case by auto
qed simp

section \<open>Images are initialised after what they depend on\<close>

lemma oeach_append: "oeach f (xs @ ys) s = obnd (oeach f xs s) (oeach f ys)"
  by (induction xs arbitrary: s) (auto simp: obnd_assoc intro!: obnd_cong)

lemma oeach_oeach: "oeach (\<lambda>x. oeach f (g x)) xs s = oeach f (concat (map g xs)) s"
  by (induction xs arbitrary: s) (auto simp: oeach_append intro!: obnd_cong)

lemma each_place_front:
  "distinct ps \<Longrightarrow> set ps \<inter> set cells = {} \<Longrightarrow> length ps \<le> remaining \<Longrightarrow>
   oeach place_front ps (remaining, cells) = Some (Inr (remaining - length ps, rev ps @ cells))"
  by (induction ps arbitrary: remaining cells) (auto simp: place_front_def)

lemma place_dependencies_each: "owned_in ds \<Longrightarrow> place_dependencies self i ds = oeach place_front (level_in 0 self i ds)"
proof (induction ds arbitrary: i)
  case (Cons d ds)
  then show ?case by (cases d) (auto intro!: ext)
qed (auto intro: ext)

lemma order_each:
  "owned_only r \<Longrightarrow> compute_init_order_at_depth n self r st = oeach place_front (level (Suc n) self r) st"
  "owned_in ds \<Longrightarrow> order_in n self i ds st = oeach place_front (level_in (Suc n) self i ds) st"
proof (induction n self r st and n self i ds st rule: compute_init_order_at_depth_order_in.induct)
  case (1 self e ds st)
  then show ?case by (simp add: place_dependencies_each)
next
  case (2 n self e ds st)
  then show ?case by (auto dest: not_shared_first)
next
  case (4 n self i d ds st)
  then show ?case by (auto simp: oeach_append intro!: obnd_cong)
qed auto

lemma count_images: "owned_only r \<Longrightarrow> elf_count (\<lambda>_. 1) r = Inr (images r)"
  "owned_in ds \<Longrightarrow> count_in (\<lambda>_. 1) ds ret = Inr (ret + images_in ds)"
  by (induction r and ds arbitrary: and ret rule: levels_levels_in.induct) (auto dest: not_shared_first)

lemma depth_levels:
  "\<not> (\<exists>p s. image_at r p = Some s \<and> shared_first (dependencies s)) \<Longrightarrow> elf_depth r = Inr (levels r)"
  "\<not> (\<exists>j d p s. j < length ds \<and> ds ! j = Owned d \<and> image_at d p = Some s \<and> shared_first (dependencies s)) \<Longrightarrow>
   depth_in ds ret = Inr (max ret (levels_in ds))"
proof (induction r and ds arbitrary: and ret rule: levels_levels_in.induct)
  case (1 e ds)
  have "\<not> shared_first ds" using 1(2) by (metis dependencies.simps image_at.simps(1))
  moreover have "\<not> (\<exists>j d p s. j < length ds \<and> ds ! j = Owned d \<and> image_at d p = Some s \<and> shared_first (dependencies s))"
  proof
    assume "\<exists>j d p s. j < length ds \<and> ds ! j = Owned d \<and> image_at d p = Some s \<and> shared_first (dependencies s)"
    then obtain j d p s where "j < length ds" "ds ! j = Owned d" "image_at d p = Some s" "shared_first (dependencies s)" by blast
    then have "image_at (Loaded_elf e ds) (j # p) = Some s" "shared_first (dependencies s)" by simp_all
    with 1(2) show False by blast
  qed
  ultimately show ?case using 1(1) by simp
next
  case (3 d ds)
  have "elf_depth d = Inr (levels d)" using 3(3) by (intro 3(1)) (metis length_greater_0_conv list.distinct(1) nth_Cons_0)
  moreover have "\<not> (\<exists>j d p s. j < length ds \<and> ds ! j = Owned d \<and> image_at d p = Some s \<and> shared_first (dependencies s))"
    using 3(3) by (metis Suc_less_eq length_Cons nth_Cons_Suc)
  ultimately show ?case using 3(2) by (simp add: max.commute max.left_commute max_def)
next
  case (4 q ds)
  have "\<not> (\<exists>j d p s. j < length ds \<and> ds ! j = Owned d \<and> image_at d p = Some s \<and> shared_first (dependencies s))"
    using 4(2) by (metis Suc_less_eq length_Cons nth_Cons_Suc)
  with 4(1) show ?case by simp
qed simp

lemma depth_error:
  "elf_depth r = Inl err \<Longrightarrow> err = Fault"
  "depth_in ds ret = Inl err \<Longrightarrow> err = Fault"
  by (induction r and ds ret rule: elf_depth_depth_in.induct) (auto simp: bnd_Inl_iff split: if_splits)

lemma depth_in_fails: "Owned d \<in> set ds \<Longrightarrow> elf_depth d = Inl err \<Longrightarrow> depth_in ds ret = Inl Fault"
proof (induction ds arbitrary: ret)
  case (Cons x ds)
  then show ?case
    by (cases x; cases "elf_depth (case x of Owned d \<Rightarrow> d | Shared p \<Rightarrow> d)") (auto dest: depth_error)
qed simp

lemma depth_fails:
  "image_at r p = Some s \<Longrightarrow> shared_first (dependencies s) \<Longrightarrow> elf_depth r = Inl Fault"
proof (induction p arbitrary: r)
  case Nil
  then show ?case by (cases r) auto
next
  case (Cons i p)
  obtain e ds where r: "r = Loaded_elf e ds" by (cases r)
  with Cons obtain d where d: "i < length ds" "ds ! i = Owned d" "elf_depth d = Inl Fault"
    by (auto split: if_splits dependency.splits)
  then have "Owned d \<in> set ds" by (metis nth_mem)
  with depth_in_fails [OF this d(3), of 0] show ?case by (simp add: r)
qed

lemma owned_member: "owned_in ds \<Longrightarrow> Owned d \<in> set ds \<Longrightarrow> owned_only d"
proof (induction ds)
  case (Cons x ds)
  then show ?case by (cases x) auto
qed simp

lemma owned_not_shared: "owned_only r \<Longrightarrow> image_at r p = Some s \<Longrightarrow> owned_only s"
proof (induction p arbitrary: r)
  case (Cons i p)
  obtain e ds where r: "r = Loaded_elf e ds" by (cases r)
  with Cons.prems obtain d where d: "i < length ds" "ds ! i = Owned d" "image_at d p = Some s"
    by (auto split: if_splits dependency.splits)
  then have "owned_only d" using Cons.prems(1) r by (metis nth_mem owned_only.simps owned_member)
  with Cons.IH d(3) show ?case by blast
qed simp

text \<open>
  C17. The order of initialisation is right for images that share no dependencies: \<open>compute_init_order\<close> returns, its
  result has every image exactly once, and every image comes after the images it depends on.
\<close>

theorem init_order_after_dependencies:
  assumes "owned_only r"
  shows "\<exists>order. compute_init_order r = Some (Inr order) \<and> distinct order \<and> set order = {p. image_at r p \<noteq> None} \<and>
    (\<forall>xs p ys i. order = xs @ p # ys \<longrightarrow> image_at r (p @ [i]) \<noteq> None \<longrightarrow> p @ [i] \<in> set xs)"
proof -
  let ?ls = "\<lambda>n. concat (map (\<lambda>i. level i [] r) [0 ..< n])" and ?d = "levels r"
  have [simp]: "elf_depth r = Inr ?d" using assms by (intro depth_levels) (metis loaded_elf.exhaust dependencies.simps not_shared_first owned_not_shared owned_only.simps)
  have len: "length (?ls n) = (\<Sum>i < n. length (level i [] r))" for n by (induction n) auto
  have split: "?ls (Suc n) = [] # concat (map (\<lambda>i. level (Suc i) [] r) [0 ..< n])" for n
    by (induction n) auto
  let ?ps = "concat (map (\<lambda>i. level (Suc i) [] r) [0 ..< ?d])"
  have "length ([] # ?ps) = images r" unfolding split [symmetric] len by (rule level_count(1)) simp
  then have n: "length ?ps = images r - 1" by simp
  have "distinct ([] # ?ps)" unfolding split [symmetric] by (rule levels_distinct)
  then have "oeach place_front ?ps (images r - 1, [[]]) = Some (Inr (0, rev ?ps @ [[]]))"
    using each_place_front [of ?ps "[[]]" "images r - 1"] n by simp
  then have "oeach (\<lambda>i. compute_init_order_at_depth i [] r) [0 ..< ?d] (images r - 1, [[]]) = Some (Inr (0, rev ?ps @ [[]]))"
    unfolding order_each(1) [OF assms] oeach_oeach .
  then have "compute_init_order r = Some (Inr (rev (?ls (Suc ?d))))"
    unfolding split using count_images(1) [OF assms] by (simp add: compute_init_order_def image_count_def)
  moreover have "set (?ls (Suc ?d)) = {p. image_at r p \<noteq> None}"
    using image_at_levels(1) [of r] by (force simp: level_places)
  moreover have "p @ [i] \<in> set xs" if "rev (?ls (Suc ?d)) = xs @ p # ys" "image_at r (p @ [i]) \<noteq> None" for xs p ys i
  proof -
    have e: "?ls (Suc ?d) = rev ys @ p # rev xs" using that(1) by (metis append.assoc append_Cons append_Nil rev_append rev_rev_ident rev.simps(2))
    have "length q \<le> length p" if "q \<in> set ys" for q
      using level_sorted [of r "Suc ?d"] that unfolding e by (auto simp: sorted_append)
    then have "p @ [i] \<notin> set ys" by force
    moreover have "p @ [i] \<in> set (?ls (Suc ?d))" using that(2) \<open>set (?ls (Suc ?d)) = _\<close> by blast
    ultimately show ?thesis unfolding e by auto
  qed
  ultimately show ?thesis using levels_distinct [of r "Suc ?d"] by (intro exI [of _ "rev (?ls (Suc ?d))"]) auto
qed

text \<open>An executable with two libraries, the first of which has one of its own.\<close>

definition some_image :: "u8 list \<Rightarrow> dependency list \<Rightarrow> loaded_elf" where
  "some_image name ds = Loaded_elf (new_elf name) ds"

definition three_libraries :: loaded_elf where
  "three_libraries = some_image [1] [Owned (some_image [2] [Owned (some_image [3] [])]), Owned (some_image [4] [])]"

theorem init_order_after_dependencies_witness:
  "owned_only three_libraries \<and> compute_init_order three_libraries = Some (Inr [[0, 0], [1], [0], []]) \<and>
   (\<exists>order. compute_init_order three_libraries = Some (Inr order) \<and> distinct order \<and> set order = {p. image_at three_libraries p \<noteq> None} \<and>
    (\<forall>xs p ys i. order = xs @ p # ys \<longrightarrow> image_at three_libraries (p @ [i]) \<noteq> None \<longrightarrow> p @ [i] \<in> set xs))"
proof (intro conjI)
  show o: "owned_only three_libraries" by (simp add: three_libraries_def some_image_def)
  show "compute_init_order three_libraries = Some (Inr [[0, 0], [1], [0], []])"
    by (simp add: three_libraries_def some_image_def compute_init_order_def image_count_def place_front_def upt_rec numeral_2_eq_2)
  show "\<exists>order. compute_init_order three_libraries = Some (Inr order) \<and> distinct order \<and> set order = {p. image_at three_libraries p \<noteq> None} \<and>
    (\<forall>xs p ys i. order = xs @ p # ys \<longrightarrow> image_at three_libraries (p @ [i]) \<noteq> None \<longrightarrow> p @ [i] \<in> set xs)"
    by (rule init_order_after_dependencies [OF o])
qed

text \<open>
  \<open>depth()\<close>, and with it starting a process, reads the wrong alternative of a variant exactly when an image has a
  first dependency that was already loaded for another image: the iterator over owned dependencies begins
  at index 0 whatever is there.
\<close>

lemma depth_fails_on_shared_first:
  "elf_depth r = Inl Fault \<longleftrightarrow> (\<exists>p s. image_at r p = Some s \<and> shared_first (dependencies s))"
proof
  show "elf_depth r = Inl Fault \<Longrightarrow> \<exists>p s. image_at r p = Some s \<and> shared_first (dependencies s)"
    using depth_levels(1) [of r] by (metis sum.distinct(1))
qed (blast intro: depth_fails)

section \<open>Rotation does not end\<close>

lemma rotate_cycle_diverges:
  assumes "0 < tail_count" and "tail_count < total_count"
  shows "rotate_cycle tail_count total_count curr_loc current xs = None"
proof -
  have "\<not> (0 < t \<and> t < n)" if "rotate_cycle t n loc c zs = Some ys" for t n loc c and zs ys :: "'a list"
    using that by (rule rotate_cycle.raw_induct [rotated]) (auto simp: Let_def split: if_splits)
  with assms have "rotate_cycle tail_count total_count curr_loc current xs \<noteq> Some ys" for ys by blast
  then show ?thesis by (cases "rotate_cycle tail_count total_count curr_loc current xs") auto
qed

lemma rotate_to_diverges: "0 < middle \<Longrightarrow> middle < length xs \<Longrightarrow> rotate_to middle xs = None"
proof -
  assume m: "0 < middle" "middle < length xs"
  then have "0 < gcd (length xs) (length xs - middle)" by simp
  then obtain n where "gcd (length xs) (length xs - middle) = Suc n" using gr0_implies_Suc by blast
  with m show ?thesis by (simp add: rotate_to_def upt_rec rotate_cycle_diverges)
qed

text \<open>
  C40. \<open>std::rotate\<close> of an array never returns when there is something to rotate: a cycle is left only when an index is
  its own target, which never is the case, instead of when it is back at its start.
\<close>

theorem rotate_never_returns:
  assumes "0 < middle" and "middle < length xs"
  shows "rotate_to middle xs = None"
  using assms by (rule rotate_to_diverges)

theorem rotate_never_returns_witness: "rotate_to 2 [10, 20, 30 :: nat] = None"
  by (rule rotate_never_returns) simp_all

text \<open>
  So a process does not start when a dependency is shared and has to be moved. The executable needs \<open>d\<close>, and a
  library that needs \<open>x\<close> and \<open>d\<close>.
\<close>

lemma init_order_shared_hangs:
  "compute_init_order (Loaded_elf main [Owned (Loaded_elf d []), Owned (Loaded_elf lib [Owned (Loaded_elf x []), Shared [0]])]) = None"
  by (simp add: compute_init_order_def image_count_def place_front_def rotate_to_diverges upt_rec numeral_3_eq_3 numeral_2_eq_2)

section \<open>Symbols are found at the least depth\<close>

text \<open>The images that \<open>n\<close> steps along dependencies lead to, owned and shared ones alike.\<close>

primrec reach :: "loaded_elf \<Rightarrow> nat \<Rightarrow> loaded_elf \<Rightarrow> loaded_elf list" where
  "reach r 0 s = [s]"
| "reach r (Suc n) s = concat (map (\<lambda>d. case dependency_image r d of Inr t \<Rightarrow> reach r n t | Inl _ \<Rightarrow> []) (dependencies s))"

definition links_ok :: "loaded_elf \<Rightarrow> bool" where
  "links_ok r \<longleftrightarrow> (\<forall>p s q. image_at r p = Some s \<longrightarrow> Shared q \<in> set (dependencies s) \<longrightarrow> image_at r q \<noteq> None)"

fun first_some :: "('x \<Rightarrow> 'y option) \<Rightarrow> 'x list \<Rightarrow> 'y option" where
  "first_some f [] = None"
| "first_some f (x # xs) = (case f x of None \<Rightarrow> first_some f xs | Some y \<Rightarrow> Some y)"

lemma first_some_append: "first_some f (xs @ ys) = (case first_some f xs of None \<Rightarrow> first_some f ys | Some y \<Rightarrow> Some y)"
  by (induction xs) (auto split: option.splits)

lemma first_found_some:
  "(\<And>x. x \<in> set xs \<Longrightarrow> f x = Some (Inr (first_some g (h x)))) \<Longrightarrow> first_found f xs = Some (Inr (first_some g (concat (map h xs))))"
  by (induction xs) (auto simp: first_some_append split: option.splits)

lemma first_some_None: "first_some f xs = None \<longleftrightarrow> (\<forall>x \<in> set xs. f x = None)"
  by (induction xs) (auto split: option.splits)

lemma image_at_append: "image_at r (p @ q) = (case image_at r p of None \<Rightarrow> None | Some s \<Rightarrow> image_at s q)"
proof (induction p arbitrary: r)
  case (Cons i p)
  then show ?case by (cases r) (auto split: dependency.splits)
qed simp

definition inside :: "loaded_elf \<Rightarrow> loaded_elf \<Rightarrow> bool" where
  "inside r s \<longleftrightarrow> (\<exists>p. image_at r p = Some s)"

lemma inside_dependency:
  assumes "links_ok r" and "inside r s" and "d \<in> set (dependencies s)"
  obtains t where "dependency_image r d = Inr t" and "inside r t"
proof (cases d)
  case (Owned t)
  obtain p where p: "image_at r p = Some s" using assms(2) by (auto simp: inside_def)
  obtain i where i: "i < length (dependencies s)" "dependencies s ! i = Owned t" using assms(3) Owned by (auto simp: in_set_conv_nth)
  then have "image_at s [i] = Some t" by (simp add: image_at_cons)
  with p have "image_at r (p @ [i]) = Some t" by (simp add: image_at_append)
  then show ?thesis using that [of t] Owned by (auto simp: inside_def)
next
  case (Shared q)
  with assms obtain t where "image_at r q = Some t" by (force simp: links_ok_def inside_def)
  then show ?thesis using that [of t] Shared by (auto simp: inside_def)
qed

text \<open>The addresses that the symbols of an image with a name define, in the order of the table.\<close>

definition symbol_number :: "bytes \<Rightarrow> elf_info \<Rightarrow> nat \<Rightarrow> elf_symbol" where
  "symbol_number m e i = symbol_at m (entry_at (symbols_table (le_elf e)) (of_nat i))"

definition defines_symbol :: "bytes \<Rightarrow> u8 list \<Rightarrow> elf_info \<Rightarrow> u64 \<Rightarrow> bool" where
  "defines_symbol m name e a \<longleftrightarrow> (\<exists>i n. 1 \<le> i \<and> i < unat (img_symtab_size (le_elf e)) \<and>
     name_in m (img_strtab (le_elf e)) (symbol_number m e i) = Some n \<and> names_equal n name \<and>
     st_value (symbol_number m e i) \<noteq> 0 \<and> a = le_elf_base e + st_value (symbol_number m e i))"

text \<open>A table has at least the null symbol, and every name in it ends.\<close>

definition symtab_ok :: "bytes \<Rightarrow> elf_info \<Rightarrow> bool" where
  "symtab_ok m e \<longleftrightarrow> 1 \<le> img_symtab_size (le_elf e) \<and>
     (\<forall>i. 1 \<le> i \<and> i < unat (img_symtab_size (le_elf e)) \<longrightarrow> name_in m (img_strtab (le_elf e)) (symbol_number m e i) \<noteq> None)"

definition symbol_result :: "bytes \<Rightarrow> elf_info \<Rightarrow> u8 list \<Rightarrow> nat \<Rightarrow> u64 option \<Rightarrow> bool" where
  "symbol_result m e name i r \<longleftrightarrow> (case r of
     Some a \<Rightarrow> defines_symbol m name e a
   | None \<Rightarrow> \<forall>j n. i \<le> j \<and> j < unat (img_symtab_size (le_elf e)) \<and> name_in m (img_strtab (le_elf e)) (symbol_number m e j) = Some n \<and>
       names_equal n name \<longrightarrow> st_value (symbol_number m e j) = 0)"

lemma symbol_loop_result:
  assumes ok: "symtab_ok m e" and "1 \<le> i" and "i \<le> unat (img_symtab_size (le_elf e))"
  shows "\<exists>r. symbol_loop m e name (of_nat i) = Some r \<and> symbol_result m e name i r"
  using assms(2,3)
proof (induction "unat (img_symtab_size (le_elf e)) - i" arbitrary: i)
  case 0
  then have "i = unat (img_symtab_size (le_elf e))" by simp
  then have "of_nat i = img_symtab_size (le_elf e)" by simp
  with 0 show ?case by (auto simp: symbol_loop.simps symbols_table_def symbol_result_def)
next
  case (Suc k)
  let ?s = "symbol_number m e i"
  have i: "i < unat (img_symtab_size (le_elf e))" using Suc.hyps(2) by simp
  then have ne: "of_nat i \<noteq> img_symtab_size (le_elf e)"
    using unat_of_nat_64 [of i] unsigned_less [of "img_symtab_size (le_elf e)", where ?'a = nat] by auto
  obtain n where n: "name_in m (img_strtab (le_elf e)) ?s = Some n" using ok i Suc.prems(1) by (auto simp: symtab_ok_def)
  have loop: "symbol_loop m e name (of_nat i) =
      (if names_equal n name \<and> st_value ?s \<noteq> 0 then Some (Some (le_elf_base e + st_value ?s)) else symbol_loop m e name (of_nat (Suc i)))"
    using ne n by (subst symbol_loop.simps) (simp add: symbols_table_def symbol_number_def is_defined_def add.commute)
  show ?case
  proof (cases "names_equal n name \<and> st_value ?s \<noteq> 0")
    case True
    moreover from this have "defines_symbol m name e (le_elf_base e + st_value ?s)" using n i Suc.prems(1) unfolding defines_symbol_def by blast
    ultimately show ?thesis using loop by (simp add: symbol_result_def)
  next
    case False
    have "k = unat (img_symtab_size (le_elf e)) - Suc i" "1 \<le> Suc i" "Suc i \<le> unat (img_symtab_size (le_elf e))" using Suc.hyps(2) i by simp_all
    from Suc.hyps(1) [OF this] obtain r where r: "symbol_loop m e name (of_nat (Suc i)) = Some r" "symbol_result m e name (Suc i) r" by blast
    moreover have "symbol_result m e name i r"
    proof (cases r)
      case None
      with r(2) False n show ?thesis by (simp add: symbol_result_def) (metis Suc_leI le_neq_implies_less option.inject)
    qed (use r(2) in \<open>simp add: symbol_result_def\<close>)
    ultimately show ?thesis using loop False by simp
  qed
qed

lemma symbol_in_result:
  assumes "symtab_ok m e"
  obtains r where "symbol_in m e name = Some r" and "r = None \<Longrightarrow> \<forall>a. \<not> defines_symbol m name e a" and "\<And>a. r = Some a \<Longrightarrow> defines_symbol m name e a"
proof -
  have "1 \<le> unat (img_symtab_size (le_elf e))" using assms by (auto simp: symtab_ok_def word_le_nat_alt)
  from symbol_loop_result [OF assms _ this] obtain r where "symbol_in m e name = Some r" "symbol_result m e name 1 r"
    by (auto simp: symbol_in_def symbols_table_def)
  then show thesis using that [of r] by (auto simp: symbol_result_def defines_symbol_def split: option.splits)
qed

lemma find_at_depth:
  assumes "links_ok r" and "\<And>s. inside r s \<Longrightarrow> symbol_in m (info s) name = Some (def s)"
  shows "inside r s \<Longrightarrow> find_symbol_definition_at_depth m r name n s = Some (Inr (first_some def (reach r n s)))"
proof (induction n arbitrary: s)
  case 0
  then show ?case using assms(2) by (simp split: option.splits)
next
  case (Suc n)
  have "obnd (Some (dependency_image r d)) (find_symbol_definition_at_depth m r name n) =
      Some (Inr (first_some def (case dependency_image r d of Inr t \<Rightarrow> reach r n t | Inl _ \<Rightarrow> [])))"
    if "d \<in> set (dependencies s)" for d
    by (rule inside_dependency [OF assms(1) Suc.prems that]) (use Suc.IH in simp)
  then show ?case by (simp add: first_found_some)
qed

lemma inside_reach: "image_at s p = Some t \<Longrightarrow> t \<in> set (reach r (length p) s)"
proof (induction p arbitrary: s)
  case (Cons i p)
  then obtain d where "i < length (dependencies s)" "dependencies s ! i = Owned d" "image_at d p = Some t"
    by (auto simp: image_at_cons split: if_splits dependency.splits)
  moreover from this have "Owned d \<in> set (dependencies s)" by (metis nth_mem)
  ultimately show ?case using Cons.IH [of d] by force
qed simp

lemma first_some_member: "first_some f xs \<noteq> None \<Longrightarrow> \<exists>x \<in> set xs. f x \<noteq> None \<and> first_some f xs = f x"
  by (induction xs) (auto split: option.splits)

lemma first_some_levels:
  "(first_some f (concat (map g [0 ..< n])) = None \<and> (\<forall>i < n. \<forall>x \<in> set (g i). f x = None)) \<or>
   (\<exists>k x. x \<in> set (g k) \<and> f x \<noteq> None \<and> first_some f (concat (map g [0 ..< n])) = f x \<and> (\<forall>j < k. \<forall>t \<in> set (g j). f t = None))"
proof (induction n)
  case (Suc n)
  show ?case
  proof (cases "first_some f (concat (map g [0 ..< n]))")
    case None
    with Suc have before: "\<forall>i < n. \<forall>x \<in> set (g i). f x = None" by auto
    have here: "first_some f (concat (map g [0 ..< Suc n])) = first_some f (g n)" using None by (simp add: first_some_append)
    show ?thesis
    proof (cases "first_some f (g n)")
      case None
      then show ?thesis using before here by (auto simp: first_some_None less_Suc_eq)
    next
      case (Some y)
      then obtain x where "x \<in> set (g n)" "f x \<noteq> None" "first_some f (g n) = f x" using first_some_member [of f "g n"] by auto
      then show ?thesis using before here by metis
    qed
  next
    case (Some y)
    with Suc show ?thesis by (auto simp: first_some_append)
  qed
qed simp

text \<open>What the search returns, in terms of what the loop over the symbols of an image finds.\<close>

lemma find_nearest:
  assumes "links_ok r" and "elf_depth r = Inr n"
    and "\<And>s. inside r s \<Longrightarrow> symbol_in m (info s) name = Some (def s)"
  shows "(find_symbol_definition m r name n = Some (Inr None) \<and> (\<forall>s. inside r s \<longrightarrow> def s = None)) \<or>
    (\<exists>k s. s \<in> set (reach r k r) \<and> def s \<noteq> None \<and> find_symbol_definition m r name n = Some (Inr (def s)) \<and>
       (\<forall>j < k. \<forall>t \<in> set (reach r j r). def t = None))"
proof -
  have "inside r r" by (auto simp: inside_def intro: exI [of _ "[]"])
  then have find: "find_symbol_definition m r name n = Some (Inr (first_some def (concat (map (\<lambda>i. reach r i r) [0 ..< n]))))"
    using find_at_depth [OF assms(1,3)] by (simp add: find_symbol_definition_def first_found_some)
  have all: "\<exists>i < n. s \<in> set (reach r i r)" if s: "inside r s" for s
  proof -
    obtain p where p: "image_at r p = Some s" using s by (auto simp: inside_def)
    have "levels r = n" using assms(2) depth_levels(1) [of r] depth_fails [of r] by (metis sum.distinct(1) sum.inject(2))
    with p show ?thesis using inside_reach [OF p] image_at_levels(1) [of r p] by auto
  qed
  show ?thesis
    using first_some_levels [of def "\<lambda>i. reach r i r" n]
  proof
    assume "first_some def (concat (map (\<lambda>i. reach r i r) [0 ..< n])) = None \<and> (\<forall>i < n. \<forall>s \<in> set (reach r i r). def s = None)"
    then show ?thesis using find all by (intro disjI1) force
  next
    assume "\<exists>k s. s \<in> set (reach r k r) \<and> def s \<noteq> None \<and> first_some def (concat (map (\<lambda>i. reach r i r) [0 ..< n])) = def s \<and>
      (\<forall>j < k. \<forall>t \<in> set (reach r j r). def t = None)"
    then show ?thesis unfolding find by (intro disjI2) simp
  qed
qed

lemma inside_reached:
  assumes "links_ok r" shows "inside r s \<Longrightarrow> t \<in> set (reach r n s) \<Longrightarrow> inside r t"
proof (induction n arbitrary: s)
  case (Suc n)
  then obtain d u where d: "d \<in> set (dependencies s)" "dependency_image r d = Inr u" "t \<in> set (reach r n u)"
    by (auto split: sum.splits dest: sym)
  from inside_dependency [OF assms Suc.prems(1) d(1)] d(2) have "inside r u" by force
  with Suc.IH d(3) show ?case by blast
qed simp

text \<open>
  C18. A symbol is resolved to a definition that is as close to the executable as any: the search returns; it fails only
  if no image has a defined symbol that is called so; and what it returns is the address of such a symbol of an image
  to which \<open>k\<close> steps lead, where no image that fewer steps lead to has one. To be called so is what \<open>==\<close> of
  \<open>std::string_view\<close> accepts, which also is a name of which the one sought is a prefix, or that is a prefix of it.
\<close>

theorem find_symbol_nearest:
  assumes "links_ok r" and "elf_depth r = Inr n" and "\<And>s. inside r s \<Longrightarrow> symtab_ok m (info s)"
  shows "(find_symbol_definition m r name n = Some (Inr None) \<and> (\<forall>s a. inside r s \<longrightarrow> \<not> defines_symbol m name (info s) a)) \<or>
    (\<exists>k s a. s \<in> set (reach r k r) \<and> defines_symbol m name (info s) a \<and> find_symbol_definition m r name n = Some (Inr (Some a)) \<and>
       (\<forall>j < k. \<forall>t \<in> set (reach r j r). \<forall>b. \<not> defines_symbol m name (info t) b))"
proof -
  define def where "def s = the (symbol_in m (info s) name)" for s
  have def: "symbol_in m (info s) name = Some (def s)" "def s = None \<Longrightarrow> \<forall>a. \<not> defines_symbol m name (info s) a"
      "\<And>a. def s = Some a \<Longrightarrow> defines_symbol m name (info s) a" if "inside r s" for s
    by (rule symbol_in_result [OF assms(3) [OF that], of name], simp add: def_def)+
  have in_reach: "inside r t" if "t \<in> set (reach r j r)" for j t
    by (rule inside_reached [OF assms(1) _ that]) (auto simp: inside_def intro: exI [of _ "[]"])
  from find_nearest [OF assms(1,2) def(1)] show ?thesis
  proof
    assume "find_symbol_definition m r name n = Some (Inr None) \<and> (\<forall>s. inside r s \<longrightarrow> def s = None)"
    then show ?thesis using def(2) by blast
  next
    assume "\<exists>k s. s \<in> set (reach r k r) \<and> def s \<noteq> None \<and> find_symbol_definition m r name n = Some (Inr (def s)) \<and>
       (\<forall>j < k. \<forall>t \<in> set (reach r j r). def t = None)"
    then obtain k s a where "s \<in> set (reach r k r)" "def s = Some a" "find_symbol_definition m r name n = Some (Inr (Some a))"
      "\<forall>j < k. \<forall>t \<in> set (reach r j r). def t = None" by force
    then show ?thesis using def(2,3) in_reach by (intro disjI2) blast
  qed
qed

text \<open>An executable whose second library defines a symbol, \<open>f\<close>, at 0x10; the tables of the others are empty.\<close>

definition with_symbols :: "u8 list \<Rightarrow> u64 \<Rightarrow> dependency list \<Rightarrow> loaded_elf" where
  "with_symbols name n ds = Loaded_elf ((new_elf name)\<lparr>le_elf := (new_image nullptr)\<lparr>img_symtab := 0x1000, img_symtab_size := n, img_strtab := 0x2000\<rparr>,
     le_elf_base := 0x400000\<rparr>) ds"

definition symbol_memory :: bytes where
  "symbol_memory = (\<lambda>_. 0)(0x1018 := 1, 0x1020 := 0x10, 0x2001 := 0x66)"

definition linked :: loaded_elf where
  "linked = with_symbols [1] 1 [Owned (with_symbols [2] 1 []), Owned (with_symbols [3] 2 [])]"

lemma with_symbols_eq [simp]: "with_symbols a n ds = with_symbols b k es \<longleftrightarrow> a = b \<and> n = k \<and> ds = es"
  by (auto simp: with_symbols_def new_elf_def new_image_def)

lemma symtab_ok_empty: "symtab_ok m (info (with_symbols name 1 ds))" "\<not> defines_symbol m f (info (with_symbols name 1 ds)) a"
  by (simp_all add: symtab_ok_def defines_symbol_def with_symbols_def)

lemma name_in_library:
  "name_in symbol_memory (img_strtab (le_elf (info (with_symbols name 2 ds)))) (symbol_number symbol_memory (info (with_symbols name 2 ds)) (Suc 0)) = Some [0x66]"
  "st_value (symbol_number symbol_memory (info (with_symbols name 2 ds)) (Suc 0)) = 0x10"
  by (simp_all add: with_symbols_def symbols_table_def entry_at_def symbol_size_def symbol_at_def symbol_number_def
    symbol_memory_def read32_def read16_def read64_def name_in_def c_string_def traits_length_def traits_length_loop.simps load_bytes_def)

lemma symtab_ok_library:
  "symtab_ok symbol_memory (info (with_symbols name 2 ds))"
  "defines_symbol symbol_memory f (info (with_symbols name 2 ds)) a \<longleftrightarrow> names_equal [0x66] f \<and> a = 0x400010"
proof -
  have one: "1 \<le> i \<and> i < unat (img_symtab_size (le_elf (info (with_symbols name 2 ds)))) \<longleftrightarrow> i = Suc 0" for i
    by (auto simp: with_symbols_def)
  have base: "le_elf_base (info (with_symbols name 2 ds)) = 0x400000" "img_symtab_size (le_elf (info (with_symbols name 2 ds))) = 2"
    by (simp_all add: with_symbols_def)
  show "symtab_ok symbol_memory (info (with_symbols name 2 ds))"
    unfolding symtab_ok_def one by (simp add: name_in_library base(2))
  show "defines_symbol symbol_memory f (info (with_symbols name 2 ds)) a \<longleftrightarrow> names_equal [0x66] f \<and> a = 0x400010"
    unfolding defines_symbol_def conj_assoc [symmetric] one by (simp add: name_in_library base)
qed

lemma inside_linked:
  "inside linked s \<longleftrightarrow> s = linked \<or> s = with_symbols [2] 1 [] \<or> s = with_symbols [3] 2 []"
proof -
  have leaf: "image_at (with_symbols name n []) p = Some s \<longleftrightarrow> p = [] \<and> s = with_symbols name n []" for name n p
    by (cases p) (auto simp: with_symbols_def)
  have "image_at linked p = Some s \<longleftrightarrow> (p = [] \<and> s = linked) \<or> (p = [0] \<and> s = with_symbols [2] 1 []) \<or> (p = [1] \<and> s = with_symbols [3] 2 [])" for p
    by (cases p) (auto simp: linked_def with_symbols_def [of "[1]"] image_at_cons leaf less_Suc_eq nth_Cons' split: if_splits)
  then show ?thesis by (auto simp: inside_def)
qed

theorem find_symbol_nearest_witness:
  "links_ok linked \<and> elf_depth linked = Inr 2 \<and> find_symbol_definition symbol_memory linked [0x66] 2 = Some (Inr (Some 0x400010))"
proof (intro conjI)
  have "Shared q \<notin> set (dependencies s)" if "inside linked s" for s q
    using that unfolding inside_linked by (auto simp: linked_def with_symbols_def)
  then show links: "links_ok linked" unfolding links_ok_def inside_def by blast
  show depth: "elf_depth linked = Inr 2" by (simp add: linked_def with_symbols_def)
  have tables: "symtab_ok symbol_memory (info s)" if "inside linked s" for s
    using that unfolding inside_linked by (auto simp: linked_def symtab_ok_empty symtab_ok_library)
  have "defines_symbol symbol_memory [0x66] (info (with_symbols [3] 2 [])) 0x400010" by (simp add: symtab_ok_library names_equal_def)
  moreover have "a = 0x400010" if "inside linked s" "defines_symbol symbol_memory [0x66] (info s) a" for s a
    using that unfolding inside_linked by (auto simp: linked_def symtab_ok_empty symtab_ok_library)
  ultimately show "find_symbol_definition symbol_memory linked [0x66] 2 = Some (Inr (Some 0x400010))"
    using find_symbol_nearest [OF links depth tables, of "[0x66]"] inside_linked inside_reached [OF links, of linked]
    by (metis)
qed

text \<open>
  A symbol can be resolved to another one: \<open>fg\<close>, which the library does not define, is resolved to \<open>f\<close>. In the same way a
  library counts as loaded when one with a longer name is.
\<close>

lemma symbol_prefix_resolves: "defines_symbol symbol_memory [0x66, 0x67] (info (with_symbols name 2 ds)) 0x400010"
  by (simp add: symtab_ok_library names_equal_def sv_eq_iff)

lemma library_prefix_prepared: "is_shared_object_prepared [0x66] (Loaded_elf (new_elf [0x66, 0x67]) []) = Inr (Some [])"
  by (simp add: names_equal_def new_elf_def sv_eq_iff)

end
