(* ===== verification/Spec2Isabelle.thy ===== *)
theory Spec2Isabelle
  imports Avl_Properties Heap_Properties Fifo Pmm_Properties Paging Chained_Allocator Thorn_Properties Cpio Elf Rosestd_Locks
    Scheduler_Properties Kernel_Objects Bootinit_Images
begin

text \<open>
  A verification development for ReaverOS: its kernel (\<open>src/kernel\<close>), the libraries it is linked with
  (\<open>src/libraries\<close>) and \<open>thorn\<close>, the compiler of its system call descriptions (\<open>src/toolchain/thorn\<close>). Pure
  functions are functions of HOL; stateful code takes and returns its state; machine integers are words of their
  width where the code depends on it.

  \<^bold>\<open>Results.\<close> \<open>Kernel_Result\<close>: code that can stop returns a sum, with a panic, a deadlock (a mutex that the caller
  holds already) or a fault (an access through a null or dangling pointer) on the left. Code with loops or calls
  that need not end returns an option of that, \<^const>\<open>None\<close> being the run that does not return
  (\<open>partial_function (option)\<close>); the theorems that say what such code does say that it returns.

  \<^bold>\<open>Containers.\<close> \<open>Kernel_Prelude\<close> has the machine types and shared lemmas, \<open>Intrusive_Store\<close> the store of intrusive
  objects: \<open>prev\<close>, \<open>next\<close>, \<open>tree_parent\<close> and the payload as functions from addresses. Over it
  \<^item> \<open>Avl_Tree\<close> translates \<open>util/avl_tree.h\<close>; \<open>Avl_Shape\<close>, \<open>Avl_Rebalance\<close>, \<open>Avl_Insert\<close>, \<open>Avl_Iterate\<close>, \<open>Avl_Erase\<close> and
    \<open>Avl_Lookup\<close> show that the operations refine functions on trees of addresses, and \<open>Avl_Properties\<close> states the
    contracts, with the one state in which \<open>erase\<close> leaves an unbalanced tree. \<open>Avl_Client\<close> has what the classes
    that keep elements by a key share;
  \<^item> \<open>Tree_Heap\<close> translates \<open>util/tree_heap.h\<close>; \<open>Heap_Shape\<close>, \<open>Heap_Index\<close> and \<open>Heap_Order\<close> lead to the contracts of
    \<open>Heap_Properties\<close>;
  \<^item> \<open>Fifo\<close> translates \<open>util/fifo.h\<close>; its interface is the locale \<open>queue\<close>;
  \<^item> \<open>Intrusive_Ptr\<close> translates \<open>util/intrusive_ptr.h\<close>: the count of an object is the number of pointers to it;
  \<^item> \<open>Chained_Allocator\<close> translates \<open>util/chained_allocator.h\<close>, over the frames of the memory manager.

  \<^bold>\<open>Memory.\<close> \<open>Pmm\<close> is the manager of physical memory (\<open>memory/pmm\<close>), with stacks of frames linked through the frames
  themselves; \<open>Pmm_Properties\<close> shows that the frames it hands out are disjoint, are free in the map of memory, and
  are all of the free memory but for what it withholds below 1 MiB.
  \<open>Paging\<close> is \<open>arch/amd64/memory/vm.cpp\<close>, tables as words of physical memory; \<open>Paging_Properties\<close> shows that a
  page that is mapped is the one that is found. \<open>Vmo\<close> is \<open>memory/vmo\<close>, \<open>Vas\<close> is \<open>memory/vas\<close> and
  \<open>memory/vmo_mapping\<close>: committing backs every page, with elements whose memory the chained allocator takes from
  the same manager; mappings stay disjoint, and unmapping leaves a mapping in the tree that can hide others.

  \<^bold>\<open>Threads.\<close> \<open>Timers\<close> is \<open>time/time\<close>, events in a heap; \<open>Scheduler\<close> is \<open>scheduler/types\<close> and \<open>scheduler.cpp\<close>, with the
  timers of the cores, and \<open>Scheduler_Properties\<close> shows that no thread is lost by a switch. \<open>Context_Switch\<close>
  is \<open>arch/amd64/cpu\<close>: the frames of interrupts and system calls with their entry code, the two handlers,
  and the continuations of blocked calls (\<open>scheduler/thread.h\<close>); a switch gives a thread its registers back, and a call that
  blocks twice is lost.

  \<^bold>\<open>Processes.\<close> \<open>Handles\<close> is \<open>util/handle\<close>, \<open>Process\<close> the table of tokens of \<open>scheduler/process\<close>, with the locale
  \<open>token_registry\<close> as its interface: it refines a finite map. \<open>Kernel_Calls\<close> composes the components: the state of
  the kernel is a record of theirs, and every handler of a system call (\<open>process.cpp\<close>, \<open>mailbox.cpp\<close>,
  \<open>vmo.cpp\<close>, \<open>vas.cpp\<close>, \<open>vmo_mapping.cpp\<close>) is a definition. Objects are reached through \<open>object_at\<close>, which faults for an
  object that is not live. \<open>Kernel_Properties\<close> follows a handle through a mailbox from one process to another;
  \<open>Kernel_Objects\<close> shows how a new object gets a handle and a token, and what creating a mailbox hands out.

  \<^bold>\<open>Libraries and tools.\<close> \<open>Rosestd_Strings\<close>, \<open>Rosestd_Memory\<close> and \<open>Rosestd_Locks\<close> are parts of \<open>libraries/rosestd\<close>: string
  views and number conversion, the functions of \<open>cstring.cpp\<close>, and the two locks under every interleaving of
  threads. \<open>Cpio\<close> is \<open>libraries/archive\<close>, \<open>Elf\<close> is \<open>libraries/elf\<close>. \<open>Bootinit_Images\<close> is the part of
  \<open>kernel/bootinit/process.cpp\<close> about the images of a process: the order of their initialisation and the
  resolution of symbols, by names that are equal under \<open>string_view\<close>. \<open>Thorn_Lexer\<close>, \<open>Thorn_Parser\<close> and \<open>Thorn_Context\<close> are the compiler up to the list of
  numbered system calls; \<open>Thorn_Text\<close> prints descriptions, and \<open>Thorn_Properties\<close> shows that they are read back.

  \<^bold>\<open>Bounds.\<close> A callback of a timer can arm the timer, which can run callbacks; \<open>Scheduler\<close> lets them nest to
  \<open>callback_depth\<close>, which is 2. That is enough: the callback of a preemption takes the lock of its instance,
  and a nested one deadlocks on it, at any depth. Choosing a token needs a timer that moves: \<open>clock_moves\<close> in
  \<open>Process\<close> says that it shows more values than there are tokens. There is no other fuel.

  \<^bold>\<open>Parameters.\<close> The readings of clocks, the addresses that allocations return, the numbers of permissions, the table
  of system calls and the code of continuations, which the build generates, and the callbacks of timers. What is
  assumed of them is a hypothesis of the theorem, with a witness.

  \<^bold>\<open>Not modelled.\<close> The boot loader and the set up of cores, controllers and timers, whose effect is on firmware and
  hardware; reading the tables of the firmware (\<open>arch/common/acpi\<close>); calls on other cores (\<open>util/mp\<close>), so that
  a handler runs without interference from other cores except through the locks that it finds taken; the entry
  code of system calls and the C++ that \<open>thorn\<close> prints, which exist only when the system is built; the
  programs of user space, which are sequences of such calls, and with them the rest of \<open>bootinit\<close>; output.
\<close>

end
